(* ===== verification/Prelude.thy ===== *)
theory Prelude
  imports Main "HOL-Library.Word"
begin

text \<open>
  Types and lemmas every component shares: the machine integers of the firmware, bytes as
  characters, the error codes of lwIP (\<^verbatim>\<open>lwip/src/include/lwip/err.h\<close>), the ways a C memory
  access can go wrong, and the list and word facts the component proofs use.
\<close>

type_synonym u8 = "8 word"
type_synonym u16 = "16 word"
type_synonym u32 = "32 word"
type_synonym bytes = "char list"

text \<open>Facts about in-place buffers, and facts about 16-bit counters.\<close>

named_theorems buf_simps
named_theorems u16_simps

subsection \<open>Error codes\<close>

text \<open>
  The error codes of lwIP. The HTTP server writes \<open>ERR_OK\<close> (the 0 of
  \<^verbatim>\<open>PE_KSDK_Types.h\<close>) where lwIP of this repository writes \<open>ERR_OK_lwip\<close>: both are 0.
\<close>

datatype err_t =
  ERR_OK | ERR_MEM | ERR_BUF | ERR_TIMEOUT | ERR_RTE | ERR_INPROGRESS | ERR_VAL
| ERR_WOULDBLOCK | ERR_USE | ERR_ISCONN | ERR_ABRT | ERR_RST | ERR_CLSD | ERR_CONN
| ERR_ARG | ERR_IF

text \<open>
  A memory access of the C code that no C semantics defines: a read or a write outside
  the object, or through a null pointer. Such an access is a value of the model, never a
  silent default. So is an \<open>LWIP_ASSERT\<close> that fails: \<open>sys_assert\<close> (lwip/port/sys_arch.c) never
  returns.
\<close>

datatype fault = Oob_read | Oob_write | Null_deref | Assert_failed

type_synonym 'a checked = "fault + 'a"

definition and_then :: "'a checked \<Rightarrow> ('a \<Rightarrow> 'b checked) \<Rightarrow> 'b checked" where
  "and_then r f = (case r of Inl e \<Rightarrow> Inl e | Inr x \<Rightarrow> f x)"

definition require :: "fault \<Rightarrow> bool \<Rightarrow> 'a checked \<Rightarrow> 'a checked" where
  "require e c r = (if c then r else Inl e)"

subsection \<open>Lists\<close>

lemma take_add_drop [buf_simps]: "take m xs @ take n (drop m xs) = take (m + n) xs"
  by (simp add: take_add)

lemma take_drop_split: "m \<le> n \<Longrightarrow> take n (drop k xs) = take m (drop k xs) @ take (n - m) (drop (k + m) xs)"
  by (metis add.commute drop_drop le_add_diff_inverse take_add)

lemma take_drop_rest [buf_simps]: "take n (drop k xs) @ drop (k + n) xs = drop k xs"
  by (metis append_take_drop_id drop_drop add.commute)

lemma drop_eq_Cons: "i < length xs \<Longrightarrow> drop i xs = xs ! i # drop (Suc i) xs"
  by (rule Cons_nth_drop_Suc [symmetric])

lemma list_update_append_here [buf_simps]: "(xs @ y # ys)[length xs := z] = xs @ z # ys"
  by simp

lemma takeWhile_stop: "\<forall>x\<in>set xs. P x \<Longrightarrow> \<not> P y \<Longrightarrow> takeWhile P (xs @ y # ys) = xs"
  by (simp add: takeWhile_tail)

lemma dropWhile_stop: "\<forall>x\<in>set xs. P x \<Longrightarrow> \<not> P y \<Longrightarrow> dropWhile P (xs @ y # ys) = y # ys"
  by simp

subsection \<open>16-bit counters\<close>

lemma unat_sub_u16 [u16_simps]: "(b :: u16) \<le> a \<Longrightarrow> unat (a - b) = unat a - unat b"
  by (simp add: unat_sub)

lemma unat_of_nat_u16 [u16_simps]: "n < 65536 \<Longrightarrow> unat (of_nat n :: u16) = n"
  by (simp add: unsigned_of_nat take_bit_nat_eq_self)

lemma unat_u16_less [simp]: "unat (a :: u16) < 65536"
  using unsigned_less [of a] by simp

lemma of_nat_le_u16 [u16_simps]: "n \<le> unat (a :: u16) \<Longrightarrow> (of_nat n :: u16) \<le> a"
  by (metis word_le_nat_alt unat_of_nat_u16 le_less_trans unat_u16_less)

lemma unat_add_u16 [u16_simps]: "unat a + unat b < 65536 \<Longrightarrow> unat (a + b :: u16) = unat a + unat b"
  by (simp add: unat_word_ariths)

lemma unat_min_u16 [u16_simps]: "unat (min a b :: u16) = min (unat a) (unat b)"
  by (simp add: min_def word_le_nat_alt)

lemma unat_half_u16 [u16_simps]: "unat (a div 2 :: u16) = unat a div 2"
  by (simp add: unat_div)

lemma unat_ucast_u16 [u16_simps]: "unat (ucast (a :: u16) :: u32) = unat a"
proof -
  have "unat a < 2 ^ 32" by (rule order_less_trans [OF unat_u16_less]) simp
  then show ?thesis by (simp add: unsigned_ucast_eq take_bit_nat_eq_self)
qed


lemma ucast_add_u16 [u16_simps]:
  assumes "unat a + unat b < 65536"
  shows "(ucast (a + b :: u16) :: u32) = ucast a + ucast b"
proof -
  have "unat (ucast a + ucast b :: u32) = unat a + unat b"
    using assms by (simp add: unat_word_ariths unat_ucast_u16)
  then have "unat (ucast (a + b) :: u32) = unat (ucast a + ucast b :: u32)"
    using assms by (simp add: unat_ucast_u16 unat_add_u16)
  then show ?thesis by (rule unsigned_word_eqI)
qed

end
