(* ===== verification/Cstring.thy ===== *)
theory Cstring
  imports Prelude
begin

text \<open>
  The C string functions the program uses (\<^verbatim>\<open>string.h\<close>, \<^verbatim>\<open>stdlib.h\<close>), and the one it brings
  itself: \<open>strnstr\<close> of \<^verbatim>\<open>Sources/httpd.c\<close>. A pointer into a character array is
  the list of the characters from it to the end of the array; a position is an offset.
\<close>

definition NUL :: char where
  "NUL = CHR 0x00"

definition CRLF :: string where
  "CRLF = [CHR 0x0D, CHR 0x0A]"

subsection \<open>The standard library\<close>

text \<open>The string at a pointer; \<open>strlen\<close>; \<open>strcmp(a, b) == 0\<close>.\<close>

definition cstr :: "char list \<Rightarrow> string" where
  "cstr m = takeWhile (\<lambda>c. c \<noteq> NUL) m"

definition c_strlen :: "char list \<Rightarrow> nat" where
  "c_strlen m = length (cstr m)"

definition c_streq :: "char list \<Rightarrow> char list \<Rightarrow> bool" where
  "c_streq a b \<longleftrightarrow> cstr a = cstr b"

text \<open>\<open>strncmp(a, b, n) == 0\<close>; \<open>None\<close> when it has to read past the end of an array.\<close>

fun c_strncmp_eq :: "char list \<Rightarrow> char list \<Rightarrow> nat \<Rightarrow> bool option" where
  "c_strncmp_eq a b 0 = Some True"
| "c_strncmp_eq (x # a) (y # b) (Suc n) =
     (if x \<noteq> y then Some False else if x = NUL then Some True else c_strncmp_eq a b n)"
| "c_strncmp_eq a b (Suc n) = None"

text \<open>\<open>strchr\<close>, as an offset; \<open>strstr\<close>, as a test (the program never uses its position).\<close>

fun strchr_at :: "char list \<Rightarrow> char \<Rightarrow> nat option" where
  "strchr_at [] c = None"
| "strchr_at (x # xs) c =
     (if x = c then Some 0 else if x = NUL then None else map_option Suc (strchr_at xs c))"

definition c_strchr :: "char list \<Rightarrow> nat \<Rightarrow> char \<Rightarrow> nat option" where
  "c_strchr m off c = map_option (\<lambda>i. off + i) (strchr_at (drop off m) c)"

fun occurs_in :: "string \<Rightarrow> string \<Rightarrow> bool" where
  "occurs_in t [] = (t = [])"
| "occurs_in t (x # xs) = (take (length t) (x # xs) = t \<or> occurs_in t xs)"

definition c_strstr :: "char list \<Rightarrow> string \<Rightarrow> bool" where
  "c_strstr m t = occurs_in t (cstr m)"

text \<open>\<open>atoi\<close>: leading white space, a sign, then digits.\<close>

definition is_digit :: "char \<Rightarrow> bool" where
  "is_digit c \<longleftrightarrow> 48 \<le> (of_char c :: nat) \<and> (of_char c :: nat) \<le> 57"

definition is_space :: "char \<Rightarrow> bool" where
  "is_space c \<longleftrightarrow> c = CHR '' '' \<or> (9 \<le> (of_char c :: nat) \<and> (of_char c :: nat) \<le> 13)"

fun digits_value :: "int \<Rightarrow> char list \<Rightarrow> int" where
  "digits_value n [] = n"
| "digits_value n (c # cs) =
     (if is_digit c then digits_value (10 * n + (of_char c - 48)) cs else n)"

definition c_atoi :: "char list \<Rightarrow> int" where
  "c_atoi m =
     (case dropWhile is_space m of
        [] \<Rightarrow> 0
      | c # cs \<Rightarrow>
          if c = CHR ''-'' then - digits_value 0 cs
          else if c = CHR ''+'' then digits_value 0 cs
          else digits_value 0 (c # cs))"

subsection \<open>strnstr\<close>

text \<open>
  \<open>strnstr(buffer, token, n)\<close>. The loop reads \<open>*p\<close> before it compares
  \<open>p + tokenlen\<close> with \<open>buffer + n\<close>, so it may read the byte at offset \<open>n\<close>. A read behind the
  array is a fault.
\<close>

fun strnstr_loop :: "nat \<Rightarrow> char list \<Rightarrow> string \<Rightarrow> nat \<Rightarrow> nat option checked" where
  "strnstr_loop p [] token n = Inl Oob_read"
| "strnstr_loop p (c # cs) token n =
     (if c = NUL then Inr None
      else if \<not> p + length token \<le> n then Inr None
      else if c = hd token then
        (case c_strncmp_eq (c # cs) token (length token) of
           None \<Rightarrow> Inl Oob_read
         | Some b \<Rightarrow> if b then Inr (Some p) else strnstr_loop (Suc p) cs token n)
      else strnstr_loop (Suc p) cs token n)"

definition strnstr :: "char list \<Rightarrow> string \<Rightarrow> nat \<Rightarrow> nat option checked" where
  "strnstr buffer token n = (if token = [] then Inr (Some 0) else strnstr_loop 0 buffer token n)"


subsection \<open>What strnstr finds\<close>

lemma c_strncmp_eq_some:
  "n \<le> length a \<Longrightarrow> n \<le> length b \<Longrightarrow> NUL \<notin> set (take n b) \<Longrightarrow>
     c_strncmp_eq a b n = Some (take n a = take n b)"
proof (induction a b n rule: c_strncmp_eq.induct)
  case (2 x a y b n)
  then show ?case by (cases "x = y") auto
qed auto

lemma strnstr_loop_found:
  assumes "NUL \<notin> set xs" "NUL \<notin> set tok" "tok \<noteq> []" "p + length xs + length tok \<le> n"
  shows "\<exists>i. strnstr_loop p (xs @ tok @ ys) tok n = Inr (Some i) \<and> p \<le> i \<and> i \<le> p + length xs
    \<and> (length tok = 1 \<longrightarrow> hd tok \<notin> set xs \<longrightarrow> i = p + length xs)"
  using assms
proof (induction xs arbitrary: p)
  case Nil
  then obtain t ts where t: "tok = t # ts" by (cases tok) auto
  have "c_strncmp_eq (tok @ ys) tok (length tok) = Some True"
    using Nil(2) by (subst c_strncmp_eq_some) auto
  then show ?case using Nil t by auto
next
  case (Cons x xs)
  let ?rest = "xs @ tok @ ys"
  have cmp: "c_strncmp_eq (x # ?rest) tok (length tok) = Some (take (length tok) (x # ?rest) = tok)"
    using Cons(3) by (subst c_strncmp_eq_some) auto
  obtain i where i: "strnstr_loop (Suc p) ?rest tok n = Inr (Some i)" "Suc p \<le> i" "i \<le> Suc p + length xs"
    "length tok = 1 \<longrightarrow> hd tok \<notin> set xs \<longrightarrow> i = Suc p + length xs"
    using Cons(1) [of "Suc p"] Cons(2-5) by auto
  show ?case
  proof (cases "x = hd tok \<and> take (length tok) (x # ?rest) = tok")
    case True
    then show ?thesis using Cons(2-5) cmp by auto
  next
    case False
    then have "strnstr_loop p ((x # xs) @ tok @ ys) tok n = strnstr_loop (Suc p) ?rest tok n"
      using Cons(2-5) cmp by auto
    then show ?thesis using i by auto
  qed
qed

lemma strnstr_found:
  assumes "NUL \<notin> set xs" "NUL \<notin> set tok" "tok \<noteq> []" "length xs + length tok \<le> n"
  shows "\<exists>i. strnstr (xs @ tok @ ys) tok n = Inr (Some i) \<and> i \<le> length xs
    \<and> (length tok = 1 \<longrightarrow> hd tok \<notin> set xs \<longrightarrow> i = length xs)"
  using strnstr_loop_found [of xs tok 0 n ys] assms by (auto simp: strnstr_def)

text \<open>A position it reports holds the token, in front of any NUL.\<close>

lemma strnstr_loop_sound:
  assumes "strnstr_loop p buf tok n = Inr (Some i)" "tok \<noteq> []" "NUL \<notin> set tok"
  shows "p \<le> i \<and> i + length tok \<le> n \<and> take (length tok) (drop (i - p) buf) = tok
    \<and> NUL \<notin> set (take (i - p) buf)"
  using assms
proof (induction p buf tok n rule: strnstr_loop.induct)
  case (2 p c cs tok n)
  show ?case
  proof (cases "c = hd tok \<and> c_strncmp_eq (c # cs) tok (length tok) = Some True")
    case True
    then have "i = p" "p + length tok \<le> n" using 2(3) by (auto split: if_splits)
    moreover have "take (length tok) (c # cs) = tok"
    proof -
      have "c_strncmp_eq a b k = Some True \<Longrightarrow> NUL \<notin> set b \<Longrightarrow> k \<le> length b \<Longrightarrow> take k a = take k b" for a b k
        by (induction a b k rule: c_strncmp_eq.induct) (auto split: if_splits)
      from this [of "c # cs" tok "length tok"] True 2(5) show ?thesis by auto
    qed
    ultimately show ?thesis by simp
  next
    case False
    then have "strnstr_loop (Suc p) cs tok n = Inr (Some i)" "c \<noteq> NUL"
      using 2(3) by (auto split: if_splits option.splits)
    moreover have "Suc p \<le> i \<and> i + length tok \<le> n \<and> take (length tok) (drop (i - Suc p) cs) = tok
        \<and> NUL \<notin> set (take (i - Suc p) cs)"
      using 2 False by (auto split: if_splits option.splits)
    moreover have "i - p = Suc (i - Suc p)" if "Suc p \<le> i" using that by simp
    ultimately show ?thesis by auto
  qed
qed simp

end
