(* ===== verification/Fs.thy ===== *)
theory Fs
  imports Cstring
begin

text \<open>
  The read-only file system of the server: \<^verbatim>\<open>Sources/fs.c\<close>, \<^verbatim>\<open>fs.h\<close>, \<^verbatim>\<open>fsdata.h\<close>. The linked list
  of \<^verbatim>\<open>struct fsdata_file\<close> that starts at \<^verbatim>\<open>FS_ROOT\<close> is a list; a file name is its C string. The
  build has no custom files and no file state, so opening looks the name up in that list and
  closing does nothing. \<open>fs_read_async\<close> is compiled out (\<^verbatim>\<open>LWIP_HTTPD_DYNAMIC_FILE_READ\<close> is 0); it
  is modelled because the file format and the index it maintains are its contract.
\<close>

record fsdata_file =
  fd_name :: string
  fd_data :: bytes
  fd_http_header_included :: bool

text \<open>
  An open file. \<open>data\<close> is the array the pointer \<open>data\<close> leads to; \<open>len\<close> and
  \<open>index\<close> are C \<open>int\<close>s. A zeroed struct has a null \<open>data\<close>; it is never read while it is null.
\<close>

record fs_file =
  f_data :: bytes
  f_len :: int
  f_index :: int
  f_http_header_included :: bool

definition fs_file_zero :: fs_file where
  "fs_file_zero = \<lparr>f_data = [], f_len = 0, f_index = 0, f_http_header_included = False\<rparr>"

text \<open>\<open>fs_open\<close>: the first file of the list with that name; \<open>None\<close> is a null pointer.\<close>

fun fs_open_loop :: "fsdata_file list \<Rightarrow> fs_file \<Rightarrow> string \<Rightarrow> err_t \<times> fs_file" where
  "fs_open_loop [] file name = (ERR_VAL, file)"
| "fs_open_loop (f # fs) file name =
     (if name = fd_name f then
        (ERR_OK, file\<lparr>f_data := fd_data f, f_len := int (length (fd_data f)),
                      f_index := int (length (fd_data f)),
                      f_http_header_included := fd_http_header_included f\<rparr>)
      else fs_open_loop fs file name)"

definition fs_open :: "fsdata_file list \<Rightarrow> fs_file \<Rightarrow> string option \<Rightarrow> err_t \<times> fs_file" where
  "fs_open fs_root file name =
     (case name of None \<Rightarrow> (ERR_ARG, file) | Some n \<Rightarrow> fs_open_loop fs_root file n)"

definition fs_close :: "fs_file \<Rightarrow> fs_file" where
  "fs_close file = file"

definition fs_bytes_left :: "fs_file \<Rightarrow> int" where
  "fs_bytes_left file = f_len file - f_index file"

definition fs_is_file_ready :: "fs_file option \<Rightarrow> bool" where
  "fs_is_file_ready file = True"

text \<open>
  \<open>fs_read_async(file, buffer, count)\<close>: \<open>FS_READ_EOF\<close> is -1; otherwise the bytes copied
  to the buffer and their number.
\<close>

definition FS_READ_EOF :: int where
  "FS_READ_EOF = - 1"

definition fs_read_async :: "fs_file \<Rightarrow> int \<Rightarrow> int \<times> bytes \<times> fs_file" where
  "fs_read_async file count =
     (if f_index file = f_len file then (FS_READ_EOF, [], file)
      else
        let read = f_len file - f_index file;
            read = (if read > count then count else read)
        in (read, take (nat read) (drop (nat (f_index file)) (f_data file)),
            file\<lparr>f_index := f_index file + read\<rparr>))"

subsection \<open>Opening\<close>

fun fs_lookup :: "fsdata_file list \<Rightarrow> string \<Rightarrow> fsdata_file option" where
  "fs_lookup [] name = None"
| "fs_lookup (f # fs) name = (if fd_name f = name then Some f else fs_lookup fs name)"

definition opened :: "fsdata_file \<Rightarrow> fs_file" where
  "opened f = \<lparr>f_data = fd_data f, f_len = int (length (fd_data f)), f_index = int (length (fd_data f)),
               f_http_header_included = fd_http_header_included f\<rparr>"

text \<open>The state of a file that \<open>fs_open\<close> has filled in: complete, and read to the end.\<close>

definition whole_file :: "fs_file \<Rightarrow> bool" where
  "whole_file f \<longleftrightarrow> f_len f = int (length (f_data f)) \<and> f_index f = f_len f"

lemma fs_open_loop_eq:
  "fs_open_loop fs file name =
     (case fs_lookup fs name of None \<Rightarrow> (ERR_VAL, file) | Some f \<Rightarrow> (ERR_OK, opened f))"
  by (induction fs) (auto simp: opened_def)

lemma fs_open_eq:
  "fs_open fs file (Some name) =
     (case fs_lookup fs name of None \<Rightarrow> (ERR_VAL, file) | Some f \<Rightarrow> (ERR_OK, opened f))"
  by (simp add: fs_open_def fs_open_loop_eq)

lemma whole_file_opened [simp]: "whole_file (opened f)"
  by (simp add: whole_file_def opened_def)

lemma fs_bytes_left_whole [simp]: "whole_file f \<Longrightarrow> fs_bytes_left f = 0"
  by (simp add: whole_file_def fs_bytes_left_def)

lemma fs_open_whole: "fs_open fs file name = (ERR_OK, f) \<Longrightarrow> whole_file f"
  by (cases name) (auto simp: fs_open_def fs_open_loop_eq split: option.splits)

lemma fs_lookup_some: "fs_lookup fs name = Some f \<Longrightarrow> f \<in> set fs \<and> fd_name f = name"
  by (induction fs) (auto split: if_splits)

lemma fs_lookup_none: "fs_lookup fs name = None \<longleftrightarrow> name \<notin> fd_name ` set fs"
  by (induction fs) auto

subsection \<open>Reading block by block\<close>

text \<open>All the blocks that a reader with a buffer of \<open>count\<close> bytes gets, before \<open>FS_READ_EOF\<close>.\<close>

function read_blocks :: "fs_file \<Rightarrow> int \<Rightarrow> bytes list" where
  "read_blocks f count =
     (if f_index f < f_len f \<and> 0 < count then
        (case fs_read_async f count of (n, bs, f') \<Rightarrow> bs # read_blocks f' count)
      else [])"
  by pat_completeness auto

termination
  by (relation "measure (\<lambda>(f, count). nat (f_len f - f_index f))")
     (auto simp: fs_read_async_def Let_def split: if_splits)

declare read_blocks.simps [simp del]

lemma read_blocks_complete:
  assumes "0 \<le> f_index f" "f_len f = int (length (f_data f))" "0 < count"
  shows "concat (read_blocks f count) = drop (nat (f_index f)) (f_data f)"
  using assms
proof (induction f count rule: read_blocks.induct)
  case (1 f count)
  show ?case
  proof (cases "f_index f < f_len f")
    case False
    then show ?thesis using 1 by (subst read_blocks.simps) simp
  next
    case True
    define r where "r = (if f_len f - f_index f > count then count else f_len f - f_index f)"
    define f' where "f' = f\<lparr>f_index := f_index f + r\<rparr>"
    have rd: "fs_read_async f count = (r, take (nat r) (drop (nat (f_index f)) (f_data f)), f')"
      using True by (simp add: fs_read_async_def r_def f'_def Let_def)
    have r: "0 < r" using True 1(4) by (simp add: r_def)
    have "concat (read_blocks f' count) = drop (nat (f_index f')) (f_data f')"
      using 1(1)[OF _ rd[symmetric] refl] True 1(2-4) r by (simp add: f'_def)
    moreover have "nat (f_index f') = nat r + nat (f_index f)" using r 1(2) by (simp add: f'_def)
    ultimately show ?thesis
      using True 1(4) rd by (subst read_blocks.simps) (simp add: f'_def flip: drop_drop)
  qed
qed

end
