(* ===== verification/Tcp_Out.thy ===== *)
theory Tcp_Out
  imports Fs
begin

unbundle bit_operations_syntax

text \<open>
  The sending half of the TCP of lwIP: \<^verbatim>\<open>lwip/src/core/tcp_out.c\<close>, with the parts of
  \<^verbatim>\<open>struct tcp_pcb\<close> (\<^verbatim>\<open>lwip/src/include/lwip/tcp.h\<close>) and \<^verbatim>\<open>struct tcp_seg\<close> (\<^verbatim>\<open>tcp_impl.h\<close>) it works on.
  Counters keep their width. A pbuf chain is the list of the payloads of its pbufs, without the
  room for headers and options; \<open>refused_data\<close> is such a chain with its \<open>PBUF_FLAG_TCP_FIN\<close>. The memory manager answers every request with success or
  failure; the answers are a list that each request consumes (\<open>alloc\<close>), and every theorem
  holds for every list. Timestamps (\<^verbatim>\<open>LWIP_TCP_TIMESTAMPS\<close>), out-of-order queueing and checksums on
  copy are off in this build.
\<close>

subsection \<open>Data\<close>

datatype tcp_state =
  CLOSED | LISTEN | SYN_SENT | SYN_RCVD | ESTABLISHED | FIN_WAIT_1 | FIN_WAIT_2
| CLOSE_WAIT | CLOSING | LAST_ACK | TIME_WAIT

definition TCP_FIN :: u8 where "TCP_FIN = 0x01"
definition TCP_SYN :: u8 where "TCP_SYN = 0x02"
definition TCP_RST :: u8 where "TCP_RST = 0x04"
definition TCP_PSH :: u8 where "TCP_PSH = 0x08"
definition TCP_ACK :: u8 where "TCP_ACK = 0x10"

definition TF_ACK_DELAY :: u8 where "TF_ACK_DELAY = 0x01"
definition TF_ACK_NOW :: u8 where "TF_ACK_NOW = 0x02"
definition TF_INFR :: u8 where "TF_INFR = 0x04"
definition TF_RXCLOSED :: u8 where "TF_RXCLOSED = 0x10"
definition TF_FIN :: u8 where "TF_FIN = 0x20"
definition TF_NODELAY :: u8 where "TF_NODELAY = 0x40"
definition TF_NAGLEMEMERR :: u8 where "TF_NAGLEMEMERR = 0x80"

definition TF_SEG_OPTS_MSS :: u8 where "TF_SEG_OPTS_MSS = 0x01"
definition TF_SEG_OPTS_TS :: u8 where "TF_SEG_OPTS_TS = 0x02"

definition TCP_WRITE_FLAG_COPY :: u8 where "TCP_WRITE_FLAG_COPY = 0x01"
definition TCP_WRITE_FLAG_MORE :: u8 where "TCP_WRITE_FLAG_MORE = 0x02"

definition TCP_MSS :: nat where "TCP_MSS = 1460"
definition TCP_OVERSIZE :: nat where "TCP_OVERSIZE = TCP_MSS"
definition TCP_SND_QUEUELEN :: u16 where "TCP_SND_QUEUELEN = 12"
definition TCP_SNDQUEUELEN_OVERFLOW :: u16 where "TCP_SNDQUEUELEN_OVERFLOW = 0xFFFC"

record tcp_seg =
  seg_p :: "bytes list"
  seg_len :: u16
  seg_optflags :: u8
  seg_seqno :: u32
  seg_hdrflags :: u8

record tcp_pcb =
  pcb_state :: tcp_state
  pcb_flags :: u8
  rcv_nxt :: u32
  rcv_wnd :: u16
  rcv_ann_wnd :: u16
  rcv_ann_right_edge :: u32
  rtime :: int
  rttest :: u32
  rtseq :: u32
  nrtx :: u8
  ssthresh :: u16
  pcb_mss :: u16
  lastack :: u32
  cwnd :: u16
  snd_nxt :: u32
  snd_lbb :: u32
  snd_wnd :: u16
  snd_wnd_max :: u16
  snd_buf :: u16
  snd_queuelen :: u16
  unsent_oversize :: u16
  unsent :: "tcp_seg list"
  unacked :: "tcp_seg list"
  refused_data :: "(bytes list \<times> bool) option"
  callback_arg :: bool
  recv_cb :: bool
  sent_cb :: bool
  err_cb :: bool
  poll_cb :: bool
  pollinterval :: u8
  polltmr :: u8
  snd_wl1 :: u32
  snd_wl2 :: u32
  pcb_acked :: u16
  dupacks :: u8
  rto :: u16
  pcb_sa :: u16
  pcb_sv :: u16
  persist_cnt :: u8
  persist_backoff :: u8
  pcb_tmr :: u32
  keep_cnt_sent :: u8

text \<open>\<open>LWIP_TCP_OPT_LENGTH\<close>, and the macros of \<^verbatim>\<open>tcp.h\<close> that read the pcb.\<close>

definition opt_length :: "u8 \<Rightarrow> u16" where
  "opt_length fl = (if fl AND TF_SEG_OPTS_MSS \<noteq> 0 then 4 else 0)
                 + (if fl AND TF_SEG_OPTS_TS \<noteq> 0 then 12 else 0)"

definition tcp_sndbuf :: "tcp_pcb \<Rightarrow> u16" where "tcp_sndbuf p = snd_buf p"
definition tcp_sndqueuelen :: "tcp_pcb \<Rightarrow> u16" where "tcp_sndqueuelen p = snd_queuelen p"
definition tcp_mss :: "tcp_pcb \<Rightarrow> u16" where
  "tcp_mss p = (if pcb_flags p AND 0x08 \<noteq> 0 then pcb_mss p - 12 else pcb_mss p)"

type_synonym heap = "bool list"

fun alloc :: "heap \<Rightarrow> bool \<times> heap" where
  "alloc [] = (False, [])"
| "alloc (ok # h) = (ok, h)"

definition set_flag :: "u8 \<Rightarrow> tcp_pcb \<Rightarrow> tcp_pcb" where
  "set_flag f p = p\<lparr>pcb_flags := pcb_flags p OR f\<rparr>"

definition clear_flag :: "u8 \<Rightarrow> tcp_pcb \<Rightarrow> tcp_pcb" where
  "clear_flag f p = p\<lparr>pcb_flags := pcb_flags p AND NOT f\<rparr>"

definition set_hdrflag :: "u8 \<Rightarrow> tcp_seg \<Rightarrow> tcp_seg" where
  "set_hdrflag f s = s\<lparr>seg_hdrflags := seg_hdrflags s OR f\<rparr>"

fun update_last :: "('a \<Rightarrow> 'a) \<Rightarrow> 'a list \<Rightarrow> 'a list" where
  "update_last f [] = []"
| "update_last f [x] = [f x]"
| "update_last f (x # y # xs) = x # update_last f (y # xs)"

subsection \<open>tcp_write\<close>

definition tcp_write_checks :: "tcp_pcb \<Rightarrow> u16 \<Rightarrow> err_t \<times> tcp_pcb" where
  "tcp_write_checks p len =
     (if pcb_state p \<noteq> ESTABLISHED \<and> pcb_state p \<noteq> CLOSE_WAIT \<and> pcb_state p \<noteq> SYN_SENT \<and> pcb_state p \<noteq> SYN_RCVD
      then (ERR_CONN, p)
      else if len = 0 then (ERR_OK, p)
      else if len > snd_buf p then (ERR_MEM, set_flag TF_NAGLEMEMERR p)
      else if snd_queuelen p \<ge> TCP_SND_QUEUELEN \<or> snd_queuelen p > TCP_SNDQUEUELEN_OVERFLOW
      then (ERR_MEM, set_flag TF_NAGLEMEMERR p)
      else (ERR_OK, p))"

text \<open>
  \<open>tcp_pbuf_prealloc\<close> gives the bytes left behind the used part of the new pbuf, or
  nothing when there is no memory. \<open>mem_align\<close> is \<open>LWIP_MEM_ALIGN_SIZE\<close>.
\<close>

definition mem_align :: "nat \<Rightarrow> nat" where
  "mem_align n = (n + 3) div 4 * 4"

definition tcp_pbuf_prealloc ::
  "u16 \<Rightarrow> u16 \<Rightarrow> tcp_pcb \<Rightarrow> u8 \<Rightarrow> bool \<Rightarrow> heap \<Rightarrow> u16 option \<times> heap" where
  "tcp_pbuf_prealloc len max_length p apiflags first_seg h =
     (let alloc_len =
        (if len < max_length then
           (if apiflags AND TCP_WRITE_FLAG_MORE \<noteq> 0
               \<or> (pcb_flags p AND TF_NODELAY = 0
                   \<and> (\<not> first_seg \<or> unsent p \<noteq> [] \<or> unacked p \<noteq> []))
            then of_nat (min (unat max_length) (mem_align (unat len + TCP_OVERSIZE)))
            else len)
         else len)
      in case alloc h of
           (False, h) \<Rightarrow> (None, h)
         | (True, h) \<Rightarrow> (Some (alloc_len - len), h))"

definition tcp_create_segment ::
  "bytes list \<Rightarrow> u8 \<Rightarrow> u32 \<Rightarrow> u8 \<Rightarrow> heap \<Rightarrow> tcp_seg option \<times> heap" where
  "tcp_create_segment p flags seqno optflags h =
     (case alloc h of
        (False, h) \<Rightarrow> (None, h)
      | (True, h) \<Rightarrow> (Some \<lparr>seg_p = p, seg_len = of_nat (length (concat p)), seg_optflags = optflags,
                            seg_seqno = seqno, seg_hdrflags = flags\<rparr>, h))"

text \<open>The pbuf chain of a new segment of phase 3, and the room it leaves.\<close>

definition new_seg_pbufs ::
  "tcp_pcb \<Rightarrow> u8 \<Rightarrow> bytes \<Rightarrow> u16 \<Rightarrow> u16 \<Rightarrow> u16 \<Rightarrow> bool \<Rightarrow> heap \<Rightarrow> (bytes list \<times> u16) option \<times> heap" where
  "new_seg_pbufs p apiflags chunk seglen mss_local oversize first_seg h =
     (if apiflags AND TCP_WRITE_FLAG_COPY \<noteq> 0 then
        (case tcp_pbuf_prealloc seglen mss_local p apiflags first_seg h of
           (None, h) \<Rightarrow> (None, h)
         | (Some ov, h) \<Rightarrow> (Some ([chunk], ov), h))
      else
        (case alloc h of
           (False, h) \<Rightarrow> (None, h)
         | (True, h) \<Rightarrow>
             (case alloc h of
                (False, h) \<Rightarrow> (None, h)
              | (True, h) \<Rightarrow> (Some ([[], chunk], oversize), h))))"

text \<open>
  Phase 3. Each turn adds at least one pbuf, and the loop gives up above
  \<open>TCP_SND_QUEUELEN\<close>; so it ends even where \<open>mss_local\<close> is 0 and no turn makes progress.
\<close>

function tcp_write_segs ::
  "tcp_pcb \<Rightarrow> u16 \<Rightarrow> bytes \<Rightarrow> u16 \<Rightarrow> u8 \<Rightarrow> u16 \<Rightarrow> u16 \<Rightarrow> u16 \<Rightarrow> tcp_seg list \<Rightarrow> heap
    \<Rightarrow> (u16 \<times> u16 \<times> tcp_seg list) option \<times> heap" where
  "tcp_write_segs p mss_local arg len apiflags pos queuelen oversize queue h =
     (if pos < len then
        let left = len - pos;
            seglen = (if left > mss_local then mss_local else left);
            chunk = take (unat seglen) (drop (unat pos) arg)
        in case new_seg_pbufs p apiflags chunk seglen mss_local oversize (queue = []) h of
             (None, h) \<Rightarrow> (None, h)
           | (Some (pb, oversize), h) \<Rightarrow>
               let queuelen = queuelen + of_nat (length pb) in
               if queuelen > TCP_SND_QUEUELEN \<or> queuelen > TCP_SNDQUEUELEN_OVERFLOW then (None, h)
               else (case tcp_create_segment pb 0 (snd_lbb p + ucast pos) 0 h of
                       (None, h) \<Rightarrow> (None, h)
                     | (Some seg, h) \<Rightarrow>
                         tcp_write_segs p mss_local arg len apiflags (pos + seglen) queuelen
                           oversize (queue @ [seg]) h)
      else (Some (queuelen, oversize, queue), h))"
  by pat_completeness auto

lemma new_seg_pbufs_len:
  "new_seg_pbufs p apiflags chunk seglen m ov b h = (Some (pb, ov'), h') \<Longrightarrow>
     (pb = [chunk] \<or> pb = [[], chunk])"
  by (auto simp: new_seg_pbufs_def split: if_splits prod.splits option.splits bool.splits)

text \<open>How many more turns the queue limit allows.\<close>

definition queue_room :: "u16 \<Rightarrow> nat" where
  "queue_room q = (if unat q \<le> 12 then 13 - unat q else 14)"

lemma queue_room_step:
  fixes q :: u16
  assumes "length pb = Suc 0 \<or> length pb = 2" "\<not> q + of_nat (length pb) > TCP_SND_QUEUELEN"
  shows "queue_room (q + of_nat (length pb)) < queue_room q"
proof -
  let ?q = "q + of_nat (length pb)"
  have le: "unat ?q \<le> 12" using assms(2) by (simp add: TCP_SND_QUEUELEN_def word_le_nat_alt not_less)
  show ?thesis
  proof (cases "unat q \<le> 12")
    case True
    then have "unat ?q = unat q + length pb"
      using assms(1) by (auto simp: unat_word_ariths unsigned_of_nat take_bit_nat_eq_self)
    then show ?thesis using assms(1) True le by (auto simp: queue_room_def)
  qed (use le in \<open>simp add: queue_room_def\<close>)
qed

termination tcp_write_segs
proof (relation "measure (\<lambda>(p, m, arg, len, fl, pos, q, ov, qu, h). queue_room q)", goal_cases)
  case 1
  show ?case by simp
next
  case (2 p m arg len fl pos q ov qu h left seglen chunk x h1 a pb ov' q' y h2 seg)
  then have "length pb = Suc 0 \<or> length pb = 2"
    using new_seg_pbufs_len [of p fl chunk seglen m ov "qu = []" h pb ov' h1] by auto
  then show ?case using 2 queue_room_step [of pb q] by simp
qed

declare tcp_write_segs.simps [simp del]

text \<open>
  The commit: the bytes of phase 1 go behind the last pbuf of the last unsent segment, the
  pbuf of phase 2 is chained to it, and the segments of phase 3 follow it.
\<close>

definition grow_tail :: "bytes \<Rightarrow> u16 \<Rightarrow> tcp_seg \<Rightarrow> tcp_seg" where
  "grow_tail bs n s = s\<lparr>seg_p := update_last (\<lambda>b. b @ bs) (seg_p s), seg_len := seg_len s + n\<rparr>"

definition chain_pbuf :: "bytes \<Rightarrow> tcp_seg \<Rightarrow> tcp_seg" where
  "chain_pbuf b s = s\<lparr>seg_p := seg_p s @ [b], seg_len := seg_len s + of_nat (length b)\<rparr>"

text \<open>
  Phases 1 and 2 on the last unsent segment: the number of bytes for its preallocated tail,
  the pbuf to chain to it, the position reached, the queue length, the room left at its end,
  and whether the segment is the last one touched. \<open>None\<close> is a lack of memory.
\<close>

record tail_plan =
  oversize_used :: u16
  concat_p :: "bytes option"
  tp_pos :: u16
  tp_queuelen :: u16
  tp_oversize :: u16
  tp_touched :: bool

definition tcp_write_tail ::
  "tcp_pcb \<Rightarrow> u16 \<Rightarrow> bytes \<Rightarrow> u16 \<Rightarrow> u8 \<Rightarrow> heap \<Rightarrow> tail_plan option \<times> heap" where
  "tcp_write_tail p mss_local arg len apiflags h =
     (if unsent p = [] then
        (Some \<lparr>oversize_used = 0, concat_p = None, tp_pos = 0, tp_queuelen = snd_queuelen p,
               tp_oversize = 0, tp_touched = False\<rparr>, h)
      else
        let last_unsent = last (unsent p);
            space = mss_local - (seg_len last_unsent + opt_length (seg_optflags last_unsent));
            oversize = unsent_oversize p;
            touched = (oversize > 0);
            used = (if oversize > 0 then (if oversize < len then oversize else len) else 0);
            pos = used;
            oversize = oversize - used;
            space = space - used
        in if pos < len \<and> space > 0 \<and> seg_len last_unsent > 0 then
             let seglen = (if space < len - pos then space else len - pos);
                 chunk = take (unat seglen) (drop (unat pos) arg)
             in case (if apiflags AND TCP_WRITE_FLAG_COPY \<noteq> 0
                      then tcp_pbuf_prealloc seglen space p apiflags True h
                      else (case alloc h of (ok, h) \<Rightarrow> (if ok then Some oversize else None, h))) of
                  (None, h) \<Rightarrow> (None, h)
                | (Some oversize, h) \<Rightarrow>
                    (Some \<lparr>oversize_used = used, concat_p = Some chunk, tp_pos = pos + seglen,
                           tp_queuelen = snd_queuelen p + 1, tp_oversize = oversize,
                           tp_touched = True\<rparr>, h)
           else
             (Some \<lparr>oversize_used = used, concat_p = None, tp_pos = pos,
                    tp_queuelen = snd_queuelen p, tp_oversize = oversize,
                    tp_touched = touched\<rparr>, h))"

definition commit_tail :: "tail_plan \<Rightarrow> bytes \<Rightarrow> tcp_seg \<Rightarrow> tcp_seg" where
  "commit_tail tp arg s =
     (let s = (if oversize_used tp > 0
               then grow_tail (take (unat (oversize_used tp)) arg) (oversize_used tp) s else s)
      in case concat_p tp of None \<Rightarrow> s | Some b \<Rightarrow> chain_pbuf b s)"

definition mss_local :: "tcp_pcb \<Rightarrow> u16" where
  "mss_local p = min (pcb_mss p) (snd_wnd_max p div 2)"

definition set_psh :: "u8 \<Rightarrow> tcp_seg list \<Rightarrow> tcp_seg list" where
  "set_psh apiflags segs =
     (if apiflags AND TCP_WRITE_FLAG_MORE = 0 then update_last (set_hdrflag TCP_PSH) segs else segs)"

definition tcp_write_commit ::
  "tcp_pcb \<Rightarrow> bytes \<Rightarrow> u16 \<Rightarrow> u8 \<Rightarrow> tail_plan \<Rightarrow> u16 \<Rightarrow> u16 \<Rightarrow> tcp_seg list \<Rightarrow> tcp_pcb" where
  "tcp_write_commit p arg len apiflags tp queuelen oversize queue =
     (let segs = (if tp_touched tp then update_last (commit_tail tp arg) (unsent p) else unsent p)
                 @ queue
      in p\<lparr>unsent := (if tp_touched tp \<or> queue \<noteq> [] then set_psh apiflags segs else segs),
           unsent_oversize := oversize,
           snd_lbb := snd_lbb p + ucast len,
           snd_buf := snd_buf p - len,
           snd_queuelen := queuelen\<rparr>)"

definition tcp_write ::
  "tcp_pcb \<Rightarrow> bytes \<Rightarrow> u16 \<Rightarrow> u8 \<Rightarrow> heap \<Rightarrow> err_t \<times> tcp_pcb \<times> heap" where
  "tcp_write p arg len apiflags h =
     (case tcp_write_checks p len of
        (err, p) \<Rightarrow>
          if err \<noteq> ERR_OK then (err, p, h)
          else (case tcp_write_tail p (mss_local p) arg len apiflags h of
                  (None, h) \<Rightarrow> (ERR_MEM, set_flag TF_NAGLEMEMERR p, h)
                | (Some tp, h) \<Rightarrow>
                    (case tcp_write_segs p (mss_local p) arg len apiflags (tp_pos tp)
                            (tp_queuelen tp) (tp_oversize tp) [] h of
                       (None, h) \<Rightarrow> (ERR_MEM, set_flag TF_NAGLEMEMERR p, h)
                     | (Some (queuelen, oversize, queue), h) \<Rightarrow>
                         (ERR_OK, tcp_write_commit p arg len apiflags tp queuelen oversize queue, h))))"


subsection \<open>Segments and their bytes\<close>

definition seg_data :: "tcp_seg \<Rightarrow> bytes" where
  "seg_data s = concat (seg_p s)"

definition queue_data :: "tcp_seg list \<Rightarrow> bytes" where
  "queue_data q = concat (map seg_data q)"

definition queue_clen :: "tcp_seg list \<Rightarrow> nat" where
  "queue_clen q = sum_list (map (\<lambda>s. length (seg_p s)) q)"

definition seg_syn_fin :: "tcp_seg \<Rightarrow> bool" where
  "seg_syn_fin s \<longleftrightarrow> seg_hdrflags s AND (TCP_FIN OR TCP_SYN) \<noteq> 0"

text \<open>\<open>TCP_TCPLEN\<close>: the sequence numbers a segment takes.\<close>

definition tcplen :: "tcp_seg \<Rightarrow> u32" where
  "tcplen s = ucast (seg_len s) + (if seg_syn_fin s then 1 else 0)"

text \<open>Segments whose sequence numbers follow one another, from \<open>a\<close> up to \<open>b\<close>.\<close>

fun seq_chain :: "u32 \<Rightarrow> tcp_seg list \<Rightarrow> u32 \<Rightarrow> bool" where
  "seq_chain a [] b \<longleftrightarrow> a = b"
| "seq_chain a (s # q) b \<longleftrightarrow> seg_seqno s = a \<and> seq_chain (a + tcplen s) q b"

definition seg_ok :: "u16 \<Rightarrow> tcp_seg \<Rightarrow> bool" where
  "seg_ok m s \<longleftrightarrow> seg_p s \<noteq> [] \<and> unat (seg_len s) = length (seg_data s)
     \<and> seg_len s \<le> m \<and> (seg_len s > 0 \<longrightarrow> seg_optflags s = 0)
     \<and> (seg_len s \<noteq> 0 \<or> seg_syn_fin s)"

text \<open>The room behind the last unsent segment lies inside its maximum size.\<close>

definition tail_room :: "u16 \<Rightarrow> u16 \<Rightarrow> tcp_seg list \<Rightarrow> bool" where
  "tail_room m ov q \<longleftrightarrow> ov = 0 \<or>
     (q \<noteq> [] \<and> seg_optflags (last q) = 0 \<and> unat (seg_len (last q)) + unat ov \<le> unat m)"

definition pcb_ok :: "tcp_pcb \<Rightarrow> bool" where
  "pcb_ok p \<longleftrightarrow> (\<forall>s\<in>set (unacked p). seg_ok (mss_local p) s)
     \<and> (\<forall>s\<in>set (unsent p). seg_ok (mss_local p) s)
     \<and> tail_room (mss_local p) (unsent_oversize p) (unsent p)
     \<and> unat (snd_queuelen p) = queue_clen (unacked p) + queue_clen (unsent p)
     \<and> snd_queuelen p \<le> TCP_SND_QUEUELEN"

definition tcp_stream :: "tcp_pcb \<Rightarrow> bytes" where
  "tcp_stream p = queue_data (unacked p) @ queue_data (unsent p)"

lemma queue_data_simps [simp]:
  "queue_data [] = []" "queue_data (s # q) = seg_data s @ queue_data q"
  "queue_data (q @ r) = queue_data q @ queue_data r"
  by (simp_all add: queue_data_def)

lemma queue_clen_simps [simp]:
  "queue_clen [] = 0" "queue_clen (s # q) = length (seg_p s) + queue_clen q"
  "queue_clen (q @ r) = queue_clen q + queue_clen r"
  by (simp_all add: queue_clen_def)

lemma update_last_snoc [simp]: "update_last f (xs @ [x]) = xs @ [f x]"
  by (induction xs rule: induct_list012) auto

lemma update_last_Nil_iff [simp]: "update_last f xs = [] \<longleftrightarrow> xs = []"
  by (cases xs rule: rev_cases) auto

lemma update_last_butlast: "xs \<noteq> [] \<Longrightarrow> update_last f xs = butlast xs @ [f (last xs)]"
  by (cases xs rule: rev_cases) auto

lemma concat_update_last: "xs \<noteq> [] \<Longrightarrow> concat (update_last (\<lambda>b. b @ bs) xs) = concat xs @ bs"
  by (cases xs rule: rev_cases) auto

lemma length_update_last [simp]: "length (update_last f xs) = length xs"
  by (cases xs rule: rev_cases) auto

lemma seg_syn_fin_mono: "seg_syn_fin s \<Longrightarrow> seg_syn_fin (set_hdrflag f s)"
  by (auto simp: seg_syn_fin_def set_hdrflag_def bit.conj_disj_distrib2 or_eq_0_iff)

lemma seg_syn_fin_psh [simp]: "seg_syn_fin (set_hdrflag TCP_PSH s) = seg_syn_fin s"
  by (simp add: seg_syn_fin_def set_hdrflag_def bit.conj_disj_distrib2 TCP_PSH_def TCP_FIN_def TCP_SYN_def)

lemma seg_syn_fin_ack [simp]: "seg_syn_fin (set_hdrflag TCP_ACK s) = seg_syn_fin s"
  by (simp add: seg_syn_fin_def set_hdrflag_def bit.conj_disj_distrib2 TCP_ACK_def TCP_FIN_def TCP_SYN_def)

lemma set_hdrflag_simps [simp]:
  "seg_p (set_hdrflag f s) = seg_p s" "seg_len (set_hdrflag f s) = seg_len s"
  "seg_optflags (set_hdrflag f s) = seg_optflags s" "seg_seqno (set_hdrflag f s) = seg_seqno s"
  by (simp_all add: set_hdrflag_def)

lemma seg_ok_psh [simp]: "seg_ok m (set_hdrflag TCP_PSH s) = seg_ok m s"
  by (simp add: seg_ok_def seg_data_def)

lemma seg_ok_hdrflag: "seg_ok m s \<Longrightarrow> seg_ok m (set_hdrflag f s)"
  by (auto simp: seg_ok_def seg_data_def seg_syn_fin_mono)

lemma seg_data_psh [simp]: "seg_data (set_hdrflag f s) = seg_data s"
  by (simp add: set_hdrflag_def seg_data_def)

lemma set_psh_simps [simp]:
  "queue_data (set_psh fl q) = queue_data q" "queue_clen (set_psh fl q) = queue_clen q"
  "(\<forall>s\<in>set (set_psh fl q). seg_ok m s) = (\<forall>s\<in>set q. seg_ok m s)"
  "tail_room m ov (set_psh fl q) = tail_room m ov q"
  by (cases q rule: rev_cases;
      auto simp: set_psh_def tail_room_def)+

lemma pcb_ok_flags [simp]: "pcb_ok (set_flag f p) = pcb_ok p" "pcb_ok (clear_flag f p) = pcb_ok p"
  by (simp_all add: pcb_ok_def set_flag_def clear_flag_def mss_local_def)

lemma tcp_stream_flags [simp]:
  "tcp_stream (set_flag f p) = tcp_stream p" "tcp_stream (clear_flag f p) = tcp_stream p"
  by (simp_all add: tcp_stream_def set_flag_def clear_flag_def)

lemma set_flag_simps [simp]:
  "snd_buf (set_flag f p) = snd_buf p" "snd_queuelen (set_flag f p) = snd_queuelen p"
  "pcb_state (set_flag f p) = pcb_state p" "unsent (set_flag f p) = unsent p"
  "unacked (set_flag f p) = unacked p" "pcb_mss (set_flag f p) = pcb_mss p"
  "mss_local (set_flag f p) = mss_local p" "unsent_oversize (set_flag f p) = unsent_oversize p"
  by (simp_all add: set_flag_def mss_local_def)

subsection \<open>What the phases do\<close>

lemma tcp_pbuf_prealloc_room:
  assumes "tcp_pbuf_prealloc len m p fl b h = (Some ov, h')" "len \<le> m"
  shows "unat len + unat ov \<le> unat m" "ov > 0 \<Longrightarrow> len < m"
proof -
  define a where "a = (if len < m then
           (if fl AND TCP_WRITE_FLAG_MORE \<noteq> 0
               \<or> (pcb_flags p AND TF_NODELAY = 0 \<and> (\<not> b \<or> unsent p \<noteq> [] \<or> unacked p \<noteq> []))
            then of_nat (min (unat m) (mem_align (unat len + TCP_OVERSIZE))) else len)
         else len)"
  have ov: "ov = a - len"
    using assms(1) by (auto simp: tcp_pbuf_prealloc_def a_def Let_def split: prod.splits bool.splits)
  have "unat len \<le> mem_align (unat len + TCP_OVERSIZE)" by (simp add: mem_align_def TCP_OVERSIZE_def)
  moreover have "unat (of_nat (min (unat m) (mem_align (unat len + TCP_OVERSIZE))) :: u16)
      = min (unat m) (mem_align (unat len + TCP_OVERSIZE))"
    by (rule unat_of_nat_u16, rule le_less_trans [OF min.cobounded1]) simp
  ultimately have bnd: "unat len \<le> unat a" "unat a \<le> unat m"
    using assms(2) by (auto simp: a_def word_le_nat_alt word_less_nat_alt)
  then show "unat len + unat ov \<le> unat m" by (simp add: ov unat_sub_u16 word_le_nat_alt)
  show "len < m" if "ov > 0" using that ov by (auto simp: a_def split: if_splits)
qed

lemma new_seg_pbufs_spec:
  assumes "new_seg_pbufs p fl chunk n m ov b h = (Some (pb, ov'), h')" "n \<le> m"
  shows "concat pb = chunk" "pb \<noteq> []" "length pb \<le> 2"
    "fl AND TCP_WRITE_FLAG_COPY = 0 \<Longrightarrow> ov' = ov"
    "fl AND TCP_WRITE_FLAG_COPY \<noteq> 0 \<Longrightarrow> unat n + unat ov' \<le> unat m \<and> (ov' > 0 \<longrightarrow> n < m)"
  using assms tcp_pbuf_prealloc_room [of n m p fl b h ov' h']
  by (auto simp: new_seg_pbufs_def split: if_splits prod.splits option.splits bool.splits)

lemma tcp_create_segment_spec:
  "tcp_create_segment pb fl sq ofl h = (Some s, h') \<Longrightarrow>
     seg_p s = pb \<and> seg_len s = of_nat (length (concat pb)) \<and> seg_optflags s = ofl \<and> seg_seqno s = sq
     \<and> seg_hdrflags s = fl"
  by (auto simp: tcp_create_segment_def split: prod.splits bool.splits)

text \<open>What phase 3 has added, from the position and queue length it started with.\<close>

definition segs_added :: "u16 \<Rightarrow> bytes \<Rightarrow> u16 \<Rightarrow> u16 \<Rightarrow> u16 \<Rightarrow> u16 \<Rightarrow> tcp_seg list \<Rightarrow> u16 \<Rightarrow> u16 \<Rightarrow> bool" where
  "segs_added m arg len pos q ov new q' ov' \<longleftrightarrow>
     queue_data new = take (unat len - unat pos) (drop (unat pos) arg)
   \<and> (\<forall>s\<in>set new. seg_ok m s \<and> seg_optflags s = 0)
   \<and> unat q' = unat q + queue_clen new \<and> q' \<le> TCP_SND_QUEUELEN
   \<and> (if new = [] then ov' = ov else tail_room m ov' new)"

lemma queuelen_add:
  fixes q :: u16
  assumes "q \<le> TCP_SND_QUEUELEN" "n \<le> 2" "\<not> q + of_nat n > TCP_SND_QUEUELEN"
  shows "unat (q + of_nat n) = unat q + n" "q + of_nat n \<le> TCP_SND_QUEUELEN"
proof -
  have "unat q \<le> 12" using assms(1) by (simp add: TCP_SND_QUEUELEN_def word_le_nat_alt)
  then show "unat (q + of_nat n) = unat q + n"
    using assms(2) by (simp add: unat_word_ariths unsigned_of_nat take_bit_nat_eq_self)
qed (use assms(3) in simp)

text \<open>A peer that never announced a window of 2 bytes or more gets no new segment.\<close>

lemma tcp_write_segs_no_mss:
  "m = 0 \<Longrightarrow> pos < len \<Longrightarrow> fst (tcp_write_segs p m arg len fl pos q ov queue h) = None"
proof (induction p m arg len fl pos q ov queue h rule: tcp_write_segs.induct)
  case (1 p m arg len fl pos q ov queue h)
  then have "len - pos > m" by (simp add: word_gt_0)
  with 1 show ?case
    by (subst tcp_write_segs.simps) (auto simp: Let_def split: prod.splits option.splits)
qed

lemma tcp_write_segs_spec:
  assumes "tcp_write_segs p m arg len fl pos q ov queue h = (Some (q', ov', queue'), h')"
    and "pos \<le> len" "unat len \<le> length arg" "q \<le> TCP_SND_QUEUELEN" "pos < len \<Longrightarrow> ov = 0"
  shows "\<exists>new. queue' = queue @ new \<and> segs_added m arg len pos q ov new q' ov'
    \<and> seq_chain (snd_lbb p + ucast pos) new (snd_lbb p + ucast len)"
  using assms
proof (induction p m arg len fl pos q ov queue h rule: tcp_write_segs.induct)
  case (1 p m arg len fl pos q ov queue h)
  show ?case
  proof (cases "pos < len")
    case False
    with 1(3) have "pos = len" by simp
    with 1(2,5) show ?thesis by (subst (asm) tcp_write_segs.simps) (auto simp: segs_added_def)
  next
    case True
    define n where "n = (if len - pos > m then m else len - pos)"
    define chunk where "chunk = take (unat n) (drop (unat pos) arg)"
    from 1(2) True obtain pb ov1 h1 s h2 where
      pb: "new_seg_pbufs p fl chunk n m ov (queue = []) h = (Some (pb, ov1), h1)"
      and lim: "\<not> (q + of_nat (length pb) > TCP_SND_QUEUELEN
                   \<or> q + of_nat (length pb) > TCP_SNDQUEUELEN_OVERFLOW)"
      and s: "tcp_create_segment pb 0 (snd_lbb p + ucast pos) 0 h1 = (Some s, h2)"
      and rest: "tcp_write_segs p m arg len fl (pos + n) (q + of_nat (length pb)) ov1 (queue @ [s]) h2
                   = (Some (q', ov', queue'), h')"
      by (subst (asm) tcp_write_segs.simps)
         (auto simp: Let_def n_def chunk_def split: prod.splits option.splits if_splits)
    have nm: "n \<le> m" by (simp add: n_def not_less)
    have n_le: "unat pos + unat n \<le> unat len"
      using True by (auto simp: n_def unat_sub_u16 word_le_nat_alt word_less_nat_alt less_imp_le)
    have posn: "unat (pos + n) = unat pos + unat n"
      by (rule unat_add_u16) (use n_le in \<open>simp add: order.strict_trans1 [OF _ unat_u16_less]\<close>)
    note np = new_seg_pbufs_spec [OF pb nm]
    note q = queuelen_add [OF 1(5) np(3)] 
    have q1: "unat (q + of_nat (length pb)) = unat q + length pb" "q + of_nat (length pb) \<le> TCP_SND_QUEUELEN"
      using q lim by auto
    have more: "ov1 = 0" if "pos + n < len"
    proof (rule ccontr)
      assume "ov1 \<noteq> 0"
      then have "ov1 > 0" by (simp add: word_neq_0_conv)
      with np(4,5) 1(6) True have "n < m" by (cases "fl AND TCP_WRITE_FLAG_COPY = 0") auto
      then have "n = len - pos" by (auto simp: n_def split: if_splits)
      with that show False by simp
    qed
    obtain new where new: "queue' = (queue @ [s]) @ new"
      "segs_added m arg len (pos + n) (q + of_nat (length pb)) ov1 new q' ov'"
      "seq_chain (snd_lbb p + ucast (pos + n)) new (snd_lbb p + ucast len)"
      using 1(1) [OF True refl n_def chunk_def pb [symmetric] refl refl refl lim s [symmetric] refl rest]
        n_le posn 1(4) q1(2) more
      by (auto simp: word_le_nat_alt)
    note sp = tcp_create_segment_spec [OF s]
    have lc: "length chunk = unat n" using n_le 1(4) by (simp add: chunk_def)
    have data: "seg_data s = chunk" using sp np(1) by (simp add: seg_data_def)
    have len_s: "unat (seg_len s) = length chunk"
      using sp np(1) lc by (simp add: unat_of_nat_u16)
    have "n \<noteq> 0"
    proof
      assume "n = 0"
      then have "m = 0" using True by (auto simp: n_def split: if_splits)
      then show False using tcp_write_segs_no_mss [of m pos len p arg fl q ov queue h] True 1(2) by simp
    qed
    then have "unat n \<noteq> 0" by (metis unat_eq_zero)
    then have ok: "seg_ok m s"
      using sp np(2) len_s data lc nm by (auto simp: seg_ok_def word_le_nat_alt)
    have room: "tail_room m ov1 [s]"
      using np(4,5) 1(6) True len_s lc sp
      by (cases "fl AND TCP_WRITE_FLAG_COPY = 0") (auto simp: tail_room_def)
    have "queue_data (s # new) = take (unat len - unat pos) (drop (unat pos) arg)"
      using new(2) n_le data posn
      by (simp add: segs_added_def chunk_def take_drop_split [of "unat n" "unat len - unat pos"] add.commute)
    then have "segs_added m arg len pos q ov (s # new) q' ov'"
      using new(2) ok sp q1 room by (auto simp: segs_added_def tail_room_def split: if_splits)
    moreover have "seq_chain (snd_lbb p + ucast pos) (s # new) (snd_lbb p + ucast len)"
    proof -
      have "unat (seg_len s) = unat n" using len_s lc by simp
      then have "seg_len s = n" by (rule unsigned_word_eqI)
      then have "tcplen s = ucast n" using sp by (simp add: tcplen_def seg_syn_fin_def)
      moreover have "(ucast (pos + n) :: u32) = ucast pos + ucast n"
        by (rule ucast_add_u16) (use n_le in \<open>simp add: order.strict_trans1 [OF _ unat_u16_less]\<close>)
      ultimately show ?thesis using new(3) sp by (simp add: add.assoc)
    qed
    ultimately show ?thesis using new(1) by (intro exI [of _ "s # new"]) simp
  qed
qed


text \<open>What phases 1 and 2 plan: a prefix of the data, in the room of the last unsent segment.\<close>

definition tail_ok :: "tcp_pcb \<Rightarrow> bytes \<Rightarrow> u16 \<Rightarrow> tail_plan \<Rightarrow> bool" where
  "tail_ok p arg len tp \<longleftrightarrow>
     tp_pos tp \<le> len
   \<and> (tp_pos tp < len \<longrightarrow> tp_oversize tp = 0)
   \<and> unat (tp_queuelen tp) = unat (snd_queuelen p) + (if concat_p tp = None then 0 else 1)
   \<and> tp_queuelen tp \<le> TCP_SND_QUEUELEN
   \<and> (\<not> tp_touched tp \<longrightarrow> tp_pos tp = 0 \<and> concat_p tp = None \<and> tp_oversize tp = 0)
   \<and> (tp_touched tp \<longrightarrow> unsent p \<noteq> [] \<and> seg_optflags (last (unsent p)) = 0)
   \<and> oversize_used tp \<le> tp_pos tp
   \<and> unat (tp_pos tp) = unat (oversize_used tp) + length (case concat_p tp of None \<Rightarrow> [] | Some b \<Rightarrow> b)
   \<and> take (unat (oversize_used tp)) arg @ (case concat_p tp of None \<Rightarrow> [] | Some b \<Rightarrow> b)
       = take (unat (tp_pos tp)) arg
   \<and> (tp_touched tp \<longrightarrow> unat (seg_len (last (unsent p))) + unat (tp_pos tp) + unat (tp_oversize tp)
        \<le> unat (mss_local p))"

lemma tcp_write_tail_spec:
  assumes tl: "tcp_write_tail p (mss_local p) arg len fl h = (Some tp, h')"
    and ok: "pcb_ok p" and q: "snd_queuelen p < TCP_SND_QUEUELEN" and arg: "unat len \<le> length arg"
  shows "tail_ok p arg len tp"
proof (cases "unsent p = []")
  case True
  then show ?thesis
    using tl q by (auto simp: tcp_write_tail_def tail_ok_def)
next
  case False
  define lu where "lu = last (unsent p)"
  define ov where "ov = unsent_oversize p"
  define used where "used = (if ov > 0 then (if ov < len then ov else len) else 0)"
  define space where "space = mss_local p - (seg_len lu + opt_length (seg_optflags lu)) - used"
  define seglen where "seglen = (if space < len - used then space else len - used)"
  have lu_ok: "seg_ok (mss_local p) lu"
    using ok False by (simp add: pcb_ok_def lu_def)
  have room: "ov = 0 \<or> seg_optflags lu = 0 \<and> unat (seg_len lu) + unat ov \<le> unat (mss_local p)"
    using ok by (auto simp: pcb_ok_def tail_room_def ov_def lu_def)
  have used: "used \<le> len" "used \<le> ov" "used < len \<Longrightarrow> ov - used = 0"
    by (auto simp: used_def word_gt_0 split: if_splits)
  have opt0: "opt_length 0 = 0" by (simp add: opt_length_def)
  have ul: "unat (ov - used) = unat ov - unat used" using used(2) by (rule unat_sub_u16)
  have q1: "unat (snd_queuelen p + 1) = unat (snd_queuelen p) + 1" "snd_queuelen p + 1 \<le> TCP_SND_QUEUELEN"
    using q queuelen_add [of "snd_queuelen p" 1]
    by (auto simp: TCP_SND_QUEUELEN_def word_le_nat_alt word_less_nat_alt unat_word_ariths)
  show ?thesis
  proof (cases "used < len \<and> space > 0 \<and> seg_len lu > 0")
    case False
    then have tp: "tp = \<lparr>oversize_used = used, concat_p = None, tp_pos = used,
                    tp_queuelen = snd_queuelen p, tp_oversize = ov - used, tp_touched = (ov > 0)\<rparr>"
      using tl \<open>unsent p \<noteq> []\<close>
      by (auto simp: tcp_write_tail_def Let_def lu_def ov_def used_def space_def split: if_splits)
    have "unat (seg_len lu) + unat used + unat (ov - used) \<le> unat (mss_local p)" if "ov > 0"
      using room that used(2) by (auto simp: ul word_le_nat_alt)
    then show ?thesis
      using tp used room q \<open>unsent p \<noteq> []\<close>
      by (auto simp: tail_ok_def lu_def word_gt_0 used_def)
  next
    case True
    have ovu: "ov - used = 0" using used(3) True by simp
    have tl_eq: "tcp_write_tail p (mss_local p) arg len fl h =
      (case (if fl AND TCP_WRITE_FLAG_COPY \<noteq> 0 then tcp_pbuf_prealloc seglen space p fl True h
             else (case alloc h of (ok, h) \<Rightarrow> (if ok then Some (ov - used) else None, h))) of
         (None, h) \<Rightarrow> (None, h)
       | (Some oversize, h) \<Rightarrow>
           (Some \<lparr>oversize_used = used, concat_p = Some (take (unat seglen) (drop (unat used) arg)),
                 tp_pos = used + seglen, tp_queuelen = snd_queuelen p + 1, tp_oversize = oversize,
                 tp_touched = True\<rparr>, h))"
      unfolding tcp_write_tail_def Let_def lu_def [symmetric] ov_def [symmetric]
      unfolding used_def [symmetric] unfolding space_def [symmetric] unfolding seglen_def [symmetric]
      using True \<open>unsent p \<noteq> []\<close> by simp
    from tl obtain ov' h1 where
      al: "(if fl AND TCP_WRITE_FLAG_COPY \<noteq> 0 then tcp_pbuf_prealloc seglen space p fl True h
            else (case alloc h of (ok, h) \<Rightarrow> (if ok then Some (ov - used) else None, h))) = (Some ov', h1)"
      and tp: "tp = \<lparr>oversize_used = used, concat_p = Some (take (unat seglen) (drop (unat used) arg)),
                 tp_pos = used + seglen, tp_queuelen = snd_queuelen p + 1, tp_oversize = ov',
                 tp_touched = True\<rparr>"
      unfolding tl_eq by (auto split: prod.splits option.splits)
    have fl0: "seg_optflags lu = 0" using lu_ok True by (simp add: seg_ok_def)
    have lum: "seg_len lu \<le> mss_local p" using lu_ok by (simp add: seg_ok_def)
    have fit: "unat (seg_len lu) + unat used \<le> unat (mss_local p)"
      using room used(2) lum by (auto simp: word_le_nat_alt used_def)
    have sp: "unat space = unat (mss_local p) - unat (seg_len lu) - unat used"
      using fit lum unfolding space_def fl0 opt0
      by (subst unat_sub_u16) (auto simp: word_le_nat_alt unat_sub_u16)
    have lenu: "unat (len - used) = unat len - unat used" using used(1) by (rule unat_sub_u16)
    have sl: "seglen \<le> space" "unat seglen \<le> unat len - unat used"
      by (auto simp: seglen_def lenu word_less_nat_alt not_less word_le_nat_alt)
    have pos: "unat (used + seglen) = unat used + unat seglen"
      by (rule unat_add_u16) (use sl(2) used(1) unat_u16_less [of len] in \<open>unfold word_le_nat_alt, linarith\<close>)
    have ov': "unat seglen + unat ov' \<le> unat space" "ov' > 0 \<Longrightarrow> seglen < space"
      using al tcp_pbuf_prealloc_room [of seglen space p fl True h ov' h1] sl(1) ovu
      by (auto simp: word_le_nat_alt split: if_splits prod.splits)
    have stop: "ov' = 0" if "used + seglen < len"
    proof (rule ccontr)
      assume "ov' \<noteq> 0"
      then have "seglen < space" using ov'(2) by (simp add: word_neq_0_conv)
      then have "seglen = len - used" by (auto simp: seglen_def split: if_splits)
      with that show False by simp
    qed
    have lc: "length (take (unat seglen) (drop (unat used) arg)) = unat seglen"
      using sl(2) arg used(1) by (simp add: word_le_nat_alt)
    have app: "take (unat used) arg @ take (unat seglen) (drop (unat used) arg) = take (unat (used + seglen)) arg"
      by (simp add: pos take_add)
    have le: "used + seglen \<le> len" "used \<le> used + seglen"
      using pos sl(2) used(1) by (simp_all add: word_le_nat_alt)
    show ?thesis
      unfolding tail_ok_def tp
      using stop q1 lc app le fl0 \<open>unsent p \<noteq> []\<close> ov'(1) sp pos fit True
      by (simp add: lu_def)
  qed
qed

lemma commit_tail_spec:
  assumes tp: "tail_ok p arg len tp" and touched: "tp_touched tp" and ok: "pcb_ok p"
    and arg: "unat len \<le> length arg"
  defines "s \<equiv> last (unsent p)" and "s' \<equiv> commit_tail tp arg (last (unsent p))"
  shows "seg_data s' = seg_data s @ take (unat (tp_pos tp)) arg"
    and "seg_ok (mss_local p) s'" "seg_optflags s' = 0"
    and "unat (seg_len s') = unat (seg_len s) + unat (tp_pos tp)"
    and "length (seg_p s') = length (seg_p s) + (if concat_p tp = None then 0 else 1)"
proof -
  let ?u = "oversize_used tp"
  let ?c = "case concat_p tp of None \<Rightarrow> [] | Some b \<Rightarrow> b"
  have s_ok: "seg_ok (mss_local p) s" "seg_optflags s = 0"
    using ok tp touched by (auto simp: pcb_ok_def tail_ok_def s_def)
  have ne: "seg_p s \<noteq> []" using s_ok by (simp add: seg_ok_def)
  have bytes: "take (unat ?u) arg @ ?c = take (unat (tp_pos tp)) arg"
    using tp by (simp add: tail_ok_def)
  have u0: "?u = 0 \<Longrightarrow> take (unat ?u) arg = []" by simp
  show data: "seg_data s' = seg_data s @ take (unat (tp_pos tp)) arg"
    unfolding bytes [symmetric] s'_def s_def [symmetric] using ne
    by (auto simp: commit_tail_def grow_tail_def chain_pbuf_def seg_data_def concat_update_last
          word_neq_0_conv [symmetric] split: option.splits)
  show opt: "seg_optflags s' = 0"
    using s_ok by (auto simp: s'_def s_def [symmetric] commit_tail_def grow_tail_def chain_pbuf_def
        split: option.splits)
  show len': "unat (seg_len s') = unat (seg_len s) + unat (tp_pos tp)"
  proof -
    have fit: "unat (seg_len s) + unat (tp_pos tp) \<le> unat (mss_local p)"
      using tp touched by (simp add: tail_ok_def s_def)
    have lc: "unat (tp_pos tp) = unat ?u + length ?c" using tp by (simp add: tail_ok_def)
    have "seg_len s' = seg_len s + ?u + of_nat (length ?c)"
      by (auto simp: s'_def s_def [symmetric] commit_tail_def grow_tail_def chain_pbuf_def
          word_neq_0_conv [symmetric] split: option.splits)
    moreover have 1: "unat (seg_len s + ?u) = unat (seg_len s) + unat ?u"
      by (rule unat_add_u16) (use fit lc unat_u16_less [of "mss_local p"] in linarith)
    moreover have 2: "unat (of_nat (length ?c) :: u16) = length ?c"
      by (rule unat_of_nat_u16) (use fit lc unat_u16_less [of "mss_local p"] in linarith)
    moreover have "unat (seg_len s + ?u + of_nat (length ?c)) = unat (seg_len s + ?u) + unat (of_nat (length ?c) :: u16)"
      by (rule unat_add_u16) (unfold 1 2, use fit lc unat_u16_less [of "mss_local p"] in linarith)
    ultimately show ?thesis using lc by simp
  qed
  show "length (seg_p s') = length (seg_p s) + (if concat_p tp = None then 0 else 1)"
    by (auto simp: s'_def s_def [symmetric] commit_tail_def grow_tail_def chain_pbuf_def
        split: option.splits)
  have "tp_pos tp \<le> len" using tp by (simp add: tail_ok_def)
  then have "length (take (unat (tp_pos tp)) arg) = unat (tp_pos tp)"
    using arg by (simp add: word_le_nat_alt)
  moreover have "unat (seg_len s') \<le> unat (mss_local p)"
    using tp touched len' by (simp add: tail_ok_def s_def)
  moreover have "seg_p s' \<noteq> []"
    using ne by (auto simp: s'_def s_def [symmetric] commit_tail_def grow_tail_def chain_pbuf_def
        split: option.splits)
  moreover have "seg_syn_fin s' = seg_syn_fin s"
    by (auto simp: s'_def s_def [symmetric] commit_tail_def grow_tail_def chain_pbuf_def
        seg_syn_fin_def split: option.splits)
  moreover have "seg_len s' \<noteq> 0" if "seg_len s \<noteq> 0"
    using that len' by (metis add_eq_0_iff_both_eq_0 unat_eq_zero)
  ultimately show "seg_ok (mss_local p) s'"
    using s_ok data opt len' by (auto simp: seg_ok_def word_le_nat_alt)
qed

lemma tcp_write_commit_spec:
  fixes fl :: u8
  assumes tp: "tail_ok p arg len tp" and ok: "pcb_ok p" and arg: "unat len \<le> length arg"
    and sg: "segs_added (mss_local p) arg len (tp_pos tp) (tp_queuelen tp) (tp_oversize tp) new q' ov'"
    and buf: "len \<le> snd_buf p"
  defines "p' \<equiv> tcp_write_commit p arg len fl tp q' ov' new"
  shows "tcp_stream p' = tcp_stream p @ take (unat len) arg" and "pcb_ok p'"
    and "unat (snd_buf p') = unat (snd_buf p) - unat len"
proof -
  define segs where "segs = (if tp_touched tp then update_last (commit_tail tp arg) (unsent p) else unsent p)"
  note ct = commit_tail_spec [OF tp _ ok arg]
  have touched_ne: "tp_touched tp \<Longrightarrow> unsent p \<noteq> []" using tp by (simp add: tail_ok_def)
  have segs_eq: "tp_touched tp \<Longrightarrow> segs = butlast (unsent p) @ [commit_tail tp arg (last (unsent p))]"
    using touched_ne by (simp add: segs_def update_last_butlast)
  have uns: "unsent p \<noteq> [] \<Longrightarrow> unsent p = butlast (unsent p) @ [last (unsent p)]" by simp
  have segs_data: "queue_data segs = queue_data (unsent p) @ take (unat (tp_pos tp)) arg"
  proof (cases "tp_touched tp")
    case True
    with uns [OF touched_ne [OF True]] ct(1) show ?thesis
      by (metis append_assoc queue_data_simps segs_eq append_Nil2)
  qed (use tp in \<open>simp add: segs_def tail_ok_def\<close>)
  have segs_clen: "queue_clen segs = queue_clen (unsent p) + (if concat_p tp = None then 0 else 1)"
  proof (cases "tp_touched tp")
    case True
    have "queue_clen (unsent p) = queue_clen (butlast (unsent p)) + length (seg_p (last (unsent p)))"
      by (subst uns [OF touched_ne [OF True]]) simp
    then show ?thesis using True ct(5) by (simp add: segs_eq)
  qed (use tp in \<open>simp add: segs_def tail_ok_def\<close>)
  have segs_ok: "\<forall>s\<in>set segs. seg_ok (mss_local p) s"
    using ok ct(2) segs_eq by (auto simp: pcb_ok_def segs_def dest: in_set_butlastD)
  have rm: "tail_room (mss_local p) (tp_oversize tp) segs"
    using tp ct(3,4) segs_eq by (auto simp: tail_ok_def tail_room_def add.assoc segs_def)
  have p': "unacked p' = unacked p" "snd_queuelen p' = q'" "unsent_oversize p' = ov'"
    "snd_buf p' = snd_buf p - len" "mss_local p' = mss_local p"
    "unsent p' = (if tp_touched tp \<or> new \<noteq> [] then set_psh fl (segs @ new) else segs @ new)"
    by (simp_all add: p'_def tcp_write_commit_def segs_def mss_local_def Let_def)
  have "take (unat (tp_pos tp)) arg @ take (unat len - unat (tp_pos tp)) (drop (unat (tp_pos tp)) arg)
      = take (unat len) arg"
    using tp by (simp add: tail_ok_def word_le_nat_alt flip: take_add)
  moreover have "queue_data (unsent p') = queue_data segs @ queue_data new"
    using p' by simp
  ultimately show "tcp_stream p' = tcp_stream p @ take (unat len) arg"
    using sg segs_data p'(1) by (simp add: tcp_stream_def segs_added_def)
  show "unat (snd_buf p') = unat (snd_buf p) - unat len"
    using p' buf by (simp add: unat_sub_u16)
  have "tail_room (mss_local p) ov' (segs @ new)"
    using rm sg by (auto simp: segs_added_def tail_room_def split: if_splits)
  moreover have "unat q' = queue_clen (unacked p) + queue_clen (segs @ new)"
    using sg tp ok segs_clen by (simp add: segs_added_def tail_ok_def pcb_ok_def)
  ultimately show "pcb_ok p'"
    using segs_ok sg p' ok by (auto simp: pcb_ok_def segs_added_def)
qed

subsection \<open>tcp_write is all or nothing\<close>

lemma tcp_write_checks_cases:
  "tcp_write_checks p len = (err, p') \<Longrightarrow>
     (err = ERR_OK \<and> p' = p \<and> (len = 0 \<or> (len \<le> snd_buf p \<and> snd_queuelen p < TCP_SND_QUEUELEN)))
   \<or> (err = ERR_CONN \<and> p' = p) \<or> (err = ERR_MEM \<and> p' = set_flag TF_NAGLEMEMERR p)"
  by (auto simp: tcp_write_checks_def split: if_splits)

lemma tcp_write_error:
  assumes "tcp_write p arg len fl h = (err, p', h')" "err \<noteq> ERR_OK"
  shows "(p' = p \<and> err = ERR_CONN) \<or> (p' = set_flag TF_NAGLEMEMERR p \<and> err = ERR_MEM)"
  using assms tcp_write_checks_cases [of p len]
  by (auto simp: tcp_write_def split: prod.splits option.splits if_splits)

lemma tcp_write_ok:
  assumes wr: "tcp_write p arg len fl h = (ERR_OK, p', h')"
    and ok: "pcb_ok p" and arg: "unat len \<le> length arg" and pos: "len > 0"
  shows "tcp_stream p' = tcp_stream p @ take (unat len) arg" "pcb_ok p'"
    "unat (snd_buf p') = unat (snd_buf p) - unat len" "len \<le> snd_buf p"
proof -
  from wr obtain tp h1 q' ov' queue where
    ck: "tcp_write_checks p len = (ERR_OK, p)"
    and tl: "tcp_write_tail p (mss_local p) arg len fl h = (Some tp, h1)"
    and sg: "tcp_write_segs p (mss_local p) arg len fl (tp_pos tp) (tp_queuelen tp) (tp_oversize tp) [] h1
               = (Some (q', ov', queue), h')"
    and p': "p' = tcp_write_commit p arg len fl tp q' ov' queue"
    using tcp_write_checks_cases [of p len]
    by (auto simp: tcp_write_def split: prod.splits option.splits if_splits)
  have b: "len \<le> snd_buf p" "snd_queuelen p < TCP_SND_QUEUELEN"
    using tcp_write_checks_cases [OF ck] pos by auto
  note tp = tcp_write_tail_spec [OF tl ok b(2) arg]
  have "segs_added (mss_local p) arg len (tp_pos tp) (tp_queuelen tp) (tp_oversize tp) queue q' ov'"
    using tcp_write_segs_spec [OF sg] tp arg by (auto simp: tail_ok_def)
  note tcp_write_commit_spec [OF tp ok arg this b(1), of fl]
  then show "tcp_stream p' = tcp_stream p @ take (unat len) arg" "pcb_ok p'"
    "unat (snd_buf p') = unat (snd_buf p) - unat len" by (simp_all add: p')
  show "len \<le> snd_buf p" by (rule b)
qed

end
