(* ===== verification/Tcp_Output.thy ===== *)
theory Tcp_Output
  imports Tcp_Out
begin

text \<open>
  The rest of the sending side, \<^verbatim>\<open>lwip/src/core/tcp_out.c\<close>: queueing a FIN, sending what the window
  allows, empty acknowledgements, resets and retransmission. \<open>net\<close> is a connection with the
  memory it allocates from and the frames it has handed to IP.
\<close>

datatype frame =
  Seg_frame tcp_seg u32 u16
| Ack_frame u32 u32 u16
| Rst_frame u32 u32
| Probe_frame u32 bool bytes u32 u16

record net =
  pcb :: tcp_pcb
  net_heap :: heap
  wire :: "frame list"
  pcb_freed :: bool
  in_input :: bool
  tcp_ticks :: u32

definition map_pcb :: "(tcp_pcb \<Rightarrow> tcp_pcb) \<Rightarrow> net \<Rightarrow> net" where
  "map_pcb f n = n\<lparr>pcb := f (pcb n)\<rparr>"

definition ip_output :: "frame \<Rightarrow> net \<Rightarrow> net" where
  "ip_output fr n = n\<lparr>wire := wire n @ [fr]\<rparr>"

text \<open>\<open>TCP_SEQ_LT\<close>: sequence numbers are compared by the sign of their difference.\<close>

definition seq_lt :: "u32 \<Rightarrow> u32 \<Rightarrow> bool" where
  "seq_lt a b \<longleftrightarrow> sint (a - b) < 0"

definition seq_geq :: "u32 \<Rightarrow> u32 \<Rightarrow> bool" where
  "seq_geq a b \<longleftrightarrow> 0 \<le> sint (a - b)"

subsection \<open>FIN and SYN\<close>

definition tcp_enqueue_flags :: "tcp_pcb \<Rightarrow> u8 \<Rightarrow> heap \<Rightarrow> err_t \<times> tcp_pcb \<times> heap" where
  "tcp_enqueue_flags p flags h =
     (if snd_queuelen p \<ge> TCP_SND_QUEUELEN \<or> snd_queuelen p > TCP_SNDQUEUELEN_OVERFLOW
      then (ERR_MEM, set_flag TF_NAGLEMEMERR p, h)
      else
        let optflags = (if flags AND TCP_SYN \<noteq> 0 then TF_SEG_OPTS_MSS else 0) in
        if snd_buf p = 0 then (ERR_MEM, p, h)
        else (case alloc h of
                (False, h) \<Rightarrow> (ERR_MEM, set_flag TF_NAGLEMEMERR p, h)
              | (True, h) \<Rightarrow>
                  (case tcp_create_segment [[]] flags (snd_lbb p) optflags h of
                     (None, h) \<Rightarrow> (ERR_MEM, set_flag TF_NAGLEMEMERR p, h)
                   | (Some seg, h) \<Rightarrow>
                       let p = p\<lparr>unsent := unsent p @ [seg], unsent_oversize := 0\<rparr>;
                           p = (if flags AND TCP_SYN \<noteq> 0 \<or> flags AND TCP_FIN \<noteq> 0
                                then p\<lparr>snd_lbb := snd_lbb p + 1, snd_buf := snd_buf p - 1\<rparr> else p);
                           p = (if flags AND TCP_FIN \<noteq> 0 then set_flag TF_FIN p else p);
                           p = p\<lparr>snd_queuelen := snd_queuelen p + of_nat (length (seg_p seg))\<rparr>
                       in (ERR_OK, p, h))))"

definition tcp_send_fin :: "tcp_pcb \<Rightarrow> heap \<Rightarrow> err_t \<times> tcp_pcb \<times> heap" where
  "tcp_send_fin p h =
     (if unsent p \<noteq> []
         \<and> seg_hdrflags (last (unsent p)) AND (TCP_SYN OR TCP_FIN OR TCP_RST) = 0
      then (ERR_OK, set_flag TF_FIN (p\<lparr>unsent := update_last (set_hdrflag TCP_FIN) (unsent p)\<rparr>), h)
      else tcp_enqueue_flags p TCP_FIN h)"

subsection \<open>Output\<close>

definition tcp_send_empty_ack :: "net \<Rightarrow> err_t \<times> net" where
  "tcp_send_empty_ack n =
     (case alloc (net_heap n) of
        (False, h) \<Rightarrow> (ERR_BUF, n\<lparr>net_heap := h\<rparr>)
      | (True, h) \<Rightarrow>
          let n = n\<lparr>net_heap := h\<rparr>;
              p = pcb n;
              fr = Ack_frame (snd_nxt p) (rcv_nxt p) (rcv_ann_wnd p);
              p = p\<lparr>rcv_ann_right_edge := rcv_nxt p + ucast (rcv_ann_wnd p)\<rparr>;
              p = clear_flag (TF_ACK_DELAY OR TF_ACK_NOW) p
          in (ERR_OK, ip_output fr (n\<lparr>pcb := p\<rparr>)))"

text \<open>
  \<open>tcp_output_segment\<close> for a connection with a local address (every accepted connection
  has one, so the route lookup of the source is not taken).
\<close>

definition tcp_output_segment :: "tcp_seg \<Rightarrow> net \<Rightarrow> net" where
  "tcp_output_segment seg n =
     (let p = pcb n;
          p = p\<lparr>rcv_ann_right_edge := rcv_nxt p + ucast (rcv_ann_wnd p)\<rparr>;
          p = (if rtime p = - 1 then p\<lparr>rtime := 0\<rparr> else p);
          p = (if rttest p = 0 then p\<lparr>rttest := tcp_ticks n, rtseq := seg_seqno seg\<rparr> else p)
      in ip_output (Seg_frame seg (rcv_nxt p) (rcv_ann_wnd p)) (n\<lparr>pcb := p\<rparr>))"

definition tcp_do_output_nagle :: "tcp_pcb \<Rightarrow> bool" where
  "tcp_do_output_nagle p \<longleftrightarrow>
     unacked p = []
   \<or> pcb_flags p AND (TF_NODELAY OR TF_INFR) \<noteq> 0
   \<or> (unsent p \<noteq> [] \<and> (tl (unsent p) \<noteq> [] \<or> seg_len (hd (unsent p)) \<ge> pcb_mss p))
   \<or> snd_buf p = 0 \<or> snd_queuelen p \<ge> TCP_SND_QUEUELEN"

text \<open>The place of a sent segment on the list of unacknowledged ones.\<close>

definition insert_by_seq :: "tcp_seg \<Rightarrow> tcp_seg list \<Rightarrow> tcp_seg list" where
  "insert_by_seq seg q =
     takeWhile (\<lambda>s. seq_lt (seg_seqno s) (seg_seqno seg)) q @ seg
     # dropWhile (\<lambda>s. seq_lt (seg_seqno s) (seg_seqno seg)) q"

definition queue_unacked :: "tcp_seg \<Rightarrow> tcp_seg list \<Rightarrow> tcp_seg list" where
  "queue_unacked seg q =
     (if q = [] then [seg]
      else if seq_lt (seg_seqno seg) (seg_seqno (last q)) then insert_by_seq seg q
      else q @ [seg])"

definition in_window :: "u32 \<Rightarrow> tcp_pcb \<Rightarrow> tcp_seg \<Rightarrow> bool" where
  "in_window wnd p seg \<longleftrightarrow> seg_seqno seg - lastack p + ucast (seg_len seg) \<le> wnd"

text \<open>One turn of the loop of \<open>tcp_output\<close>, for the first unsent segment.\<close>

definition send_first :: "tcp_seg \<Rightarrow> tcp_seg list \<Rightarrow> net \<Rightarrow> net" where
  "send_first seg rest n =
     (let n = map_pcb (\<lambda>p. p\<lparr>unsent := rest\<rparr>) n;
          syn = (pcb_state (pcb n) = SYN_SENT);
          seg = (if syn then seg else set_hdrflag TCP_ACK seg);
          n = (if syn then n else map_pcb (clear_flag (TF_ACK_DELAY OR TF_ACK_NOW)) n);
          n = tcp_output_segment seg n;
          nxt = seg_seqno seg + tcplen seg;
          n = map_pcb (\<lambda>p. if seq_lt (snd_nxt p) nxt then p\<lparr>snd_nxt := nxt\<rparr> else p) n
      in if tcplen seg > 0
         then map_pcb (\<lambda>p. p\<lparr>unacked := queue_unacked seg (unacked p)\<rparr>) n else n)"

fun tcp_output_loop :: "u32 \<Rightarrow> tcp_seg list \<Rightarrow> net \<Rightarrow> net" where
  "tcp_output_loop wnd [] n = n"
| "tcp_output_loop wnd (seg # rest) n =
     (if \<not> in_window wnd (pcb n) seg then n
      else if \<not> tcp_do_output_nagle (pcb n) \<and> pcb_flags (pcb n) AND (TF_NAGLEMEMERR OR TF_FIN) = 0
      then n
      else tcp_output_loop wnd rest (send_first seg rest n))"

definition tcp_output :: "net \<Rightarrow> err_t \<times> net" where
  "tcp_output n =
     (if in_input n then (ERR_OK, n)
      else
        let p = pcb n;
            wnd = ucast (min (snd_wnd p) (cwnd p)) :: u32
        in if pcb_flags p AND TF_ACK_NOW \<noteq> 0
              \<and> (unsent p = [] \<or> \<not> in_window wnd p (hd (unsent p)))
           then tcp_send_empty_ack n
           else
             let n = tcp_output_loop wnd (unsent p) n;
                 n = (if unsent (pcb n) = [] then map_pcb (\<lambda>p. p\<lparr>unsent_oversize := 0\<rparr>) n else n)
             in (ERR_OK, map_pcb (clear_flag TF_NAGLEMEMERR) n))"

definition tcp_rst :: "u32 \<Rightarrow> u32 \<Rightarrow> net \<Rightarrow> net" where
  "tcp_rst seqno ackno n =
     (case alloc (net_heap n) of
        (False, h) \<Rightarrow> n\<lparr>net_heap := h\<rparr>
      | (True, h) \<Rightarrow> ip_output (Rst_frame seqno ackno) (n\<lparr>net_heap := h\<rparr>))"

subsection \<open>Retransmission\<close>

definition tcp_rexmit_rto :: "net \<Rightarrow> net" where
  "tcp_rexmit_rto n =
     (if unacked (pcb n) = [] then n
      else snd (tcp_output (map_pcb (\<lambda>p. p\<lparr>unsent := unacked p @ unsent p, unacked := [],
                                          nrtx := nrtx p + 1, rttest := 0\<rparr>) n)))"

definition tcp_rexmit :: "tcp_pcb \<Rightarrow> tcp_pcb" where
  "tcp_rexmit p =
     (case unacked p of
        [] \<Rightarrow> p
      | seg # rest \<Rightarrow>
          let next = dropWhile (\<lambda>s. seq_lt (seg_seqno s) (seg_seqno seg)) (unsent p);
              p = p\<lparr>unacked := rest, unsent := insert_by_seq seg (unsent p)\<rparr>;
              p = (if next = [] then p\<lparr>unsent_oversize := 0\<rparr> else p)
          in p\<lparr>nrtx := nrtx p + 1, rttest := 0\<rparr>)"

definition tcp_rexmit_fast :: "tcp_pcb \<Rightarrow> tcp_pcb" where
  "tcp_rexmit_fast p =
     (if unacked p \<noteq> [] \<and> pcb_flags p AND TF_INFR = 0 then
        let p = tcp_rexmit p;
            p = p\<lparr>ssthresh := (if cwnd p > snd_wnd p then snd_wnd p div 2 else cwnd p div 2)\<rparr>;
            p = (if unat (ssthresh p) < 2 * unat (pcb_mss p) then p\<lparr>ssthresh := 2 * pcb_mss p\<rparr> else p);
            p = p\<lparr>cwnd := ssthresh p + 3 * pcb_mss p\<rparr>
        in set_flag TF_INFR p
      else p)"


subsection \<open>The queues stay well-formed\<close>

lemma pcb_ok_fields [simp]:
  "pcb_ok (p\<lparr>rcv_ann_right_edge := a\<rparr>) = pcb_ok p" "pcb_ok (p\<lparr>rtime := t\<rparr>) = pcb_ok p"
  "pcb_ok (p\<lparr>rttest := u, rtseq := v\<rparr>) = pcb_ok p" "pcb_ok (p\<lparr>snd_nxt := w\<rparr>) = pcb_ok p"
  "pcb_ok (p\<lparr>rcv_ann_wnd := x\<rparr>) = pcb_ok p" "pcb_ok (p\<lparr>rcv_wnd := x\<rparr>) = pcb_ok p"
  "pcb_ok (p\<lparr>ssthresh := y\<rparr>) = pcb_ok p" "pcb_ok (p\<lparr>cwnd := z\<rparr>) = pcb_ok p"
  "pcb_ok (p\<lparr>nrtx := r, rttest := u\<rparr>) = pcb_ok p" "pcb_ok (p\<lparr>pcb_state := st\<rparr>) = pcb_ok p"
  by (simp_all add: pcb_ok_def mss_local_def)

lemma tcp_stream_fields [simp]:
  "tcp_stream (p\<lparr>rcv_ann_right_edge := a\<rparr>) = tcp_stream p" "tcp_stream (p\<lparr>rtime := t\<rparr>) = tcp_stream p"
  "tcp_stream (p\<lparr>rttest := u, rtseq := v\<rparr>) = tcp_stream p" "tcp_stream (p\<lparr>snd_nxt := w\<rparr>) = tcp_stream p"
  "tcp_stream (p\<lparr>rcv_ann_wnd := x\<rparr>) = tcp_stream p" "tcp_stream (p\<lparr>rcv_wnd := x\<rparr>) = tcp_stream p"
  "tcp_stream (p\<lparr>pcb_state := st\<rparr>) = tcp_stream p" "tcp_stream (p\<lparr>unsent_oversize := ov\<rparr>) = tcp_stream p"
  by (simp_all add: tcp_stream_def)

lemma map_pcb_simps [simp]:
  "pcb (map_pcb f n) = f (pcb n)" "net_heap (map_pcb f n) = net_heap n" "wire (map_pcb f n) = wire n"
  "pcb_freed (map_pcb f n) = pcb_freed n" "in_input (map_pcb f n) = in_input n"
  by (simp_all add: map_pcb_def)

lemma ip_output_simps [simp]:
  "pcb (ip_output fr n) = pcb n" "pcb_freed (ip_output fr n) = pcb_freed n"
  "wire (ip_output fr n) = wire n @ [fr]"
  by (simp_all add: ip_output_def)

lemma tail_room_0 [simp]: "tail_room m 0 q"
  by (simp add: tail_room_def)

lemma pcb_ok_oversize_0: "pcb_ok p \<Longrightarrow> pcb_ok (p\<lparr>unsent_oversize := 0\<rparr>)"
  by (simp add: pcb_ok_def mss_local_def)

lemma tcp_enqueue_flags_ok:
  assumes "tcp_enqueue_flags p flags h = (err, p', h')" "pcb_ok p"
    "flags AND (TCP_FIN OR TCP_SYN) \<noteq> 0"
  shows "pcb_ok p'" "tcp_stream p' = tcp_stream p" "err = ERR_OK \<or> err = ERR_MEM"
proof -
  have q: "unat (snd_queuelen p + 1) = unat (snd_queuelen p) + 1" "snd_queuelen p + 1 \<le> TCP_SND_QUEUELEN"
    if "\<not> snd_queuelen p \<ge> TCP_SND_QUEUELEN"
    using that queuelen_add [of "snd_queuelen p" 1]
    by (auto simp: TCP_SND_QUEUELEN_def word_le_nat_alt word_less_nat_alt unat_word_ariths)
  have "(\<exists>s. err = ERR_OK \<and> unsent p' = unsent p @ [s] \<and> seg_p s = [[]] \<and> seg_len s = 0 \<and> seg_syn_fin s
          \<and> snd_queuelen p' = snd_queuelen p + 1 \<and> mss_local p' = mss_local p
          \<and> unacked p' = unacked p \<and> unsent_oversize p' = 0 \<and> \<not> snd_queuelen p \<ge> TCP_SND_QUEUELEN)
      \<or> (err = ERR_MEM \<and> (p' = p \<or> p' = set_flag TF_NAGLEMEMERR p))"
    using assms(1,3)
    by (auto simp: tcp_enqueue_flags_def tcp_create_segment_def Let_def set_flag_def seg_syn_fin_def
          mss_local_def split: if_splits prod.splits bool.splits option.splits)
  then have "pcb_ok p' \<and> tcp_stream p' = tcp_stream p \<and> (err = ERR_OK \<or> err = ERR_MEM)"
    using assms(2) q by (auto simp: pcb_ok_def tcp_stream_def seg_ok_def seg_data_def)
  then show "pcb_ok p'" "tcp_stream p' = tcp_stream p" "err = ERR_OK \<or> err = ERR_MEM" by auto
qed

lemma tcp_send_fin_ok:
  assumes "tcp_send_fin p h = (err, p', h')" "pcb_ok p"
  shows "pcb_ok p'" "tcp_stream p' = tcp_stream p" "err = ERR_OK \<or> err = ERR_MEM"
proof -
  have fin: "TCP_FIN AND (TCP_FIN OR TCP_SYN) \<noteq> 0" by (simp add: TCP_FIN_def TCP_SYN_def)
  have "pcb_ok p' \<and> tcp_stream p' = tcp_stream p \<and> (err = ERR_OK \<or> err = ERR_MEM)"
  proof (cases "unsent p \<noteq> [] \<and> seg_hdrflags (last (unsent p)) AND (TCP_SYN OR TCP_FIN OR TCP_RST) = 0")
    case True
    then obtain us s where us: "unsent p = us @ [s]" by (cases "unsent p" rule: rev_cases) auto
    from True us assms(1) have "p' = set_flag TF_FIN (p\<lparr>unsent := us @ [set_hdrflag TCP_FIN s]\<rparr>)" "err = ERR_OK"
      by (auto simp: tcp_send_fin_def)
    moreover have "pcb_ok (p\<lparr>unsent := us @ [set_hdrflag TCP_FIN s]\<rparr>)"
      using assms(2) us by (auto simp: pcb_ok_def mss_local_def seg_ok_hdrflag tail_room_def)
    moreover have "tcp_stream (p\<lparr>unsent := us @ [set_hdrflag TCP_FIN s]\<rparr>) = tcp_stream p"
      using us by (simp add: tcp_stream_def seg_data_def)
    ultimately show ?thesis by simp
  next
    case False
    then have "tcp_enqueue_flags p TCP_FIN h = (err, p', h')"
      using assms(1) by (auto simp: tcp_send_fin_def)
    from tcp_enqueue_flags_ok [OF this assms(2) fin] show ?thesis by simp
  qed
  then show "pcb_ok p'" "tcp_stream p' = tcp_stream p" "err = ERR_OK \<or> err = ERR_MEM" by auto
qed

lemma insert_by_seq_set: "set (insert_by_seq s q) = insert s (set q)"
proof -
  have "set q = set (takeWhile (\<lambda>t. seq_lt (seg_seqno t) (seg_seqno s)) q)
      \<union> set (dropWhile (\<lambda>t. seq_lt (seg_seqno t) (seg_seqno s)) q)"
    by (metis set_append takeWhile_dropWhile_id)
  then show ?thesis by (simp add: insert_by_seq_def)
qed

lemma queue_unacked_set: "set (queue_unacked s q) = insert s (set q)"
  by (simp add: queue_unacked_def insert_by_seq_set)

lemma insert_by_seq_clen: "queue_clen (insert_by_seq s q) = length (seg_p s) + queue_clen q"
proof -
  have "queue_clen q = queue_clen (takeWhile (\<lambda>t. seq_lt (seg_seqno t) (seg_seqno s)) q)
      + queue_clen (dropWhile (\<lambda>t. seq_lt (seg_seqno t) (seg_seqno s)) q)"
    by (metis queue_clen_simps(3) takeWhile_dropWhile_id)
  then show ?thesis by (simp add: insert_by_seq_def)
qed

lemma queue_unacked_clen: "queue_clen (queue_unacked s q) = length (seg_p s) + queue_clen q"
  by (simp add: queue_unacked_def insert_by_seq_clen)

lemma tcplen_pos: "seg_ok m s \<Longrightarrow> tcplen s > 0"
proof -
  assume "seg_ok m s"
  then have "seg_len s \<noteq> 0 \<or> seg_syn_fin s" by (simp add: seg_ok_def)
  moreover have "unat (tcplen s) = unat (seg_len s) + (if seg_syn_fin s then 1 else 0)"
  proof -
    have "unat (ucast (seg_len s) :: u32) = unat (seg_len s)" by (rule unat_ucast_u16)
    moreover have "unat (seg_len s) + 1 < 4294967296"
      using unat_u16_less [of "seg_len s"] by linarith
    ultimately show ?thesis by (simp add: tcplen_def unat_word_ariths)
  qed
  ultimately have "unat (tcplen s) \<noteq> 0" by (auto simp: unat_eq_zero)
  then show ?thesis by (auto simp: word_gt_0)
qed


text \<open>
  What sending does not change: the negotiated sizes, the send buffer, the length of the
  queues, and the state of the connection.
\<close>

definition same_limits :: "tcp_pcb \<Rightarrow> tcp_pcb \<Rightarrow> bool" where
  "same_limits p p' \<longleftrightarrow> pcb_mss p' = pcb_mss p \<and> snd_wnd_max p' = snd_wnd_max p
     \<and> snd_buf p' = snd_buf p \<and> snd_queuelen p' = snd_queuelen p \<and> pcb_state p' = pcb_state p
     \<and> rcv_wnd p' = rcv_wnd p \<and> callback_arg p' = callback_arg p \<and> refused_data p' = refused_data p"

lemma same_limits_refl [simp]: "same_limits p p"
  by (simp add: same_limits_def)

lemma same_limits_trans: "same_limits p q \<Longrightarrow> same_limits q r \<Longrightarrow> same_limits p r"
  by (simp add: same_limits_def)

lemma same_limits_mss: "same_limits p p' \<Longrightarrow> mss_local p' = mss_local p"
  by (simp add: same_limits_def mss_local_def)

text \<open>Segments are numbered upwards: no queued segment precedes one that is before it.\<close>

definition in_order :: "tcp_pcb \<Rightarrow> bool" where
  "in_order p \<longleftrightarrow> sorted_wrt (\<lambda>s t. \<not> seq_lt (seg_seqno t) (seg_seqno s)) (unacked p @ unsent p)"

text \<open>The pcb inside the loop of \<open>tcp_output\<close>: the room is reset only after the loop.\<close>

definition fix_oversize :: "tcp_pcb \<Rightarrow> tcp_pcb" where
  "fix_oversize p = (if unsent p = [] then p\<lparr>unsent_oversize := 0\<rparr> else p)"

lemma tcplen_ack [simp]: "tcplen (set_hdrflag TCP_ACK s) = tcplen s"
  by (simp add: tcplen_def)

lemma send_first_pcb:
  assumes "tcplen seg > 0"
  obtains seg' where "unsent (pcb (send_first seg rest n)) = rest"
    "unacked (pcb (send_first seg rest n)) = queue_unacked seg' (unacked (pcb n))"
    "seg' = seg \<or> seg' = set_hdrflag TCP_ACK seg"
    "unsent_oversize (pcb (send_first seg rest n)) = unsent_oversize (pcb n)"
    "same_limits (pcb n) (pcb (send_first seg rest n))"
    "pcb_freed (send_first seg rest n) = pcb_freed n"
proof
  let ?s = "if pcb_state (pcb n) = SYN_SENT then seg else set_hdrflag TCP_ACK seg"
  show "?s = seg \<or> ?s = set_hdrflag TCP_ACK seg" by simp
  show "unsent (pcb (send_first seg rest n)) = rest"
    "unacked (pcb (send_first seg rest n)) = queue_unacked ?s (unacked (pcb n))"
    "unsent_oversize (pcb (send_first seg rest n)) = unsent_oversize (pcb n)"
    "same_limits (pcb n) (pcb (send_first seg rest n))"
    "pcb_freed (send_first seg rest n) = pcb_freed n"
    using assms
    by (simp_all add: send_first_def Let_def tcp_output_segment_def clear_flag_def same_limits_def)
qed

lemma send_first_ok:
  assumes "pcb_ok (fix_oversize (pcb n))" "unsent (pcb n) = seg # rest"
  shows "pcb_ok (fix_oversize (pcb (send_first seg rest n)))"
    and "same_limits (pcb n) (pcb (send_first seg rest n))"
    and "pcb_freed (send_first seg rest n) = pcb_freed n"
    and "in_order (pcb n) \<Longrightarrow> in_order (pcb (send_first seg rest n))
           \<and> tcp_stream (pcb (send_first seg rest n)) = tcp_stream (pcb n)"
proof -
  have ok: "pcb_ok (pcb n)" "seg_ok (mss_local (pcb n)) seg"
    using assms by (auto simp: fix_oversize_def pcb_ok_def)
  obtain seg' where f: "unsent (pcb (send_first seg rest n)) = rest"
    "unacked (pcb (send_first seg rest n)) = queue_unacked seg' (unacked (pcb n))"
    "seg' = seg \<or> seg' = set_hdrflag TCP_ACK seg"
    "unsent_oversize (pcb (send_first seg rest n)) = unsent_oversize (pcb n)"
    "same_limits (pcb n) (pcb (send_first seg rest n))"
    "pcb_freed (send_first seg rest n) = pcb_freed n"
    by (rule send_first_pcb [OF tcplen_pos [OF ok(2)]])
  show "same_limits (pcb n) (pcb (send_first seg rest n))"
    "pcb_freed (send_first seg rest n) = pcb_freed n" by (rule f)+
  have seg': "seg_ok (mss_local (pcb n)) seg'" "seg_p seg' = seg_p seg" "seg_seqno seg' = seg_seqno seg"
    "seg_data seg' = seg_data seg"
    using f(3) ok(2) by (auto simp: seg_ok_hdrflag seg_data_def)
  have "tail_room (mss_local (pcb n)) (unsent_oversize (pcb n)) rest" if "rest \<noteq> []"
    using ok(1) assms(2) that by (auto simp: pcb_ok_def tail_room_def)
  then show "pcb_ok (fix_oversize (pcb (send_first seg rest n)))"
    using ok(1) assms(2) f seg' same_limits_mss [OF f(5)]
    by (auto simp: pcb_ok_def fix_oversize_def queue_unacked_set queue_unacked_clen same_limits_def
          mss_local_def)
  assume io: "in_order (pcb n)"
  have "\<forall>u\<in>set (unacked (pcb n)). \<not> seq_lt (seg_seqno seg) (seg_seqno u)"
    using io assms(2) by (auto simp: in_order_def sorted_wrt_append)
  then have "queue_unacked seg' (unacked (pcb n)) = unacked (pcb n) @ [seg']"
    using seg'(3) by (simp add: queue_unacked_def)
  then show "in_order (pcb (send_first seg rest n))
           \<and> tcp_stream (pcb (send_first seg rest n)) = tcp_stream (pcb n)"
    using io f assms(2) seg' by (auto simp: in_order_def tcp_stream_def sorted_wrt_append)
qed

lemma tcp_output_loop_ok:
  assumes "pcb_ok (fix_oversize (pcb n))" "unsent (pcb n) = q"
  shows "pcb_ok (fix_oversize (pcb (tcp_output_loop wnd q n)))
       \<and> same_limits (pcb n) (pcb (tcp_output_loop wnd q n))
       \<and> pcb_freed (tcp_output_loop wnd q n) = pcb_freed n
       \<and> (in_order (pcb n) \<longrightarrow> in_order (pcb (tcp_output_loop wnd q n))
            \<and> tcp_stream (pcb (tcp_output_loop wnd q n)) = tcp_stream (pcb n))"
  using assms
proof (induction wnd q n rule: tcp_output_loop.induct)
  case (2 wnd seg rest n)
  have tl: "unsent (pcb (send_first seg rest n)) = rest"
    by (simp add: send_first_def Let_def tcp_output_segment_def clear_flag_def)
  note s = send_first_ok [OF 2(2,3)]
  show ?case
  proof (cases "\<not> in_window wnd (pcb n) seg \<or> (\<not> tcp_do_output_nagle (pcb n)
      \<and> pcb_flags (pcb n) AND (TF_NAGLEMEMERR OR TF_FIN) = 0)")
    case True
    then show ?thesis using 2(2) by auto
  next
    case False
    with 2(1) [OF _ _ s(1) tl] s same_limits_trans show ?thesis by auto
  qed
qed simp

lemma tcp_send_empty_ack_ok:
  assumes "tcp_send_empty_ack n = (err, n')" "pcb_ok (pcb n)"
  shows "pcb_ok (pcb n')" "same_limits (pcb n) (pcb n')" "pcb_freed n' = pcb_freed n"
    "tcp_stream (pcb n') = tcp_stream (pcb n)"
  using assms
  by (auto simp: tcp_send_empty_ack_def Let_def same_limits_def clear_flag_def pcb_ok_def
      mss_local_def tcp_stream_def split: prod.splits bool.splits)

lemma tcp_output_ok:
  assumes out: "tcp_output n = (err, n')" and ok: "pcb_ok (pcb n)"
  shows "pcb_ok (pcb n')" "same_limits (pcb n) (pcb n')" "pcb_freed n' = pcb_freed n"
    "in_order (pcb n) \<Longrightarrow> tcp_stream (pcb n') = tcp_stream (pcb n)"
proof -
  let ?wnd = "ucast (min (snd_wnd (pcb n)) (cwnd (pcb n))) :: u32"
  let ?m = "tcp_output_loop ?wnd (unsent (pcb n)) n"
  have fo: "fix_oversize (pcb n) = pcb n \<or> pcb_ok (fix_oversize (pcb n))"
    using ok pcb_ok_oversize_0 by (auto simp: fix_oversize_def)
  then have lp: "pcb_ok (fix_oversize (pcb ?m))" "same_limits (pcb n) (pcb ?m)" "pcb_freed ?m = pcb_freed n"
    "in_order (pcb n) \<Longrightarrow> tcp_stream (pcb ?m) = tcp_stream (pcb n)"
    using tcp_output_loop_ok [of n "unsent (pcb n)" ?wnd] ok by auto
  have loop: "n' = map_pcb (clear_flag TF_NAGLEMEMERR) (map_pcb fix_oversize ?m)"
    if "\<not> in_input n" "\<not> (pcb_flags (pcb n) AND TF_ACK_NOW \<noteq> 0
              \<and> (unsent (pcb n) = [] \<or> \<not> in_window ?wnd (pcb n) (hd (unsent (pcb n)))))"
    using out that by (auto simp: tcp_output_def Let_def map_pcb_def fix_oversize_def)
  have "pcb_ok (pcb n') \<and> same_limits (pcb n) (pcb n') \<and> pcb_freed n' = pcb_freed n
      \<and> (in_order (pcb n) \<longrightarrow> tcp_stream (pcb n') = tcp_stream (pcb n))"
  proof (cases "in_input n")
    case True
    with out ok show ?thesis by (simp add: tcp_output_def)
  next
    case False
    show ?thesis
    proof (cases "pcb_flags (pcb n) AND TF_ACK_NOW \<noteq> 0
              \<and> (unsent (pcb n) = [] \<or> \<not> in_window ?wnd (pcb n) (hd (unsent (pcb n))))")
      case True
      with False out have "tcp_send_empty_ack n = (err, n')" by (simp add: tcp_output_def Let_def)
      from tcp_send_empty_ack_ok [OF this ok] show ?thesis by simp
    next
      case c: False
      from loop [OF False c] lp show ?thesis
        by (auto simp: same_limits_def fix_oversize_def clear_flag_def pcb_ok_def mss_local_def tcp_stream_def
            split: if_splits)
    qed
  qed
  then show "pcb_ok (pcb n')" "same_limits (pcb n) (pcb n')" "pcb_freed n' = pcb_freed n"
    "in_order (pcb n) \<Longrightarrow> tcp_stream (pcb n') = tcp_stream (pcb n)" by auto
qed

end
