(* ===== verification/Tcp.thy ===== *)
theory Tcp
  imports Tcp_Output
begin

text \<open>
  The part of \<^verbatim>\<open>lwip/src/core/tcp.c\<close> an application calls: closing and aborting a connection,
  acknowledging received data, setting the callbacks; and the retransmission operations of
  \<^verbatim>\<open>tcp_out.c\<close> keep the queues well-formed. The lists of pcbs are not modelled: \<open>pcb_freed\<close>
  says that the pcb has gone back to its pool.
\<close>

definition TCP_WND :: u16 where "TCP_WND = 2920"
definition TCP_WND_UPDATE_THRESHOLD :: u16 where "TCP_WND_UPDATE_THRESHOLD = TCP_WND div 4"

subsection \<open>Callbacks and priorities\<close>

definition tcp_arg :: "tcp_pcb \<Rightarrow> bool \<Rightarrow> tcp_pcb" where
  "tcp_arg p a = p\<lparr>callback_arg := a\<rparr>"
definition tcp_recv :: "tcp_pcb \<Rightarrow> bool \<Rightarrow> tcp_pcb" where
  "tcp_recv p f = p\<lparr>recv_cb := f\<rparr>"
definition tcp_sent :: "tcp_pcb \<Rightarrow> bool \<Rightarrow> tcp_pcb" where
  "tcp_sent p f = p\<lparr>sent_cb := f\<rparr>"
definition tcp_err :: "tcp_pcb \<Rightarrow> bool \<Rightarrow> tcp_pcb" where
  "tcp_err p f = p\<lparr>err_cb := f\<rparr>"
definition tcp_poll :: "tcp_pcb \<Rightarrow> bool \<Rightarrow> u8 \<Rightarrow> tcp_pcb" where
  "tcp_poll p f interval = p\<lparr>poll_cb := f, pollinterval := interval\<rparr>"

subsection \<open>Closing\<close>

definition tcp_pcb_purge :: "tcp_pcb \<Rightarrow> tcp_pcb" where
  "tcp_pcb_purge p =
     (if pcb_state p \<noteq> CLOSED \<and> pcb_state p \<noteq> TIME_WAIT \<and> pcb_state p \<noteq> LISTEN
      then p\<lparr>refused_data := None, rtime := - 1, unsent := [], unacked := [], unsent_oversize := 0\<rparr>
      else p)"

definition tcp_pcb_remove :: "net \<Rightarrow> net" where
  "tcp_pcb_remove n =
     (let n = map_pcb tcp_pcb_purge n;
          n = (if pcb_state (pcb n) \<noteq> TIME_WAIT \<and> pcb_state (pcb n) \<noteq> LISTEN
                  \<and> pcb_flags (pcb n) AND TF_ACK_DELAY \<noteq> 0
               then snd (tcp_output (map_pcb (set_flag TF_ACK_NOW) n)) else n)
      in map_pcb (\<lambda>p. p\<lparr>pcb_state := CLOSED\<rparr>) n)"

definition memp_free_pcb :: "net \<Rightarrow> net" where
  "memp_free_pcb n = n\<lparr>pcb_freed := True\<rparr>"

definition send_fin_to :: "tcp_state \<Rightarrow> net \<Rightarrow> err_t \<times> net" where
  "send_fin_to st n =
     (case tcp_send_fin (pcb n) (net_heap n) of
        (err, p, h) \<Rightarrow>
          let n = n\<lparr>pcb := p, net_heap := h\<rparr>
          in if err = ERR_OK
             then (ERR_OK, snd (tcp_output (map_pcb (\<lambda>p. p\<lparr>pcb_state := st\<rparr>) n)))
             else (err, n))"

definition tcp_close_shutdown :: "net \<Rightarrow> bool \<Rightarrow> err_t \<times> net" where
  "tcp_close_shutdown n rst_on_unacked_data =
     (let p = pcb n in
      if rst_on_unacked_data \<and> (pcb_state p = ESTABLISHED \<or> pcb_state p = CLOSE_WAIT)
         \<and> (refused_data p \<noteq> None \<or> rcv_wnd p \<noteq> TCP_WND)
      then
        let n = tcp_rst (snd_nxt p) (rcv_nxt p) n;
            n = map_pcb tcp_pcb_purge n
        in (ERR_OK, if pcb_state (pcb n) = ESTABLISHED
                    then map_pcb (\<lambda>p. p\<lparr>pcb_state := TIME_WAIT\<rparr>) n else memp_free_pcb n)
      else
        (case pcb_state p of
           CLOSED \<Rightarrow> (ERR_OK, memp_free_pcb n)
         | LISTEN \<Rightarrow> (ERR_OK, memp_free_pcb (tcp_pcb_remove n))
         | SYN_SENT \<Rightarrow> (ERR_OK, memp_free_pcb (tcp_pcb_remove n))
         | SYN_RCVD \<Rightarrow> send_fin_to FIN_WAIT_1 n
         | ESTABLISHED \<Rightarrow> send_fin_to FIN_WAIT_1 n
         | CLOSE_WAIT \<Rightarrow> send_fin_to LAST_ACK n
         | _ \<Rightarrow> (ERR_OK, n)))"

definition tcp_close :: "net \<Rightarrow> err_t \<times> net" where
  "tcp_close n =
     tcp_close_shutdown
       (if pcb_state (pcb n) \<noteq> LISTEN then map_pcb (set_flag TF_RXCLOSED) n else n) True"

definition tcp_shutdown :: "net \<Rightarrow> bool \<Rightarrow> bool \<Rightarrow> err_t \<times> net" where
  "tcp_shutdown n shut_rx shut_tx =
     (if pcb_state (pcb n) = LISTEN then (ERR_CONN, n)
      else
        let n = (if shut_rx then map_pcb (set_flag TF_RXCLOSED) n else n)
        in if shut_rx \<and> shut_tx then tcp_close_shutdown n True
           else
             let n = (if shut_rx then map_pcb (\<lambda>p. p\<lparr>refused_data := None\<rparr>) n else n)
             in if shut_tx then
                  (if pcb_state (pcb n) = SYN_RCVD \<or> pcb_state (pcb n) = ESTABLISHED
                      \<or> pcb_state (pcb n) = CLOSE_WAIT
                   then tcp_close_shutdown n shut_rx else (ERR_CONN, n))
                else (ERR_OK, n))"

text \<open>
  \<open>tcp_abandon\<close>: the result also says whether the error callback is to be called (it is
  set) and with which argument.
\<close>

definition tcp_abandon :: "net \<Rightarrow> bool \<Rightarrow> net \<times> bool option" where
  "tcp_abandon n reset =
     (if pcb_state (pcb n) = TIME_WAIT then (memp_free_pcb (tcp_pcb_remove n), None)
      else
        let seqno = snd_nxt (pcb n);
            ackno = rcv_nxt (pcb n);
            errf = err_cb (pcb n);
            errf_arg = callback_arg (pcb n);
            n = tcp_pcb_remove n;
            n = map_pcb (\<lambda>p. p\<lparr>unacked := [], unsent := []\<rparr>) n;
            n = (if reset then tcp_rst seqno ackno n else n)
        in (memp_free_pcb n, if errf then Some errf_arg else None))"

definition tcp_abort :: "net \<Rightarrow> net \<times> bool option" where
  "tcp_abort n = tcp_abandon n True"

subsection \<open>The receive window\<close>

definition seq_gt :: "u32 \<Rightarrow> u32 \<Rightarrow> bool" where
  "seq_gt a b \<longleftrightarrow> 0 < sint (a - b)"

definition tcp_update_rcv_ann_wnd :: "tcp_pcb \<Rightarrow> u32 \<times> tcp_pcb" where
  "tcp_update_rcv_ann_wnd p =
     (let new_right_edge = rcv_nxt p + ucast (rcv_wnd p)
      in if seq_geq new_right_edge (rcv_ann_right_edge p + ucast (min (TCP_WND div 2) (pcb_mss p)))
         then (new_right_edge - rcv_ann_right_edge p, p\<lparr>rcv_ann_wnd := rcv_wnd p\<rparr>)
         else if seq_gt (rcv_nxt p) (rcv_ann_right_edge p)
         then (0, p\<lparr>rcv_ann_wnd := 0\<rparr>)
         else (0, p\<lparr>rcv_ann_wnd := ucast (rcv_ann_right_edge p - rcv_nxt p)\<rparr>))"

text \<open>
  The assertion that \<open>len\<close> does not wrap \<open>rcv_wnd\<close> is not in the model: the callers pass the length of received
  data, by which \<open>rcv_wnd\<close> was lowered from at most \<open>TCP_WND\<close> when it was taken, so the sum stays below \<open>TCP_WND\<close>.
\<close>

definition tcp_recved :: "net \<Rightarrow> u16 \<Rightarrow> net" where
  "tcp_recved n len =
     (let n = map_pcb (\<lambda>p. p\<lparr>rcv_wnd := rcv_wnd p + len\<rparr>) n;
          n = (if rcv_wnd (pcb n) > TCP_WND then map_pcb (\<lambda>p. p\<lparr>rcv_wnd := TCP_WND\<rparr>) n else n)
      in case tcp_update_rcv_ann_wnd (pcb n) of
           (wnd_inflation, p) \<Rightarrow>
             let n = n\<lparr>pcb := p\<rparr>
             in if sint wnd_inflation \<ge> sint (ucast TCP_WND_UPDATE_THRESHOLD :: u32)
                then snd (tcp_output (map_pcb (set_flag TF_ACK_NOW) n)) else n)"

subsection \<open>Lemmas\<close>

lemma callback_setters [simp]:
  "pcb_ok (tcp_arg p a) = pcb_ok p" "pcb_ok (tcp_recv p f) = pcb_ok p" "pcb_ok (tcp_sent p f) = pcb_ok p"
  "pcb_ok (tcp_err p f) = pcb_ok p" "pcb_ok (tcp_poll p f i) = pcb_ok p"
  "tcp_stream (tcp_arg p a) = tcp_stream p" "tcp_stream (tcp_recv p f) = tcp_stream p"
  "tcp_stream (tcp_sent p f) = tcp_stream p" "tcp_stream (tcp_err p f) = tcp_stream p"
  "tcp_stream (tcp_poll p f i) = tcp_stream p"
  by (simp_all add: tcp_arg_def tcp_recv_def tcp_sent_def tcp_err_def tcp_poll_def pcb_ok_def
      mss_local_def tcp_stream_def)

lemma tcp_rst_simps [simp]: "pcb (tcp_rst s a n) = pcb n" "pcb_freed (tcp_rst s a n) = pcb_freed n"
  by (auto simp: tcp_rst_def split: prod.splits bool.splits)

lemma send_fin_to_ok:
  assumes "send_fin_to st n = (err, n')" "pcb_ok (pcb n)"
  shows "pcb_ok (pcb n')" "pcb_freed n' = pcb_freed n" "err = ERR_OK \<or> err = ERR_MEM"
    "err = ERR_OK \<Longrightarrow> pcb_state (pcb n') = st"
    "err \<noteq> ERR_OK \<Longrightarrow> tcp_stream (pcb n') = tcp_stream (pcb n)"
proof -
  obtain e p h where f: "tcp_send_fin (pcb n) (net_heap n) = (e, p, h)" by (cases "tcp_send_fin (pcb n) (net_heap n)")
  note fin = tcp_send_fin_ok [OF f assms(2)]
  obtain e2 n2 where o: "tcp_output (map_pcb (\<lambda>p. p\<lparr>pcb_state := st\<rparr>) (n\<lparr>pcb := p, net_heap := h\<rparr>)) = (e2, n2)"
    by fastforce
  have "pcb_ok (pcb n2)" "pcb_freed n2 = pcb_freed n" "pcb_state (pcb n2) = st"
    using tcp_output_ok [OF o] fin(1) by (auto simp: same_limits_def)
  then show "pcb_ok (pcb n')" "pcb_freed n' = pcb_freed n" "err = ERR_OK \<or> err = ERR_MEM"
    "err = ERR_OK \<Longrightarrow> pcb_state (pcb n') = st"
    "err \<noteq> ERR_OK \<Longrightarrow> tcp_stream (pcb n') = tcp_stream (pcb n)"
    using assms f o fin by (auto simp: send_fin_to_def Let_def split: if_splits)
qed

lemma tcp_rexmit_ok:
  assumes "pcb_ok p"
  shows "pcb_ok (tcp_rexmit p)"
    and "set (unacked (tcp_rexmit p)) \<union> set (unsent (tcp_rexmit p)) = set (unacked p) \<union> set (unsent p)"
proof -
  let ?P = "\<lambda>seg s. seq_lt (seg_seqno s) (seg_seqno seg)"
  show "set (unacked (tcp_rexmit p)) \<union> set (unsent (tcp_rexmit p)) = set (unacked p) \<union> set (unsent p)"
    by (auto simp: tcp_rexmit_def Let_def insert_by_seq_set split: list.splits)
  show "pcb_ok (tcp_rexmit p)"
  proof (cases "unacked p")
    case Nil
    then show ?thesis using assms by (simp add: tcp_rexmit_def)
  next
    case (Cons seg rest)
    have "last (insert_by_seq seg (unsent p)) = last (unsent p) \<and> unsent p \<noteq> []"
      if "dropWhile (?P seg) (unsent p) \<noteq> []"
    proof -
      have "unsent p = takeWhile (?P seg) (unsent p) @ dropWhile (?P seg) (unsent p)" by simp
      with that have "last (unsent p) = last (dropWhile (?P seg) (unsent p))" by (metis last_appendR)
      with that show ?thesis by (auto simp: insert_by_seq_def)
    qed
    then show ?thesis
      using assms Cons
      by (auto simp: tcp_rexmit_def Let_def pcb_ok_def mss_local_def insert_by_seq_set insert_by_seq_clen
            tail_room_def)
         (auto simp: insert_by_seq_def)
  qed
qed

lemma tcp_rexmit_rto_ok:
  assumes "pcb_ok (pcb n)"
  shows "pcb_ok (pcb (tcp_rexmit_rto n))"
    and "in_order (pcb n) \<Longrightarrow> tcp_stream (pcb (tcp_rexmit_rto n)) = tcp_stream (pcb n)"
proof -
  let ?n = "map_pcb (\<lambda>p. p\<lparr>unsent := unacked p @ unsent p, unacked := [],
                                          nrtx := nrtx p + 1, rttest := 0\<rparr>) n"
  obtain e n' where o: "tcp_output ?n = (e, n')" by fastforce
  have "pcb_ok (pcb ?n)" using assms by (auto simp: pcb_ok_def mss_local_def tail_room_def)
  note out = tcp_output_ok [OF o this]
  show "pcb_ok (pcb (tcp_rexmit_rto n))"
    using out(1) o assms by (simp add: tcp_rexmit_rto_def)
  show "tcp_stream (pcb (tcp_rexmit_rto n)) = tcp_stream (pcb n)" if "in_order (pcb n)"
    using out(4) o that by (simp add: tcp_rexmit_rto_def in_order_def tcp_stream_def)
qed

end
