(* ===== verification/Tcp_Seq.thy ===== *)
theory Tcp_Seq
  imports Tcp
begin

text \<open>
  The sequence numbers of the queued segments follow one another, up to \<open>snd_lbb\<close> as long as
  data may still be queued. Writing, queueing a FIN and sending keep this; it implies that a
  connection sends its segments in the order of their bytes, so sending does not disturb the
  stream.
\<close>

definition sendable :: "tcp_state \<Rightarrow> bool" where
  "sendable st \<longleftrightarrow> st = ESTABLISHED \<or> st = CLOSE_WAIT \<or> st = SYN_SENT \<or> st = SYN_RCVD"

definition seq_ok :: "tcp_pcb \<Rightarrow> bool" where
  "seq_ok p \<longleftrightarrow> (\<exists>a b. seq_chain a (unacked p @ unsent p) b \<and> (sendable (pcb_state p) \<longrightarrow> b = snd_lbb p))"

lemma seq_chain_append: "seq_chain a (q @ r) b \<longleftrightarrow> (\<exists>c. seq_chain a q c \<and> seq_chain c r b)"
  by (induction q arbitrary: a) auto

lemma tcplen_psh [simp]: "tcplen (set_hdrflag TCP_PSH s) = tcplen s"
  by (simp add: tcplen_def)

lemma seq_chain_psh [simp]: "seq_chain a (set_psh fl q) b = seq_chain a q b"
  by (cases q rule: rev_cases) (auto simp: set_psh_def seq_chain_append)

lemma seq_chain_psh_append: "seq_chain a (q @ set_psh fl r) b = seq_chain a (q @ r) b"
  by (simp add: seq_chain_append)

subsection \<open>Order\<close>

definition seq_total :: "tcp_seg list \<Rightarrow> nat" where
  "seq_total q = sum_list (map (\<lambda>s. unat (tcplen s)) q)"

lemma seq_total_simps [simp]: "seq_total [] = 0" "seq_total (s # q) = unat (tcplen s) + seq_total q"
  by (simp_all add: seq_total_def)

lemma seq_chain_mem:
  "seq_chain a q b \<Longrightarrow> t \<in> set q \<Longrightarrow> \<exists>k. seg_seqno t = a + of_nat k \<and> k \<le> seq_total q"
proof (induction q arbitrary: a)
  case (Cons s q)
  show ?case
  proof (cases "t = s")
    case True
    then show ?thesis using Cons(2) by (intro exI [of _ 0]) simp
  next
    case False
    then obtain k where k: "seg_seqno t = a + tcplen s + of_nat k" "k \<le> seq_total q"
      using Cons by fastforce
    then show ?thesis by (intro exI [of _ "unat (tcplen s) + k"]) (simp add: add.assoc)
  qed
qed simp

lemma sint_of_nat_u32: "k < 2147483648 \<Longrightarrow> 0 \<le> sint (of_nat k :: u32)"
  by (simp add: signed_of_nat signed_take_bit_nonnegative_iff bit_iff_odd)

lemma seq_chain_sorted:
  "seq_chain a q b \<Longrightarrow> seq_total q < 2147483648 \<Longrightarrow>
     sorted_wrt (\<lambda>s t. \<not> seq_lt (seg_seqno t) (seg_seqno s)) q"
proof (induction q arbitrary: a)
  case (Cons s q)
  have "\<not> seq_lt (seg_seqno t) (seg_seqno s)" if t: "t \<in> set q" for t
  proof -
    obtain k where k: "seg_seqno t = a + tcplen s + of_nat k" "k \<le> seq_total q"
      using seq_chain_mem [OF _ t, of "a + tcplen s" b] Cons(2) by auto
    have "seg_seqno t - seg_seqno s = of_nat (unat (tcplen s) + k)" using k(1) Cons(2) by simp
    then show ?thesis
      using sint_of_nat_u32 [of "unat (tcplen s) + k"] k(2) Cons(3) by (simp add: seq_lt_def)
  qed
  moreover have "sorted_wrt (\<lambda>s t. \<not> seq_lt (seg_seqno t) (seg_seqno s)) q"
    using Cons(1) [of "a + tcplen s"] Cons(2,3) by simp
  ultimately show ?case by simp
qed simp

lemma unat_tcplen_le: "unat (tcplen s) \<le> 65536"
proof -
  have "unat (tcplen s) \<le> unat (ucast (seg_len s) :: u32) + 1"
    by (auto simp: tcplen_def unat_word_ariths)
  then have "unat (tcplen s) \<le> unat (seg_len s) + 1" by (simp add: unat_ucast_u16)
  then show ?thesis using unat_u16_less [of "seg_len s"] by linarith
qed

lemma seq_total_le: "\<forall>s\<in>set q. seg_p s \<noteq> [] \<Longrightarrow> seq_total q \<le> 65536 * queue_clen q"
proof (induction q)
  case (Cons s q)
  have "1 \<le> length (seg_p s)" using Cons(2) by (cases "seg_p s") auto
  then have "unat (tcplen s) \<le> 65536 * length (seg_p s)" using unat_tcplen_le [of s] by linarith
  then show ?case using Cons by simp
qed simp

lemma seq_ok_in_order:
  assumes "pcb_ok p" "seq_ok p"
  shows "in_order p"
proof -
  have "seq_total (unacked p @ unsent p) \<le> 65536 * queue_clen (unacked p @ unsent p)"
    by (rule seq_total_le) (use assms(1) in \<open>auto simp: pcb_ok_def seg_ok_def\<close>)
  also have "queue_clen (unacked p @ unsent p) \<le> 12"
    using assms(1) by (simp add: pcb_ok_def TCP_SND_QUEUELEN_def word_le_nat_alt)
  finally have "seq_total (unacked p @ unsent p) < 2147483648" by simp
  then show ?thesis
    using assms(2) seq_chain_sorted by (auto simp: in_order_def seq_ok_def)
qed

subsection \<open>Writing\<close>

lemma seq_chain_last:
  assumes "seq_chain a (q @ [s]) b" "seg_seqno s' = seg_seqno s" "tcplen s' = tcplen s + k"
  shows "seq_chain a (q @ [s']) (b + k)"
  using assms by (auto simp: seq_chain_append add.assoc)

lemma commit_tail_seq:
  assumes tp: "tail_ok p arg len tp" and touched: "tp_touched tp" and ok: "pcb_ok p"
    and arg: "unat len \<le> length arg"
  defines "s \<equiv> last (unsent p)" and "s' \<equiv> commit_tail tp arg (last (unsent p))"
  shows "seg_seqno s' = seg_seqno s" "tcplen s' = tcplen s + ucast (tp_pos tp)"
proof -
  show "seg_seqno s' = seg_seqno s"
    by (simp add: s_def s'_def commit_tail_def grow_tail_def chain_pbuf_def Let_def split: option.split)
  have fin: "seg_syn_fin s' = seg_syn_fin s"
    by (auto simp: s_def s'_def commit_tail_def grow_tail_def chain_pbuf_def Let_def seg_syn_fin_def split: option.split)
  have len: "unat (seg_len s') = unat (seg_len s) + unat (tp_pos tp)"
    using commit_tail_spec(4) [OF tp touched ok arg] by (simp add: s_def s'_def)
  then have lt: "unat (seg_len s) + unat (tp_pos tp) < 65536" using unat_u16_less [of "seg_len s'"] by linarith
  then have "unat (seg_len s') = unat (seg_len s + tp_pos tp)" using len by (simp add: unat_add_u16)
  then have "seg_len s' = seg_len s + tp_pos tp" by (rule unsigned_word_eqI)
  then show "tcplen s' = tcplen s + ucast (tp_pos tp)"
    using fin ucast_add_u16 [OF lt] by (simp add: tcplen_def)
qed

lemma tcp_write_seq_ok:
  assumes wr: "tcp_write p arg len fl h = (ERR_OK, p', h')"
    and ok: "pcb_ok p" and seq: "seq_ok p" and arg: "unat len \<le> length arg" and pos: "len > 0"
  shows "seq_ok p'"
proof -
  from wr obtain tp h1 q' ov' queue where
    ck: "tcp_write_checks p len = (ERR_OK, p)"
    and tl: "tcp_write_tail p (mss_local p) arg len fl h = (Some tp, h1)"
    and sg: "tcp_write_segs p (mss_local p) arg len fl (tp_pos tp) (tp_queuelen tp) (tp_oversize tp) [] h1
               = (Some (q', ov', queue), h')"
    and p': "p' = tcp_write_commit p arg len fl tp q' ov' queue"
    using tcp_write_checks_cases [of p len]
    by (auto simp: tcp_write_def split: prod.splits option.splits if_splits)
  have b: "snd_queuelen p < TCP_SND_QUEUELEN" using tcp_write_checks_cases [OF ck] pos by auto
  have st: "sendable (pcb_state p)" using ck by (auto simp: tcp_write_checks_def sendable_def split: if_splits)
  note tp = tcp_write_tail_spec [OF tl ok b arg]
  have new: "seq_chain (snd_lbb p + ucast (tp_pos tp)) queue (snd_lbb p + ucast len)"
    using tcp_write_segs_spec [OF sg] tp arg by (auto simp: tail_ok_def)
  obtain a where a: "seq_chain a (unacked p @ unsent p) (snd_lbb p)" using seq st by (auto simp: seq_ok_def)
  define segs where "segs = (if tp_touched tp then update_last (commit_tail tp arg) (unsent p) else unsent p)"
  have "seq_chain a (unacked p @ segs) (snd_lbb p + ucast (tp_pos tp))"
  proof (cases "tp_touched tp")
    case True
    then have ne: "unsent p \<noteq> []" using tp by (simp add: tail_ok_def)
    have "seq_chain a ((unacked p @ butlast (unsent p)) @ [last (unsent p)]) (snd_lbb p)" using a ne by simp
    from seq_chain_last [OF this commit_tail_seq [OF tp True ok arg]]
    show ?thesis using True ne by (simp add: segs_def update_last_butlast)
  next
    case False
    then have "tp_pos tp = 0" using tp by (simp add: tail_ok_def)
    then show ?thesis using a False by (simp add: segs_def)
  qed
  then have "seq_chain a (unacked p @ (segs @ queue)) (snd_lbb p + ucast len)"
    using new by (auto simp: seq_chain_append)
  then have "seq_chain a (unacked p' @ unsent p') (snd_lbb p')"
    by (auto simp add: p' tcp_write_commit_def segs_def [symmetric] Let_def seq_chain_psh_append)
  then show ?thesis by (auto simp: seq_ok_def)
qed

lemma seq_ok_flags [simp]: "seq_ok (set_flag f p) = seq_ok p" "seq_ok (clear_flag f p) = seq_ok p"
  by (simp_all add: seq_ok_def set_flag_def clear_flag_def)

lemma tcp_write_error_seq:
  "tcp_write p arg len fl h = (err, p', h') \<Longrightarrow> err \<noteq> ERR_OK \<Longrightarrow> seq_ok p' = seq_ok p"
  using tcp_write_error [of p arg len fl h err p' h'] by auto

text \<open>A pcb whose queues are well-formed and whose segments follow one another.\<close>

definition pcb_good :: "tcp_pcb \<Rightarrow> bool" where
  "pcb_good p \<longleftrightarrow> pcb_ok p \<and> seq_ok p"

subsection \<open>FIN and output\<close>

definition chained :: "tcp_pcb \<Rightarrow> bool" where
  "chained p \<longleftrightarrow> (\<exists>a b. seq_chain a (unacked p @ unsent p) b)"

lemma tcp_send_fin_chained:
  assumes "tcp_send_fin p h = (err, p', h')" "seq_ok p" "sendable (pcb_state p)"
  shows "chained p'" "err \<noteq> ERR_OK \<Longrightarrow> seq_ok p'" "pcb_state p' = pcb_state p"
proof -
  obtain a where a: "seq_chain a (unacked p @ unsent p) (snd_lbb p)" using assms(2,3) by (auto simp: seq_ok_def)
  have "chained p' \<and> (err \<noteq> ERR_OK \<longrightarrow> seq_ok p') \<and> pcb_state p' = pcb_state p"
  proof (cases "unsent p \<noteq> [] \<and> seg_hdrflags (last (unsent p)) AND (TCP_SYN OR TCP_FIN OR TCP_RST) = 0")
    case True
    then obtain us s where us: "unsent p = us @ [s]" by (cases "unsent p" rule: rev_cases) auto
    from True us assms(1) have p': "p' = set_flag TF_FIN (p\<lparr>unsent := us @ [set_hdrflag TCP_FIN s]\<rparr>)" "err = ERR_OK"
      by (auto simp: tcp_send_fin_def)
    have "tcplen (set_hdrflag TCP_FIN s) = tcplen s + (tcplen (set_hdrflag TCP_FIN s) - tcplen s)" by simp
    from seq_chain_last [of a "unacked p @ us" s, OF _ _ this] a us
    have "chained p'" by (auto simp: chained_def p' set_flag_def)
    then show ?thesis using p' by (simp add: set_flag_def)
  next
    case False
    then have e: "tcp_enqueue_flags p TCP_FIN h = (err, p', h')" using assms(1) by (auto simp: tcp_send_fin_def)
    then have "(err = ERR_OK \<and> (\<exists>s. unsent p' = unsent p @ [s] \<and> unacked p' = unacked p \<and> seg_seqno s = snd_lbb p
          \<and> pcb_state p' = pcb_state p))
      \<or> (err \<noteq> ERR_OK \<and> (p' = p \<or> p' = set_flag TF_NAGLEMEMERR p))"
      by (auto simp: tcp_enqueue_flags_def tcp_create_segment_def Let_def set_flag_def
          split: if_splits prod.splits bool.splits option.splits)
    then show ?thesis
    proof (elim disjE conjE exE)
      fix s
      assume s: "unsent p' = unsent p @ [s]" "unacked p' = unacked p" "seg_seqno s = snd_lbb p"
        "err = ERR_OK" "pcb_state p' = pcb_state p"
      have "seq_chain a ((unacked p @ unsent p) @ [s]) (snd_lbb p + tcplen s)"
        using a s(3) by (subst seq_chain_append) auto
      then show ?thesis using s by (auto simp: chained_def)
    qed (use a assms(2) in \<open>auto simp: chained_def set_flag_def seq_ok_def\<close>)
  qed
  then show "chained p'" "err \<noteq> ERR_OK \<Longrightarrow> seq_ok p'" "pcb_state p' = pcb_state p" by auto
qed

text \<open>Sending the first unsent segment moves it behind the unacknowledged ones.\<close>

lemma send_first_appends:
  assumes ok: "pcb_ok (fix_oversize (pcb n))" and u: "unsent (pcb n) = seg # rest"
    and ch: "seq_chain a (unacked (pcb n) @ unsent (pcb n)) b"
  obtains seg' where "unsent (pcb (send_first seg rest n)) = rest"
    "unacked (pcb (send_first seg rest n)) = unacked (pcb n) @ [seg']"
    "seg' = seg \<or> seg' = set_hdrflag TCP_ACK seg"
proof -
  have ok1: "pcb_ok (pcb n)" "seg_ok (mss_local (pcb n)) seg" using ok u by (auto simp: fix_oversize_def pcb_ok_def)
  obtain seg' where f: "unsent (pcb (send_first seg rest n)) = rest"
    "unacked (pcb (send_first seg rest n)) = queue_unacked seg' (unacked (pcb n))"
    "seg' = seg \<or> seg' = set_hdrflag TCP_ACK seg"
    by (rule send_first_pcb [OF tcplen_pos [OF ok1(2)]])
  have "seq_total (unacked (pcb n) @ unsent (pcb n)) \<le> 65536 * queue_clen (unacked (pcb n) @ unsent (pcb n))"
    by (rule seq_total_le) (use ok1(1) in \<open>auto simp: pcb_ok_def seg_ok_def\<close>)
  also have "queue_clen (unacked (pcb n) @ unsent (pcb n)) \<le> 12"
    using ok1(1) by (simp add: pcb_ok_def TCP_SND_QUEUELEN_def word_le_nat_alt)
  finally have "sorted_wrt (\<lambda>s t. \<not> seq_lt (seg_seqno t) (seg_seqno s)) (unacked (pcb n) @ unsent (pcb n))"
    using seq_chain_sorted [OF ch] by simp
  then have "\<forall>t\<in>set (unacked (pcb n)). \<not> seq_lt (seg_seqno seg) (seg_seqno t)"
    using u by (auto simp: sorted_wrt_append)
  then have "queue_unacked seg' (unacked (pcb n)) = unacked (pcb n) @ [seg']"
    using f(3) by (auto simp: queue_unacked_def)
  then show thesis using that f by simp
qed

lemma send_first_seq:
  assumes ok: "pcb_ok (fix_oversize (pcb n))" and u: "unsent (pcb n) = seg # rest"
    and ch: "seq_chain a (unacked (pcb n) @ unsent (pcb n)) b"
  shows "seq_chain a (unacked (pcb (send_first seg rest n)) @ unsent (pcb (send_first seg rest n))) b"
    "snd_lbb (pcb (send_first seg rest n)) = snd_lbb (pcb n)"
proof -
  show "snd_lbb (pcb (send_first seg rest n)) = snd_lbb (pcb n)"
    by (simp add: send_first_def Let_def tcp_output_segment_def clear_flag_def)
  obtain seg' where "unsent (pcb (send_first seg rest n)) = rest"
    "unacked (pcb (send_first seg rest n)) = unacked (pcb n) @ [seg']"
    "seg' = seg \<or> seg' = set_hdrflag TCP_ACK seg"
    by (rule send_first_appends [OF ok u ch])
  then show "seq_chain a (unacked (pcb (send_first seg rest n)) @ unsent (pcb (send_first seg rest n))) b"
    using ch u by (auto simp: seq_chain_append)
qed

lemma tcp_output_loop_seq:
  assumes "pcb_ok (fix_oversize (pcb n))" "unsent (pcb n) = q" "seq_chain a (unacked (pcb n) @ unsent (pcb n)) b"
  shows "seq_chain a (unacked (pcb (tcp_output_loop wnd q n)) @ unsent (pcb (tcp_output_loop wnd q n))) b
    \<and> snd_lbb (pcb (tcp_output_loop wnd q n)) = snd_lbb (pcb n)"
  using assms
proof (induction wnd q n rule: tcp_output_loop.induct)
  case (2 wnd seg rest n)
  have tl: "unsent (pcb (send_first seg rest n)) = rest"
    by (simp add: send_first_def Let_def tcp_output_segment_def clear_flag_def)
  note s = send_first_ok(1) [OF 2(2,3)] send_first_seq [OF 2(2,3,4)]
  show ?case using 2(1) [OF _ _ s(1) tl s(2)] s(3) 2(4) by auto
qed simp

lemma fix_oversize_ok: "pcb_ok p \<Longrightarrow> pcb_ok (fix_oversize p)"
  by (auto simp: fix_oversize_def pcb_ok_oversize_0)

lemma tcp_output_seq:
  assumes out: "tcp_output n = (err, n')" and ok: "pcb_ok (pcb n)"
    and ch: "seq_chain a (unacked (pcb n) @ unsent (pcb n)) b"
  shows "seq_chain a (unacked (pcb n') @ unsent (pcb n')) b \<and> snd_lbb (pcb n') = snd_lbb (pcb n)"
proof -
  let ?w = "ucast (min (snd_wnd (pcb n)) (cwnd (pcb n)))"
  let ?m = "tcp_output_loop ?w (unsent (pcb n)) n"
  note lp = tcp_output_loop_seq [OF fix_oversize_ok [OF ok] refl ch, of ?w]
  have ack: "unacked (pcb (snd (tcp_send_empty_ack n))) = unacked (pcb n)
    \<and> unsent (pcb (snd (tcp_send_empty_ack n))) = unsent (pcb n)
    \<and> snd_lbb (pcb (snd (tcp_send_empty_ack n))) = snd_lbb (pcb n)"
    by (auto simp: tcp_send_empty_ack_def Let_def clear_flag_def split: prod.split bool.split)
  have "n' = n \<or> n' = snd (tcp_send_empty_ack n)
      \<or> n' = map_pcb (clear_flag TF_NAGLEMEMERR) (map_pcb fix_oversize ?m)"
    using out by (auto simp: tcp_output_def Let_def map_pcb_def fix_oversize_def prod_eq_iff split: if_splits)
  moreover have "unacked (fix_oversize q) = unacked q" "unsent (fix_oversize q) = unsent q"
    "snd_lbb (fix_oversize q) = snd_lbb q" for q by (simp_all add: fix_oversize_def)
  ultimately show ?thesis
    using ch ack lp by (elim disjE) (simp_all add: clear_flag_def)
qed

lemma tcp_output_seq_ok:
  assumes "tcp_output n = (err, n')" "pcb_ok (pcb n)" "seq_ok (pcb n)"
  shows "seq_ok (pcb n')" "tcp_stream (pcb n') = tcp_stream (pcb n)"
proof -
  note o = tcp_output_ok [OF assms(1,2)]
  show "tcp_stream (pcb n') = tcp_stream (pcb n)" using o(4) seq_ok_in_order assms(2,3) by simp
  obtain a b where ab: "seq_chain a (unacked (pcb n) @ unsent (pcb n)) b"
    "sendable (pcb_state (pcb n)) \<longrightarrow> b = snd_lbb (pcb n)" using assms(3) unfolding seq_ok_def by blast
  have "pcb_state (pcb n') = pcb_state (pcb n)" using o(2) by (simp add: same_limits_def)
  then show "seq_ok (pcb n')"
    using tcp_output_seq [OF assms(1,2) ab(1)] ab(2) unfolding seq_ok_def by auto
qed

text \<open>Closing in the ordinary way keeps everything that was queued.\<close>

lemma send_fin_to_stream:
  assumes "send_fin_to st n = (err, n')" "pcb_ok (pcb n)" "seq_ok (pcb n)" "sendable (pcb_state (pcb n))"
    "\<not> sendable st"
  shows "seq_ok (pcb n')" "tcp_stream (pcb n') = tcp_stream (pcb n)" "pcb_ok (pcb n')"
proof -
  obtain e p h where f: "tcp_send_fin (pcb n) (net_heap n) = (e, p, h)"
    by (cases "tcp_send_fin (pcb n) (net_heap n)")
  note fin = tcp_send_fin_ok [OF f assms(2)] tcp_send_fin_chained [OF f assms(3,4)]
  let ?n = "map_pcb (\<lambda>p. p\<lparr>pcb_state := st\<rparr>) (n\<lparr>pcb := p, net_heap := h\<rparr>)"
  obtain e2 n2 where o: "tcp_output ?n = (e2, n2)" by fastforce
  have "pcb_ok (pcb ?n)" "seq_ok (pcb ?n)"
    using fin assms(5) by (auto simp: seq_ok_def chained_def)
  note out = tcp_output_seq_ok [OF o this] tcp_output_ok(1) [OF o this(1)]
  show "seq_ok (pcb n')" "tcp_stream (pcb n') = tcp_stream (pcb n)" "pcb_ok (pcb n')"
    using assms(1) f o out fin by (auto simp: send_fin_to_def Let_def split: if_splits)
qed

text \<open>
  \<open>tcp_close\<close> on an open connection whose data the application has all taken: the queued
  bytes stay queued or sent, and a FIN follows them or is tried again later.
\<close>

lemma tcp_close_stream:
  assumes "tcp_close n = (err, n')" "pcb_ok (pcb n)" "seq_ok (pcb n)"
    "pcb_state (pcb n) = ESTABLISHED \<or> pcb_state (pcb n) = CLOSE_WAIT"
    "refused_data (pcb n) = None" "rcv_wnd (pcb n) = TCP_WND"
  shows "tcp_stream (pcb n') = tcp_stream (pcb n)" "pcb_good (pcb n')" "err = ERR_OK \<or> err = ERR_MEM"
    "err = ERR_OK \<Longrightarrow> pcb_state (pcb n') = FIN_WAIT_1 \<or> pcb_state (pcb n') = LAST_ACK"
proof -
  let ?n = "map_pcb (set_flag TF_RXCLOSED) n"
  have n: "pcb_ok (pcb ?n)" "seq_ok (pcb ?n)" "sendable (pcb_state (pcb ?n))"
    using assms(2-4) by (auto simp: sendable_def)
  define st where "st = (if pcb_state (pcb n) = ESTABLISHED then FIN_WAIT_1 else LAST_ACK)"
  have st: "\<not> sendable st" by (simp add: st_def sendable_def)
  have "send_fin_to st ?n = (err, n')"
    using assms(1,4-6)
    by (auto simp: tcp_close_def tcp_close_shutdown_def Let_def st_def set_flag_def)
  from send_fin_to_stream [OF this n st] send_fin_to_ok [OF this n(1)]
  show "tcp_stream (pcb n') = tcp_stream (pcb n)" "pcb_good (pcb n')" "err = ERR_OK \<or> err = ERR_MEM"
    "err = ERR_OK \<Longrightarrow> pcb_state (pcb n') = FIN_WAIT_1 \<or> pcb_state (pcb n') = LAST_ACK"
    by (auto simp: st_def pcb_good_def)
qed

end
