(* ===== verification/Tcp_If.thy ===== *)
theory Tcp_If
  imports Tcp_Seq
begin

text \<open>
  What the HTTP server needs of TCP when it sends: the four operations \<open>tcp_write\<close>,
  \<open>tcp_sndbuf\<close>, \<open>tcp_sndqueuelen\<close> and \<open>tcp_mss\<close>, and the contract they keep, as the locale
  \<open>tcp_sender\<close>. A successful write appends exactly the bytes it was given to the stream of the
  connection; a failed one leaves the stream alone. The interpretation \<open>lwip\<close> proves the
  contract for the model of lwIP.
\<close>

record 'p tcp_ops =
  op_write :: "'p \<Rightarrow> bytes \<Rightarrow> u16 \<Rightarrow> u8 \<Rightarrow> err_t \<times> 'p"
  op_sndbuf :: "'p \<Rightarrow> u16"
  op_sndqueuelen :: "'p \<Rightarrow> u16"
  op_mss :: "'p \<Rightarrow> u16"

locale tcp_sender =
  fixes T :: "'p tcp_ops"
    and stream :: "'p \<Rightarrow> bytes"
    and good :: "'p \<Rightarrow> bool"
  assumes write_ok:
    "op_write T p arg n fl = (ERR_OK, p') \<Longrightarrow> good p \<Longrightarrow> 0 < n \<Longrightarrow> unat n \<le> length arg \<Longrightarrow>
       stream p' = stream p @ take (unat n) arg \<and> good p' \<and> n \<le> op_sndbuf T p
       \<and> unat (op_sndbuf T p') = unat (op_sndbuf T p) - unat n"
    and write_error:
    "op_write T p arg n fl = (e, p') \<Longrightarrow> e \<noteq> ERR_OK \<Longrightarrow> good p \<Longrightarrow>
       stream p' = stream p \<and> good p' \<and> op_sndbuf T p' = op_sndbuf T p"

definition net_write :: "net \<Rightarrow> bytes \<Rightarrow> u16 \<Rightarrow> u8 \<Rightarrow> err_t \<times> net" where
  "net_write n arg len apiflags =
     (case tcp_write (pcb n) arg len apiflags (net_heap n) of
        (err, p, h) \<Rightarrow> (err, n\<lparr>pcb := p, net_heap := h\<rparr>))"

definition lwip_ops :: "net tcp_ops" where
  "lwip_ops = \<lparr>op_write = net_write, op_sndbuf = \<lambda>n. tcp_sndbuf (pcb n),
               op_sndqueuelen = \<lambda>n. tcp_sndqueuelen (pcb n), op_mss = \<lambda>n. tcp_mss (pcb n)\<rparr>"

interpretation lwip: tcp_sender lwip_ops "\<lambda>n. tcp_stream (pcb n)" "\<lambda>n. pcb_good (pcb n)"
proof
  fix n arg k fl n'
  assume w: "op_write lwip_ops n arg k fl = (ERR_OK, n')" and "pcb_good (pcb n)" "0 < k" "unat k \<le> length arg"
  then obtain h where "tcp_write (pcb n) arg k fl (net_heap n) = (ERR_OK, pcb n', h)"
    by (auto simp: lwip_ops_def net_write_def split: prod.splits)
  from tcp_write_ok [OF this] tcp_write_seq_ok [OF this] show "tcp_stream (pcb n') = tcp_stream (pcb n) @ take (unat k) arg
      \<and> pcb_good (pcb n') \<and> k \<le> op_sndbuf lwip_ops n
      \<and> unat (op_sndbuf lwip_ops n') = unat (op_sndbuf lwip_ops n) - unat k"
    using \<open>pcb_good (pcb n)\<close> \<open>0 < k\<close> \<open>unat k \<le> length arg\<close> by (simp add: lwip_ops_def tcp_sndbuf_def pcb_good_def)
next
  fix n arg k fl e n'
  assume w: "op_write lwip_ops n arg k fl = (e, n')" and e: "e \<noteq> ERR_OK" and "pcb_good (pcb n)"
  then obtain h where "tcp_write (pcb n) arg k fl (net_heap n) = (e, pcb n', h)"
    by (auto simp: lwip_ops_def net_write_def split: prod.splits)
  from tcp_write_error [OF this e] tcp_write_error_seq [OF this e] show "tcp_stream (pcb n') = tcp_stream (pcb n)
      \<and> pcb_good (pcb n') \<and> op_sndbuf lwip_ops n' = op_sndbuf lwip_ops n"
    using \<open>pcb_good (pcb n)\<close> by (auto simp: lwip_ops_def tcp_sndbuf_def pcb_good_def)
qed

end
