(* ===== verification/Http_Write.thy ===== *)
theory Http_Write
  imports Tcp_If
begin

text \<open>
  \<open>http_write\<close> of \<^verbatim>\<open>Sources/httpd.c\<close> (try smaller and smaller lengths), and the send routine for
  files without tags, \<open>http_send_data_nonssi\<close>. Both are written over the operations of
  \<open>tcp_ops\<close>; their lemmas are proved in the locale \<open>tcp_sender\<close> and hold for lwIP by its
  interpretation.
\<close>

text \<open>
  The loop of \<open>http_write\<close>: a turn ends it unless the write ran out of memory and more
  than one byte is left to try. The length halves, so it ends.
\<close>

definition next_len :: "'p tcp_ops \<Rightarrow> 'p \<Rightarrow> u16 \<Rightarrow> u16" where
  "next_len T p len =
     (if op_sndbuf T p = 0 \<or> op_sndqueuelen T p \<ge> TCP_SND_QUEUELEN then 1 else len div 2)"

function http_write_loop ::
  "'p tcp_ops \<Rightarrow> 'p \<Rightarrow> bytes \<Rightarrow> u16 \<Rightarrow> u8 \<Rightarrow> err_t \<times> u16 \<times> 'p" where
  "http_write_loop T p ptr len apiflags =
     (case op_write T p ptr len apiflags of
        (err, p) \<Rightarrow>
          if err = ERR_MEM then
            let len = next_len T p len
            in if len > 1 then http_write_loop T p ptr len apiflags else (err, len, p)
          else (err, len, p))"
  by pat_completeness auto

lemma next_len_less:
  assumes "next_len T p len > 1"
  shows "next_len T p len < len"
proof -
  have "next_len T p len = len div 2" using assms by (auto simp: next_len_def split: if_splits)
  moreover have "unat (len div 2) < unat len"
    using assms calculation by (simp add: unat_half_u16 word_less_nat_alt)
  ultimately show ?thesis by (simp add: word_less_nat_alt)
qed

termination http_write_loop
  by (relation "measure (\<lambda>(T, p, ptr, len, fl). unat len)")
     (auto simp: next_len_less simp flip: word_less_nat_alt)

declare http_write_loop.simps [simp del]

definition http_write :: "'p tcp_ops \<Rightarrow> 'p \<Rightarrow> bytes \<Rightarrow> u16 \<Rightarrow> u8 \<Rightarrow> err_t \<times> u16 \<times> 'p" where
  "http_write T p ptr len apiflags =
     (if len = 0 then (ERR_OK, len, p) else http_write_loop T p ptr len apiflags)"

subsection \<open>Files without tags\<close>

text \<open>
  The part of \<open>http_state\<close> that the send routines move: the offset \<open>hs_file\<close> of the first
  unsent byte in the data of the open file, and the number \<open>hs_left\<close> of unsent bytes.
\<close>

record send_pos =
  hs_file :: nat
  hs_left :: nat

definition limit_len :: "'p tcp_ops \<Rightarrow> 'p \<Rightarrow> nat \<Rightarrow> u16" where
  "limit_len T p avail =
     (let len = (if unat (op_sndbuf T p) < avail then op_sndbuf T p else of_nat avail)
      in if unat len > 2 * unat (op_mss T p) then 2 * op_mss T p else len)"

definition http_send_data_nonssi ::
  "'p tcp_ops \<Rightarrow> bytes \<Rightarrow> send_pos \<Rightarrow> 'p \<Rightarrow> bool \<times> send_pos \<times> 'p" where
  "http_send_data_nonssi T content s p =
     (let len = limit_len T p (hs_left s)
      in case http_write T p (drop (hs_file s) content) len 0 of
           (err, len, p) \<Rightarrow>
             if err = ERR_OK
             then (True, s\<lparr>hs_file := hs_file s + unat len, hs_left := hs_left s - unat len\<rparr>, p)
             else (False, s, p))"

text \<open>The bytes sent and the bytes left make up the file.\<close>

definition pos_ok :: "bytes \<Rightarrow> send_pos \<Rightarrow> bool" where
  "pos_ok content s \<longleftrightarrow> hs_file s + hs_left s = length content"

lemma limit_len_le: "unat (limit_len T p avail) \<le> avail" "limit_len T p avail \<le> op_sndbuf T p"
proof -
  define l where "l = (if unat (op_sndbuf T p) < avail then op_sndbuf T p else of_nat avail)"
  have l: "unat l \<le> avail \<and> unat l \<le> unat (op_sndbuf T p)"
  proof (cases "unat (op_sndbuf T p) < avail")
    case False
    then have "avail < 65536" using unat_u16_less [of "op_sndbuf T p"] by linarith
    with False show ?thesis by (simp add: l_def unat_of_nat_u16)
  qed (simp add: l_def)
  have "unat (2 * op_mss T p) \<le> unat l" if "unat l > 2 * unat (op_mss T p)"
  proof -
    have "unat (2 * op_mss T p) \<le> 2 * unat (op_mss T p)"
      by (simp add: unat_word_ariths)
    then show ?thesis using that by linarith
  qed
  then have "unat (limit_len T p avail) \<le> unat l"
    by (auto simp: limit_len_def l_def [symmetric] Let_def)
  then show "unat (limit_len T p avail) \<le> avail" "limit_len T p avail \<le> op_sndbuf T p"
    using l by (auto simp: word_le_nat_alt)
qed

context tcp_sender begin

lemma write_cases:
  assumes "op_write T p arg n fl = (e, p')" "good p" "0 < n" "unat n \<le> length arg"
  shows "good p' \<and> (if e = ERR_OK
     then stream p' = stream p @ take (unat n) arg \<and> n \<le> op_sndbuf T p
       \<and> unat (op_sndbuf T p') = unat (op_sndbuf T p) - unat n
     else stream p' = stream p \<and> op_sndbuf T p' = op_sndbuf T p)"
  using assms write_ok write_error by (cases "e = ERR_OK") auto

text \<open>What one call of \<open>http_write\<close> does to the stream.\<close>

definition wrote :: "'p \<Rightarrow> bytes \<Rightarrow> u16 \<Rightarrow> err_t \<Rightarrow> u16 \<Rightarrow> 'p \<Rightarrow> bool" where
  "wrote p ptr len err len' p' \<longleftrightarrow> good p' \<and>
     (if err = ERR_OK
      then stream p' = stream p @ take (unat len') ptr \<and> len' \<le> len \<and> (0 < len \<longrightarrow> 0 < len')
        \<and> unat (op_sndbuf T p') = unat (op_sndbuf T p) - unat len'
        \<and> unat len' \<le> unat (op_sndbuf T p)
      else stream p' = stream p \<and> op_sndbuf T p' = op_sndbuf T p)"

lemma http_write_loop_wrote:
  assumes "http_write_loop T p ptr len fl = (err, len', p')" "good p" "0 < len" "unat len \<le> length ptr"
  shows "wrote p ptr len err len' p'"
  using assms
proof (induction "unat len" arbitrary: p len rule: less_induct)
  case less
  obtain e q where w: "op_write T p ptr len fl = (e, q)" by fastforce
  note wc = write_cases [OF w less(3-5)]
  show ?case
  proof (cases "e = ERR_MEM \<and> next_len T q len > 1")
    case True
    then have nl: "next_len T q len < len" by (simp add: next_len_less)
    have rec: "http_write_loop T q ptr (next_len T q len) fl = (err, len', p')"
      using less(2) w True by (subst (asm) http_write_loop.simps) (simp add: Let_def)
    have pos: "0 < next_len T q len" using True by (auto simp: word_gt_0)
    have "wrote q ptr (next_len T q len) err len' p'"
      using less(1) [OF _ rec] nl wc True less(5)
      by (auto simp: word_less_nat_alt intro: order.strict_trans)
    then show ?thesis
      using wc True nl pos by (auto simp: wrote_def split: if_splits)
  next
    case False
    then have "err = e" "p' = q" "e = ERR_OK \<Longrightarrow> len' = len"
      using less(2) w
      by (subst (asm) http_write_loop.simps; auto simp: Let_def split: if_splits)+
    with wc less(4) show ?thesis by (auto simp: wrote_def word_le_nat_alt)
  qed
qed

lemma http_write_wrote:
  assumes "http_write T p ptr len fl = (err, len', p')" "good p" "unat len \<le> length ptr"
  shows "wrote p ptr len err len' p'"
proof (cases "len = 0")
  case True
  with assms show ?thesis by (simp add: http_write_def wrote_def)
next
  case False
  with assms http_write_loop_wrote show ?thesis
    by (auto simp: http_write_def word_gt_0)
qed

lemma http_send_data_nonssi_sends:
  assumes "http_send_data_nonssi T content s p = (sent, s', p')" "good p" "pos_ok content s"
  shows "good p'" "pos_ok content s'"
    "stream p' @ drop (hs_file s') content = stream p @ drop (hs_file s) content"
    "stream p' = stream p @ take (hs_file s' - hs_file s) (drop (hs_file s) content)"
    "hs_file s \<le> hs_file s'" "\<not> sent \<Longrightarrow> s' = s"
proof -
  let ?len = "limit_len T p (hs_left s)"
  obtain err len' q where w: "http_write T p (drop (hs_file s) content) ?len 0 = (err, len', q)"
    by (cases "http_write T p (drop (hs_file s) content) ?len 0")
  have le: "unat ?len \<le> length (drop (hs_file s) content)"
    using assms(3) limit_len_le(1) [of T p "hs_left s"] by (simp add: pos_ok_def)
  note wr = http_write_wrote [OF w assms(2) le]
  have "unat len' \<le> hs_left s" if "err = ERR_OK"
    using wr that limit_len_le(1) [of T p "hs_left s"] by (auto simp: wrote_def word_le_nat_alt)
  then show "good p'" "pos_ok content s'"
    "stream p' @ drop (hs_file s') content = stream p @ drop (hs_file s) content"
    "stream p' = stream p @ take (hs_file s' - hs_file s) (drop (hs_file s) content)"
    "hs_file s \<le> hs_file s'" "\<not> sent \<Longrightarrow> s' = s"
    using assms w wr
    by (auto simp: http_send_data_nonssi_def wrote_def pos_ok_def take_drop_rest split: if_splits)
qed

end

end
