(* ===== verification/Http_Ssi.thy ===== *)
theory Http_Ssi
  imports Http_Write
begin

text \<open>
  Server-side includes: the tag parser and the send routine \<open>http_send_data_ssi\<close> of
  \<^verbatim>\<open>Sources/httpd.c\<close>, with \<open>get_tag_insert\<close>. Pointers into the file are offsets. Tags stay in the
  output (\<^verbatim>\<open>LWIP_HTTPD_SSI_INCLUDE_TAG\<close> is 1), there are no multi-part inserts, and the SSI handler is
  a function on the state of the application, which it may change.
\<close>

definition LWIP_HTTPD_MAX_TAG_NAME_LEN :: nat where "LWIP_HTTPD_MAX_TAG_NAME_LEN = 8"
definition LWIP_HTTPD_MAX_TAG_INSERT_LEN :: nat where "LWIP_HTTPD_MAX_TAG_INSERT_LEN = 192"
definition g_pcTagLeadIn :: string where "g_pcTagLeadIn = ''<!--#''"
definition LEN_TAG_LEAD_IN :: nat where "LEN_TAG_LEAD_IN = 5"
definition g_pcTagLeadOut :: string where "g_pcTagLeadOut = ''-->''"
definition LEN_TAG_LEAD_OUT :: nat where "LEN_TAG_LEAD_OUT = 3"

datatype tag_check_state = TAG_NONE | TAG_LEADIN | TAG_FOUND | TAG_LEADOUT | TAG_SENDING

record http_ssi_state =
  parsed :: nat
  tag_end :: nat
  parse_left :: nat
  tag_index :: nat
  tag_insert_len :: nat
  tag_name_len :: nat
  tag_name :: bytes
  tag_insert :: bytes
  tag_state :: tag_check_state

text \<open>\<open>http_ssi_state_alloc\<close>: zeroed memory, or nothing when there is none.\<close>

definition ssi_zero :: http_ssi_state where
  "ssi_zero = \<lparr>parsed = 0, tag_end = 0, parse_left = 0, tag_index = 0, tag_insert_len = 0,
     tag_name_len = 0, tag_name = replicate (LWIP_HTTPD_MAX_TAG_NAME_LEN + 1) NUL,
     tag_insert = replicate (LWIP_HTTPD_MAX_TAG_INSERT_LEN + 1) NUL, tag_state = TAG_NONE\<rparr>"

definition http_ssi_state_alloc :: "heap \<Rightarrow> http_ssi_state option \<times> heap" where
  "http_ssi_state_alloc h =
     (case alloc h of (ok, h) \<Rightarrow> (if ok then Some ssi_zero else None, h))"

subsection \<open>Inserts\<close>

type_synonym 'w ssi_handler = "nat \<Rightarrow> bytes \<Rightarrow> 'w \<Rightarrow> u16 \<times> bytes \<times> 'w"

record 'w ssi_cfg =
  g_pfnSSIHandler :: "'w ssi_handler option"
  g_ppcTags :: "string list option"
  g_iNumTags :: nat

fun find_tag :: "nat \<Rightarrow> string list \<Rightarrow> bytes \<Rightarrow> nat option" where
  "find_tag loop [] name = None"
| "find_tag loop (t # ts) name =
     (if c_streq name t then Some loop else find_tag (Suc loop) ts name)"

definition put_bytes :: "nat \<Rightarrow> bytes \<Rightarrow> bytes \<Rightarrow> bytes" where
  "put_bytes off bs buf = take off buf @ bs @ drop (off + length bs) buf"

definition UNKNOWN_TAG1_TEXT :: string where "UNKNOWN_TAG1_TEXT = ''<b>***UNKNOWN TAG ''"
definition UNKNOWN_TAG1_LEN :: nat where "UNKNOWN_TAG1_LEN = 18"
definition UNKNOWN_TAG2_TEXT :: string where "UNKNOWN_TAG2_TEXT = ''***</b>''"
definition UNKNOWN_TAG2_LEN :: nat where "UNKNOWN_TAG2_LEN = 7"

definition unknown_tag_insert :: "http_ssi_state \<Rightarrow> http_ssi_state" where
  "unknown_tag_insert s =
     (let len = min (c_strlen (tag_name s))
                    (LWIP_HTTPD_MAX_TAG_INSERT_LEN - (UNKNOWN_TAG1_LEN + UNKNOWN_TAG2_LEN));
          buf = put_bytes 0 (take UNKNOWN_TAG1_LEN UNKNOWN_TAG1_TEXT) (tag_insert s);
          buf = put_bytes UNKNOWN_TAG1_LEN (take len (tag_name s)) buf;
          buf = put_bytes (UNKNOWN_TAG1_LEN + len) (take UNKNOWN_TAG2_LEN UNKNOWN_TAG2_TEXT) buf;
          buf = buf[UNKNOWN_TAG1_LEN + len + UNKNOWN_TAG2_LEN := NUL]
      in s\<lparr>tag_insert := buf, tag_insert_len := c_strlen buf mod 65536\<rparr>)"

definition get_tag_insert :: "'w ssi_cfg \<Rightarrow> http_ssi_state \<Rightarrow> 'w \<Rightarrow> http_ssi_state \<times> 'w" where
  "get_tag_insert cfg s w =
     (case (g_pfnSSIHandler cfg, g_ppcTags cfg) of
        (Some handler, Some tags) \<Rightarrow>
          (case find_tag 0 (take (g_iNumTags cfg) tags) (tag_name s) of
             Some loop \<Rightarrow>
               (case handler loop (tag_insert s) w of
                  (n, buf, w) \<Rightarrow> (s\<lparr>tag_insert := buf, tag_insert_len := unat n\<rparr>, w))
           | None \<Rightarrow> (unknown_tag_insert s, w))
      | _ \<Rightarrow> (unknown_tag_insert s, w))"

subsection \<open>The tag parser\<close>

definition is_ws :: "char \<Rightarrow> bool" where
  "is_ws c \<longleftrightarrow> c = CHR '' '' \<or> c = CHR 0x09 \<or> c = CHR 0x0A \<or> c = CHR 0x0D"

definition advance :: "http_ssi_state \<Rightarrow> http_ssi_state" where
  "advance s = s\<lparr>parse_left := parse_left s - 1, parsed := parsed s + 1\<rparr>"

text \<open>
  One turn of the parser outside \<open>TAG_SENDING\<close>, at the character \<open>c\<close>; the flag says that the
  lead-out is complete.
\<close>

definition tag_step :: "char \<Rightarrow> http_ssi_state \<Rightarrow> bool \<times> http_ssi_state" where
  "tag_step c s =
     (case tag_state s of
        TAG_NONE \<Rightarrow>
          (False, advance (if c = g_pcTagLeadIn ! 0
                           then s\<lparr>tag_state := TAG_LEADIN, tag_index := 1\<rparr> else s))
      | TAG_LEADIN \<Rightarrow>
          (if tag_index s = LEN_TAG_LEAD_IN
           then (False, s\<lparr>tag_index := 0, tag_state := TAG_FOUND\<rparr>)
           else (False, advance (if c = g_pcTagLeadIn ! tag_index s
                                 then s\<lparr>tag_index := tag_index s + 1\<rparr>
                                 else s\<lparr>tag_state := TAG_NONE\<rparr>)))
      | TAG_FOUND \<Rightarrow>
          (if tag_index s = 0 \<and> is_ws c then (False, advance s)
           else if c = g_pcTagLeadOut ! 0 \<or> is_ws c then
             (False, advance
               (if tag_index s = 0 then s\<lparr>tag_state := TAG_NONE\<rparr>
                else s\<lparr>tag_state := TAG_LEADOUT, tag_name_len := tag_index s mod 256,
                       tag_name := (tag_name s)[tag_index s := NUL],
                       tag_index := (if c = g_pcTagLeadOut ! 0 then 1 else 0)\<rparr>))
           else
             (False, advance
               (if tag_index s < LWIP_HTTPD_MAX_TAG_NAME_LEN
                then s\<lparr>tag_name := (tag_name s)[tag_index s := c], tag_index := tag_index s + 1\<rparr>
                else s\<lparr>tag_state := TAG_NONE\<rparr>)))
      | TAG_LEADOUT \<Rightarrow>
          (if tag_index s = 0 \<and> is_ws c then (False, advance s)
           else if c = g_pcTagLeadOut ! tag_index s then
             (if tag_index s = LEN_TAG_LEAD_OUT - 1 then (True, advance s)
              else (False, (advance s)\<lparr>tag_index := tag_index s + 1\<rparr>))
           else (False, (advance s)\<lparr>tag_state := TAG_NONE\<rparr>))
      | TAG_SENDING \<Rightarrow> (False, s))"

subsection \<open>Sending\<close>

text \<open>
  The variables of \<open>http_send_data_ssi\<close>. \<open>r_log\<close> is a history variable: for each call of
  \<open>get_tag_insert\<close>, the offset behind the tag, the tag's name and the insert.
\<close>

record ('p, 'w) ssi_run =
  r_pos :: send_pos
  r_ssi :: http_ssi_state
  r_tcp :: 'p
  r_world :: 'w
  r_len :: u16
  r_err :: err_t
  r_data_to_send :: bool
  r_log :: "(nat \<times> string \<times> bytes) list"

text \<open>Writing file data: \<open>http_write(pcb, hs->file, &len, HTTP_IS_DATA_VOLATILE(hs))\<close>.\<close>

definition write_file :: "'p tcp_ops \<Rightarrow> bytes \<Rightarrow> u16 \<Rightarrow> ('p, 'w) ssi_run \<Rightarrow> ('p, 'w) ssi_run" where
  "write_file T content len r =
     (let s = r_pos r in
      case http_write T (r_tcp r) (drop (hs_file s) content) len TCP_WRITE_FLAG_COPY of
        (err, len, p) \<Rightarrow>
          (if err = ERR_OK
           then r\<lparr>r_tcp := p, r_err := err, r_len := len, r_data_to_send := True,
                  r_pos := s\<lparr>hs_file := hs_file s + unat len, hs_left := hs_left s - unat len\<rparr>\<rparr>
           else r\<lparr>r_tcp := p, r_err := err, r_len := len\<rparr>))"

definition write_insert :: "'p tcp_ops \<Rightarrow> u16 \<Rightarrow> ('p, 'w) ssi_run \<Rightarrow> ('p, 'w) ssi_run" where
  "write_insert T len r =
     (let s = r_ssi r in
      case http_write T (r_tcp r) (drop (tag_index s) (tag_insert s)) len TCP_WRITE_FLAG_COPY of
        (err, len, p) \<Rightarrow>
          (if err = ERR_OK
           then r\<lparr>r_tcp := p, r_err := err, r_len := len, r_data_to_send := True,
                  r_ssi := s\<lparr>tag_index := tag_index s + unat len\<rparr>\<rparr>
           else r\<lparr>r_tcp := p, r_err := err, r_len := len\<rparr>))"

text \<open>\<open>len\<close> cut down to what is available.\<close>

definition cut_len :: "u16 \<Rightarrow> nat \<Rightarrow> u16" where
  "cut_len len avail = (if unat len > avail then of_nat avail else len)"

text \<open>The lead-out is complete: ask for the insert, and start sending what precedes it.\<close>

definition tag_complete ::
  "'p tcp_ops \<Rightarrow> 'w ssi_cfg \<Rightarrow> bytes \<Rightarrow> http_ssi_state \<Rightarrow> ('p, 'w) ssi_run \<Rightarrow> ('p, 'w) ssi_run" where
  "tag_complete T cfg content s r =
     (case get_tag_insert cfg s (r_world r) of
        (s, w) \<Rightarrow>
          let s = s\<lparr>tag_index := 0, tag_state := TAG_SENDING, tag_end := parsed s\<rparr>;
              r = r\<lparr>r_ssi := s, r_world := w,
                    r_log := r_log r @ [(parsed s, cstr (tag_name s), take (tag_insert_len s) (tag_insert s))]\<rparr>
          in if tag_end s > hs_file (r_pos r)
             then write_file T content (cut_len (r_len r) (tag_end s - hs_file (r_pos r))) r
             else r)"

definition sending_step :: "'p tcp_ops \<Rightarrow> bytes \<Rightarrow> ('p, 'w) ssi_run \<Rightarrow> ('p, 'w) ssi_run" where
  "sending_step T content r =
     (let s = r_ssi r in
      if tag_end s > hs_file (r_pos r) then
        let len = cut_len (r_len r) (tag_end s - hs_file (r_pos r))
        in if len \<noteq> 0 then write_file T content len r
           else r\<lparr>r_len := len, r_err := ERR_OK, r_data_to_send := True\<rparr>
      else if tag_index s < tag_insert_len s then
        write_insert T (cut_len (r_len r) (tag_insert_len s - tag_index s)) r
      else r\<lparr>r_ssi := s\<lparr>tag_index := 0, tag_state := TAG_NONE\<rparr>\<rparr>)"

definition ssi_step ::
  "'p tcp_ops \<Rightarrow> 'w ssi_cfg \<Rightarrow> bytes \<Rightarrow> ('p, 'w) ssi_run \<Rightarrow> ('p, 'w) ssi_run" where
  "ssi_step T cfg content r =
     (if tag_state (r_ssi r) = TAG_SENDING then sending_step T content r
      else (case tag_step (content ! parsed (r_ssi r)) (r_ssi r) of
              (complete, s) \<Rightarrow>
                if complete then tag_complete T cfg content s r else r\<lparr>r_ssi := s\<rparr>))"

lemma http_write_loop_pos_len:
  "http_write_loop T p ptr len fl = (ERR_OK, len', p') \<Longrightarrow> len \<noteq> 0 \<Longrightarrow> len' \<noteq> 0"
proof (induction "unat len" arbitrary: p len rule: less_induct)
  case less
  obtain e q where w: "op_write T p ptr len fl = (e, q)" by fastforce
  show ?case
  proof (cases "e = ERR_MEM \<and> next_len T q len > 1")
    case True
    then have "http_write_loop T q ptr (next_len T q len) fl = (ERR_OK, len', p')"
      using less(2) w by (subst (asm) http_write_loop.simps) (simp add: Let_def)
    moreover have "unat (next_len T q len) < unat len" "next_len T q len \<noteq> 0"
      using True next_len_less [of T q len] by (auto simp: word_less_nat_alt)
    ultimately show ?thesis using less(1) by blast
  next
    case False
    then have "len' = len"
      using less(2) w by (subst (asm) http_write_loop.simps) (auto simp: Let_def split: if_splits)
    then show ?thesis using less(3) by simp
  qed
qed

lemma http_write_pos_len:
  "http_write T p ptr len fl = (ERR_OK, len', p') \<Longrightarrow> len \<noteq> 0 \<Longrightarrow> len' \<noteq> 0"
  by (auto simp: http_write_def dest: http_write_loop_pos_len)

text \<open>
  The loop ends: a turn consumes a character, or leaves \<open>TAG_SENDING\<close> or the lead-in, or
  sends at least one byte of the file or of the insert.
\<close>

definition state_rank :: "tag_check_state \<Rightarrow> nat" where
  "state_rank st = (case st of TAG_SENDING \<Rightarrow> 2 | TAG_LEADIN \<Rightarrow> 1 | _ \<Rightarrow> 0)"

definition ssi_rank :: "('p, 'w) ssi_run \<Rightarrow> nat \<times> nat \<times> nat \<times> nat" where
  "ssi_rank r = (parse_left (r_ssi r), state_rank (tag_state (r_ssi r)),
     tag_end (r_ssi r) - hs_file (r_pos r), tag_insert_len (r_ssi r) - tag_index (r_ssi r))"

definition rank_less :: "((nat \<times> nat \<times> nat \<times> nat) \<times> (nat \<times> nat \<times> nat \<times> nat)) set" where
  "rank_less = less_than <*lex*> less_than <*lex*> less_than <*lex*> less_than"

lemma wf_rank_less [simp]: "wf rank_less"
  by (auto simp: rank_less_def)

lemma unat_neq_0: "(n :: u16) \<noteq> 0 \<Longrightarrow> 0 < unat n"
  by (simp add: unat_gt_0)

lemma cut_len_pos: "len \<noteq> 0 \<Longrightarrow> 0 < avail \<Longrightarrow> cut_len len avail \<noteq> 0"
proof -
  assume a: "len \<noteq> 0" "0 < avail"
  have "unat (of_nat avail :: u16) = avail" if "unat len > avail"
    by (rule unat_of_nat_u16) (use that unat_u16_less [of len] in linarith)
  then show ?thesis using a by (auto simp: cut_len_def)
qed

lemma cut_len_le: "unat (cut_len len avail) \<le> avail" "cut_len len avail \<le> len"
proof -
  have "unat (of_nat avail :: u16) = avail" if "unat len > avail"
    by (rule unat_of_nat_u16) (use that unat_u16_less [of len] in linarith)
  then show "unat (cut_len len avail) \<le> avail" "cut_len len avail \<le> len"
    by (auto simp: cut_len_def word_le_nat_alt)
qed

lemma sending_step_rank:
  assumes "tag_state (r_ssi r) = TAG_SENDING" "r_len r \<noteq> 0" "r_err (sending_step T content r) = ERR_OK"
  shows "(ssi_rank (sending_step T content r), ssi_rank r) \<in> rank_less"
proof -
  consider (tail) "tag_end (r_ssi r) > hs_file (r_pos r)"
    | (insert) "\<not> tag_end (r_ssi r) > hs_file (r_pos r)" "tag_index (r_ssi r) < tag_insert_len (r_ssi r)"
    | (finished) "\<not> tag_end (r_ssi r) > hs_file (r_pos r)" "\<not> tag_index (r_ssi r) < tag_insert_len (r_ssi r)"
    by blast
  then show ?thesis
  proof cases
    case tail
    let ?len = "cut_len (r_len r) (tag_end (r_ssi r) - hs_file (r_pos r))"
    have len: "?len \<noteq> 0" using tail assms(2) by (simp add: cut_len_pos)
    obtain err len' p where w:
      "http_write T (r_tcp r) (drop (hs_file (r_pos r)) content) ?len TCP_WRITE_FLAG_COPY = (err, len', p)"
      by (cases "http_write T (r_tcp r) (drop (hs_file (r_pos r)) content) ?len TCP_WRITE_FLAG_COPY")
    have st: "sending_step T content r = write_file T content ?len r"
      using tail len by (simp add: sending_step_def Let_def)
    then have "err = ERR_OK" using assms(3) w by (auto simp: write_file_def Let_def split: if_splits)
    then have "0 < unat len'" using http_write_pos_len [of T] w len unat_neq_0 by blast
    then show ?thesis using st w \<open>err = ERR_OK\<close> tail
      by (simp add: write_file_def ssi_rank_def rank_less_def Let_def)
  next
    case insert
    let ?len = "cut_len (r_len r) (tag_insert_len (r_ssi r) - tag_index (r_ssi r))"
    have len: "?len \<noteq> 0" using insert assms(2) by (simp add: cut_len_pos)
    obtain err len' p where w:
      "http_write T (r_tcp r) (drop (tag_index (r_ssi r)) (tag_insert (r_ssi r))) ?len TCP_WRITE_FLAG_COPY
         = (err, len', p)"
      by (cases "http_write T (r_tcp r) (drop (tag_index (r_ssi r)) (tag_insert (r_ssi r))) ?len TCP_WRITE_FLAG_COPY")
    have st: "sending_step T content r = write_insert T ?len r"
      using insert by (simp add: sending_step_def Let_def)
    then have "err = ERR_OK" using assms(3) w by (auto simp: write_insert_def Let_def split: if_splits)
    then have "0 < unat len'" using http_write_pos_len [of T] w len unat_neq_0 by blast
    then show ?thesis using st w \<open>err = ERR_OK\<close> insert
      by (simp add: write_insert_def ssi_rank_def rank_less_def Let_def)
  next
    case finished
    then show ?thesis
      using assms(1) by (simp add: sending_step_def ssi_rank_def rank_less_def state_rank_def)
  qed
qed

lemma tag_step_rank:
  assumes "tag_step c s = (complete, s')" "tag_state s \<noteq> TAG_SENDING" "parse_left s \<noteq> 0"
  shows "parse_left s' < parse_left s
    \<or> (\<not> complete \<and> parse_left s' = parse_left s \<and> state_rank (tag_state s') < state_rank (tag_state s))"
  using assms
  by (auto simp: tag_step_def advance_def state_rank_def split: tag_check_state.splits if_splits)

lemma get_tag_insert_keeps:
  "get_tag_insert cfg s w = (s', w') \<Longrightarrow> parse_left s' = parse_left s \<and> parsed s' = parsed s
     \<and> tag_name s' = tag_name s"
  by (auto simp: get_tag_insert_def unknown_tag_insert_def Let_def split: option.splits prod.splits)

lemma write_file_ssi [simp]: "r_ssi (write_file T content len r) = r_ssi r"
  "r_log (write_file T content len r) = r_log r" "r_world (write_file T content len r) = r_world r"
  by (auto simp: write_file_def Let_def split: prod.splits)

lemma ssi_step_rank:
  assumes "r_len r \<noteq> 0" "parse_left (r_ssi r) \<noteq> 0" "r_err (ssi_step T cfg content r) = ERR_OK"
  shows "(ssi_rank (ssi_step T cfg content r), ssi_rank r) \<in> rank_less"
proof (cases "tag_state (r_ssi r) = TAG_SENDING")
  case True
  with sending_step_rank [OF True assms(1), of T content] assms(3) show ?thesis
    by (simp add: ssi_step_def)
next
  case False
  obtain complete s where ts: "tag_step (content ! parsed (r_ssi r)) (r_ssi r) = (complete, s)" by fastforce
  note rank = tag_step_rank [OF ts False assms(2)]
  show ?thesis
  proof (cases complete)
    case True
    then have st: "ssi_step T cfg content r = tag_complete T cfg content s r"
      using False ts by (simp add: ssi_step_def)
    have "parse_left (r_ssi (tag_complete T cfg content s r)) = parse_left s"
    proof -
      obtain s2 w2 where g: "get_tag_insert cfg s (r_world r) = (s2, w2)" by fastforce
      with get_tag_insert_keeps [OF g] show ?thesis by (simp add: tag_complete_def Let_def)
    qed
    then show ?thesis unfolding st using rank True by (simp add: ssi_rank_def rank_less_def)
  next
    case c: False
    then have "ssi_step T cfg content r = r\<lparr>r_ssi := s\<rparr>"
      using False ts by (simp add: ssi_step_def)
    then show ?thesis using rank c by (auto simp: ssi_rank_def rank_less_def)
  qed
qed

text \<open>The loop; the flag says that it was left by the early return for \<open>len == 0\<close>.\<close>

function ssi_loop ::
  "'p tcp_ops \<Rightarrow> 'w ssi_cfg \<Rightarrow> bytes \<Rightarrow> ('p, 'w) ssi_run \<Rightarrow> bool \<times> ('p, 'w) ssi_run" where
  "ssi_loop T cfg content r =
     (if parse_left (r_ssi r) \<noteq> 0 \<and> r_err r = ERR_OK then
        if r_len r = 0 then (True, r)
        else let r' = ssi_step T cfg content r
             in if r_err r' = ERR_OK then ssi_loop T cfg content r' else (False, r')
      else (False, r))"
  by pat_completeness auto

termination
  by (relation "inv_image rank_less (\<lambda>(T, cfg, content, r). ssi_rank r)") (auto simp: ssi_step_rank)

declare ssi_loop.simps [simp del]

text \<open>\<open>http_send_data_ssi\<close>, from the variables at its start: \<open>err\<close> is 0 and \<open>len\<close> the send buffer.\<close>

definition send_parsed :: "'p tcp_ops \<Rightarrow> bytes \<Rightarrow> ('p, 'w) ssi_run \<Rightarrow> ('p, 'w) ssi_run" where
  "send_parsed T content r =
     write_file T content (limit_len T (r_tcp r) (parsed (r_ssi r) - hs_file (r_pos r))) r"

definition http_send_data_ssi ::
  "'p tcp_ops \<Rightarrow> 'w ssi_cfg \<Rightarrow> bytes \<Rightarrow> ('p, 'w) ssi_run \<Rightarrow> ('p, 'w) ssi_run" where
  "http_send_data_ssi T cfg content r =
     (let r = r\<lparr>r_err := ERR_OK, r_len := op_sndbuf T (r_tcp r), r_data_to_send := False\<rparr>;
          pending = (parsed (r_ssi r) > hs_file (r_pos r));
          r = (if pending then send_parsed T content r else r)
      in if pending \<and> op_sndbuf T (r_tcp r) = 0 then r
         else (case ssi_loop T cfg content r of
                 (True, r) \<Rightarrow> r
               | (False, r) \<Rightarrow>
                   if tag_state (r_ssi r) \<noteq> TAG_SENDING \<and> parsed (r_ssi r) > hs_file (r_pos r)
                   then send_parsed T content r else r))"

end
