(* ===== verification/Http_Ssi_Inv.thy ===== *)
theory Http_Ssi_Inv
  imports Http_Ssi
begin

text \<open>
  What \<open>http_send_data_ssi\<close> sends. The specification is \<open>woven\<close>: the file from a start offset,
  with each insert behind its tag. The invariant \<open>ssi_inv\<close> says that the bytes given to TCP so far
  are a prefix of it, whatever TCP refuses or shortens in between; \<open>parser_ok\<close> says that every
  index of the tag parser lies inside its buffer.
\<close>

definition span_of :: "nat \<Rightarrow> nat \<Rightarrow> bytes \<Rightarrow> bytes" where
  "span_of a b xs = take (b - a) (drop a xs)"

fun woven :: "bytes \<Rightarrow> nat \<Rightarrow> (nat \<times> string \<times> bytes) list \<Rightarrow> nat \<Rightarrow> bytes" where
  "woven content a [] b = span_of a b content"
| "woven content a ((t, name, ins) # log) b = span_of a t content @ ins @ woven content (max a t) log b"

lemma span_of_self [simp]: "span_of a a xs = []" "b \<le> a \<Longrightarrow> span_of a b xs = []"
  by (simp_all add: span_of_def)

lemma span_of_append: "a \<le> b \<Longrightarrow> b \<le> c \<Longrightarrow> span_of a b xs @ span_of b c xs = span_of a c xs"
proof -
  assume "a \<le> b" "b \<le> c"
  then show ?thesis
    using take_drop_split [of "b - a" "c - a" a xs] by (simp add: span_of_def)
qed

lemma woven_extend:
  "a \<le> b \<Longrightarrow> \<forall>(t, _)\<in>set log. t \<le> b \<Longrightarrow> b \<le> c \<Longrightarrow>
     woven content a log c = woven content a log b @ span_of b c content"
  by (induction content a log c rule: woven.induct) (auto simp: span_of_append)

lemma woven_snoc:
  "\<forall>(u, _)\<in>set log. u \<le> max a t \<Longrightarrow>
     woven content a (log @ [(t, name, ins)]) b
       = woven content a log (max a t) @ ins @ span_of (max a t) b content"
proof (induction log arbitrary: a)
  case Nil
  then show ?case by (cases "a \<le> t") (auto simp: max_def)
next
  case (Cons x log)
  obtain u nm i where x: "x = (u, nm, i)" by (cases x)
  have m: "max (max a u) t = max a t" using Cons(2) x by auto
  have "woven content (max a u) (log @ [(t, name, ins)]) b
      = woven content (max a u) log (max (max a u) t) @ ins @ span_of (max (max a u) t) b content"
    by (rule Cons(1)) (use Cons(2) m in auto)
  then show ?case by (simp add: x m)
qed

subsection \<open>The parser\<close>

definition parser_ok :: "http_ssi_state \<Rightarrow> bool" where
  "parser_ok s \<longleftrightarrow>
     length (tag_name s) = LWIP_HTTPD_MAX_TAG_NAME_LEN + 1
   \<and> length (tag_insert s) = LWIP_HTTPD_MAX_TAG_INSERT_LEN + 1
   \<and> (case tag_state s of
        TAG_NONE \<Rightarrow> True
      | TAG_LEADIN \<Rightarrow> tag_index s \<le> LEN_TAG_LEAD_IN
      | TAG_FOUND \<Rightarrow> tag_index s \<le> LWIP_HTTPD_MAX_TAG_NAME_LEN
      | TAG_LEADOUT \<Rightarrow> tag_index s < LEN_TAG_LEAD_OUT
      | TAG_SENDING \<Rightarrow> tag_index s \<le> tag_insert_len s \<and> tag_insert_len s \<le> LWIP_HTTPD_MAX_TAG_INSERT_LEN)"

lemmas ssi_consts = LWIP_HTTPD_MAX_TAG_NAME_LEN_def LWIP_HTTPD_MAX_TAG_INSERT_LEN_def
  LEN_TAG_LEAD_IN_def LEN_TAG_LEAD_OUT_def UNKNOWN_TAG1_LEN_def UNKNOWN_TAG2_LEN_def

lemma tag_step_parser_ok:
  assumes "tag_step c s = (complete, s')" "parser_ok s" "tag_state s \<noteq> TAG_SENDING" "parse_left s \<noteq> 0"
  shows "length (tag_name s') = LWIP_HTTPD_MAX_TAG_NAME_LEN + 1"
    and "length (tag_insert s') = LWIP_HTTPD_MAX_TAG_INSERT_LEN + 1"
    and "parsed s' + parse_left s' = parsed s + parse_left s" "parsed s \<le> parsed s'"
    and "\<not> complete \<Longrightarrow> parser_ok s' \<and> tag_state s' \<noteq> TAG_SENDING"
proof -
  show "length (tag_name s') = LWIP_HTTPD_MAX_TAG_NAME_LEN + 1"
    "length (tag_insert s') = LWIP_HTTPD_MAX_TAG_INSERT_LEN + 1"
    using assms(1,2)
    by (auto simp: tag_step_def parser_ok_def advance_def split: tag_check_state.splits if_splits)
  show "parsed s' + parse_left s' = parsed s + parse_left s" "parsed s \<le> parsed s'"
    using assms(1,4)
    by (auto simp: tag_step_def advance_def split: tag_check_state.splits if_splits)
  show "parser_ok s' \<and> tag_state s' \<noteq> TAG_SENDING" if "\<not> complete"
    using assms that
    by (cases "tag_state s")
       (auto simp: tag_step_def parser_ok_def advance_def ssi_consts split: if_splits)
qed

text \<open>What the SSI handler must respect: the buffer it is given, and its size.\<close>

definition handler_ok :: "'w ssi_cfg \<Rightarrow> bool" where
  "handler_ok cfg \<longleftrightarrow> (\<forall>h i buf w n buf' w'. g_pfnSSIHandler cfg = Some h \<longrightarrow>
     length buf = LWIP_HTTPD_MAX_TAG_INSERT_LEN + 1 \<longrightarrow> h i buf w = (n, buf', w') \<longrightarrow>
     length buf' = LWIP_HTTPD_MAX_TAG_INSERT_LEN + 1 \<and> unat n \<le> LWIP_HTTPD_MAX_TAG_INSERT_LEN)"

lemma length_put_bytes: "off + length bs \<le> length buf \<Longrightarrow> length (put_bytes off bs buf) = length buf"
  by (simp add: put_bytes_def)

lemma c_strlen_le: "c_strlen m \<le> length m"
  by (simp add: c_strlen_def cstr_def length_takeWhile_le)

lemma c_strlen_nul: "i < length m \<Longrightarrow> m ! i = NUL \<Longrightarrow> c_strlen m \<le> i"
proof (induction m arbitrary: i)
  case (Cons x m)
  then show ?case by (cases i) (auto simp: c_strlen_def cstr_def)
qed simp

lemma unknown_tag_insert_len:
  assumes "length (tag_insert s) = LWIP_HTTPD_MAX_TAG_INSERT_LEN + 1"
    "length (tag_name s) = LWIP_HTTPD_MAX_TAG_NAME_LEN + 1"
  shows "length (tag_insert (unknown_tag_insert s)) = LWIP_HTTPD_MAX_TAG_INSERT_LEN + 1"
    and "tag_insert_len (unknown_tag_insert s) \<le> LWIP_HTTPD_MAX_TAG_INSERT_LEN"
proof -
  define len where "len = min (c_strlen (tag_name s))
      (LWIP_HTTPD_MAX_TAG_INSERT_LEN - (UNKNOWN_TAG1_LEN + UNKNOWN_TAG2_LEN))"
  define b1 where "b1 = put_bytes 0 (take UNKNOWN_TAG1_LEN UNKNOWN_TAG1_TEXT) (tag_insert s)"
  define b2 where "b2 = put_bytes UNKNOWN_TAG1_LEN (take len (tag_name s)) b1"
  define b3 where "b3 = put_bytes (UNKNOWN_TAG1_LEN + len) (take UNKNOWN_TAG2_LEN UNKNOWN_TAG2_TEXT) b2"
  define b4 where "b4 = b3[UNKNOWN_TAG1_LEN + len + UNKNOWN_TAG2_LEN := NUL]"
  have len: "len \<le> 9"
    using c_strlen_le [of "tag_name s"] assms(2) by (simp add: len_def ssi_consts)
  have "length b1 = 193" unfolding b1_def
    by (subst length_put_bytes) (use assms(1) in \<open>auto simp: ssi_consts UNKNOWN_TAG1_TEXT_def\<close>)
  then have "length b2 = 193" unfolding b2_def
    by (subst length_put_bytes) (use len in \<open>auto simp: ssi_consts\<close>)
  then have "length b3 = 193" unfolding b3_def
    by (subst length_put_bytes) (use len in \<open>auto simp: ssi_consts UNKNOWN_TAG2_TEXT_def\<close>)
  then have b4: "length b4 = 193" "b4 ! (UNKNOWN_TAG1_LEN + len + UNKNOWN_TAG2_LEN) = NUL"
    using len by (simp_all add: b4_def ssi_consts)
  have sl: "c_strlen b4 \<le> UNKNOWN_TAG1_LEN + len + UNKNOWN_TAG2_LEN"
    by (rule c_strlen_nul) (use b4 len in \<open>simp_all add: ssi_consts\<close>)
  have eq: "unknown_tag_insert s = s\<lparr>tag_insert := b4, tag_insert_len := c_strlen b4 mod 65536\<rparr>"
    by (simp add: unknown_tag_insert_def b1_def b2_def b3_def b4_def len_def Let_def)
  show "length (tag_insert (unknown_tag_insert s)) = LWIP_HTTPD_MAX_TAG_INSERT_LEN + 1"
    using b4 by (simp add: eq ssi_consts)
  show "tag_insert_len (unknown_tag_insert s) \<le> LWIP_HTTPD_MAX_TAG_INSERT_LEN"
    using sl len by (simp add: eq ssi_consts)
qed

lemma get_tag_insert_len:
  assumes "get_tag_insert cfg s w = (s', w')" "handler_ok cfg"
    "length (tag_insert s) = LWIP_HTTPD_MAX_TAG_INSERT_LEN + 1"
    "length (tag_name s) = LWIP_HTTPD_MAX_TAG_NAME_LEN + 1"
  shows "length (tag_insert s') = LWIP_HTTPD_MAX_TAG_INSERT_LEN + 1"
    and "tag_insert_len s' \<le> LWIP_HTTPD_MAX_TAG_INSERT_LEN"
proof -
  have "(\<exists>h i n buf. g_pfnSSIHandler cfg = Some h \<and> h i (tag_insert s) w = (n, buf, w')
          \<and> s' = s\<lparr>tag_insert := buf, tag_insert_len := unat n\<rparr>) \<or> s' = unknown_tag_insert s"
    using assms(1) by (auto simp: get_tag_insert_def split: option.splits prod.splits)
  then show "length (tag_insert s') = LWIP_HTTPD_MAX_TAG_INSERT_LEN + 1"
    "tag_insert_len s' \<le> LWIP_HTTPD_MAX_TAG_INSERT_LEN"
    using assms(2-4) unknown_tag_insert_len [OF assms(3,4)]
    unfolding handler_ok_def by force+
qed

subsection \<open>The invariant\<close>

definition ssi_inv ::
  "('p \<Rightarrow> bytes) \<Rightarrow> ('p \<Rightarrow> bool) \<Rightarrow> bytes \<Rightarrow> nat \<Rightarrow> bytes \<Rightarrow> ('p, 'w) ssi_run \<Rightarrow> bool" where
  "ssi_inv stream good S0 start content r \<longleftrightarrow>
     (let s = r_ssi r; f = hs_file (r_pos r) in
        good (r_tcp r) \<and> pos_ok content (r_pos r) \<and> parser_ok s
      \<and> start \<le> f \<and> f \<le> max start (parsed s) \<and> parsed s + parse_left s = length content
      \<and> (if tag_state s \<noteq> TAG_SENDING
         then (\<forall>(t, _)\<in>set (r_log r). t \<le> f) \<and> stream (r_tcp r) = S0 @ woven content start (r_log r) f
         else r_log r \<noteq> [] \<and> tag_end s = parsed s
            \<and> last (r_log r) = (parsed s, cstr (tag_name s), take (tag_insert_len s) (tag_insert s))
            \<and> (\<forall>(t, _)\<in>set (butlast (r_log r)). t \<le> f)
            \<and> (if f < tag_end s
               then tag_index s = 0 \<and> stream (r_tcp r) = S0 @ woven content start (butlast (r_log r)) f
               else stream (r_tcp r) = S0 @ woven content start (butlast (r_log r)) f
                      @ take (tag_index s) (tag_insert s))))"

context tcp_sender begin

lemma write_file_effect:
  assumes "good (r_tcp r)" "pos_ok content (r_pos r)" "unat len \<le> hs_left (r_pos r)"
  defines "r' \<equiv> write_file T content len r"
  shows "good (r_tcp r')" "pos_ok content (r_pos r')" "hs_file (r_pos r) \<le> hs_file (r_pos r')"
    "hs_file (r_pos r') \<le> hs_file (r_pos r) + unat len"
    "stream (r_tcp r') = stream (r_tcp r) @ span_of (hs_file (r_pos r)) (hs_file (r_pos r')) content"
    "r_ssi r' = r_ssi r" "r_log r' = r_log r" "r_world r' = r_world r"
proof -
  obtain err len' p where w:
    "http_write T (r_tcp r) (drop (hs_file (r_pos r)) content) len TCP_WRITE_FLAG_COPY = (err, len', p)"
    by (cases "http_write T (r_tcp r) (drop (hs_file (r_pos r)) content) len TCP_WRITE_FLAG_COPY")
  have fit: "unat len \<le> length (drop (hs_file (r_pos r)) content)"
    using assms(2,3) by (simp add: pos_ok_def)
  note wr = http_write_wrote [OF w assms(1) fit]
  show "r_ssi r' = r_ssi r" "r_log r' = r_log r" "r_world r' = r_world r" by (simp_all add: r'_def)
  show "good (r_tcp r')" "pos_ok content (r_pos r')" "hs_file (r_pos r) \<le> hs_file (r_pos r')"
    "hs_file (r_pos r') \<le> hs_file (r_pos r) + unat len"
    "stream (r_tcp r') = stream (r_tcp r) @ span_of (hs_file (r_pos r)) (hs_file (r_pos r')) content"
    using wr w assms(2,3)
    by (auto simp: r'_def write_file_def Let_def wrote_def pos_ok_def span_of_def word_le_nat_alt
        split: if_splits)
qed

text \<open>Sending file data up to some offset that the parser has passed.\<close>

lemma write_file_inv:
  assumes inv: "ssi_inv stream good S0 start content r" and st: "tag_state (r_ssi r) \<noteq> TAG_SENDING"
    and len: "unat len \<le> parsed (r_ssi r) - hs_file (r_pos r)"
  shows "ssi_inv stream good S0 start content (write_file T content len r)"
proof -
  let ?f = "hs_file (r_pos r)"
  have i: "good (r_tcp r)" "pos_ok content (r_pos r)" "parser_ok (r_ssi r)" "start \<le> ?f"
    "?f \<le> max start (parsed (r_ssi r))" "parsed (r_ssi r) + parse_left (r_ssi r) = length content"
    "\<forall>(t, _)\<in>set (r_log r). t \<le> ?f" "stream (r_tcp r) = S0 @ woven content start (r_log r) ?f"
    using inv st by (simp_all add: ssi_inv_def Let_def)
  have "unat len \<le> hs_left (r_pos r)" using len i(2,6) by (auto simp: pos_ok_def)
  note w = write_file_effect [OF i(1,2) this]
  have "stream (r_tcp (write_file T content len r)) = S0 @ woven content start (r_log r)
      (hs_file (r_pos (write_file T content len r)))"
    using w(5) i(8) woven_extend [OF i(4,7) w(3), of content] by simp
  then show ?thesis
    using i w len st by (fastforce simp: ssi_inv_def Let_def)
qed

lemma write_file_sending:
  assumes inv: "ssi_inv stream good S0 start content r" and st: "tag_state (r_ssi r) = TAG_SENDING"
    and more: "hs_file (r_pos r) < tag_end (r_ssi r)"
    and len: "unat len \<le> tag_end (r_ssi r) - hs_file (r_pos r)"
  shows "ssi_inv stream good S0 start content (write_file T content len r)"
proof -
  let ?f = "hs_file (r_pos r)"
  let ?log = "butlast (r_log r)"
  have i: "good (r_tcp r)" "pos_ok content (r_pos r)" "parser_ok (r_ssi r)" "start \<le> ?f"
    "?f \<le> max start (parsed (r_ssi r))" "parsed (r_ssi r) + parse_left (r_ssi r) = length content"
    "tag_end (r_ssi r) = parsed (r_ssi r)"
    "\<forall>(t, _)\<in>set ?log. t \<le> ?f" "stream (r_tcp r) = S0 @ woven content start ?log ?f"
    "tag_index (r_ssi r) = 0"
    using inv st more by (simp_all add: ssi_inv_def Let_def)
  have "unat len \<le> hs_left (r_pos r)" using len i(2,6,7) by (auto simp: pos_ok_def)
  note w = write_file_effect [OF i(1,2) this]
  have "stream (r_tcp (write_file T content len r)) = S0 @ woven content start ?log
      (hs_file (r_pos (write_file T content len r)))"
    using w(5) i(9) woven_extend [OF i(4,8) w(3), of content] by simp
  then show ?thesis
    using inv i w len st more by (fastforce simp: ssi_inv_def Let_def)
qed

lemma ssi_inv_len_err [simp]:
  "ssi_inv stream good S0 start content (r\<lparr>r_err := e\<rparr>) = ssi_inv stream good S0 start content r"
  "ssi_inv stream good S0 start content (r\<lparr>r_len := l\<rparr>) = ssi_inv stream good S0 start content r"
  "ssi_inv stream good S0 start content (r\<lparr>r_data_to_send := d\<rparr>) = ssi_inv stream good S0 start content r"
  by (simp_all add: ssi_inv_def Let_def)

lemma write_insert_inv:
  assumes inv: "ssi_inv stream good S0 start content r" and st: "tag_state (r_ssi r) = TAG_SENDING"
    and at: "\<not> hs_file (r_pos r) < tag_end (r_ssi r)"
    and len: "unat len \<le> tag_insert_len (r_ssi r) - tag_index (r_ssi r)"
    and more: "tag_index (r_ssi r) < tag_insert_len (r_ssi r)"
  shows "ssi_inv stream good S0 start content (write_insert T len r)"
proof -
  let ?s = "r_ssi r"
  have i: "good (r_tcp r)" "parser_ok ?s"
    "stream (r_tcp r) = S0 @ woven content start (butlast (r_log r)) (hs_file (r_pos r))
        @ take (tag_index ?s) (tag_insert ?s)"
    using inv st at by (simp_all add: ssi_inv_def Let_def)
  have buf: "length (tag_insert ?s) = 193" "tag_insert_len ?s \<le> 192" "tag_index ?s \<le> tag_insert_len ?s"
    using i(2) st by (simp_all add: parser_ok_def ssi_consts)
  obtain err len' p where w:
    "http_write T (r_tcp r) (drop (tag_index ?s) (tag_insert ?s)) len TCP_WRITE_FLAG_COPY = (err, len', p)"
    by (cases "http_write T (r_tcp r) (drop (tag_index ?s) (tag_insert ?s)) len TCP_WRITE_FLAG_COPY")
  have fit: "unat len \<le> length (drop (tag_index ?s) (tag_insert ?s))" using len buf by simp
  note wr = http_write_wrote [OF w i(1) fit]
  show ?thesis
  proof (cases "err = ERR_OK")
    case True
    have "unat len' \<le> unat len" using wr True by (simp add: wrote_def word_le_nat_alt)
    then have "tag_index ?s + unat len' \<le> tag_insert_len ?s" using len more by simp
    moreover have "stream p = S0 @ woven content start (butlast (r_log r)) (hs_file (r_pos r))
        @ take (tag_index ?s + unat len') (tag_insert ?s)"
      using wr True i(3) by (simp add: wrote_def take_add)
    ultimately show ?thesis
      using inv st at w True wr buf
      by (auto simp: write_insert_def ssi_inv_def Let_def parser_ok_def wrote_def ssi_consts)
  next
    case False
    then show ?thesis
      using inv w wr by (auto simp: write_insert_def ssi_inv_def Let_def wrote_def)
  qed
qed

lemma sending_step_inv:
  assumes inv: "ssi_inv stream good S0 start content r" and st: "tag_state (r_ssi r) = TAG_SENDING"
  shows "ssi_inv stream good S0 start content (sending_step T content r)"
proof -
  consider (tail) "tag_end (r_ssi r) > hs_file (r_pos r)"
    | (insert) "\<not> tag_end (r_ssi r) > hs_file (r_pos r)" "tag_index (r_ssi r) < tag_insert_len (r_ssi r)"
    | (finished) "\<not> tag_end (r_ssi r) > hs_file (r_pos r)" "\<not> tag_index (r_ssi r) < tag_insert_len (r_ssi r)"
    by blast
  then show ?thesis
  proof cases
    case tail
    then show ?thesis
      using write_file_sending [OF inv st tail cut_len_le(1)] inv
      by (simp add: sending_step_def Let_def)
  next
    case insert
    then show ?thesis
      using write_insert_inv [OF inv st insert(1) cut_len_le(1) insert(2)]
      by (simp add: sending_step_def Let_def)
  next
    case finished
    let ?s = "r_ssi r" let ?f = "hs_file (r_pos r)"
    have i: "parser_ok ?s" "start \<le> ?f" "?f \<le> max start (parsed ?s)" "tag_end ?s = parsed ?s"
      "r_log r \<noteq> []"
      "last (r_log r) = (parsed ?s, cstr (tag_name ?s), take (tag_insert_len ?s) (tag_insert ?s))"
      "\<forall>(t, _)\<in>set (butlast (r_log r)). t \<le> ?f"
      "stream (r_tcp r) = S0 @ woven content start (butlast (r_log r)) ?f @ take (tag_index ?s) (tag_insert ?s)"
      using inv st finished by (simp_all add: ssi_inv_def Let_def)
    have f: "?f = max start (parsed ?s)" using i(2-4) finished(1) by simp
    have idx: "tag_index ?s = tag_insert_len ?s"
      using i(1) st finished(2) by (simp add: parser_ok_def)
    have log: "r_log r = butlast (r_log r) @ [last (r_log r)]" using i(5) by simp
    have "woven content start (butlast (r_log r)
          @ [(parsed ?s, cstr (tag_name ?s), take (tag_insert_len ?s) (tag_insert ?s))]) (max start (parsed ?s))
        = woven content start (butlast (r_log r)) (max start (parsed ?s))
          @ take (tag_insert_len ?s) (tag_insert ?s)
          @ span_of (max start (parsed ?s)) (max start (parsed ?s)) content"
      by (rule woven_snoc) (use i(7) f in auto)
    then have "woven content start (r_log r) ?f
        = woven content start (butlast (r_log r)) ?f @ take (tag_insert_len ?s) (tag_insert ?s)"
      by (metis append_Nil2 append_butlast_last_id f i(5,6) span_of_self(1))
    then have "stream (r_tcp r) = S0 @ woven content start (r_log r) ?f" using i(8) idx by simp
    moreover have "\<forall>(t, _)\<in>set (r_log r). t \<le> ?f"
      by (subst log) (use i(4,6,7) finished(1) in auto)
    moreover have "parser_ok (?s\<lparr>tag_index := 0, tag_state := TAG_NONE\<rparr>)"
      using i(1) by (simp add: parser_ok_def)
    moreover have "good (r_tcp r)" "pos_ok content (r_pos r)" "parsed ?s + parse_left ?s = length content"
      using inv by (simp_all add: ssi_inv_def Let_def)
    moreover have "sending_step T content r = r\<lparr>r_ssi := ?s\<lparr>tag_index := 0, tag_state := TAG_NONE\<rparr>\<rparr>"
      using finished by (simp add: sending_step_def)
    ultimately show ?thesis
      using i(2,3) by (simp add: ssi_inv_def)
  qed
qed

lemma tag_complete_inv:
  assumes inv: "ssi_inv stream good S0 start content r" and st: "tag_state (r_ssi r) \<noteq> TAG_SENDING"
    and ts: "tag_step c (r_ssi r) = (True, s)" and left: "parse_left (r_ssi r) \<noteq> 0" and cfg: "handler_ok cfg"
  shows "ssi_inv stream good S0 start content (tag_complete T cfg content s r)"
proof -
  let ?f = "hs_file (r_pos r)"
  have i: "good (r_tcp r)" "pos_ok content (r_pos r)" "parser_ok (r_ssi r)" "start \<le> ?f"
    "?f \<le> max start (parsed (r_ssi r))" "parsed (r_ssi r) + parse_left (r_ssi r) = length content"
    "\<forall>(t, _)\<in>set (r_log r). t \<le> ?f" "stream (r_tcp r) = S0 @ woven content start (r_log r) ?f"
    using inv st by (simp_all add: ssi_inv_def Let_def)
  note p = tag_step_parser_ok [OF ts i(3) st left]
  obtain s2 w2 where g: "get_tag_insert cfg s (r_world r) = (s2, w2)" by fastforce
  note gl = get_tag_insert_len [OF g cfg p(2,1)] and gk = get_tag_insert_keeps [OF g]
  define s3 where "s3 = s2\<lparr>tag_index := 0, tag_state := TAG_SENDING, tag_end := parsed s2\<rparr>"
  define r3 where "r3 = r\<lparr>r_ssi := s3, r_world := w2,
      r_log := r_log r @ [(parsed s3, cstr (tag_name s3), take (tag_insert_len s3) (tag_insert s3))]\<rparr>"
  have eq: "tag_complete T cfg content s r =
      (if tag_end s3 > ?f then write_file T content (cut_len (r_len r) (tag_end s3 - ?f)) r3 else r3)"
    by (simp add: tag_complete_def g Let_def s3_def r3_def)
  have "parser_ok s3" using gl gk p(1) by (simp add: parser_ok_def s3_def)
  moreover have "parsed s3 + parse_left s3 = length content" "parsed (r_ssi r) \<le> parsed s3"
    using gk p(3,4) i(6) by (simp_all add: s3_def)
  ultimately have r3: "ssi_inv stream good S0 start content r3"
    using i by (auto simp: ssi_inv_def Let_def r3_def s3_def)
  have st3: "tag_state (r_ssi r3) = TAG_SENDING" "r_ssi r3 = s3" "r_pos r3 = r_pos r"
    by (simp_all add: r3_def s3_def)
  show ?thesis
    unfolding eq using r3 write_file_sending [OF r3 st3(1)] cut_len_le(1) st3(2,3) by simp
qed

lemma ssi_step_inv:
  assumes inv: "ssi_inv stream good S0 start content r" and left: "parse_left (r_ssi r) \<noteq> 0"
    and cfg: "handler_ok cfg"
  shows "ssi_inv stream good S0 start content (ssi_step T cfg content r)"
proof (cases "tag_state (r_ssi r) = TAG_SENDING")
  case True
  then show ?thesis using sending_step_inv [OF inv] by (simp add: ssi_step_def)
next
  case False
  obtain complete s where ts: "tag_step (content ! parsed (r_ssi r)) (r_ssi r) = (complete, s)" by fastforce
  show ?thesis
  proof (cases complete)
    case True
    then show ?thesis
      using tag_complete_inv [OF inv False _ left cfg] ts False by (simp add: ssi_step_def)
  next
    case c: False
    have "parser_ok (r_ssi r)" using inv by (simp add: ssi_inv_def Let_def)
    note p = tag_step_parser_ok [OF ts this False left]
    have "ssi_inv stream good S0 start content (r\<lparr>r_ssi := s\<rparr>)"
      using inv False p c by (auto simp: ssi_inv_def Let_def)
    then show ?thesis using ts c False by (simp add: ssi_step_def)
  qed
qed

lemma ssi_loop_inv:
  assumes "ssi_inv stream good S0 start content r" "handler_ok cfg"
  shows "ssi_inv stream good S0 start content (snd (ssi_loop T cfg content r))"
  using assms
proof (induction r rule: wf_induct_rule [OF wf_inv_image [OF wf_rank_less, of ssi_rank]])
  case (1 r)
  show ?case
  proof (cases "parse_left (r_ssi r) \<noteq> 0 \<and> r_err r = ERR_OK \<and> r_len r \<noteq> 0")
    case True
    then have inv: "ssi_inv stream good S0 start content (ssi_step T cfg content r)"
      using ssi_step_inv 1(2,3) by blast
    have "(ssi_step T cfg content r, r) \<in> inv_image rank_less ssi_rank"
      if "r_err (ssi_step T cfg content r) = ERR_OK"
      using ssi_step_rank [of r T cfg content] True that by simp
    then show ?thesis
      using 1(1,3) inv True by (subst ssi_loop.simps) (auto simp: Let_def)
  next
    case False
    then show ?thesis using 1(2) by (subst ssi_loop.simps) auto
  qed
qed

lemma send_parsed_inv:
  assumes "ssi_inv stream good S0 start content r" "hs_file (r_pos r) < parsed (r_ssi r)"
  shows "ssi_inv stream good S0 start content (send_parsed T content r)"
proof (cases "tag_state (r_ssi r) = TAG_SENDING")
  case True
  then have "tag_end (r_ssi r) = parsed (r_ssi r)" using assms(1) by (simp add: ssi_inv_def Let_def)
  then show ?thesis
    using write_file_sending [OF assms(1) True] assms(2) by (simp add: send_parsed_def limit_len_le(1))
next
  case False
  then show ?thesis
    using write_file_inv [OF assms(1)] by (simp add: send_parsed_def limit_len_le(1))
qed

lemma http_send_data_ssi_inv:
  assumes "ssi_inv stream good S0 start content r" "handler_ok cfg"
  shows "ssi_inv stream good S0 start content (http_send_data_ssi T cfg content r)"
proof -
  define r1 where "r1 = r\<lparr>r_err := ERR_OK, r_len := op_sndbuf T (r_tcp r), r_data_to_send := False\<rparr>"
  define r2 where "r2 = (if parsed (r_ssi r1) > hs_file (r_pos r1) then send_parsed T content r1 else r1)"
  have r1: "ssi_inv stream good S0 start content r1" using assms(1) by (simp add: r1_def)
  then have r2: "ssi_inv stream good S0 start content r2"
    using send_parsed_inv [OF r1] by (simp add: r2_def)
  obtain early r3 where l: "ssi_loop T cfg content r2 = (early, r3)" by fastforce
  then have r3: "ssi_inv stream good S0 start content r3"
    using ssi_loop_inv [OF r2 assms(2)] by simp
  have eq: "http_send_data_ssi T cfg content r =
      (if parsed (r_ssi r1) > hs_file (r_pos r1) \<and> op_sndbuf T (r_tcp r2) = 0 then r2
       else if early then r3
       else if tag_state (r_ssi r3) \<noteq> TAG_SENDING \<and> parsed (r_ssi r3) > hs_file (r_pos r3)
       then send_parsed T content r3 else r3)"
  proof (cases "parsed (r_ssi r1) > hs_file (r_pos r1)")
    case True
    then have "r2 = send_parsed T content r1" by (simp add: r2_def)
    with True l show ?thesis
      by (simp add: http_send_data_ssi_def Let_def r1_def [symmetric] split: bool.split)
  next
    case False
    then have "r2 = r1" by (simp add: r2_def)
    with False l show ?thesis
      by (simp add: http_send_data_ssi_def Let_def r1_def [symmetric] split: bool.split)
  qed
  show ?thesis
    unfolding eq using r2 r3 send_parsed_inv [OF r3] by auto
qed

text \<open>At the end of the file: everything has been sent, or an insert is still pending.\<close>

lemma ssi_inv_at_end:
  assumes inv: "ssi_inv stream good S0 start content r" and left: "hs_left (r_pos r) = 0"
    and none: "tag_state (r_ssi r) \<noteq> TAG_SENDING"
  shows "stream (r_tcp r) = S0 @ woven content start (r_log r) (length content)"
  using assms by (simp add: ssi_inv_def Let_def pos_ok_def)

end

end
