(* ===== verification/Http_Ssi_Scan.thy ===== *)
theory Http_Ssi_Scan
  imports Http_Ssi_Inv
begin

text \<open>
  Which tags the server finds. \<open>scan\<close> runs the tag parser alone over a file. A run of
  \<open>http_send_data_ssi\<close>, however often TCP interrupts it, asks for exactly the inserts that
  \<open>scan\<close> lists, in its order; and \<open>scan\<close> finds every tag of the documented form.
\<close>

definition scan_reset :: "http_ssi_state \<Rightarrow> http_ssi_state" where
  "scan_reset s = s\<lparr>tag_index := 0, tag_state := TAG_NONE\<rparr>"

function scan :: "bytes \<Rightarrow> http_ssi_state \<Rightarrow> (nat \<times> string) list" where
  "scan content s =
     (if parse_left s = 0 \<or> tag_state s = TAG_SENDING then []
      else (case tag_step (content ! parsed s) s of
              (complete, s') \<Rightarrow>
                if complete then (parsed s', cstr (tag_name s')) # scan content (scan_reset s')
                else scan content s'))"
  by pat_completeness auto

lemma tag_step_rank_eq:
  assumes "(complete, s') = tag_step c s" "tag_state s \<noteq> TAG_SENDING" "parse_left s \<noteq> 0"
  shows "parse_left s' < parse_left s
    \<or> (\<not> complete \<and> parse_left s' = parse_left s \<and> state_rank (tag_state s') < state_rank (tag_state s))"
  by (rule tag_step_rank [OF assms(1) [symmetric] assms(2,3)])

termination scan
  by (relation "inv_image (less_than <*lex*> less_than) (\<lambda>(content, s). (parse_left s, state_rank (tag_state s)))")
     (auto simp: scan_reset_def dest: tag_step_rank_eq)

declare scan.simps [simp del]

text \<open>The parser does not look at the insert.\<close>

definition set_insert :: "bytes \<Rightarrow> nat \<Rightarrow> nat \<Rightarrow> http_ssi_state \<Rightarrow> http_ssi_state" where
  "set_insert b n e s = s\<lparr>tag_insert := b, tag_insert_len := n, tag_end := e\<rparr>"

lemma tag_step_set_insert:
  "tag_step c (set_insert b n e s) = (case tag_step c s of (k, s') \<Rightarrow> (k, set_insert b n e s'))"
  by (cases "tag_state s") (simp_all add: tag_step_def set_insert_def advance_def)

lemma set_insert_simps [simp]:
  "parse_left (set_insert b n e s) = parse_left s" "parsed (set_insert b n e s) = parsed s"
  "tag_state (set_insert b n e s) = tag_state s" "tag_name (set_insert b n e s) = tag_name s"
  "scan_reset (set_insert b n e s) = set_insert b n e (scan_reset s)"
  by (simp_all add: set_insert_def scan_reset_def)

lemma scan_set_insert [simp]: "scan content (set_insert b n e s) = scan content s"
proof (induction content s rule: scan.induct)
  case (1 content s)
  show ?case
  proof (cases "parse_left s = 0 \<or> tag_state s = TAG_SENDING")
    case True
    then show ?thesis by (subst (1 2) scan.simps) simp
  next
    case False
    obtain k s' where ts: "tag_step (content ! parsed s) s = (k, s')" by fastforce
    with 1 False show ?thesis
      by (subst (1 2) scan.simps) (simp add: tag_step_set_insert)
  qed
qed

lemma get_tag_insert_set:
  "get_tag_insert cfg s w = (s', w') \<Longrightarrow> \<exists>b n. s' = s\<lparr>tag_insert := b, tag_insert_len := n\<rparr>"
  by (auto simp: get_tag_insert_def unknown_tag_insert_def Let_def split: option.splits prod.splits)

subsection \<open>A run asks for the tags of the scan\<close>

definition log_tags :: "(nat \<times> string \<times> bytes) list \<Rightarrow> (nat \<times> string) list" where
  "log_tags log = map (\<lambda>(t, name, ins). (t, name)) log"

definition tags_in :: "bytes \<Rightarrow> ('p, 'w) ssi_run \<Rightarrow> (nat \<times> string) list" where
  "tags_in content r = log_tags (r_log r) @ scan content
     (if tag_state (r_ssi r) = TAG_SENDING then scan_reset (r_ssi r) else r_ssi r)"

lemma log_tags_snoc [simp]: "log_tags (log @ [(t, name, ins)]) = log_tags log @ [(t, name)]"
  by (simp add: log_tags_def)

lemma write_insert_log [simp]: "r_log (write_insert T len r) = r_log r"
  by (simp add: write_insert_def Let_def split: prod.split)

lemma write_insert_scan:
  assumes "tag_state (r_ssi r) = TAG_SENDING"
  shows "tag_state (r_ssi (write_insert T len r)) = TAG_SENDING"
    "scan_reset (r_ssi (write_insert T len r)) = scan_reset (r_ssi r)"
  using assms by (simp_all add: write_insert_def Let_def scan_reset_def split: prod.split)

lemma sending_step_tags:
  "tag_state (r_ssi r) = TAG_SENDING \<Longrightarrow> tags_in content (sending_step T content r) = tags_in content r"
  by (simp add: sending_step_def Let_def tags_in_def write_insert_scan)
     (simp add: scan_reset_def)

lemma ssi_step_tags:
  assumes "parse_left (r_ssi r) \<noteq> 0"
  shows "tags_in content (ssi_step T cfg content r) = tags_in content r"
proof (cases "tag_state (r_ssi r) = TAG_SENDING")
  case True
  then show ?thesis using sending_step_tags by (simp add: ssi_step_def)
next
  case False
  obtain k s where ts: "tag_step (content ! parsed (r_ssi r)) (r_ssi r) = (k, s)" by fastforce
  have sc: "scan content (r_ssi r) =
      (if k then (parsed s, cstr (tag_name s)) # scan content (scan_reset s) else scan content s)"
    using False assms ts by (subst scan.simps) simp
  show ?thesis
  proof (cases k)
    case True
    obtain s2 w2 where g: "get_tag_insert cfg s (r_world r) = (s2, w2)" by fastforce
    obtain b n where s2: "s2 = s\<lparr>tag_insert := b, tag_insert_len := n\<rparr>" using get_tag_insert_set [OF g] by blast
    define s3 where "s3 = s2\<lparr>tag_index := 0, tag_state := TAG_SENDING, tag_end := parsed s2\<rparr>"
    have "scan_reset s3 = set_insert b n (parsed s) (scan_reset s)"
      by (simp add: s3_def s2 scan_reset_def set_insert_def)
    then have scan3: "scan content (scan_reset s3) = scan content (scan_reset s)" by simp
    have st: "ssi_step T cfg content r = tag_complete T cfg content s r"
      using False ts True by (simp add: ssi_step_def)
    have "r_ssi (tag_complete T cfg content s r) = s3"
      "log_tags (r_log (tag_complete T cfg content s r)) = log_tags (r_log r) @ [(parsed s, cstr (tag_name s))]"
      by (simp_all add: tag_complete_def g Let_def s3_def s2)
    moreover have "tag_state s3 = TAG_SENDING" by (simp add: s3_def)
    ultimately show ?thesis
      unfolding tags_in_def st using scan3 sc True False by simp
  next
    case k: False
    have "tag_state s \<noteq> TAG_SENDING"
      using ts False k by (auto simp: tag_step_def advance_def split: tag_check_state.splits if_splits)
    with k False ts sc show ?thesis by (simp add: ssi_step_def tags_in_def)
  qed
qed

lemma tags_in_upd [simp]:
  "tags_in content (r\<lparr>r_err := e, r_len := l, r_data_to_send := d\<rparr>) = tags_in content r"
  "tags_in content (write_file T c len r) = tags_in content r"
  by (simp_all add: tags_in_def)

lemma ssi_loop_tags: "tags_in content (snd (ssi_loop T cfg content r)) = tags_in content r"
proof (induction r rule: wf_induct_rule [OF wf_inv_image [OF wf_rank_less, of ssi_rank]])
  case (1 r)
  show ?case
  proof (cases "parse_left (r_ssi r) \<noteq> 0 \<and> r_err r = ERR_OK \<and> r_len r \<noteq> 0")
    case True
    then have "tags_in content (ssi_step T cfg content r) = tags_in content r"
      by (simp add: ssi_step_tags)
    moreover have "(ssi_step T cfg content r, r) \<in> inv_image rank_less ssi_rank"
      if "r_err (ssi_step T cfg content r) = ERR_OK"
      using ssi_step_rank [of r T cfg content] True that by simp
    ultimately show ?thesis
      using 1 True by (subst ssi_loop.simps) (auto simp: Let_def)
  next
    case False
    then show ?thesis by (subst ssi_loop.simps) auto
  qed
qed

lemma http_send_data_ssi_tags:
  "tags_in content (http_send_data_ssi T cfg content r) = tags_in content r"
proof -
  define r1 where "r1 = r\<lparr>r_err := ERR_OK, r_len := op_sndbuf T (r_tcp r), r_data_to_send := False\<rparr>"
  define r2 where "r2 = (if parsed (r_ssi r1) > hs_file (r_pos r1) then send_parsed T content r1 else r1)"
  have r2: "tags_in content r2 = tags_in content r" by (simp add: r2_def r1_def send_parsed_def)
  obtain early r3 where l: "ssi_loop T cfg content r2 = (early, r3)" by fastforce
  then have r3: "tags_in content r3 = tags_in content r"
    using ssi_loop_tags [of content T cfg r2] r2 by simp
  have "http_send_data_ssi T cfg content r \<in> {r2, r3, send_parsed T content r3}"
    using l by (auto simp: http_send_data_ssi_def Let_def r1_def [symmetric] r2_def split: bool.split)
  then show ?thesis using r2 r3 by (auto simp: send_parsed_def)
qed

subsection \<open>The tags it finds\<close>

definition rest_is :: "bytes \<Rightarrow> http_ssi_state \<Rightarrow> bytes \<Rightarrow> bool" where
  "rest_is content s rest \<longleftrightarrow> drop (parsed s) content = rest \<and> parse_left s = length rest"

lemma rest_is_advance: "rest_is content s (c # rest) \<Longrightarrow> rest_is content (advance s) rest"
  by (auto simp: rest_is_def advance_def drop_Suc tl_drop)
     (metis drop_Suc list.sel(3) tl_drop)

lemma rest_is_nth: "rest_is content s (c # rest) \<Longrightarrow> content ! parsed s = c \<and> parse_left s \<noteq> 0"
  by (auto simp: rest_is_def) (metis nth_via_drop)

lemma rest_is_upd [simp]:
  "rest_is content (s\<lparr>tag_index := i\<rparr>) rest = rest_is content s rest"
  "rest_is content (s\<lparr>tag_state := st\<rparr>) rest = rest_is content s rest"
  "rest_is content (s\<lparr>tag_name := nm\<rparr>) rest = rest_is content s rest"
  "rest_is content (s\<lparr>tag_name_len := k\<rparr>) rest = rest_is content s rest"
  by (simp_all add: rest_is_def)

lemma scan_nil: "rest_is content s [] \<Longrightarrow> scan content s = []"
  by (subst scan.simps) (simp add: rest_is_def)

lemma scan_step:
  assumes "rest_is content s (c # rest)" "tag_state s \<noteq> TAG_SENDING" "tag_step c s = (False, s')"
  shows "scan content s = scan content s'"
  using assms rest_is_nth [OF assms(1)] by (subst scan.simps) simp

lemma scan_found:
  assumes "rest_is content s (c # rest)" "tag_state s \<noteq> TAG_SENDING" "tag_step c s = (True, s')"
  shows "scan content s = (parsed s', cstr (tag_name s')) # scan content (scan_reset s')"
  using assms rest_is_nth [OF assms(1)] by (subst scan.simps) simp

text \<open>Text without the first character of the lead-in holds no tag.\<close>

lemma scan_text:
  assumes "rest_is content s (str @ rest)" "tag_state s = TAG_NONE" "CHR ''<'' \<notin> set str"
  shows "\<exists>s'. scan content s = scan content s' \<and> rest_is content s' rest \<and> tag_state s' = TAG_NONE
     \<and> parsed s' = parsed s + length str \<and> tag_name s' = tag_name s"
  using assms
proof (induction str arbitrary: s)
  case (Cons c str)
  have st: "tag_step c s = (False, advance s)"
    using Cons(3,4) by (auto simp: tag_step_def g_pcTagLeadIn_def)
  have "rest_is content s (c # str @ rest)" using Cons(2) by simp
  from scan_step [OF this _ st] rest_is_advance [OF this] Cons(3)
  have 1: "scan content s = scan content (advance s)" "rest_is content (advance s) (str @ rest)" by auto
  have "tag_state (advance s) = TAG_NONE" "parsed (advance s) = Suc (parsed s)" "tag_name (advance s) = tag_name s"
    using Cons(3) by (simp_all add: advance_def)
  with Cons(1) [OF 1(2)] 1(1) Cons(4) show ?case by fastforce
qed auto

text \<open>The characters of a tag name.\<close>

definition name_char :: "char \<Rightarrow> bool" where
  "name_char c \<longleftrightarrow> c \<noteq> CHR ''-'' \<and> \<not> is_ws c \<and> c \<noteq> NUL"

definition valid_tag_name :: "string \<Rightarrow> bool" where
  "valid_tag_name name \<longleftrightarrow> name \<noteq> [] \<and> length name \<le> LWIP_HTTPD_MAX_TAG_NAME_LEN \<and> list_all name_char name"

lemma scan_name:
  assumes "rest_is content s (name @ rest)" "tag_state s = TAG_FOUND" "tag_index s = i"
    "i + length name \<le> 8" "length (tag_name s) = 9" "take i (tag_name s) = pre" "list_all name_char name"
  shows "\<exists>s'. scan content s = scan content s' \<and> rest_is content s' rest \<and> tag_state s' = TAG_FOUND
     \<and> tag_index s' = i + length name \<and> parsed s' = parsed s + length name \<and> length (tag_name s') = 9
     \<and> take (i + length name) (tag_name s') = pre @ name"
  using assms
proof (induction name arbitrary: s i pre)
  case (Cons c name)
  let ?s = "advance (s\<lparr>tag_name := (tag_name s)[i := c], tag_index := i + 1\<rparr>)"
  have r: "rest_is content s (c # name @ rest)" using Cons(2) by simp
  have "\<not> is_ws c" "c \<noteq> CHR ''-''" using Cons(8) by (simp_all add: name_char_def)
  then have st: "tag_step c s = (False, ?s)"
    using Cons(3-5) by (simp add: tag_step_def g_pcTagLeadOut_def ssi_consts)
  have 1: "scan content s = scan content ?s" using scan_step [OF r _ st] Cons(3) by simp
  have 2: "rest_is content ?s (name @ rest)" by (rule rest_is_advance [where c = c]) (use r in simp)
  have 3: "take (Suc i) (tag_name ?s) = pre @ [c]"
    using Cons(5-7) by (simp add: advance_def take_Suc_conv_app_nth)
  have "\<exists>s'. scan content ?s = scan content s' \<and> rest_is content s' rest \<and> tag_state s' = TAG_FOUND
     \<and> tag_index s' = Suc i + length name \<and> parsed s' = parsed ?s + length name \<and> length (tag_name s') = 9
     \<and> take (Suc i + length name) (tag_name s') = (pre @ [c]) @ name"
    by (rule Cons(1) [OF 2 _ _ _ _ 3]) (use Cons(3-8) in \<open>simp_all add: advance_def\<close>)
  then show ?case using 1 by (auto simp: advance_def)
qed auto

lemma advance_simps [simp]:
  "tag_state (advance s) = tag_state s" "tag_index (advance s) = tag_index s"
  "tag_name (advance s) = tag_name s" "parsed (advance s) = Suc (parsed s)"
  by (simp_all add: advance_def)

lemma scan_leadin:
  assumes "rest_is content s (g_pcTagLeadIn @ c # rest)" "tag_state s = TAG_NONE"
  shows "\<exists>s'. scan content s = scan content s' \<and> rest_is content s' (c # rest) \<and> tag_state s' = TAG_FOUND
     \<and> tag_index s' = 0 \<and> parsed s' = parsed s + 5 \<and> tag_name s' = tag_name s"
proof -
  define s1 where "s1 = advance (s\<lparr>tag_state := TAG_LEADIN, tag_index := 1\<rparr>)"
  define s2 where "s2 = advance (s1\<lparr>tag_index := 2\<rparr>)"
  define s3 where "s3 = advance (s2\<lparr>tag_index := 3\<rparr>)"
  define s4 where "s4 = advance (s3\<lparr>tag_index := 4\<rparr>)"
  define s5 where "s5 = advance (s4\<lparr>tag_index := 5\<rparr>)"
  define s6 where "s6 = s5\<lparr>tag_index := 0, tag_state := TAG_FOUND\<rparr>"
  have r: "rest_is content s (CHR ''<'' # CHR ''!'' # CHR ''-'' # CHR ''-'' # CHR ''#'' # c # rest)"
    using assms(1) by (simp add: g_pcTagLeadIn_def)
  have r1: "rest_is content s1 (CHR ''!'' # CHR ''-'' # CHR ''-'' # CHR ''#'' # c # rest)"
    unfolding s1_def by (rule rest_is_advance) (use r in simp)
  have r2: "rest_is content s2 (CHR ''-'' # CHR ''-'' # CHR ''#'' # c # rest)"
    unfolding s2_def by (rule rest_is_advance) (use r1 in simp)
  have r3: "rest_is content s3 (CHR ''-'' # CHR ''#'' # c # rest)"
    unfolding s3_def by (rule rest_is_advance) (use r2 in simp)
  have r4: "rest_is content s4 (CHR ''#'' # c # rest)"
    unfolding s4_def by (rule rest_is_advance) (use r3 in simp)
  have r5: "rest_is content s5 (c # rest)"
    unfolding s5_def by (rule rest_is_advance) (use r4 in simp)
  have st: "tag_step (CHR ''<'') s = (False, s1)"
    "tag_step (CHR ''!'') s1 = (False, s2)" "tag_step (CHR ''-'') s2 = (False, s3)"
    "tag_step (CHR ''-'') s3 = (False, s4)" "tag_step (CHR ''#'') s4 = (False, s5)"
    "tag_step c s5 = (False, s6)"
    using assms(2)
    by (simp_all add: tag_step_def g_pcTagLeadIn_def LEN_TAG_LEAD_IN_def eval_nat_numeral s1_def s2_def s3_def s4_def
        s5_def s6_def)
  have "scan content s = scan content s6"
    using scan_step [OF r _ st(1)] scan_step [OF r1 _ st(2)] scan_step [OF r2 _ st(3)]
      scan_step [OF r3 _ st(4)] scan_step [OF r4 _ st(5)] scan_step [OF r5 _ st(6)] assms(2)
    by (simp add: s1_def s2_def s3_def s4_def s5_def)
  moreover have "rest_is content s6 (c # rest)" using r5 by (simp add: s6_def)
  ultimately show ?thesis
    by (intro exI [of _ s6]) (simp add: s1_def s2_def s3_def s4_def s5_def s6_def)
qed

lemma cstr_prefix:
  assumes "take n m = name" "n < length m" "m ! n = NUL" "\<forall>c\<in>set name. c \<noteq> NUL"
  shows "cstr m = name"
proof -
  obtain r where m: "m = name @ NUL # r"
    using assms(1,3) id_take_nth_drop [OF assms(2)] by metis
  show ?thesis unfolding m cstr_def by (rule takeWhile_stop) (use assms(4) in auto)
qed

lemma scan_tag:
  assumes "rest_is content s (g_pcTagLeadIn @ name @ g_pcTagLeadOut @ rest)" "tag_state s = TAG_NONE"
    "valid_tag_name name" "length (tag_name s) = LWIP_HTTPD_MAX_TAG_NAME_LEN + 1"
  shows "\<exists>s'. scan content s = (parsed s', name) # scan content s' \<and> rest_is content s' rest
     \<and> tag_state s' = TAG_NONE \<and> parsed s' = parsed s + 5 + length name + 3
     \<and> length (tag_name s') = LWIP_HTTPD_MAX_TAG_NAME_LEN + 1"
proof -
  obtain c nm where name: "name = c # nm" using assms(3) by (cases name) (auto simp: valid_tag_name_def)
  obtain s1 where s1: "scan content s = scan content s1"
    "rest_is content s1 (name @ g_pcTagLeadOut @ rest)" "tag_state s1 = TAG_FOUND" "tag_index s1 = 0"
    "parsed s1 = parsed s + 5" "tag_name s1 = tag_name s"
    using scan_leadin [of content s c "nm @ g_pcTagLeadOut @ rest"] assms(1,2) name by auto
  obtain s2 where s2: "scan content s1 = scan content s2"
    "rest_is content s2 (g_pcTagLeadOut @ rest)" "tag_state s2 = TAG_FOUND" "tag_index s2 = length name"
    "parsed s2 = parsed s1 + length name" "length (tag_name s2) = 9" "take (length name) (tag_name s2) = name"
    using scan_name [OF s1(2-4), of "[]"] assms(3,4) s1(6)
    by (auto simp: valid_tag_name_def ssi_consts)
  define s3 where "s3 = advance (s2\<lparr>tag_state := TAG_LEADOUT, tag_name_len := tag_index s2 mod 256,
      tag_name := (tag_name s2)[tag_index s2 := NUL], tag_index := 1\<rparr>)"
  define s4 where "s4 = (advance s3)\<lparr>tag_index := 2\<rparr>"
  define s5 where "s5 = advance s4"
  have r2: "rest_is content s2 (CHR ''-'' # CHR ''-'' # CHR ''>'' # rest)"
    using s2(2) by (simp add: g_pcTagLeadOut_def)
  have r3: "rest_is content s3 (CHR ''-'' # CHR ''>'' # rest)"
    unfolding s3_def by (rule rest_is_advance) (use r2 in simp)
  have r4: "rest_is content s4 (CHR ''>'' # rest)"
    unfolding s4_def using rest_is_advance [OF r3] by simp
  have r5: "rest_is content s5 rest" unfolding s5_def by (rule rest_is_advance [OF r4])
  have st: "tag_step (CHR ''-'') s2 = (False, s3)" "tag_step (CHR ''-'') s3 = (False, s4)"
    "tag_step (CHR ''>'') s4 = (True, s5)"
    using s2(3,4) assms(3)
    by (simp_all add: tag_step_def g_pcTagLeadOut_def s3_def s4_def s5_def valid_tag_name_def is_ws_def
        LEN_TAG_LEAD_OUT_def)
  have len: "length name \<le> 8" using assms(3) by (simp add: valid_tag_name_def ssi_consts)
  have nm5: "tag_name s5 = (tag_name s2)[length name := NUL]"
    using s2(4) by (simp add: s3_def s4_def s5_def)
  have "cstr (tag_name s5) = name"
    by (rule cstr_prefix [of "length name"])
       (use nm5 s2(6,7) len assms(3) in \<open>auto simp: valid_tag_name_def name_char_def list_all_iff\<close>)
  then have "scan content s = (parsed s5, name) # scan content (scan_reset s5)"
    using s1(1) s2(1) scan_step [OF r2 _ st(1)] scan_step [OF r3 _ st(2)] scan_found [OF r4 _ st(3)] s2(3)
    by (simp add: s3_def s4_def)
  moreover have "parsed s5 = parsed s + 5 + length name + 3"
    using s1(5) s2(5) by (simp add: s3_def s4_def s5_def)
  ultimately show ?thesis
    using r5 nm5 s2(6) by (intro exI [of _ "scan_reset s5"]) (simp add: scan_reset_def ssi_consts)
qed

text \<open>A file of text and tags: its tags are exactly the ones written there.\<close>

fun page :: "(string \<times> string) list \<Rightarrow> string \<Rightarrow> bytes" where
  "page [] trailer = trailer"
| "page ((str, name) # ps) trailer = str @ g_pcTagLeadIn @ name @ g_pcTagLeadOut @ page ps trailer"

fun page_tags :: "nat \<Rightarrow> (string \<times> string) list \<Rightarrow> (nat \<times> string) list" where
  "page_tags off [] = []"
| "page_tags off ((str, name) # ps) =
     (let t = off + length str + 5 + length name + 3 in (t, name) # page_tags t ps)"

lemma scan_page:
  assumes "rest_is content s (page ps trailer)" "tag_state s = TAG_NONE"
    "length (tag_name s) = LWIP_HTTPD_MAX_TAG_NAME_LEN + 1"
    "\<forall>(str, name)\<in>set ps. CHR ''<'' \<notin> set str \<and> valid_tag_name name" "CHR ''<'' \<notin> set trailer"
  shows "scan content s = page_tags (parsed s) ps"
  using assms
proof (induction ps arbitrary: s)
  case Nil
  then obtain s' where "scan content s = scan content s'" "rest_is content s' []"
    using scan_text [of content s trailer "[]"] by auto
  then show ?case by (simp add: scan_nil)
next
  case (Cons p ps)
  obtain str name where p: "p = (str, name)" by (cases p)
  obtain s1 where s1: "scan content s = scan content s1"
    "rest_is content s1 (g_pcTagLeadIn @ name @ g_pcTagLeadOut @ page ps trailer)" "tag_state s1 = TAG_NONE"
    "parsed s1 = parsed s + length str" "tag_name s1 = tag_name s"
    using scan_text [of content s str "g_pcTagLeadIn @ name @ g_pcTagLeadOut @ page ps trailer"] Cons(2,3,5) p
    by auto
  obtain s2 where s2: "scan content s1 = (parsed s2, name) # scan content s2"
    "rest_is content s2 (page ps trailer)" "tag_state s2 = TAG_NONE"
    "parsed s2 = parsed s1 + 5 + length name + 3" "length (tag_name s2) = LWIP_HTTPD_MAX_TAG_NAME_LEN + 1"
    using scan_tag [OF s1(2,3)] Cons(4,5) s1(5) p by auto
  have "scan content s2 = page_tags (parsed s2) ps"
    by (rule Cons(1) [OF s2(2,3,5)]) (use Cons(5,6) in auto)
  then show ?case using s1 s2 p by (simp add: Let_def)
qed

end
