(* ===== verification/Http_Request.thy ===== *)
theory Http_Request
  imports Http_Ssi_Scan
begin

text \<open>
  From a received request to a file: \<^verbatim>\<open>Sources/httpd.c\<close>, the functions
  \<open>extract_uri_parameters\<close>, \<open>http_get_404_file\<close>, \<open>http_find_file\<close>, \<open>http_init_file\<close> and
  \<open>http_parse_request\<close>. The request is parsed in place: the buffer is a list of characters, a
  pointer into it an offset, and an assignment through the pointer an update of the list. A CGI
  handler is a function on the state of the application; it gets the parameters as C strings
  (a null value is \<open>None\<close>) and gives the URI of the page to send.
\<close>

definition LWIP_HTTPD_MAX_CGI_PARAMETERS :: nat where "LWIP_HTTPD_MAX_CGI_PARAMETERS = 16"
definition LWIP_HTTPD_REQ_QUEUELEN :: nat where "LWIP_HTTPD_REQ_QUEUELEN = 5"
definition LWIP_HTTPD_MAX_REQ_LENGTH :: nat where "LWIP_HTTPD_MAX_REQ_LENGTH = 1023"
definition LWIP_HTTPD_REQ_BUFSIZE :: nat where "LWIP_HTTPD_REQ_BUFSIZE = LWIP_HTTPD_MAX_REQ_LENGTH"
definition MIN_REQ_LEN :: nat where "MIN_REQ_LEN = 7"

text \<open>A received pbuf: its memory, of which the first \<open>pb_len\<close> bytes are data.\<close>

record pbuf =
  pb_mem :: bytes
  pb_len :: nat

definition pb_data :: "pbuf \<Rightarrow> bytes" where
  "pb_data p = take (pb_len p) (pb_mem p)"

definition chain_tot_len :: "pbuf list \<Rightarrow> nat" where
  "chain_tot_len ps = sum_list (map pb_len ps)"

text \<open>
  The state of a connection. \<open>handle\<close> says that the pointer \<open>handle\<close> is set (it can only
  point to \<open>file_handle\<close>), \<open>file_set\<close> that \<open>file\<close> is not null; the send position holds
  \<open>file\<close>, as an offset, and \<open>left\<close>. A null \<open>req\<close> is the empty chain.
\<close>

record http_state =
  file_handle :: fs_file
  handle :: bool
  file_set :: bool
  send_position :: send_pos
  req :: "pbuf list"
  retries :: u8
  ssi :: "http_ssi_state option"
  hs_params :: "(string \<times> string option) list"

definition http_state_zero :: http_state where
  "http_state_zero = \<lparr>file_handle = fs_file_zero, handle = False, file_set = False,
     send_position = \<lparr>hs_file = 0, hs_left = 0\<rparr>, req = [], retries = 0, ssi = None, hs_params = []\<rparr>"

type_synonym 'w cgi_handler =
  "nat \<Rightarrow> nat \<Rightarrow> (string \<times> string option) list \<Rightarrow> 'w \<Rightarrow> (string \<times> 'w) checked"

text \<open>What is set up once: the file system, the CGI table, and the SSI handler with its tags.\<close>

record 'w httpd_cfg =
  fs_root :: "fsdata_file list"
  g_pCGIs :: "(string \<times> 'w cgi_handler) list"
  ssi_config :: "'w ssi_cfg"

definition g_psDefaultFilenames :: "(string \<times> bool) list" where
  "g_psDefaultFilenames =
     [(''/index.shtml'', True), (''/index.ssi'', True), (''/index.shtm'', True),
      (''/index.html'', False), (''/index.htm'', False)]"

definition g_pcSSIExtensions :: "string list" where
  "g_pcSSIExtensions = [''.shtml'', ''.shtm'', ''.ssi'', ''.xml'']"

subsection \<open>Parameters of a URI\<close>

fun extract_loop ::
  "nat \<Rightarrow> bytes \<Rightarrow> nat option \<Rightarrow> (nat \<times> nat option) list \<Rightarrow> bytes \<times> (nat \<times> nat option) list" where
  "extract_loop 0 m pair ps = (m, ps)"
| "extract_loop (Suc k) m None ps = (m, ps)"
| "extract_loop (Suc k) m (Some pair) ps =
     (let equals = pair;
          (m, pair') =
            (case c_strchr m pair (CHR ''&'') of
               Some i \<Rightarrow> (m[i := NUL], Some (i + 1))
             | None \<Rightarrow>
                 (case c_strchr m equals (CHR '' '') of
                    Some i \<Rightarrow> (m[i := NUL], None)
                  | None \<Rightarrow> (m, None)));
          (m, val) =
            (case c_strchr m equals (CHR ''='') of
               Some i \<Rightarrow> (m[i := NUL], Some (i + 1))
             | None \<Rightarrow> (m, None))
      in extract_loop k m pair' (ps @ [(pair, val)]))"

definition extract_uri_parameters :: "bytes \<Rightarrow> nat option \<Rightarrow> bytes \<times> (nat \<times> nat option) list" where
  "extract_uri_parameters m params =
     (case params of
        None \<Rightarrow> (m, [])
      | Some q \<Rightarrow>
          if m ! q = NUL then (m, [])
          else extract_loop LWIP_HTTPD_MAX_CGI_PARAMETERS m (Some q) [])"

text \<open>What the pointers lead to.\<close>

definition params_at :: "bytes \<Rightarrow> (nat \<times> nat option) list \<Rightarrow> (string \<times> string option) list" where
  "params_at m ps = map (\<lambda>(n, v). (cstr (drop n m), map_option (\<lambda>i. cstr (drop i m)) v)) ps"

subsection \<open>Finding the file\<close>

definition http_get_404_file :: "fsdata_file list \<Rightarrow> http_state \<Rightarrow> bool \<times> string option \<times> http_state" where
  "http_get_404_file fs hs =
     (case fs_open fs (file_handle hs) (Some ''/404.html'') of
        (err, f) \<Rightarrow>
          if err = ERR_OK then (True, Some ''/404.html'', hs\<lparr>file_handle := f\<rparr>)
          else (case fs_open fs f (Some ''/404.htm'') of
                  (err, f) \<Rightarrow>
                    if err = ERR_OK then (True, Some ''/404.htm'', hs\<lparr>file_handle := f\<rparr>)
                    else (case fs_open fs f (Some ''/404.shtml'') of
                            (err, f) \<Rightarrow>
                              if err = ERR_OK then (True, Some ''/404.shtml'', hs\<lparr>file_handle := f\<rparr>)
                              else (False, None, hs\<lparr>file_handle := f\<rparr>))))"

text \<open>
  \<open>http_init_file\<close>; the flag says whether a file was found. Without dynamic headers it asserts
  that the file carries its HTTP header.
\<close>

definition http_init_file ::
  "http_state \<Rightarrow> bool \<Rightarrow> bool \<Rightarrow> bool \<Rightarrow> heap \<Rightarrow> (err_t \<times> http_state \<times> heap) checked" where
  "http_init_file hs found is_09 tag_check h =
     (if found then
        let f = file_handle hs;
            (ssi', h) = (if tag_check then http_ssi_state_alloc h else (None, h));
            hs = (case ssi' of
                    None \<Rightarrow> hs
                  | Some s \<Rightarrow> hs\<lparr>ssi := Some (s\<lparr>tag_index := 0, tag_state := TAG_NONE, parsed := 0,
                                              parse_left := nat (f_len f), tag_end := 0\<rparr>)\<rparr>);
            hs = hs\<lparr>handle := True, file_set := True,
                    send_position := \<lparr>hs_file = 0, hs_left = nat (f_len f)\<rparr>, retries := 0\<rparr>
        in require Assert_failed (0 \<le> f_len f \<and> f_http_header_included f)
          (if f_http_header_included f \<and> is_09 then
             (case strnstr (f_data f) (CRLF @ CRLF) (nat (f_len f)) of
                Inl e \<Rightarrow> Inl e
              | Inr None \<Rightarrow> Inr (ERR_OK, hs, h)
              | Inr (Some i) \<Rightarrow>
                  let diff = i + 4
                  in Inr (ERR_OK, hs\<lparr>send_position := \<lparr>hs_file = diff, hs_left = nat (f_len f) - diff\<rparr>\<rparr>, h))
           else Inr (ERR_OK, hs, h))
      else
        Inr (ERR_OK, hs\<lparr>handle := False, file_set := False,
                        send_position := \<lparr>hs_file = 0, hs_left = 0\<rparr>, retries := 0\<rparr>, h))"

text \<open>The loop over the default file names, and the one over the CGI table.\<close>

fun open_default ::
  "fsdata_file list \<Rightarrow> (string \<times> bool) list \<Rightarrow> http_state \<Rightarrow> (bool option) \<times> http_state" where
  "open_default fs [] hs = (None, hs)"
| "open_default fs ((name, shtml) # ns) hs =
     (case fs_open fs (file_handle hs) (Some name) of
        (err, f) \<Rightarrow>
          if err = ERR_OK then (Some shtml, hs\<lparr>file_handle := f\<rparr>)
          else open_default fs ns (hs\<lparr>file_handle := f\<rparr>))"

fun find_cgi :: "nat \<Rightarrow> (string \<times> 'w cgi_handler) list \<Rightarrow> string \<Rightarrow> (nat \<times> 'w cgi_handler) option" where
  "find_cgi i [] uri = None"
| "find_cgi i ((name, h) # cs) uri = (if uri = name then Some (i, h) else find_cgi (Suc i) cs uri)"

definition ssi_extension :: "string \<Rightarrow> bool" where
  "ssi_extension uri \<longleftrightarrow> list_ex (\<lambda>ext. c_strstr uri ext) g_pcSSIExtensions"

text \<open>
  The three parts of \<open>http_find_file\<close>; \<open>m\<close> is the request buffer and \<open>off\<close> the offset
  of the URI in it. First the default files; then, for another URI, the CGI handlers, and the
  file that the URI or the handler names.
\<close>

definition find_root_file ::
  "'w httpd_cfg \<Rightarrow> http_state \<Rightarrow> bool \<Rightarrow> heap \<Rightarrow> (err_t \<times> http_state \<times> heap) checked" where
  "find_root_file cfg hs is_09 h =
     (case open_default (fs_root cfg) g_psDefaultFilenames hs of
        (Some shtml, hs) \<Rightarrow> http_init_file hs True is_09 shtml h
      | (None, hs) \<Rightarrow>
          (case http_get_404_file (fs_root cfg) hs of
             (found, uri, hs) \<Rightarrow> http_init_file hs found is_09 False h))"

definition run_cgi ::
  "'w httpd_cfg \<Rightarrow> http_state \<Rightarrow> bytes \<Rightarrow> nat \<Rightarrow> 'w \<Rightarrow> (string \<times> http_state \<times> 'w) checked" where
  "run_cgi cfg hs m off w =
     (let (m, query) =
            (case c_strchr m off (CHR ''?'') of
               Some i \<Rightarrow> (m[i := NUL], Some (i + 1))
             | None \<Rightarrow> (m, None));
          uri = cstr (drop off m)
      in case find_cgi 0 (g_pCGIs cfg) uri of
           None \<Rightarrow> Inr (uri, hs, w)
         | Some (i, handler) \<Rightarrow>
             let (m, ps) = extract_uri_parameters m query;
                 hs = hs\<lparr>hs_params := params_at m ps\<rparr>
             in (case handler i (length ps) (hs_params hs) w of
                   Inl e \<Rightarrow> Inl e
                 | Inr (uri, w) \<Rightarrow> Inr (uri, hs, w)))"

definition open_uri ::
  "'w httpd_cfg \<Rightarrow> http_state \<Rightarrow> string \<Rightarrow> bool \<Rightarrow> heap \<Rightarrow> (err_t \<times> http_state \<times> heap) checked" where
  "open_uri cfg hs uri is_09 h =
     (case fs_open (fs_root cfg) (file_handle hs) (Some uri) of
        (err, f) \<Rightarrow>
          let hs = hs\<lparr>file_handle := f\<rparr>
          in case (if err = ERR_OK then (True, Some uri, hs) else http_get_404_file (fs_root cfg) hs) of
               (found, uri, hs) \<Rightarrow>
                 let tag_check = (found \<and> (case uri of Some u \<Rightarrow> ssi_extension u | None \<Rightarrow> False))
                 in http_init_file hs found is_09 tag_check h)"

definition http_find_file ::
  "'w httpd_cfg \<Rightarrow> http_state \<Rightarrow> bytes \<Rightarrow> nat \<Rightarrow> bool \<Rightarrow> heap \<Rightarrow> 'w
     \<Rightarrow> (err_t \<times> http_state \<times> heap \<times> 'w) checked" where
  "http_find_file cfg hs m off is_09 h w =
     (if m ! off = CHR ''/'' \<and> m ! (off + 1) = NUL
      then map_sum id (\<lambda>(err, hs, h). (err, hs, h, w)) (find_root_file cfg hs is_09 h)
      else (case run_cgi cfg hs m off w of
              Inl e \<Rightarrow> Inl e
            | Inr (uri, hs, w) \<Rightarrow>
                map_sum id (\<lambda>(err, hs, h). (err, hs, h, w)) (open_uri cfg hs uri is_09 h)))"

subsection \<open>Parsing a request\<close>

text \<open>
  \<open>parse_data\<close>: the part of \<open>http_parse_request\<close> after the data has been collected, on the
  buffer \<open>data\<close> of which \<open>data_len\<close> bytes are valid. \<open>Inr None\<close>: not (yet) a complete
  request. Without \<^verbatim>\<open>LWIP_HTTPD_SUPPORT_EXTSTATUS\<close>, \<open>http_find_error_file\<close> is \<open>ERR_ARG\<close>.
\<close>

definition http_find_error_file :: err_t where
  "http_find_error_file = ERR_ARG"

definition parse_data ::
  "'w httpd_cfg \<Rightarrow> http_state \<Rightarrow> bytes \<Rightarrow> nat \<Rightarrow> heap \<Rightarrow> 'w
     \<Rightarrow> (err_t \<times> http_state \<times> heap \<times> 'w) option checked" where
  "parse_data cfg hs data data_len h w =
     (if data_len < MIN_REQ_LEN then Inr None
      else case strnstr data CRLF data_len of
        Inl e \<Rightarrow> Inl e
      | Inr None \<Rightarrow> Inr None
      | Inr (Some crlf) \<Rightarrow>
          (case c_strncmp_eq data ''GET '' 4 of
             None \<Rightarrow> Inl Oob_read
           | Some False \<Rightarrow> Inr (Some (http_find_error_file, hs, h, w))
           | Some True \<Rightarrow>
               let sp1 = 3;
                   left_len = data_len - (sp1 + 1);
                   line = drop (sp1 + 1) data
               in case strnstr line '' '' left_len of
                    Inl e \<Rightarrow> Inl e
                  | Inr first_sp \<Rightarrow>
                      (case (if first_sp = None then strnstr line CRLF left_len else Inr first_sp) of
                         Inl e \<Rightarrow> Inl e
                       | Inr None \<Rightarrow> Inr None
                       | Inr (Some uri_len) \<Rightarrow>
                           (case strnstr data (CRLF @ CRLF) data_len of
                              Inl e \<Rightarrow> Inl e
                            | Inr None \<Rightarrow> Inr None
                            | Inr (Some _) \<Rightarrow>
                                let data = data[sp1 := NUL];
                                    data = data[sp1 + 1 + uri_len := NUL]
                                in map_sum id Some
                                     (http_find_file cfg hs data (sp1 + 1) (first_sp = None) h w)))))"

definition collect_data :: "bytes \<Rightarrow> pbuf list \<Rightarrow> pbuf \<Rightarrow> bytes \<times> nat" where
  "collect_data req_buf chain p =
     (if tl chain \<noteq> [] then
        let data_len = min (chain_tot_len chain) LWIP_HTTPD_MAX_REQ_LENGTH
        in (put_bytes 0 (take data_len (concat (map pb_data chain))) req_buf, data_len)
      else (pb_mem p, pb_len p))"

definition http_parse_request ::
  "'w httpd_cfg \<Rightarrow> bytes \<Rightarrow> http_state \<Rightarrow> pbuf list \<Rightarrow> heap \<Rightarrow> 'w
     \<Rightarrow> (err_t \<times> http_state \<times> heap \<times> 'w) checked" where
  "http_parse_request cfg req_buf hs inp h w =
     (if handle hs \<or> file_set hs then Inr (ERR_USE, hs, h, w)
      else
        let hs = hs\<lparr>req := req hs @ inp\<rparr>;
            (data, data_len) = collect_data req_buf (req hs) (hd inp)
        in case parse_data cfg hs data data_len h w of
             Inl e \<Rightarrow> Inl e
           | Inr (Some result) \<Rightarrow> Inr result
           | Inr None \<Rightarrow>
               if chain_tot_len (req hs) \<le> LWIP_HTTPD_REQ_BUFSIZE
                  \<and> length (req hs) \<le> LWIP_HTTPD_REQ_QUEUELEN
               then Inr (ERR_INPROGRESS, hs, h, w)
               else Inr (http_find_error_file, hs, h, w))"


subsection \<open>What the parameters are\<close>

text \<open>
  The specification: the query is cut at each \<open>&\<close>, the last piece ends at the first blank,
  and a piece is a name and, behind its first \<open>=\<close>, a value.
\<close>

definition split_eq :: "string \<Rightarrow> string \<times> string option" where
  "split_eq p = (takeWhile (\<lambda>c. c \<noteq> CHR ''='') p,
     if CHR ''='' \<in> set p then Some (tl (dropWhile (\<lambda>c. c \<noteq> CHR ''='') p)) else None)"

fun uri_params :: "nat \<Rightarrow> string \<Rightarrow> (string \<times> string option) list" where
  "uri_params 0 q = []"
| "uri_params (Suc k) q =
     (if CHR ''&'' \<in> set q
      then split_eq (takeWhile (\<lambda>c. c \<noteq> CHR ''&'') q)
           # uri_params k (tl (dropWhile (\<lambda>c. c \<noteq> CHR ''&'') q))
      else [split_eq (takeWhile (\<lambda>c. c \<noteq> CHR '' '') q)])"

lemma strchr_at_nul:
  "NUL \<notin> set q \<Longrightarrow> c \<noteq> NUL \<Longrightarrow>
     strchr_at (q @ NUL # post) c = (if c \<in> set q then Some (length (takeWhile (\<lambda>x. x \<noteq> c) q)) else None)"
  by (induction q) auto

lemma c_strchr_nul:
  "NUL \<notin> set q \<Longrightarrow> c \<noteq> NUL \<Longrightarrow>
     c_strchr (pre @ q @ NUL # post) (length pre) c
       = (if c \<in> set q then Some (length pre + length (takeWhile (\<lambda>x. x \<noteq> c) q)) else None)"
  by (simp add: c_strchr_def strchr_at_nul)

lemma split_at: "c \<in> set q \<Longrightarrow> \<exists>b. q = takeWhile (\<lambda>x. x \<noteq> c) q @ c # b \<and> tl (dropWhile (\<lambda>x. x \<noteq> c) q) = b"
  by (induction q) auto

lemma params_at_cons: "params_at m ((n, v) # ps)
    = (cstr (drop n m), map_option (\<lambda>i. cstr (drop i m)) v) # params_at m ps"
  by (simp add: params_at_def)

lemma cstr_nul: "NUL \<notin> set a \<Longrightarrow> cstr (a @ NUL # post) = a"
  unfolding cstr_def by (rule takeWhile_stop) auto

text \<open>The step at the equals sign, in the piece \<open>a\<close>.\<close>

lemma equals_step:
  assumes "NUL \<notin> set a"
  shows "\<exists>a' v. length a' = length a \<and> (\<forall>i. v = Some i \<longrightarrow> length pre \<le> i \<and> i \<le> length pre + length a)
    \<and> (\<forall>post. (case c_strchr (pre @ a @ NUL # post) (length pre) (CHR ''='') of
               Some i \<Rightarrow> ((pre @ a @ NUL # post)[i := NUL], Some (i + 1)) | None \<Rightarrow> (pre @ a @ NUL # post, None))
            = (pre @ a' @ NUL # post, v)
         \<and> (cstr (drop (length pre) (pre @ a' @ NUL # post)),
            map_option (\<lambda>i. cstr (drop i (pre @ a' @ NUL # post))) v) = split_eq a)"
proof (cases "CHR ''='' \<in> set a")
  case True
  then obtain b where b: "a = takeWhile (\<lambda>x. x \<noteq> CHR ''='') a @ CHR ''='' # b"
    "tl (dropWhile (\<lambda>x. x \<noteq> CHR ''='') a) = b" using split_at by metis
  define n where "n = takeWhile (\<lambda>x. x \<noteq> CHR ''='') a"
  have a: "a = n @ CHR ''='' # b" using b n_def by simp
  have nul: "NUL \<notin> set n" "NUL \<notin> set b" using assms by (simp_all add: a)
  have sp: "split_eq a = (n, Some b)" using True b(2) by (simp add: split_eq_def n_def)
  have ch: "c_strchr (pre @ a @ NUL # post) (length pre) (CHR ''='') = Some (length pre + length n)" for post
    using c_strchr_nul [OF assms, of "CHR ''=''" pre post] True by (simp add: n_def NUL_def)
  have upd: "(pre @ a @ NUL # post)[length pre + length n := NUL] = pre @ (n @ NUL # b) @ NUL # post" for post
    by (simp add: a list_update_append)
  have len: "length (n @ NUL # b) = length a" "length pre + length n + 1 \<le> length pre + length a"
    by (simp_all add: a)
  have at: "cstr (drop (length pre) (pre @ (n @ NUL # b) @ NUL # post)) = n"
    "cstr (drop (length pre + length n + 1) (pre @ (n @ NUL # b) @ NUL # post)) = b" for post
    using nul by (simp_all add: cstr_nul)
  show ?thesis
    by (rule exI [of _ "n @ NUL # b"], rule exI [of _ "Some (length pre + length n + 1)"])
       (intro conjI allI impI; (simp only: ch upd sp at len option.case option.map option.inject)?; (insert len(2), simp)?)
next
  case False
  have ch: "c_strchr (pre @ a @ NUL # post) (length pre) (CHR ''='') = None" for post
    using c_strchr_nul [OF assms, of "CHR ''=''" pre post] False by (simp add: NUL_def)
  have "split_eq a = (a, None)" using False by (auto simp: split_eq_def takeWhile_eq_all_conv)
  then show ?thesis
    by (intro exI [of _ a] exI [of _ None]) (use assms in \<open>auto simp: ch cstr_nul\<close>)
qed

lemma extract_loop_params:
  assumes "NUL \<notin> set q"
  shows "\<exists>q' new. extract_loop k (pre @ q @ NUL # post) (Some (length pre)) ps = (pre @ q' @ NUL # post, ps @ new)
    \<and> length q' = length q \<and> params_at (pre @ q' @ NUL # post) new = uri_params k q"
  using assms
proof (induction k arbitrary: pre q ps)
  case 0
  then show ?case by (simp add: params_at_def)
next
  case (Suc k)
  have chs: "CHR ''&'' \<noteq> NUL" "CHR '' '' \<noteq> NUL" by (simp_all add: NUL_def)
  show ?case
  proof (cases "CHR ''&'' \<in> set q")
    case True
    define a where "a = takeWhile (\<lambda>x. x \<noteq> CHR ''&'') q"
    obtain b where b: "q = a @ CHR ''&'' # b" "tl (dropWhile (\<lambda>x. x \<noteq> CHR ''&'') q) = b"
      using split_at [OF True] a_def by metis
    have nul: "NUL \<notin> set a" "NUL \<notin> set b" using Suc(2) b(1) by auto
    obtain a' v where a': "length a' = length a"
      "\<And>post. (case c_strchr (pre @ a @ NUL # post) (length pre) (CHR ''='') of
               Some i \<Rightarrow> ((pre @ a @ NUL # post)[i := NUL], Some (i + 1)) | None \<Rightarrow> (pre @ a @ NUL # post, None))
            = (pre @ a' @ NUL # post, v)"
      "\<And>post. (cstr (drop (length pre) (pre @ a' @ NUL # post)),
            map_option (\<lambda>i. cstr (drop i (pre @ a' @ NUL # post))) v) = split_eq a"
      using equals_step [OF nul(1), of pre] by blast
    have ch: "c_strchr (pre @ q @ NUL # post) (length pre) (CHR ''&'') = Some (length pre + length a)"
      using c_strchr_nul [OF Suc(2) chs(1)] True by (simp add: a_def)
    have upd: "(pre @ q @ NUL # post)[length pre + length a := NUL] = pre @ a @ NUL # (b @ NUL # post)"
      by (simp add: b(1) list_update_append)
    have step: "extract_loop (Suc k) (pre @ q @ NUL # post) (Some (length pre)) ps
        = extract_loop k ((pre @ a' @ [NUL]) @ b @ NUL # post) (Some (length (pre @ a' @ [NUL])))
            (ps @ [(length pre, v)])"
      using ch upd a'(1) a'(2) [of "b @ NUL # post"] by (simp add: Let_def)
    obtain b' new where r: "extract_loop k ((pre @ a' @ [NUL]) @ b @ NUL # post)
        (Some (length (pre @ a' @ [NUL]))) (ps @ [(length pre, v)])
        = ((pre @ a' @ [NUL]) @ b' @ NUL # post, (ps @ [(length pre, v)]) @ new)"
      "length b' = length b" "params_at ((pre @ a' @ [NUL]) @ b' @ NUL # post) new = uri_params k b"
      using Suc(1) [OF nul(2), of "pre @ a' @ [NUL]" "ps @ [(length pre, v)]"] by blast
    have "params_at (pre @ (a' @ NUL # b') @ NUL # post) ((length pre, v) # new)
        = uri_params (Suc k) q"
      using r(3) a'(3) [of "b' @ NUL # post"] True b(2) by (simp add: params_at_cons a_def)
    then show ?thesis
      using r(1,2) a'(1) step b(1)
      by (intro exI [of _ "a' @ NUL # b'"] exI [of _ "(length pre, v) # new"]) simp
  next
    case False
    define a where "a = takeWhile (\<lambda>x. x \<noteq> CHR '' '') q"
    define rest where "rest = (if CHR '' '' \<in> set q then tl (dropWhile (\<lambda>x. x \<noteq> CHR '' '') q) @ NUL # post else post)"
    have nul: "NUL \<notin> set a" using Suc(2) by (auto simp: a_def dest: set_takeWhileD)
    obtain a' v where a': "length a' = length a"
      "\<And>post. (case c_strchr (pre @ a @ NUL # post) (length pre) (CHR ''='') of
               Some i \<Rightarrow> ((pre @ a @ NUL # post)[i := NUL], Some (i + 1)) | None \<Rightarrow> (pre @ a @ NUL # post, None))
            = (pre @ a' @ NUL # post, v)"
      "\<And>post. (cstr (drop (length pre) (pre @ a' @ NUL # post)),
            map_option (\<lambda>i. cstr (drop i (pre @ a' @ NUL # post))) v) = split_eq a"
      using equals_step [OF nul, of pre] by blast
    have ch: "c_strchr (pre @ q @ NUL # post) (length pre) (CHR ''&'') = None"
      using c_strchr_nul [OF Suc(2) chs(1)] False by simp
    have sp: "(case c_strchr (pre @ q @ NUL # post) (length pre) (CHR '' '') of
          Some i \<Rightarrow> ((pre @ q @ NUL # post)[i := NUL], None) | None \<Rightarrow> (pre @ q @ NUL # post, None))
        = (pre @ a @ NUL # rest, None :: nat option)"
    proof (cases "CHR '' '' \<in> set q")
      case True
      then obtain b where b: "q = a @ CHR '' '' # b" "tl (dropWhile (\<lambda>x. x \<noteq> CHR '' '') q) = b"
        using split_at [OF True] a_def by metis
      have "(pre @ q @ NUL # post)[length pre + length a := NUL] = pre @ a @ NUL # (b @ NUL # post)"
        by (simp add: b(1) list_update_append)
      then show ?thesis
        using c_strchr_nul [OF Suc(2) chs(2), of pre post] True b(2) by (simp add: a_def rest_def)
    next
      case False
      then have "a = q" by (auto simp: a_def takeWhile_eq_all_conv)
      then show ?thesis
        using c_strchr_nul [OF Suc(2) chs(2), of pre post] False by (simp add: rest_def)
    qed
    have e: "extract_loop k m None ps' = (m, ps')" for m ps' by (cases k) auto
    have step: "extract_loop (Suc k) (pre @ q @ NUL # post) (Some (length pre)) ps
        = (pre @ a' @ NUL # rest, ps @ [(length pre, v)])"
      using ch sp a'(2) [of rest] by (simp add: Let_def e)
    have up: "uri_params (Suc k) q = [split_eq a]" using False by (simp add: a_def)
    have "params_at (pre @ a' @ NUL # rest) [(length pre, v)] = uri_params (Suc k) q"
      using a'(3) [of rest] up by (simp add: params_at_def)
    moreover have "\<exists>q'. pre @ a' @ NUL # rest = pre @ q' @ NUL # post \<and> length q' = length q"
    proof (cases "CHR '' '' \<in> set q")
      case True
      then obtain b where b: "q = a @ CHR '' '' # b" "tl (dropWhile (\<lambda>x. x \<noteq> CHR '' '') q) = b"
        using split_at [OF True] a_def by metis
      then show ?thesis
        using True a'(1) by (intro exI [of _ "a' @ NUL # b"]) (simp add: rest_def)
    next
      case False
      then have "a = q" by (auto simp: a_def takeWhile_eq_all_conv)
      then show ?thesis using False a'(1) by (auto simp: rest_def)
    qed
    ultimately show ?thesis using step by auto
  qed
qed


text \<open>The parameters of the request a CGI handler is given.\<close>

lemma extract_uri_parameters_params:
  assumes "NUL \<notin> set q"
  shows "\<exists>m' ps. extract_uri_parameters (pre @ q @ NUL # post) (Some (length pre)) = (m', ps)
    \<and> length m' = length (pre @ q @ NUL # post)
    \<and> params_at m' ps = (if q = [] then [] else uri_params LWIP_HTTPD_MAX_CGI_PARAMETERS q)"
proof (cases q)
  case Nil
  then show ?thesis by (simp add: extract_uri_parameters_def params_at_def)
next
  case (Cons c q1)
  then have "(pre @ q @ NUL # post) ! length pre \<noteq> NUL" using assms by auto
  moreover obtain q' new where "extract_loop LWIP_HTTPD_MAX_CGI_PARAMETERS (pre @ q @ NUL # post)
      (Some (length pre)) [] = (pre @ q' @ NUL # post, new)" "length q' = length q"
    "params_at (pre @ q' @ NUL # post) new = uri_params LWIP_HTTPD_MAX_CGI_PARAMETERS q"
    using extract_loop_params [OF assms, of LWIP_HTTPD_MAX_CGI_PARAMETERS pre post "[]"] by auto
  ultimately show ?thesis using Cons by (auto simp: extract_uri_parameters_def)
qed

subsection \<open>The state a found file leaves\<close>

text \<open>A connection that has a file: complete, at a position inside it, with a parser that fits.\<close>

definition hs_ok :: "http_state \<Rightarrow> bool" where
  "hs_ok hs \<longleftrightarrow> (handle hs = file_set hs)
     \<and> (handle hs \<longrightarrow> whole_file (file_handle hs) \<and> pos_ok (f_data (file_handle hs)) (send_position hs))
     \<and> (\<not> handle hs \<longrightarrow> hs_left (send_position hs) = 0 \<and> ssi hs = None)
     \<and> (\<forall>s. ssi hs = Some s \<longrightarrow> parser_ok s \<and> parsed s + parse_left s = length (f_data (file_handle hs)))"

lemma strnstr_loop_bound:
  "strnstr_loop p buf tok n = Inr (Some i) \<Longrightarrow> i + length tok \<le> n"
  by (induction p buf tok n rule: strnstr_loop.induct) (auto split: if_splits option.splits)

lemma strnstr_bound: "tok \<noteq> [] \<Longrightarrow> strnstr buf tok n = Inr (Some i) \<Longrightarrow> i + length tok \<le> n"
  by (auto simp: strnstr_def dest: strnstr_loop_bound)

lemma http_init_file_ok:
  assumes "http_init_file hs found is_09 tag_check h = Inr (err, hs', h')"
    "found \<Longrightarrow> whole_file (file_handle hs)" "ssi hs = None"
  shows "hs_ok hs' \<and> err = ERR_OK \<and> handle hs' = found \<and> req hs' = req hs \<and> retries hs' = 0
    \<and> (found \<longrightarrow> file_handle hs' = file_handle hs \<and> f_http_header_included (file_handle hs))"
proof (cases found)
  case False
  then show ?thesis
    using assms by (auto simp: http_init_file_def hs_ok_def)
next
  case True
  have wf: "nat (f_len (file_handle hs)) = length (f_data (file_handle hs))"
    using assms(2) True by (simp add: whole_file_def)
  have i: "i + 4 \<le> length (f_data (file_handle hs))"
    if "strnstr (f_data (file_handle hs)) (CRLF @ CRLF) (length (f_data (file_handle hs))) = Inr (Some i)" for i
    using strnstr_bound [OF _ that] by (simp add: CRLF_def)
  have z: "parser_ok (ssi_zero\<lparr>tag_index := 0, tag_state := TAG_NONE, parsed := 0, parse_left := n, tag_end := 0\<rparr>)" for n
    by (simp add: parser_ok_def ssi_zero_def)
  show ?thesis
    using assms True z i
    by (auto simp: http_init_file_def hs_ok_def Let_def wf pos_ok_def http_ssi_state_alloc_def require_def
        split: prod.splits if_splits option.splits sum.splits)
qed

text \<open>
  What a request leads to: a file of the file system that carries its header, or none when the page
  to send instead is missing too.
\<close>

definition answers :: "fsdata_file list \<Rightarrow> http_state \<Rightarrow> bool" where
  "answers fs hs \<longleftrightarrow>
     (if handle hs
      then \<exists>name f. fs_lookup fs name = Some f \<and> file_handle hs = opened f \<and> fd_http_header_included f
      else \<forall>name\<in>{''/404.html'', ''/404.htm'', ''/404.shtml''}. fs_lookup fs name = None)"

definition from_fs :: "fsdata_file list \<Rightarrow> fs_file \<Rightarrow> bool" where
  "from_fs fs file \<longleftrightarrow> (\<exists>name f. fs_lookup fs name = Some f \<and> file = opened f)"

lemma fs_open_from: "fs_open fs file name = (ERR_OK, f) \<Longrightarrow> from_fs fs f"
  by (cases name) (auto simp: fs_open_def fs_open_loop_eq from_fs_def split: option.splits)

lemma from_fs_opened: "fs_lookup fs name = Some f \<Longrightarrow> from_fs fs (opened f)"
  by (auto simp: from_fs_def)

lemma from_fs_whole: "from_fs fs file \<Longrightarrow> whole_file file"
  by (auto simp: from_fs_def)

lemma http_init_file_answers:
  assumes "http_init_file hs found is_09 tag_check h = Inr (err, hs', h')" "ssi hs = None"
    "if found then from_fs fs (file_handle hs)
     else \<forall>name\<in>{''/404.html'', ''/404.htm'', ''/404.shtml''}. fs_lookup fs name = None"
  shows "hs_ok hs' \<and> err = ERR_OK \<and> req hs' = req hs \<and> answers fs hs'"
proof -
  have "found \<Longrightarrow> whole_file (file_handle hs)" using assms(3) from_fs_whole by auto
  note ok = http_init_file_ok [OF assms(1) this assms(2)]
  show ?thesis
  proof (cases found)
    case True
    then obtain name f where f: "fs_lookup fs name = Some f" "file_handle hs = opened f"
      using assms(3) by (auto simp: from_fs_def)
    then have "fd_http_header_included f" using ok True by (simp add: opened_def)
    then have "answers fs hs'" using ok f True unfolding answers_def by metis
    then show ?thesis using ok by simp
  next
    case False
    then show ?thesis using ok assms(3) by (auto simp: answers_def)
  qed
qed

lemma open_default_ok:
  "open_default fs ns hs = (r, hs') \<Longrightarrow>
     (r \<noteq> None \<longrightarrow> from_fs fs (file_handle hs')) \<and> (\<exists>f. hs' = hs\<lparr>file_handle := f\<rparr>)"
proof (induction fs ns hs rule: open_default.induct)
  case (1 fs hs)
  then show ?case by (auto intro: exI [of _ "file_handle hs"])
next
  case (2 fs name shtml ns hs)
  obtain e f where o: "fs_open fs (file_handle hs) (Some name) = (e, f)" by fastforce
  show ?case
  proof (cases "e = ERR_OK")
    case True
    then show ?thesis using 2(2) o fs_open_from [of fs "file_handle hs" "Some name" f] by auto
  next
    case False
    then show ?thesis using 2(1) [OF o [symmetric] False] 2(2) o by auto
  qed
qed

lemma http_get_404_file_ok:
  "http_get_404_file fs hs = (found, uri, hs') \<Longrightarrow>
     (if found then from_fs fs (file_handle hs')
      else \<forall>name\<in>{''/404.html'', ''/404.htm'', ''/404.shtml''}. fs_lookup fs name = None)
     \<and> (\<exists>f. hs' = hs\<lparr>file_handle := f\<rparr>)"
  by (auto simp: http_get_404_file_def fs_open_eq intro: from_fs_opened exI [of _ "file_handle hs"]
      split: prod.splits if_splits option.splits)

lemma find_root_file_ok:
  assumes "find_root_file cfg hs is_09 h = Inr (err, hs', h')" "ssi hs = None"
  shows "hs_ok hs' \<and> err = ERR_OK \<and> req hs' = req hs \<and> answers (fs_root cfg) hs'"
proof -
  obtain r hs1 where o: "open_default (fs_root cfg) g_psDefaultFilenames hs = (r, hs1)" by fastforce
  obtain found uri hs2 where g: "http_get_404_file (fs_root cfg) hs1 = (found, uri, hs2)"
    by (cases "http_get_404_file (fs_root cfg) hs1")
  note ok = open_default_ok [OF o] and ok2 = http_get_404_file_ok [OF g]
  have ssi: "ssi hs1 = None" "ssi hs2 = None" "req hs1 = req hs" "req hs2 = req hs"
    using ok ok2 assms(2) by auto
  show ?thesis
  proof (cases r)
    case (Some shtml)
    then have "http_init_file hs1 True is_09 shtml h = Inr (err, hs', h')"
      using assms(1) o by (simp add: find_root_file_def)
    from http_init_file_answers [OF this ssi(1), of "fs_root cfg"] ok Some ssi show ?thesis by simp
  next
    case None
    then have "http_init_file hs2 found is_09 False h = Inr (err, hs', h')"
      using assms(1) o g by (simp add: find_root_file_def)
    from http_init_file_answers [OF this ssi(2), of "fs_root cfg"] ok2 ssi show ?thesis by simp
  qed
qed

lemma open_uri_ok:
  assumes "open_uri cfg hs uri is_09 h = Inr (err, hs', h')" "ssi hs = None"
  shows "hs_ok hs' \<and> err = ERR_OK \<and> req hs' = req hs \<and> answers (fs_root cfg) hs'"
proof -
  obtain e f where o: "fs_open (fs_root cfg) (file_handle hs) (Some uri) = (e, f)" by fastforce
  obtain found uri2 hs2 where g: "(if e = ERR_OK then (True, Some uri, hs\<lparr>file_handle := f\<rparr>)
      else http_get_404_file (fs_root cfg) (hs\<lparr>file_handle := f\<rparr>)) = (found, uri2, hs2)"
    by (cases "(if e = ERR_OK then (True, Some uri, hs\<lparr>file_handle := f\<rparr>)
      else http_get_404_file (fs_root cfg) (hs\<lparr>file_handle := f\<rparr>))")
  have hs2: "if found then from_fs (fs_root cfg) (file_handle hs2)
      else \<forall>name\<in>{''/404.html'', ''/404.htm'', ''/404.shtml''}. fs_lookup (fs_root cfg) name = None"
    "ssi hs2 = None" "req hs2 = req hs"
    using g o assms(2) fs_open_from [of "fs_root cfg" "file_handle hs" "Some uri" f]
      http_get_404_file_ok [of "fs_root cfg" "hs\<lparr>file_handle := f\<rparr>" found uri2 hs2]
    by (auto split: if_splits)
  have "http_init_file hs2 found is_09 (found \<and> (case uri2 of Some u \<Rightarrow> ssi_extension u | None \<Rightarrow> False)) h
      = Inr (err, hs', h')"
    using assms(1) o g by (simp add: open_uri_def)
  from http_init_file_answers [OF this hs2(2,1)] hs2(3) show ?thesis by simp
qed

lemma run_cgi_keeps:
  "run_cgi cfg hs m off w = Inr (uri, hs', w') \<Longrightarrow> \<exists>ps. hs' = hs\<lparr>hs_params := ps\<rparr>"
  by (auto simp: run_cgi_def Let_def split: prod.splits option.splits sum.splits)
     (metis http_state.surjective http_state.update_convs(8))+

lemma http_find_file_ok:
  assumes "http_find_file cfg hs m off is_09 h w = Inr (err, hs', h', w')" "ssi hs = None"
  shows "hs_ok hs' \<and> err = ERR_OK \<and> req hs' = req hs \<and> answers (fs_root cfg) hs'"
proof (cases "m ! off = CHR ''/'' \<and> m ! (off + 1) = NUL")
  case True
  then have "find_root_file cfg hs is_09 h = Inr (err, hs', h')"
    using assms(1) by (cases "find_root_file cfg hs is_09 h") (auto simp: http_find_file_def)
  from find_root_file_ok [OF this assms(2)] show ?thesis .
next
  case False
  then obtain uri hs1 w1 where c: "run_cgi cfg hs m off w = Inr (uri, hs1, w1)"
    using assms(1) by (cases "run_cgi cfg hs m off w") (auto simp: http_find_file_def)
  then have "open_uri cfg hs1 uri is_09 h = Inr (err, hs', h')"
    using assms(1) False by (cases "open_uri cfg hs1 uri is_09 h") (auto simp: http_find_file_def)
  from open_uri_ok [OF this] run_cgi_keeps [OF c] assms(2) show ?thesis by auto
qed


subsection \<open>A complete GET request\<close>

definition GET_sp :: string where
  "GET_sp = ''GET ''"

text \<open>The buffer of a request while its URI is looked up: the two blanks are terminators.\<close>

definition cut_request :: "string \<Rightarrow> bytes \<Rightarrow> bytes" where
  "cut_request uri rest = ''GET'' @ NUL # uri @ NUL # rest"

lemma CRLF_facts [simp]: "NUL \<notin> set CRLF" "CRLF \<noteq> []" "length CRLF = 2" "CHR '' '' \<notin> set CRLF"
  by (auto simp: CRLF_def NUL_def)

lemma parse_data_get:
  assumes data: "data = GET_sp @ uri @ CHR '' '' # head @ CRLF @ CRLF @ tail"
    and nul: "NUL \<notin> set uri" "NUL \<notin> set head" and sp: "CHR '' '' \<notin> set uri"
    and len: "length GET_sp + length uri + 1 + length head + 4 \<le> data_len"
  shows "parse_data cfg hs data data_len h w
    = map_sum id Some (http_find_file cfg hs (cut_request uri (head @ CRLF @ CRLF @ tail)) 4 False h w)"
proof -
  let ?pre = "GET_sp @ uri @ CHR '' '' # head"
  have npre: "NUL \<notin> set ?pre" using nul by (auto simp: GET_sp_def NUL_def)
  have 1: "\<exists>i. strnstr data CRLF data_len = Inr (Some i)"
    using strnstr_found [OF npre, of CRLF data_len "CRLF @ tail"] len by (auto simp: data)
  have 2: "\<exists>i. strnstr data (CRLF @ CRLF) data_len = Inr (Some i)"
    using strnstr_found [OF npre, of "CRLF @ CRLF" data_len tail] len by (auto simp: data)
  have 3: "c_strncmp_eq data ''GET '' 4 = Some True"
    by (subst c_strncmp_eq_some) (auto simp: data GET_sp_def NUL_def)
  have dr: "drop 4 data = uri @ '' '' @ head @ CRLF @ CRLF @ tail" by (simp add: data GET_sp_def)
  have 4: "strnstr (drop 4 data) '' '' (data_len - 4) = Inr (Some (length uri))"
    unfolding dr using strnstr_found [OF nul(1), of "'' ''" "data_len - 4" "head @ CRLF @ CRLF @ tail"] sp len
    by (auto simp: NUL_def GET_sp_def)
  have min: "\<not> data_len < MIN_REQ_LEN" using len by (simp add: MIN_REQ_LEN_def GET_sp_def)
  have "(data[3 := NUL])[4 + length uri := NUL] = cut_request uri (head @ CRLF @ CRLF @ tail)"
    by (simp add: data GET_sp_def cut_request_def list_update_append eval_nat_numeral)
  then show ?thesis
    using 1 2 3 4 min by (auto simp: parse_data_def Let_def)
qed

text \<open>A URI without parameters that is no CGI name, of a file that exists: that file is opened.\<close>

lemma strchr_at_none: "c \<notin> set q \<Longrightarrow> NUL \<notin> set q \<Longrightarrow> c \<noteq> NUL \<Longrightarrow> strchr_at (q @ NUL # post) c = None"
  by (simp add: strchr_at_nul)

lemma find_cgi_none: "uri \<notin> fst ` set cs \<Longrightarrow> find_cgi i cs uri = None"
  by (induction i cs uri rule: find_cgi.induct) auto

lemma http_find_file_plain:
  assumes uri: "NUL \<notin> set uri" "CHR ''?'' \<notin> set uri" "uri \<noteq> ''/''" "uri \<noteq> []"
    and cgi: "uri \<notin> fst ` set (g_pCGIs cfg)"
    and found: "fs_lookup (fs_root cfg) uri = Some f"
  shows "http_find_file cfg hs (cut_request uri rest) 4 is_09 h w
    = map_sum id (\<lambda>(err, hs, h). (err, hs, h, w))
        (http_init_file (hs\<lparr>file_handle := opened f\<rparr>) True is_09 (ssi_extension uri) h)"
proof -
  let ?m = "cut_request uri rest"
  have dr: "drop 4 ?m = uri @ NUL # rest" by (simp add: cut_request_def)
  have not_root: "\<not> (?m ! 4 = CHR ''/'' \<and> ?m ! (4 + 1) = NUL)"
  proof
    assume a: "?m ! 4 = CHR ''/'' \<and> ?m ! (4 + 1) = NUL"
    have m: "?m ! 4 = (uri @ NUL # rest) ! 0" "?m ! (4 + 1) = (uri @ NUL # rest) ! 1"
      by (simp_all add: cut_request_def eval_nat_numeral)
    obtain c cs where u: "uri = c # cs" using uri(4) by (cases uri) auto
    have "cs = []" using a m u uri(1) by (cases cs) auto
    then show False using a m u uri(3) by simp
  qed
  have "c_strchr ?m 4 (CHR ''?'') = None"
    using strchr_at_none [OF uri(2,1)] by (simp add: c_strchr_def dr NUL_def)
  then have "run_cgi cfg hs ?m 4 w = Inr (uri, hs, w)"
    using find_cgi_none [OF cgi, of 0] uri(1) by (simp add: run_cgi_def dr cstr_nul)
  then show ?thesis
    using not_root found by (auto simp: http_find_file_def open_uri_def fs_open_eq)
qed

lemma http_init_file_no_09:
  assumes "\<not> tag_check" "fd_http_header_included f"
  shows "http_init_file (hs\<lparr>file_handle := opened f\<rparr>) True False tag_check h
    = Inr (ERR_OK, hs\<lparr>file_handle := opened f, handle := True, file_set := True,
         send_position := \<lparr>hs_file = 0, hs_left = length (fd_data f)\<rparr>, retries := 0\<rparr>, h)"
  using assms by (simp add: http_init_file_def opened_def require_def)

text \<open>What a request in progress can hold.\<close>

lemma map_sum_Some_iff [simp]: "map_sum id Some x = Inr y \<longleftrightarrow> (\<exists>r. x = Inr r \<and> y = Some r)"
  by (cases x) auto

lemma parse_data_result:
  assumes "parse_data cfg hs data n h w = Inr (Some (err, hs', h', w'))" "ssi hs = None"
  shows "(err = ERR_OK \<and> hs_ok hs' \<and> req hs' = req hs \<and> answers (fs_root cfg) hs')
    \<or> (err = ERR_ARG \<and> hs' = hs \<and> h' = h \<and> w' = w)"
proof -
  have "(\<exists>m off b. http_find_file cfg hs m off b h w = Inr (err, hs', h', w'))
      \<or> (err = ERR_ARG \<and> hs' = hs \<and> h' = h \<and> w' = w)"
    using assms(1)
    by (auto simp: parse_data_def Let_def http_find_error_file_def
        split: sum.splits option.splits if_splits bool.splits)
  then show ?thesis using http_find_file_ok [of cfg hs _ _ _ h w err hs' h' w'] assms(2) by blast
qed

lemma http_parse_request_result:
  assumes "http_parse_request cfg req_buf hs inp h w = Inr (err, hs', h', w')"
    "ssi hs = None" "\<not> handle hs" "\<not> file_set hs"
  shows "req hs' = req hs @ inp"
    and "(err = ERR_OK \<and> hs_ok hs' \<and> answers (fs_root cfg) hs')
      \<or> ((err = ERR_ARG \<or> err = ERR_INPROGRESS) \<and> hs' = hs\<lparr>req := req hs @ inp\<rparr> \<and> h' = h \<and> w' = w)"
    and "err = ERR_INPROGRESS \<Longrightarrow> chain_tot_len (req hs') \<le> LWIP_HTTPD_REQ_BUFSIZE
           \<and> length (req hs') \<le> LWIP_HTTPD_REQ_QUEUELEN"
proof -
  let ?hs = "hs\<lparr>req := req hs @ inp\<rparr>"
  obtain d n where c: "collect_data req_buf (req ?hs) (hd inp) = (d, n)" by fastforce
  have eq: "(\<exists>r. parse_data cfg ?hs d n h w = Inr (Some r) \<and> r = (err, hs', h', w'))
    \<or> (parse_data cfg ?hs d n h w = Inr None \<and> hs' = ?hs \<and> h' = h \<and> w' = w
       \<and> err = (if chain_tot_len (req ?hs) \<le> LWIP_HTTPD_REQ_BUFSIZE
                   \<and> length (req ?hs) \<le> LWIP_HTTPD_REQ_QUEUELEN
                then ERR_INPROGRESS else ERR_ARG))"
    using assms(1,3,4) c
    by (auto simp: http_parse_request_def Let_def http_find_error_file_def
        split: sum.splits option.splits if_splits)
  note r = parse_data_result [of cfg ?hs d n h w err hs' h' w']
  show "req hs' = req hs @ inp"
    "(err = ERR_OK \<and> hs_ok hs' \<and> answers (fs_root cfg) hs')
      \<or> ((err = ERR_ARG \<or> err = ERR_INPROGRESS) \<and> hs' = hs\<lparr>req := req hs @ inp\<rparr> \<and> h' = h \<and> w' = w)"
    "err = ERR_INPROGRESS \<Longrightarrow> chain_tot_len (req hs') \<le> LWIP_HTTPD_REQ_BUFSIZE
           \<and> length (req hs') \<le> LWIP_HTTPD_REQ_QUEUELEN"
    using eq r assms(2) by (auto split: if_splits)
qed

end
