(* ===== verification/Http_Frame.thy ===== *)
theory Http_Frame
  imports Http_Ssi_Scan
begin

text \<open>
  What sending leaves alone. The locale \<open>tcp_frame\<close> states that a write keeps a part \<open>F\<close> of
  the connection; then the send routines keep it. The interpretation takes for \<open>F\<close> the fields
  of the pcb that decide how a connection closes.
\<close>

locale tcp_frame =
  fixes T :: "'p tcp_ops" and F :: "'p \<Rightarrow> 'f"
  assumes write_frame: "op_write T p arg n fl = (e, p') \<Longrightarrow> F p' = F p"

context tcp_frame begin

lemma http_write_loop_frame: "http_write_loop T p ptr len fl = (e, len', p') \<Longrightarrow> F p' = F p"
proof (induction "unat len" arbitrary: p len rule: less_induct)
  case less
  obtain e1 p1 where w: "op_write T p ptr len fl = (e1, p1)" by fastforce
  show ?case
  proof (cases "e1 = ERR_MEM \<and> next_len T p1 len > 1")
    case True
    then have "http_write_loop T p1 ptr (next_len T p1 len) fl = (e, len', p')"
      using less(2) w by (subst (asm) http_write_loop.simps) (simp add: Let_def)
    then show ?thesis
      using less(1) True next_len_less [of T p1 len] write_frame [OF w]
      by (auto simp: word_less_nat_alt)
  next
    case False
    then have "p' = p1"
      using less(2) w by (subst (asm) http_write_loop.simps) (auto simp: Let_def split: if_splits)
    then show ?thesis using write_frame [OF w] by simp
  qed
qed

lemma http_write_frame: "http_write T p ptr len fl = (e, len', p') \<Longrightarrow> F p' = F p"
  by (auto simp: http_write_def dest: http_write_loop_frame split: if_splits)

lemma http_send_data_nonssi_frame:
  "http_send_data_nonssi T content s p = (d, s', p') \<Longrightarrow> F p' = F p"
  by (auto simp: http_send_data_nonssi_def Let_def dest: http_write_frame split: prod.splits if_splits)

lemma run_frame [simp]:
  "F (r_tcp (write_file T content len r)) = F (r_tcp r)"
  "F (r_tcp (write_insert T len r)) = F (r_tcp r)"
  by (auto simp: write_file_def write_insert_def Let_def dest: http_write_frame split: prod.split)

lemma ssi_step_frame [simp]: "F (r_tcp (ssi_step T cfg content r)) = F (r_tcp r)"
  by (auto simp: ssi_step_def sending_step_def tag_complete_def Let_def split: prod.split)

lemma ssi_loop_frame: "F (r_tcp (snd (ssi_loop T cfg content r))) = F (r_tcp r)"
proof (induction r rule: wf_induct_rule [OF wf_inv_image [OF wf_rank_less, of ssi_rank]])
  case (1 r)
  have "(ssi_step T cfg content r, r) \<in> inv_image rank_less ssi_rank"
    if "r_err (ssi_step T cfg content r) = ERR_OK" "parse_left (r_ssi r) \<noteq> 0" "r_len r \<noteq> 0"
    using ssi_step_rank [of r T cfg content] that by simp
  then show ?case
    using 1 by (subst ssi_loop.simps) (auto simp: Let_def)
qed

lemma http_send_data_ssi_frame: "F (r_tcp (http_send_data_ssi T cfg content r)) = F (r_tcp r)"
proof -
  define r1 where "r1 = r\<lparr>r_err := ERR_OK, r_len := op_sndbuf T (r_tcp r), r_data_to_send := False\<rparr>"
  define r2 where "r2 = (if parsed (r_ssi r1) > hs_file (r_pos r1) then send_parsed T content r1 else r1)"
  obtain early r3 where l: "ssi_loop T cfg content r2 = (early, r3)" by fastforce
  have r2: "F (r_tcp r2) = F (r_tcp r)"
    by (simp add: r2_def r1_def send_parsed_def)
  moreover have "F (r_tcp r3) = F (r_tcp r2)"
    by (metis l snd_conv ssi_loop_frame)
  moreover have "http_send_data_ssi T cfg content r \<in> {r2, r3, send_parsed T content r3}"
    using l by (auto simp: http_send_data_ssi_def Let_def r1_def [symmetric] r2_def split: bool.split)
  ultimately show ?thesis by (auto simp: send_parsed_def)
qed

end

text \<open>How a connection closes depends on these fields; \<open>callback_arg\<close> is TCP's pointer to the state.\<close>

definition close_fields :: "net \<Rightarrow> bool \<times> tcp_state \<times> (bytes list \<times> bool) option \<times> u16 \<times> bool" where
  "close_fields n = (callback_arg (pcb n), pcb_state (pcb n), refused_data (pcb n), rcv_wnd (pcb n), pcb_freed n)"

interpretation lwip_frame: tcp_frame lwip_ops close_fields
  by unfold_locales
     (auto simp: close_fields_def lwip_ops_def net_write_def tcp_write_def tcp_write_checks_def set_flag_def
      tcp_write_commit_def Let_def split: prod.splits option.splits if_splits)

end
