(* ===== verification/Http_Conn.thy ===== *)
theory Http_Conn
  imports Http_Request Http_Frame
begin

text \<open>
  A connection of the HTTP server, \<^verbatim>\<open>Sources/httpd.c\<close>: the callbacks that TCP calls
  (\<open>http_accept\<close>, \<open>http_recv\<close>, \<open>http_sent\<close>, \<open>http_poll\<close>, \<open>http_err\<close>), sending
  (\<open>http_send\<close>) and closing. \<open>c_hs\<close> is the \<open>http_state\<close> the connection owns, \<open>None\<close> before it
  is allocated and after it is freed; a callback's argument \<open>arg\<close> says whether it was called
  with that state or with a null pointer. \<open>c_freed\<close> collects the received pbufs that were
  given back, \<open>c_log\<close> the inserts of the page that is being sent.
\<close>

definition HTTPD_MAX_RETRIES :: u8 where "HTTPD_MAX_RETRIES = 4"
definition HTTPD_POLL_INTERVAL :: u8 where "HTTPD_POLL_INTERVAL = 4"

record 'w conn =
  c_net :: net
  c_hs :: "http_state option"
  c_world :: 'w
  c_freed :: "pbuf list"
  c_log :: "(nat \<times> string \<times> bytes) list"

definition map_net :: "(net \<Rightarrow> net) \<Rightarrow> 'w conn \<Rightarrow> 'w conn" where
  "map_net f c = c\<lparr>c_net := f (c_net c)\<rparr>"

definition pbuf_free :: "pbuf list \<Rightarrow> 'w conn \<Rightarrow> 'w conn" where
  "pbuf_free ps c = c\<lparr>c_freed := c_freed c @ ps\<rparr>"

subsection \<open>Freeing and closing\<close>

definition http_state_eof :: "http_state \<Rightarrow> http_state" where
  "http_state_eof hs =
     (let hs = (if handle hs then hs\<lparr>file_handle := fs_close (file_handle hs), handle := False\<rparr> else hs)
      in if ssi hs \<noteq> None then hs\<lparr>ssi := None\<rparr> else hs)"

text \<open>\<open>http_state_free\<close>: the state is closed, then its memory goes back.\<close>

definition http_state_free :: "'w conn \<Rightarrow> 'w conn" where
  "http_state_free c =
     (case c_hs c of
        None \<Rightarrow> c
      | Some hs \<Rightarrow> let c = c\<lparr>c_hs := Some (http_state_eof hs)\<rparr> in c\<lparr>c_hs := None\<rparr>)"

definition clear_callbacks :: "net \<Rightarrow> net" where
  "clear_callbacks =
     map_pcb (\<lambda>p. tcp_sent (tcp_poll (tcp_err (tcp_recv (tcp_arg p False) False) False) False 0) False)"

definition http_close_or_abort_conn :: "'w conn \<Rightarrow> bool \<Rightarrow> bool \<Rightarrow> err_t \<times> 'w conn" where
  "http_close_or_abort_conn c hs abort_conn =
     (let c = map_net clear_callbacks c;
          c = (if hs then http_state_free c else c)
      in if abort_conn then (ERR_OK, map_net (\<lambda>n. fst (tcp_abort n)) c)
         else (case tcp_close (c_net c) of
                 (err, n) \<Rightarrow>
                   let c = c\<lparr>c_net := n\<rparr>
                   in (err, if err \<noteq> ERR_OK
                            then map_net (map_pcb (\<lambda>p. tcp_poll p True HTTPD_POLL_INTERVAL)) c else c)))"

definition http_close_conn :: "'w conn \<Rightarrow> bool \<Rightarrow> err_t \<times> 'w conn" where
  "http_close_conn c hs = http_close_or_abort_conn c hs False"

definition http_eof :: "'w conn \<Rightarrow> 'w conn" where
  "http_eof c = snd (http_close_conn c True)"

subsection \<open>Sending\<close>

definition http_check_eof :: "http_state \<Rightarrow> 'w conn \<Rightarrow> bool \<times> 'w conn" where
  "http_check_eof hs c =
     (if \<not> handle hs then (False, http_eof c)
      else if fs_bytes_left (file_handle hs) \<le> 0 then (False, http_eof c)
      else (True, c))"

text \<open>The two send routines on a connection.\<close>

definition start_run :: "http_state \<Rightarrow> http_ssi_state \<Rightarrow> 'w conn \<Rightarrow> (net, 'w) ssi_run" where
  "start_run hs s c = \<lparr>r_pos = send_position hs, r_ssi = s, r_tcp = c_net c, r_world = c_world c,
     r_len = 0, r_err = ERR_OK, r_data_to_send = False, r_log = c_log c\<rparr>"

definition end_run :: "http_state \<Rightarrow> (net, 'w) ssi_run \<Rightarrow> 'w conn \<Rightarrow> 'w conn" where
  "end_run hs r c = c\<lparr>c_net := r_tcp r, c_world := r_world r, c_log := r_log r,
     c_hs := Some (hs\<lparr>send_position := r_pos r, ssi := Some (r_ssi r)\<rparr>)\<rparr>"

definition http_send_data :: "'w httpd_cfg \<Rightarrow> http_state \<Rightarrow> 'w conn \<Rightarrow> bool \<times> 'w conn" where
  "http_send_data cfg hs c =
     (case ssi hs of
        Some s \<Rightarrow>
          let r = http_send_data_ssi lwip_ops (ssi_config cfg) (f_data (file_handle hs)) (start_run hs s c)
          in (r_data_to_send r, end_run hs r c)
      | None \<Rightarrow>
          (case http_send_data_nonssi lwip_ops (f_data (file_handle hs)) (send_position hs) (c_net c) of
             (sent, pos, n) \<Rightarrow> (sent, c\<lparr>c_net := n, c_hs := Some (hs\<lparr>send_position := pos\<rparr>)\<rparr>)))"

definition http_send :: "'w httpd_cfg \<Rightarrow> 'w conn \<Rightarrow> bool \<times> 'w conn" where
  "http_send cfg c =
     (case c_hs c of
        None \<Rightarrow> (False, c)
      | Some hs \<Rightarrow>
          if \<not> fs_is_file_ready (if handle hs then Some (file_handle hs) else None) then (False, c)
          else
            (case (if hs_left (send_position hs) = 0 then http_check_eof hs c else (True, c)) of
               (False, c) \<Rightarrow> (False, c)
             | (True, c) \<Rightarrow>
                 (case http_send_data cfg hs c of
                    (data_to_send, c) \<Rightarrow>
                      (case c_hs c of
                         None \<Rightarrow> (data_to_send, c)
                       | Some hs \<Rightarrow>
                           if hs_left (send_position hs) = 0 \<and> fs_bytes_left (file_handle hs) \<le> 0
                           then (False, http_eof c) else (data_to_send, c)))))"

definition tcp_output_if :: "bool \<Rightarrow> 'w conn \<Rightarrow> 'w conn" where
  "tcp_output_if b c = (if b then map_net (\<lambda>n. snd (tcp_output n)) c else c)"

definition http_continue :: "'w httpd_cfg \<Rightarrow> 'w conn \<Rightarrow> 'w conn" where
  "http_continue cfg c =
     (case c_hs c of
        None \<Rightarrow> c
      | Some hs \<Rightarrow> if handle hs then (case http_send cfg c of (d, c) \<Rightarrow> tcp_output_if d c) else c)"

subsection \<open>Callbacks\<close>

definition http_err :: "bool \<Rightarrow> 'w conn \<Rightarrow> 'w conn" where
  "http_err arg c = (if arg then http_state_free c else c)"

definition http_sent :: "'w httpd_cfg \<Rightarrow> bool \<Rightarrow> u16 \<Rightarrow> 'w conn \<Rightarrow> err_t \<times> 'w conn" where
  "http_sent cfg arg len c =
     (case (if arg then c_hs c else None) of
        None \<Rightarrow> (ERR_OK, c)
      | Some hs \<Rightarrow> (ERR_OK, snd (http_send cfg (c\<lparr>c_hs := Some (hs\<lparr>retries := 0\<rparr>)\<rparr>))))"

definition http_poll :: "'w httpd_cfg \<Rightarrow> bool \<Rightarrow> 'w conn \<Rightarrow> err_t \<times> 'w conn" where
  "http_poll cfg arg c =
     (case (if arg then c_hs c else None) of
        None \<Rightarrow>
          (case http_close_conn c False of
             (closed, c) \<Rightarrow>
               if closed = ERR_MEM then (ERR_ABRT, map_net (\<lambda>n. fst (tcp_abort n)) c) else (ERR_OK, c))
      | Some hs \<Rightarrow>
          let hs = hs\<lparr>retries := retries hs + 1\<rparr>;
              c = c\<lparr>c_hs := Some hs\<rparr>
          in if retries hs = HTTPD_MAX_RETRIES then (ERR_OK, snd (http_close_conn c True))
             else if handle hs then (case http_send cfg c of (d, c) \<Rightarrow> (ERR_OK, tcp_output_if d c))
             else (ERR_OK, c))"

text \<open>\<open>http_recv\<close>; the pbuf chain \<open>p\<close> is empty for a null pointer.\<close>

definition http_recv ::
  "'w httpd_cfg \<Rightarrow> bytes \<Rightarrow> bool \<Rightarrow> pbuf list \<Rightarrow> err_t \<Rightarrow> 'w conn \<Rightarrow> (err_t \<times> 'w conn) checked" where
  "http_recv cfg req_buf arg p err c =
     (case (if err = ERR_OK \<and> p \<noteq> [] \<and> arg then c_hs c else None) of
        None \<Rightarrow>
          let c = (if p \<noteq> []
                   then pbuf_free p (map_net (\<lambda>n. tcp_recved n (of_nat (chain_tot_len p))) c) else c)
          in Inr (ERR_OK, snd (http_close_conn c arg))
      | Some hs \<Rightarrow>
          let c = map_net (\<lambda>n. tcp_recved n (of_nat (chain_tot_len p))) c
          in case (if \<not> handle hs
                   then http_parse_request cfg req_buf hs p (net_heap (c_net c)) (c_world c)
                   else Inr (ERR_ABRT, hs, net_heap (c_net c), c_world c)) of
               Inl e \<Rightarrow> Inl e
             | Inr (res, hs, h, w) \<Rightarrow>
                 let c = c\<lparr>c_net := (c_net c)\<lparr>net_heap := h\<rparr>, c_world := w, c_hs := Some hs\<rparr>;
                     c = (if res \<noteq> ERR_INPROGRESS \<and> req hs \<noteq> []
                          then (pbuf_free (req hs) c)\<lparr>c_hs := Some (hs\<lparr>req := []\<rparr>)\<rparr> else c)
                 in Inr (ERR_OK,
                         if res = ERR_OK then snd (http_send cfg (c\<lparr>c_log := []\<rparr>))
                         else if res = ERR_ARG then snd (http_close_conn c True) else c))"

definition http_state_alloc :: "heap \<Rightarrow> http_state option \<times> heap" where
  "http_state_alloc h = (case alloc h of (ok, h) \<Rightarrow> (if ok then Some http_state_zero else None, h))"

definition http_accept :: "net \<Rightarrow> 'w \<Rightarrow> err_t \<times> 'w conn" where
  "http_accept n w =
     (case http_state_alloc (net_heap n) of
        (None, h) \<Rightarrow> (ERR_MEM, \<lparr>c_net = n\<lparr>net_heap := h\<rparr>, c_hs = None, c_world = w, c_freed = [], c_log = []\<rparr>)
      | (Some hs, h) \<Rightarrow>
          let n = n\<lparr>net_heap := h\<rparr>;
              n = map_pcb (\<lambda>p. tcp_sent (tcp_poll (tcp_err (tcp_recv (tcp_arg p True) True) True)
                                 True HTTPD_POLL_INTERVAL) True) n
          in (ERR_OK, \<lparr>c_net = n, c_hs = Some hs, c_world = w, c_freed = [], c_log = []\<rparr>))"


subsection \<open>Closing takes the state away from TCP\<close>

lemma send_first_arg [simp]: "callback_arg (pcb (send_first seg rest n)) = callback_arg (pcb n)"
  by (simp add: send_first_def Let_def tcp_output_segment_def clear_flag_def)

lemma tcp_output_loop_arg [simp]: "callback_arg (pcb (tcp_output_loop wnd q n)) = callback_arg (pcb n)"
  by (induction wnd q n rule: tcp_output_loop.induct) auto

lemma tcp_output_arg [simp]: "callback_arg (pcb (snd (tcp_output n))) = callback_arg (pcb n)"
  by (auto simp: tcp_output_def tcp_send_empty_ack_def clear_flag_def Let_def split: prod.split bool.split)

lemma tcp_send_fin_arg: "tcp_send_fin p h = (err, p', h') \<Longrightarrow> callback_arg p' = callback_arg p"
  by (auto simp: tcp_send_fin_def tcp_enqueue_flags_def tcp_create_segment_def set_flag_def Let_def
      split: if_splits prod.splits option.splits bool.splits)

lemma send_fin_to_arg [simp]: "callback_arg (pcb (snd (send_fin_to st n))) = callback_arg (pcb n)"
  by (auto simp: send_fin_to_def Let_def dest: tcp_send_fin_arg split: prod.split)

lemma tcp_pcb_remove_arg [simp]: "callback_arg (pcb (tcp_pcb_remove n)) = callback_arg (pcb n)"
  by (auto simp: tcp_pcb_remove_def Let_def tcp_pcb_purge_def set_flag_def)

lemma tcp_close_arg [simp]: "callback_arg (pcb (snd (tcp_close n))) = callback_arg (pcb n)"
  by (auto simp: tcp_close_def tcp_close_shutdown_def Let_def memp_free_pcb_def tcp_pcb_purge_def
      set_flag_def split: tcp_state.split)

lemma tcp_abort_arg [simp]: "callback_arg (pcb (fst (tcp_abort n))) = callback_arg (pcb n)"
  by (auto simp: tcp_abort_def tcp_abandon_def memp_free_pcb_def Let_def)

lemma clear_callbacks_arg [simp]: "callback_arg (pcb (clear_callbacks n)) = False"
  by (simp add: clear_callbacks_def tcp_arg_def tcp_recv_def tcp_err_def tcp_poll_def tcp_sent_def)

lemma map_net_simps [simp]:
  "c_hs (map_net f c) = c_hs c" "c_freed (map_net f c) = c_freed c" "c_net (map_net f c) = f (c_net c)"
  "c_world (map_net f c) = c_world c" "c_log (map_net f c) = c_log c"
  by (simp_all add: map_net_def)

lemma http_state_free_simps [simp]:
  "c_hs (http_state_free c) = None" "c_freed (http_state_free c) = c_freed c"
  "c_net (http_state_free c) = c_net c" "c_world (http_state_free c) = c_world c"
  by (simp_all add: http_state_free_def split: option.split)

lemma http_close_conn_effect:
  assumes "http_close_conn c hs = (err, c')"
  shows "c_hs c' = (if hs then None else c_hs c)" "\<not> callback_arg (pcb (c_net c'))"
    "c_freed c' = c_freed c" "c_world c' = c_world c"
proof -
  define c1 where "c1 = (if hs then http_state_free (map_net clear_callbacks c) else map_net clear_callbacks c)"
  obtain e n where t: "tcp_close (c_net c1) = (e, n)" by fastforce
  have "callback_arg (pcb n) = callback_arg (pcb (c_net c1))" by (metis t tcp_close_arg snd_conv)
  then have arg: "\<not> callback_arg (pcb n)" by (simp add: c1_def)
  have "c' = (if err \<noteq> ERR_OK then map_net (map_pcb (\<lambda>p. tcp_poll p True HTTPD_POLL_INTERVAL)) (c1\<lparr>c_net := n\<rparr>)
      else c1\<lparr>c_net := n\<rparr>)"
    using assms t by (auto simp: http_close_conn_def http_close_or_abort_conn_def Let_def c1_def [symmetric])
  then show "c_hs c' = (if hs then None else c_hs c)" "\<not> callback_arg (pcb (c_net c'))"
    "c_freed c' = c_freed c" "c_world c' = c_world c"
    using arg by (simp_all add: c1_def tcp_poll_def)
qed

lemma http_eof_effect [simp]:
  "c_hs (http_eof c) = None" "\<not> callback_arg (pcb (c_net (http_eof c)))" "c_freed (http_eof c) = c_freed c"
  using http_close_conn_effect [of c True] by (simp_all add: http_eof_def prod_eq_iff)

end
