(* ===== verification/Http_Sending.thy ===== *)
theory Http_Sending
  imports Http_Conn
begin

text \<open>
  What a connection sends over its whole life. TCP acknowledges bytes while the page is being
  sent: \<open>A\<close> are the bytes acknowledged so far, so \<open>A @ tcp_stream p\<close> is everything the server has
  given to TCP.
\<close>

text \<open>The contract of TCP holds with any bytes acknowledged before.\<close>

lemma tcp_sender_acked: "tcp_sender lwip_ops (\<lambda>n. A @ tcp_stream (pcb n)) (\<lambda>n. pcb_good (pcb n))"
  by unfold_locales (use lwip.write_ok lwip.write_error in auto)

interpretation lwip_acked: tcp_sender lwip_ops "\<lambda>n. A @ tcp_stream (pcb n)" "\<lambda>n. pcb_good (pcb n)" for A
  by (rule tcp_sender_acked)

definition given :: "bytes \<Rightarrow> 'w conn \<Rightarrow> bytes" where
  "given A c = A @ tcp_stream (pcb (c_net c))"

text \<open>
  A page to send: the file \<open>pg_content\<close> from the offset \<open>pg_start\<close>, with an insert behind
  each of the tags \<open>pg_tags\<close>; \<open>pg_before\<close> is what was given to TCP before it.
\<close>

record page_spec =
  pg_before :: bytes
  pg_content :: bytes
  pg_start :: nat
  pg_tags :: "(nat \<times> string) list"

text \<open>TCP has been given a prefix of the page, and the connection is ready to go on with it.\<close>

definition sending :: "bytes \<Rightarrow> page_spec \<Rightarrow> 'w conn \<Rightarrow> bool" where
  "sending A g c \<longleftrightarrow>
     (\<exists>hs. c_hs c = Some hs \<and> handle hs \<and> hs_ok hs \<and> pcb_good (pcb (c_net c))
       \<and> f_data (file_handle hs) = pg_content g
       \<and> (case ssi hs of
            None \<Rightarrow> pg_start g \<le> hs_file (send_position hs) \<and> pg_tags g = []
              \<and> given A c = pg_before g @ span_of (pg_start g) (hs_file (send_position hs)) (pg_content g)
          | Some s \<Rightarrow>
              ssi_inv (\<lambda>n. A @ tcp_stream (pcb n)) (\<lambda>n. pcb_good (pcb n)) (pg_before g) (pg_start g)
                (pg_content g) (start_run hs s c)
              \<and> tags_in (pg_content g) (start_run hs s c) = pg_tags g))"

text \<open>TCP has been given the whole page, with an insert for each of its tags.\<close>

definition page_bytes :: "page_spec \<Rightarrow> (nat \<times> string \<times> bytes) list \<Rightarrow> bytes" where
  "page_bytes g log = woven (pg_content g) (pg_start g) log (length (pg_content g))"

definition delivered :: "bytes \<Rightarrow> page_spec \<Rightarrow> 'w conn \<Rightarrow> bool" where
  "delivered A g c \<longleftrightarrow>
     (\<exists>log. given A c = pg_before g @ page_bytes g log \<and> log_tags log = pg_tags g)"

text \<open>
  A page the server can deliver: no tag ends at the very end of the file (its insert would be
  lost), and the server has not skipped a file with tags altogether.
\<close>

definition pg_ok :: "page_spec \<Rightarrow> bool" where
  "pg_ok g \<longleftrightarrow> (\<forall>(t, _)\<in>set (pg_tags g). t < length (pg_content g))
     \<and> (pg_tags g = [] \<or> pg_start g < length (pg_content g))"

lemma run_roundtrip:
  "start_run (hs\<lparr>send_position := r_pos r, ssi := Some (r_ssi r)\<rparr>) (r_ssi r) (end_run hs r c)
     = r\<lparr>r_len := 0, r_err := ERR_OK, r_data_to_send := False\<rparr>"
  by (simp add: start_run_def end_run_def)

lemma end_run_simps [simp]:
  "c_hs (end_run hs r c) = Some (hs\<lparr>send_position := r_pos r, ssi := Some (r_ssi r)\<rparr>)"
  "c_net (end_run hs r c) = r_tcp r" "c_freed (end_run hs r c) = c_freed c"
  by (simp_all add: end_run_def)

lemma tags_in_flags [simp]:
  "tags_in content (r\<lparr>r_len := l, r_err := e, r_data_to_send := d\<rparr>) = tags_in content r"
  by (simp add: tags_in_def)

lemma http_send_data_sending:
  assumes "sending A g c" "c_hs c = Some hs" "handler_ok (ssi_config cfg)"
    "http_send_data cfg hs c = (d, c')"
  shows "sending A g c'" "close_fields (c_net c') = close_fields (c_net c)"
    "c_freed c' = c_freed c" "\<exists>hs'. c_hs c' = Some hs' \<and> file_handle hs' = file_handle hs"
proof -
  let ?content = "pg_content g"
  have hs: "handle hs" "hs_ok hs" "pcb_good (pcb (c_net c))" "f_data (file_handle hs) = ?content"
    using assms(1,2) by (auto simp: sending_def)
  have "sending A g c' \<and> close_fields (c_net c') = close_fields (c_net c)
    \<and> c_freed c' = c_freed c \<and> (\<exists>hs'. c_hs c' = Some hs' \<and> file_handle hs' = file_handle hs)"
  proof (cases "ssi hs")
    case None
    obtain pos n where w: "http_send_data_nonssi lwip_ops ?content (send_position hs) (c_net c) = (d, pos, n)"
      and c': "c' = c\<lparr>c_net := n, c_hs := Some (hs\<lparr>send_position := pos\<rparr>)\<rparr>"
      using assms(4) None hs(4) by (auto simp: http_send_data_def split: prod.splits)
    have pos: "pos_ok ?content (send_position hs)" using hs by (simp add: hs_ok_def)
    note sends = lwip_acked.http_send_data_nonssi_sends [OF w hs(3) pos]
    have before: "pg_start g \<le> hs_file (send_position hs)"
      "given A c = pg_before g @ span_of (pg_start g) (hs_file (send_position hs)) ?content"
      using assms(1,2) None by (auto simp: sending_def)
    have "given A c' = pg_before g @ span_of (pg_start g) (hs_file (send_position hs)) ?content
        @ span_of (hs_file (send_position hs)) (hs_file pos) ?content"
      using sends(4) before(2) by (simp add: c' given_def span_of_def)
    then have "given A c' = pg_before g @ span_of (pg_start g) (hs_file pos) ?content"
      using span_of_append [OF before(1) sends(5)] by simp
    then show ?thesis
      using hs None sends before(1) assms(1,2) lwip_frame.http_send_data_nonssi_frame [OF w]
      by (simp add: c' sending_def hs_ok_def)
  next
    case (Some s)
    let ?r = "http_send_data_ssi lwip_ops (ssi_config cfg) ?content (start_run hs s c)"
    have c': "c' = end_run hs ?r c" using assms(4) Some hs(4) by (simp add: http_send_data_def Let_def)
    have inv: "ssi_inv (\<lambda>n. A @ tcp_stream (pcb n)) (\<lambda>n. pcb_good (pcb n)) (pg_before g) (pg_start g) ?content (start_run hs s c)"
      "tags_in ?content (start_run hs s c) = pg_tags g"
      using assms(1,2) Some by (auto simp: sending_def)
    have inv': "ssi_inv (\<lambda>n. A @ tcp_stream (pcb n)) (\<lambda>n. pcb_good (pcb n)) (pg_before g) (pg_start g) ?content ?r"
      by (rule lwip_acked.http_send_data_ssi_inv [OF inv(1) assms(3)])
    moreover have "tags_in ?content ?r = pg_tags g" using inv(2) by (simp add: http_send_data_ssi_tags)
    moreover have "hs_ok (hs\<lparr>send_position := r_pos ?r, ssi := Some (r_ssi ?r)\<rparr>)"
      using hs inv' by (auto simp: hs_ok_def ssi_inv_def Let_def)
    moreover have "pcb_good (pcb (r_tcp ?r))" using inv' by (simp add: ssi_inv_def Let_def)
    ultimately have "sending A g c'"
      using hs(1,4) by (simp add: sending_def c' run_roundtrip)
    then show ?thesis
      using lwip_frame.http_send_data_ssi_frame [of "ssi_config cfg" ?content "start_run hs s c"]
      by (simp add: c') (simp add: start_run_def)
  qed
  then show "sending A g c'" "close_fields (c_net c') = close_fields (c_net c)"
    "c_freed c' = c_freed c" "\<exists>hs'. c_hs c' = Some hs' \<and> file_handle hs' = file_handle hs" by auto
qed

text \<open>No bytes left: the page has been handed over.\<close>

lemma sending_done:
  assumes "sending A g c" "c_hs c = Some hs" "hs_left (send_position hs) = 0" "pg_ok g"
  shows "delivered A g c"
proof -
  let ?content = "pg_content g"
  have hs: "handle hs" "hs_ok hs" "f_data (file_handle hs) = ?content" using assms(1,2) by (auto simp: sending_def)
  then have f: "hs_file (send_position hs) = length ?content" using assms(3) by (simp add: hs_ok_def pos_ok_def)
  show ?thesis
  proof (cases "ssi hs")
    case None
    then have "given A c = pg_before g @ page_bytes g []" "pg_tags g = []"
      using assms(1,2) f by (auto simp: sending_def page_bytes_def)
    then show ?thesis unfolding delivered_def by (intro exI [of _ "[]"]) (simp add: log_tags_def)
  next
    case (Some s)
    have inv: "ssi_inv (\<lambda>n. A @ tcp_stream (pcb n)) (\<lambda>n. pcb_good (pcb n)) (pg_before g) (pg_start g)
        ?content (start_run hs s c)"
      and tags: "tags_in ?content (start_run hs s c) = pg_tags g"
      using assms(1,2) Some by (auto simp: sending_def)
    have not_sending: "tag_state s \<noteq> TAG_SENDING"
    proof
      assume st: "tag_state s = TAG_SENDING"
      then have l: "c_log c \<noteq> []" "fst (last (c_log c)) = parsed s" "length ?content \<le> max (pg_start g) (parsed s)"
        using inv f by (auto simp: ssi_inv_def Let_def start_run_def)
      then have "(parsed s, fst (snd (last (c_log c)))) \<in> set (pg_tags g)"
        unfolding tags [symmetric] by (auto simp: tags_in_def start_run_def log_tags_def st intro!: image_eqI [of _ _ "last (c_log c)"] split: prod.splits)
      then show False using assms(4) l(3) by (auto simp: pg_ok_def max_def split: if_splits)
    qed
    have "given A c = pg_before g @ page_bytes g (c_log c)"
      using lwip_acked.ssi_inv_at_end [OF inv] assms(3) not_sending
      by (simp add: start_run_def given_def page_bytes_def)
    moreover have "log_tags (c_log c) = pg_tags g"
    proof (cases "pg_tags g = []")
      case True
      then show ?thesis using tags not_sending by (simp add: tags_in_def start_run_def)
    next
      case False
      then have "parse_left s = 0"
        using inv f not_sending assms(4) by (auto simp: ssi_inv_def Let_def start_run_def pg_ok_def)
      then have "scan ?content s = []" by (subst scan.simps) simp
      then show ?thesis using tags not_sending by (simp add: tags_in_def start_run_def)
    qed
    ultimately show ?thesis unfolding delivered_def by blast
  qed
qed

subsection \<open>\<open>http_send\<close>\<close>

lemma http_send_result:
  assumes "sending A g c" "handler_ok (ssi_config cfg)" "pg_ok g" "http_send cfg c = (d, c')"
  shows "(sending A g c' \<and> close_fields (c_net c') = close_fields (c_net c) \<and> c_freed c' = c_freed c)
    \<or> (d = False \<and> (\<exists>c1. c' = http_eof c1 \<and> delivered A g c1 \<and> sending A g c1
           \<and> close_fields (c_net c1) = close_fields (c_net c) \<and> c_freed c1 = c_freed c))"
proof -
  obtain hs where hs: "c_hs c = Some hs" "handle hs" "hs_ok hs" using assms(1) by (auto simp: sending_def)
  have whole: "fs_bytes_left (file_handle hs) = 0" using hs by (simp add: hs_ok_def)
  show ?thesis
  proof (cases "hs_left (send_position hs) = 0")
    case True
    then have "c' = http_eof c \<and> d = False"
      using assms(4) hs whole by (simp add: http_send_def fs_is_file_ready_def http_check_eof_def)
    then show ?thesis using sending_done [OF assms(1) hs(1) True assms(3)] assms(1) by auto
  next
    case False
    obtain d1 c1 where s: "http_send_data cfg hs c = (d1, c1)" by fastforce
    note sd = http_send_data_sending [OF assms(1) hs(1) assms(2) s]
    obtain hs1 where hs1: "c_hs c1 = Some hs1" "file_handle hs1 = file_handle hs" using sd(4) by auto
    have eq: "(d, c') = (if hs_left (send_position hs1) = 0 then (False, http_eof c1) else (d1, c1))"
      using assms(4) hs False s hs1 whole by (simp add: http_send_def fs_is_file_ready_def)
    then show ?thesis using sd sending_done [OF sd(1) hs1(1) _ assms(3)] by (auto split: if_splits)
  qed
qed

end
