(* ===== verification/Tcp_In.thy ===== *)
theory Tcp_In
  imports Tcp_Seq
begin

text \<open>
  The acknowledgement half of \<open>tcp_receive\<close>, \<^verbatim>\<open>lwip/src/core/tcp_in.c\<close>: the send window, duplicate
  acknowledgements with fast retransmission, the congestion window, the release of acknowledged
  segments, and the estimate of the round-trip time. The signed 16-bit fields \<open>sa\<close>, \<open>sv\<close> and
  \<open>rto\<close> are words that \<open>sint\<close> reads. The main lemma says which bytes an acknowledgement takes
  from the queues: whole segments from the front.
\<close>

text \<open>What \<open>tcp_input\<close> has read from the header of the incoming segment.\<close>

record tcp_in_seg =
  in_seqno :: u32
  in_ackno :: u32
  in_wnd :: u16
  in_tcplen :: u16

definition seq_leq :: "u32 \<Rightarrow> u32 \<Rightarrow> bool" where
  "seq_leq a b \<longleftrightarrow> sint (a - b) \<le> 0"

definition seq_between :: "u32 \<Rightarrow> u32 \<Rightarrow> u32 \<Rightarrow> bool" where
  "seq_between a b c \<longleftrightarrow> seq_geq a b \<and> seq_leq a c"

subsection \<open>The steps\<close>

definition update_snd_wnd :: "tcp_in_seg \<Rightarrow> tcp_pcb \<Rightarrow> tcp_pcb" where
  "update_snd_wnd i p =
     (if seq_lt (snd_wl1 p) (in_seqno i)
         \<or> (snd_wl1 p = in_seqno i \<and> seq_lt (snd_wl2 p) (in_ackno i))
         \<or> (snd_wl2 p = in_ackno i \<and> in_wnd i > snd_wnd p)
      then
        let p = p\<lparr>snd_wnd := in_wnd i\<rparr>;
            p = (if snd_wnd_max p < in_wnd i then p\<lparr>snd_wnd_max := in_wnd i\<rparr> else p);
            p = p\<lparr>snd_wl1 := in_seqno i, snd_wl2 := in_ackno i\<rparr>
        in if snd_wnd p = 0 then
             (if persist_backoff p = 0 then p\<lparr>persist_cnt := 0, persist_backoff := 1\<rparr> else p)
           else if persist_backoff p > 0 then p\<lparr>persist_backoff := 0\<rparr> else p
      else p)"

text \<open>An acknowledgement of nothing new; \<open>edge\<close> is the right edge of the window before the update.\<close>

definition dup_ack :: "tcp_in_seg \<Rightarrow> u32 \<Rightarrow> tcp_pcb \<Rightarrow> tcp_pcb" where
  "dup_ack i edge p =
     (let p = p\<lparr>pcb_acked := 0\<rparr> in
      if in_tcplen i = 0 \<and> snd_wl2 p + ucast (snd_wnd p) = edge \<and> 0 \<le> rtime p \<and> lastack p = in_ackno i
      then
        let p = (if dupacks p + 1 > dupacks p then p\<lparr>dupacks := dupacks p + 1\<rparr> else p)
        in if dupacks p > 3 then
             (if cwnd p + pcb_mss p > cwnd p then p\<lparr>cwnd := cwnd p + pcb_mss p\<rparr> else p)
           else if dupacks p = 3 then tcp_rexmit_fast p
           else p
      else p\<lparr>dupacks := 0\<rparr>)"

text \<open>
  Congestion control after new data was acknowledged. \<open>cwnd\<close> is not 0 in the second branch:
  \<open>tcp_alloc\<close> starts it at 1 and nothing sets it to 0.
\<close>

definition grow_cwnd :: "tcp_pcb \<Rightarrow> tcp_pcb" where
  "grow_cwnd p =
     (if cwnd p < ssthresh p
      then (if cwnd p + pcb_mss p > cwnd p then p\<lparr>cwnd := cwnd p + pcb_mss p\<rparr> else p)
      else let new_cwnd = of_nat (unat (cwnd p) + unat (pcb_mss p) * unat (pcb_mss p) div unat (cwnd p))
           in if new_cwnd > cwnd p then p\<lparr>cwnd := new_cwnd\<rparr> else p)"

text \<open>Taking segments from the front of a queue: what is left, \<open>acked\<close> and \<open>snd_queuelen\<close>.\<close>

fun free_segs :: "(tcp_seg \<Rightarrow> bool) \<Rightarrow> tcp_seg list \<Rightarrow> u16 \<Rightarrow> u16 \<Rightarrow> tcp_seg list \<times> u16 \<times> u16" where
  "free_segs P [] acked qlen = ([], acked, qlen)"
| "free_segs P (s # q) acked qlen =
     (if P s
      then free_segs P q (if acked \<noteq> 0 \<and> seg_hdrflags s AND TCP_FIN \<noteq> 0 then acked - 1 else acked)
             (qlen - of_nat (length (seg_p s)))
      else (s # q, acked, qlen))"

definition seg_end :: "tcp_seg \<Rightarrow> u32" where
  "seg_end s = seg_seqno s + tcplen s"

definition new_ack :: "tcp_in_seg \<Rightarrow> tcp_pcb \<Rightarrow> tcp_pcb" where
  "new_ack i p =
     (let p = (if pcb_flags p AND TF_INFR \<noteq> 0 then (clear_flag TF_INFR p)\<lparr>cwnd := ssthresh p\<rparr> else p);
          acked = ucast (in_ackno i - lastack p);
          p = p\<lparr>nrtx := 0, rto := signed_drop_bit 3 (pcb_sa p) + pcb_sv p, pcb_acked := acked,
                snd_buf := snd_buf p + acked, dupacks := 0, lastack := in_ackno i\<rparr>;
          p = grow_cwnd p
      in case free_segs (\<lambda>s. seq_leq (seg_end s) (in_ackno i)) (unacked p) (pcb_acked p) (snd_queuelen p) of
           (q, acked, qlen) \<Rightarrow>
             p\<lparr>unacked := q, pcb_acked := acked, snd_queuelen := qlen,
               rtime := (if q = [] then - 1 else 0), polltmr := 0\<rparr>)"

definition free_unsent :: "tcp_in_seg \<Rightarrow> tcp_pcb \<Rightarrow> tcp_pcb" where
  "free_unsent i p =
     (case free_segs (\<lambda>s. seq_between (in_ackno i) (seg_end s) (snd_nxt p))
             (unsent p) (pcb_acked p) (snd_queuelen p) of
        (q, acked, qlen) \<Rightarrow>
          p\<lparr>unsent := q, pcb_acked := acked, snd_queuelen := qlen,
            unsent_oversize := (if unsent p \<noteq> [] \<and> q = [] then 0 else unsent_oversize p)\<rparr>)"

definition estimate_rtt :: "tcp_in_seg \<Rightarrow> u32 \<Rightarrow> tcp_pcb \<Rightarrow> tcp_pcb" where
  "estimate_rtt i ticks p =
     (if rttest p \<noteq> 0 \<and> seq_lt (rtseq p) (in_ackno i) then
        let m = ucast (ticks - rttest p) :: u16;
            m = m - signed_drop_bit 3 (pcb_sa p);
            p = p\<lparr>pcb_sa := pcb_sa p + m\<rparr>;
            m = (if sint m < 0 then - m else m);
            m = m - signed_drop_bit 2 (pcb_sv p);
            p = p\<lparr>pcb_sv := pcb_sv p + m\<rparr>
        in p\<lparr>rto := signed_drop_bit 3 (pcb_sa p) + pcb_sv p, rttest := 0\<rparr>
      else p)"

definition tcp_receive_ack :: "tcp_in_seg \<Rightarrow> u32 \<Rightarrow> tcp_pcb \<Rightarrow> tcp_pcb" where
  "tcp_receive_ack i ticks p =
     (let edge = ucast (snd_wnd p) + snd_wl2 p;
          p = update_snd_wnd i p;
          p = (if seq_leq (in_ackno i) (lastack p) then dup_ack i edge p
               else if seq_between (in_ackno i) (lastack p + 1) (snd_nxt p) then new_ack i p
               else p\<lparr>pcb_acked := 0\<rparr>);
          p = free_unsent i p
      in estimate_rtt i ticks p)"

subsection \<open>Taking segments from the front\<close>

lemma free_segs_queue: "fst (free_segs P q acked qlen) = dropWhile P q"
  by (induction P q acked qlen rule: free_segs.induct) auto

lemma free_segs_qlen:
  "queue_clen (takeWhile P q) \<le> unat qlen \<Longrightarrow>
     unat (snd (snd (free_segs P q acked qlen))) = unat qlen - queue_clen (takeWhile P q)"
proof (induction P q acked qlen rule: free_segs.induct)
  case (2 P s q acked qlen)
  show ?case
  proof (cases "P s")
    case True
    then have le: "length (seg_p s) \<le> unat qlen" using 2(2) by simp
    then have n: "unat (of_nat (length (seg_p s)) :: u16) = length (seg_p s)"
      using unat_u16_less [of qlen] by (intro unat_of_nat_u16) linarith
    then have "unat (qlen - of_nat (length (seg_p s))) = unat qlen - length (seg_p s)"
      using le by (simp add: unat_sub_u16 word_le_nat_alt)
    then show ?thesis using 2 True by simp
  qed simp
qed simp

text \<open>Where the segments of a chain end, relative to its start.\<close>

lemma seq_leq_offset:
  "j < 2147483648 \<Longrightarrow> k < 2147483648 \<Longrightarrow> seq_leq (a + of_nat j) (a + of_nat k) \<longleftrightarrow> j \<le> k"
proof -
  assume jk: "j < 2147483648" "k < 2147483648"
  have pos: "sint (of_nat n :: u32) = int n" if "n < 2147483648" for n
    using that by (simp add: signed_of_nat signed_take_bit_int_eq_self)
  show ?thesis
  proof (cases "j \<le> k")
    case True
    have d: "a + of_nat j - (a + of_nat k) = - (of_nat (k - j) :: u32)"
      using True by (simp add: of_nat_diff)
    have "sint (- (of_nat (k - j) :: u32)) \<le> 0"
    proof (cases "k - j = 0")
      case False
      have "- (of_nat (k - j) :: u32) = word_of_int (- int (k - j))" by simp
      then have "sint (- (of_nat (k - j) :: u32)) = - int (k - j)"
        using jk by (simp only: signed_of_int) (simp add: signed_take_bit_int_eq_self)
      then show ?thesis by simp
    qed simp
    then show ?thesis using True d by (simp add: seq_leq_def)
  next
    case False
    have "a + of_nat j - (a + of_nat k) = (of_nat (j - k) :: u32)"
      using False by (simp add: of_nat_diff)
    then show ?thesis using False pos [of "j - k"] jk by (simp add: seq_leq_def)
  qed
qed

lemma seq_total_append [simp]: "seq_total (q @ r) = seq_total q + seq_total r"
  by (simp add: seq_total_def)

lemma chain_end: "seq_chain a (u @ s # v) b \<Longrightarrow> seg_end s = a + of_nat (seq_total (u @ [s]))"
  by (induction u arbitrary: a) (auto simp: seg_end_def algebra_simps)

lemma seq_geq_leq: "seq_geq a b \<Longrightarrow> seq_leq b a"
proof -
  assume "seq_geq a b"
  then have pos: "0 \<le> sint (a - b)" by (simp add: seq_geq_def)
  define n where "n = nat (sint (a - b))"
  have n: "n < 2147483648" using sint_less [of "a - b"] pos by (simp add: n_def)
  have "a = b + of_nat n" using pos by (simp add: n_def)
  then show ?thesis using seq_leq_offset [of 0 n b] n by simp
qed

text \<open>An acknowledged segment of the second queue means that the first one is acknowledged.\<close>

lemma chain_acked_prefix:
  assumes ch: "seq_chain a (q1 @ q2) b" and tot: "seq_total (q1 @ q2) < 2147483648" "k < 2147483648"
    and left: "dropWhile (\<lambda>s. seq_leq (seg_end s) (a + of_nat k)) q1 \<noteq> []"
    and R: "\<And>s. R s \<Longrightarrow> seq_leq (seg_end s) (a + of_nat k)"
  shows "takeWhile R q2 = []"
proof (cases q2)
  case (Cons s2 w)
  let ?P = "\<lambda>s. seq_leq (seg_end s) (a + of_nat k)"
  obtain s1 v1 where d: "dropWhile ?P q1 = s1 # v1" using left by (cases "dropWhile ?P q1") auto
  then have q1: "q1 = takeWhile ?P q1 @ s1 # v1" by (metis takeWhile_dropWhile_id)
  define u1 where "u1 = takeWhile ?P q1"
  have q: "q1 = u1 @ s1 # v1" using q1 by (simp add: u1_def)
  have np: "\<not> ?P s1" using hd_dropWhile [of ?P q1] d by simp
  have e1: "seg_end s1 = a + of_nat (seq_total (u1 @ [s1]))"
    by (rule chain_end [of a u1 s1 "v1 @ q2" b]) (use ch q in simp)
  have e2: "seg_end s2 = a + of_nat (seq_total ((u1 @ s1 # v1) @ [s2]))"
    by (rule chain_end [of a "u1 @ s1 # v1" s2 w b]) (use ch q Cons in simp)
  have "k < seq_total (u1 @ [s1])"
    using np e1 seq_leq_offset [of "seq_total (u1 @ [s1])" k a] tot q Cons by auto
  then have "\<not> R s2"
    using R [of s2] e2 seq_leq_offset [of "seq_total ((u1 @ s1 # v1) @ [s2])" k a] tot q Cons by auto
  then show ?thesis using Cons by simp
qed simp

text \<open>Nothing is acknowledged by the number at which the queue starts.\<close>

lemma chain_none_acked:
  assumes ch: "seq_chain a q b" and tot: "seq_total q < 2147483648" and pos: "\<forall>s\<in>set q. tcplen s > 0"
    and R: "\<And>s. R s \<Longrightarrow> seq_leq (seg_end s) a"
  shows "takeWhile R q = []"
proof (cases q)
  case (Cons s w)
  have "seg_end s = a + of_nat (seq_total ([] @ [s]))"
    by (rule chain_end [of a "[]" s w b]) (use ch Cons in simp)
  moreover have "0 < unat (tcplen s)" using pos Cons by (simp add: word_less_nat_alt)
  ultimately have "\<not> seq_leq (seg_end s) a"
    using seq_leq_offset [of "unat (tcplen s)" 0 a] tot Cons by simp
  then show ?thesis using Cons R [of s] by auto
qed simp

subsection \<open>What an acknowledgement does to the queues\<close>

lemma seg_ok_mono: "seg_ok m s \<Longrightarrow> m \<le> m' \<Longrightarrow> seg_ok m' s"
  by (auto simp: seg_ok_def)

lemma queue_clen_split: "queue_clen q = queue_clen (takeWhile P q) + queue_clen (dropWhile P q)"
  by (metis queue_clen_simps(3) takeWhile_dropWhile_id)

lemma released_ok:
  assumes ok: "pcb_good p"
    and ua: "unacked p' = dropWhile P1 (unacked p)" and us: "unsent p' = dropWhile P2 (unsent p)"
    and prefix: "unacked p' = [] \<or> takeWhile P2 (unsent p) = []"
    and ql: "unat (snd_queuelen p')
      = unat (snd_queuelen p) - queue_clen (takeWhile P1 (unacked p)) - queue_clen (takeWhile P2 (unsent p))"
    and ov: "unsent_oversize p' = (if unsent p \<noteq> [] \<and> unsent p' = [] then 0 else unsent_oversize p)"
    and mss: "mss_local p \<le> mss_local p'"
    and same: "pcb_state p' = pcb_state p" "snd_lbb p' = snd_lbb p"
  shows "pcb_good p'"
    and "tcp_stream p = queue_data (takeWhile P1 (unacked p) @ takeWhile P2 (unsent p)) @ tcp_stream p'"
proof -
  have p: "pcb_ok p" "seq_ok p" using ok by (auto simp: pcb_good_def)
  let ?g = "takeWhile P1 (unacked p) @ takeWhile P2 (unsent p)"
  have g: "unacked p @ unsent p = ?g @ unacked p' @ unsent p'"
  proof -
    have "unacked p = takeWhile P1 (unacked p) @ unacked p'" "unsent p = takeWhile P2 (unsent p) @ unsent p'"
      using ua us by simp_all
    moreover have "unacked p' @ takeWhile P2 (unsent p) = takeWhile P2 (unsent p) @ unacked p'"
      using prefix by auto
    ultimately show ?thesis by (metis append.assoc)
  qed
  have qle: "snd_queuelen p' \<le> snd_queuelen p" using ql by (simp add: word_le_nat_alt)
  have seg: "\<forall>s\<in>set (unacked p'). seg_ok (mss_local p') s" "\<forall>s\<in>set (unsent p'). seg_ok (mss_local p') s"
    using p(1) ua us by (auto simp: pcb_ok_def intro!: seg_ok_mono [OF _ mss] dest: set_dropWhileD)
  have tail: "tail_room (mss_local p') (unsent_oversize p') (unsent p')"
  proof (cases "unsent p' = []")
    case True
    then show ?thesis using ov p(1) by (auto simp: tail_room_def pcb_ok_def)
  next
    case False
    then have "last (unsent p') = last (unsent p)"
      using us by (metis last_appendR takeWhile_dropWhile_id)
    then show ?thesis
      using False ov p(1) mss by (auto simp: tail_room_def pcb_ok_def word_le_nat_alt)
  qed
  have cl: "unat (snd_queuelen p') = queue_clen (unacked p') + queue_clen (unsent p')"
    using p(1) ql queue_clen_split [of "unacked p" P1] queue_clen_split [of "unsent p" P2] ua us
    by (simp add: pcb_ok_def)
  have "pcb_ok p'" using seg tail cl qle p(1) by (auto simp: pcb_ok_def)
  moreover have "seq_ok p'" using p(2) g same by (auto simp: seq_ok_def seq_chain_append)
  ultimately show "pcb_good p'" by (simp add: pcb_good_def)
  have "tcp_stream p = queue_data (unacked p @ unsent p)" by (simp add: tcp_stream_def)
  then show "tcp_stream p = queue_data ?g @ tcp_stream p'" unfolding g by (simp add: tcp_stream_def)
qed

lemma update_snd_wnd_fields:
  "unacked (update_snd_wnd i p) = unacked p" "unsent (update_snd_wnd i p) = unsent p"
  "snd_queuelen (update_snd_wnd i p) = snd_queuelen p" "unsent_oversize (update_snd_wnd i p) = unsent_oversize p"
  "pcb_state (update_snd_wnd i p) = pcb_state p" "snd_lbb (update_snd_wnd i p) = snd_lbb p"
  "snd_nxt (update_snd_wnd i p) = snd_nxt p" "lastack (update_snd_wnd i p) = lastack p"
  "dupacks (update_snd_wnd i p) = dupacks p" "pcb_mss (update_snd_wnd i p) = pcb_mss p"
  "snd_wnd_max p \<le> snd_wnd_max (update_snd_wnd i p)"
  by (auto simp: update_snd_wnd_def Let_def)

lemma mss_local_mono:
  "pcb_mss p' = pcb_mss p \<Longrightarrow> snd_wnd_max p \<le> snd_wnd_max p' \<Longrightarrow> mss_local p \<le> mss_local p'"
  by (auto simp: mss_local_def word_le_nat_alt unat_min_u16 unat_half_u16)

lemma grow_cwnd_fields:
  "unacked (grow_cwnd p) = unacked p" "unsent (grow_cwnd p) = unsent p"
  "snd_queuelen (grow_cwnd p) = snd_queuelen p" "unsent_oversize (grow_cwnd p) = unsent_oversize p"
  "pcb_state (grow_cwnd p) = pcb_state p" "snd_lbb (grow_cwnd p) = snd_lbb p"
  "snd_nxt (grow_cwnd p) = snd_nxt p" "lastack (grow_cwnd p) = lastack p"
  "pcb_mss (grow_cwnd p) = pcb_mss p" "snd_wnd_max (grow_cwnd p) = snd_wnd_max p"
  "pcb_acked (grow_cwnd p) = pcb_acked p" "callback_arg (grow_cwnd p) = callback_arg p"
  "refused_data (grow_cwnd p) = refused_data p" "rcv_wnd (grow_cwnd p) = rcv_wnd p"
  by (auto simp: grow_cwnd_def Let_def)

text \<open>
  An acknowledgement inside the queued range: of new data, or of nothing (\<open>k = 0\<close>, without
  starting a fast retransmission).
\<close>

definition ack_range :: "tcp_in_seg \<Rightarrow> tcp_pcb \<Rightarrow> bool" where
  "ack_range i p \<longleftrightarrow>
     (\<exists>a b k. seq_chain a (unacked p @ unsent p) b \<and> (sendable (pcb_state p) \<longrightarrow> b = snd_lbb p)
        \<and> in_ackno i = a + of_nat k \<and> k \<le> seq_total (unacked p @ unsent p)
        \<and> (if seq_leq (in_ackno i) (lastack p) then k = 0 \<and> dupacks p \<noteq> 2
           else seq_between (in_ackno i) (lastack p + 1) (snd_nxt p)))"

text \<open>The fields of the pcb that an acknowledgement leaves alone.\<close>

definition ack_frame :: "tcp_pcb \<Rightarrow> tcp_pcb \<Rightarrow> bool" where
  "ack_frame p p' \<longleftrightarrow> pcb_state p' = pcb_state p \<and> snd_lbb p' = snd_lbb p
     \<and> callback_arg p' = callback_arg p \<and> refused_data p' = refused_data p \<and> rcv_wnd p' = rcv_wnd p"

lemma dup_ack_fields:
  assumes "dupacks p \<noteq> 2"
  shows "unacked (dup_ack i e p) = unacked p" "unsent (dup_ack i e p) = unsent p"
    "snd_queuelen (dup_ack i e p) = snd_queuelen p" "unsent_oversize (dup_ack i e p) = unsent_oversize p"
    "snd_nxt (dup_ack i e p) = snd_nxt p" "pcb_mss (dup_ack i e p) = pcb_mss p"
    "snd_wnd_max (dup_ack i e p) = snd_wnd_max p" "ack_frame p (dup_ack i e p)"
proof -
  have "dupacks p + 1 \<noteq> 3" using assms by (metis add_diff_cancel_right' one_plus_numeral add.commute numeral_plus_one semiring_norm(5) diff_eq_eq)
  then show "unacked (dup_ack i e p) = unacked p" "unsent (dup_ack i e p) = unsent p"
    "snd_queuelen (dup_ack i e p) = snd_queuelen p" "unsent_oversize (dup_ack i e p) = unsent_oversize p"
    "snd_nxt (dup_ack i e p) = snd_nxt p" "pcb_mss (dup_ack i e p) = pcb_mss p"
    "snd_wnd_max (dup_ack i e p) = snd_wnd_max p" "ack_frame p (dup_ack i e p)"
    by (auto simp: dup_ack_def Let_def ack_frame_def)
qed

lemma new_ack_fields:
  "unacked (new_ack i p) = dropWhile (\<lambda>s. seq_leq (seg_end s) (in_ackno i)) (unacked p)"
  "queue_clen (takeWhile (\<lambda>s. seq_leq (seg_end s) (in_ackno i)) (unacked p)) \<le> unat (snd_queuelen p) \<Longrightarrow>
     unat (snd_queuelen (new_ack i p))
       = unat (snd_queuelen p) - queue_clen (takeWhile (\<lambda>s. seq_leq (seg_end s) (in_ackno i)) (unacked p))"
  "unsent (new_ack i p) = unsent p" "unsent_oversize (new_ack i p) = unsent_oversize p"
  "snd_nxt (new_ack i p) = snd_nxt p" "pcb_mss (new_ack i p) = pcb_mss p"
  "snd_wnd_max (new_ack i p) = snd_wnd_max p" "ack_frame p (new_ack i p)"
proof -
  obtain q acked qlen where f: "free_segs (\<lambda>s. seq_leq (seg_end s) (in_ackno i)) (unacked p)
      (ucast (in_ackno i - lastack p)) (snd_queuelen p) = (q, acked, qlen)"
    by (cases "free_segs (\<lambda>s. seq_leq (seg_end s) (in_ackno i)) (unacked p)
      (ucast (in_ackno i - lastack p)) (snd_queuelen p)")
  note fq = free_segs_queue [of "\<lambda>s. seq_leq (seg_end s) (in_ackno i)" "unacked p"
      "ucast (in_ackno i - lastack p)" "snd_queuelen p"]
  note fl = free_segs_qlen [of "\<lambda>s. seq_leq (seg_end s) (in_ackno i)" "unacked p" "snd_queuelen p"
      "ucast (in_ackno i - lastack p)"]
  show "unacked (new_ack i p) = dropWhile (\<lambda>s. seq_leq (seg_end s) (in_ackno i)) (unacked p)"
    "unsent (new_ack i p) = unsent p" "unsent_oversize (new_ack i p) = unsent_oversize p"
    "snd_nxt (new_ack i p) = snd_nxt p" "pcb_mss (new_ack i p) = pcb_mss p"
    "snd_wnd_max (new_ack i p) = snd_wnd_max p" "ack_frame p (new_ack i p)"
    using fq f by (auto simp: new_ack_def Let_def grow_cwnd_fields clear_flag_def ack_frame_def)
  show "unat (snd_queuelen (new_ack i p))
      = unat (snd_queuelen p) - queue_clen (takeWhile (\<lambda>s. seq_leq (seg_end s) (in_ackno i)) (unacked p))"
    if "queue_clen (takeWhile (\<lambda>s. seq_leq (seg_end s) (in_ackno i)) (unacked p)) \<le> unat (snd_queuelen p)"
    using fl [OF that] f by (auto simp: new_ack_def Let_def grow_cwnd_fields clear_flag_def)
qed

lemma free_unsent_fields:
  "unsent (free_unsent i p) = dropWhile (\<lambda>s. seq_between (in_ackno i) (seg_end s) (snd_nxt p)) (unsent p)"
  "queue_clen (takeWhile (\<lambda>s. seq_between (in_ackno i) (seg_end s) (snd_nxt p)) (unsent p)) \<le> unat (snd_queuelen p) \<Longrightarrow>
     unat (snd_queuelen (free_unsent i p)) = unat (snd_queuelen p)
       - queue_clen (takeWhile (\<lambda>s. seq_between (in_ackno i) (seg_end s) (snd_nxt p)) (unsent p))"
  "unacked (free_unsent i p) = unacked p"
  "unsent_oversize (free_unsent i p)
     = (if unsent p \<noteq> [] \<and> unsent (free_unsent i p) = [] then 0 else unsent_oversize p)"
  "pcb_mss (free_unsent i p) = pcb_mss p" "snd_wnd_max (free_unsent i p) = snd_wnd_max p"
  "ack_frame p (free_unsent i p)"
proof -
  let ?P = "\<lambda>s. seq_between (in_ackno i) (seg_end s) (snd_nxt p)"
  obtain q acked qlen where f: "free_segs ?P (unsent p) (pcb_acked p) (snd_queuelen p) = (q, acked, qlen)"
    by (cases "free_segs ?P (unsent p) (pcb_acked p) (snd_queuelen p)")
  note fq = free_segs_queue [of ?P "unsent p" "pcb_acked p" "snd_queuelen p"]
  note fl = free_segs_qlen [of ?P "unsent p" "snd_queuelen p" "pcb_acked p"]
  show "unsent (free_unsent i p) = dropWhile ?P (unsent p)" "unacked (free_unsent i p) = unacked p"
    "unsent_oversize (free_unsent i p)
       = (if unsent p \<noteq> [] \<and> unsent (free_unsent i p) = [] then 0 else unsent_oversize p)"
    "pcb_mss (free_unsent i p) = pcb_mss p" "snd_wnd_max (free_unsent i p) = snd_wnd_max p"
    "ack_frame p (free_unsent i p)"
    using fq f by (auto simp: free_unsent_def ack_frame_def)
  show "unat (snd_queuelen (free_unsent i p)) = unat (snd_queuelen p) - queue_clen (takeWhile ?P (unsent p))"
    if "queue_clen (takeWhile ?P (unsent p)) \<le> unat (snd_queuelen p)"
    using fl [OF that] f by (simp add: free_unsent_def)
qed

lemma estimate_rtt_fields:
  "pcb_good (estimate_rtt i t p) = pcb_good p" "tcp_stream (estimate_rtt i t p) = tcp_stream p"
  "ack_frame q (estimate_rtt i t p) = ack_frame q p"
  by (auto simp: estimate_rtt_def Let_def pcb_good_def pcb_ok_def seq_ok_def mss_local_def tcp_stream_def ack_frame_def)

lemma seq_geq_offset:
  assumes "j \<le> k" "k < 2147483648"
  shows "seq_geq (a + of_nat k) (a + of_nat j)"
proof -
  have "a + of_nat k - (a + of_nat j) = (of_nat (k - j) :: u32)" using assms(1) by (simp add: of_nat_diff)
  then show ?thesis using sint_of_nat_u32 [of "k - j"] assms(2) by (simp add: seq_geq_def)
qed

text \<open>In a chain that is not too long, the two tests for an acknowledged segment agree.\<close>

lemma chain_acked_iff:
  assumes ch: "seq_chain a q b" and tot: "seq_total q < 2147483648" and k: "k < 2147483648" and s: "s \<in> set q"
  shows "seq_geq (a + of_nat k) (seg_end s) \<longleftrightarrow> seq_leq (seg_end s) (a + of_nat k)"
proof -
  obtain u v where q: "q = u @ s # v" using s by (meson split_list)
  let ?j = "seq_total (u @ [s])"
  have e: "seg_end s = a + of_nat ?j" by (rule chain_end [of a u s v b]) (use ch q in simp)
  have j: "?j < 2147483648" using tot q by simp
  show ?thesis
    using e seq_geq_leq [of "a + of_nat k" "seg_end s"] seq_geq_offset [of ?j k a] seq_leq_offset [OF j k, of a] k
    by auto
qed

text \<open>
  The main lemma: an acknowledgement takes whole segments from the front of the queued data
  and keeps the queues well-formed.
\<close>

lemma tcp_receive_ack_queues:
  assumes good: "pcb_good p" and range: "ack_range i p"
  obtains gone where "pcb_good (tcp_receive_ack i ticks p)" "ack_frame p (tcp_receive_ack i ticks p)"
    "tcp_stream p = gone @ tcp_stream (tcp_receive_ack i ticks p)"
    "unacked (tcp_receive_ack i ticks p) @ unsent (tcp_receive_ack i ticks p)
       = dropWhile (\<lambda>s. seq_leq (seg_end s) (in_ackno i)) (unacked p @ unsent p)"
proof -
  obtain a b k where r: "seq_chain a (unacked p @ unsent p) b" "in_ackno i = a + of_nat k"
    "k \<le> seq_total (unacked p @ unsent p)"
    "if seq_leq (in_ackno i) (lastack p) then k = 0 \<and> dupacks p \<noteq> 2
     else seq_between (in_ackno i) (lastack p + 1) (snd_nxt p)"
    using range unfolding ack_range_def by auto
  have ok: "pcb_ok p" using good by (simp add: pcb_good_def)
  have "seq_total (unacked p @ unsent p) \<le> 65536 * queue_clen (unacked p @ unsent p)"
    by (rule seq_total_le) (use ok in \<open>auto simp: pcb_ok_def seg_ok_def\<close>)
  also have "queue_clen (unacked p @ unsent p) \<le> 12"
    using ok by (simp add: pcb_ok_def TCP_SND_QUEUELEN_def word_le_nat_alt)
  finally have tot: "seq_total (unacked p @ unsent p) < 2147483648" by simp
  have pos: "\<forall>s\<in>set (unacked p @ unsent p). tcplen s > 0" using ok tcplen_pos by (auto simp: pcb_ok_def)
  define p1 where "p1 = update_snd_wnd i p"
  define edge where "edge = ucast (snd_wnd p) + snd_wl2 p"
  define dup where "dup = seq_leq (in_ackno i) (lastack p)"
  define p2 where "p2 = (if dup then dup_ack i edge p1 else new_ack i p1)"
  define p3 where "p3 = free_unsent i p2"
  define P1 where "P1 = (\<lambda>s. \<not> dup \<and> seq_leq (seg_end s) (in_ackno i))"
  define P2 where "P2 = (\<lambda>s. seq_between (in_ackno i) (seg_end s) (snd_nxt p))"
  have P2_leq: "seq_leq (seg_end s) (a + of_nat k)" if "P2 s" for s
    using that r(2) by (auto simp: P2_def seq_between_def dest: seq_geq_leq)
  have k: "k < 2147483648" using r(3) tot by linarith
  have "takeWhile P2 (unsent p) = []" if ne: "dropWhile P1 (unacked p) \<noteq> []"
  proof (cases dup)
    case True
    then have k0: "k = 0" using r(4) by (simp add: dup_def)
    obtain s q where u: "unacked p = s # q" using ne by (cases "unacked p") auto
    have "takeWhile (\<lambda>s. seq_leq (seg_end s) a) (unacked p @ unsent p) = []"
      by (rule chain_none_acked [OF r(1) tot pos])
    then have "dropWhile (\<lambda>s. seq_leq (seg_end s) (a + of_nat k)) (unacked p) \<noteq> []"
      using u k0 by (auto split: if_splits)
    then show ?thesis by (rule chain_acked_prefix [OF r(1) tot k _ P2_leq])
  next
    case False
    then have "P1 = (\<lambda>s. seq_leq (seg_end s) (a + of_nat k))" by (simp add: P1_def r(2))
    then show ?thesis using ne by (intro chain_acked_prefix [OF r(1) tot k _ P2_leq]) auto
  qed
  then have prefix: "dropWhile P1 (unacked p) = [] \<or> takeWhile P2 (unsent p) = []" by blast
  have c1: "queue_clen (takeWhile P1 (unacked p)) + queue_clen (takeWhile P2 (unsent p)) \<le> unat (snd_queuelen p)"
    using ok queue_clen_split [of "unacked p" P1] queue_clen_split [of "unsent p" P2] by (simp add: pcb_ok_def)
  note f0 = update_snd_wnd_fields [where i = i and p = p, folded p1_def]
  have f1: "unacked p2 = dropWhile P1 (unacked p)" "unsent p2 = unsent p" "unsent_oversize p2 = unsent_oversize p"
    "snd_nxt p2 = snd_nxt p" "pcb_mss p2 = pcb_mss p" "snd_wnd_max p \<le> snd_wnd_max p2" "ack_frame p p2"
    "unat (snd_queuelen p2) = unat (snd_queuelen p) - queue_clen (takeWhile P1 (unacked p))"
  proof -
    have fr: "ack_frame p p1" by (auto simp: p1_def ack_frame_def update_snd_wnd_def Let_def)
    have cp: "queue_clen (takeWhile P1 (unacked p1)) \<le> unat (snd_queuelen p1)" using c1 f0 by simp
    have "unacked p2 = dropWhile P1 (unacked p1) \<and> unsent p2 = unsent p1
      \<and> unsent_oversize p2 = unsent_oversize p1 \<and> snd_nxt p2 = snd_nxt p1 \<and> pcb_mss p2 = pcb_mss p1
      \<and> snd_wnd_max p2 = snd_wnd_max p1 \<and> ack_frame p1 p2
      \<and> unat (snd_queuelen p2) = unat (snd_queuelen p1) - queue_clen (takeWhile P1 (unacked p1))"
    proof (cases dup)
      case True
      then have "dupacks p1 \<noteq> 2" using r(4) f0 by (simp add: dup_def)
      note d = dup_ack_fields [OF this, of i edge]
      have "P1 = (\<lambda>s. False)" using True by (simp add: P1_def)
      then have P1: "dropWhile P1 q = q" "takeWhile P1 q = []" for q by (cases q; simp)+
      show ?thesis using True by (simp add: p2_def d P1)
    next
      case False
      then have P1: "P1 = (\<lambda>s. seq_leq (seg_end s) (in_ackno i))" by (simp add: P1_def)
      show ?thesis
        using False cp new_ack_fields(2) [of i p1] by (simp add: p2_def P1 new_ack_fields)
    qed
    then show "unacked p2 = dropWhile P1 (unacked p)" "unsent p2 = unsent p"
      "unsent_oversize p2 = unsent_oversize p"
      "snd_nxt p2 = snd_nxt p" "pcb_mss p2 = pcb_mss p" "snd_wnd_max p \<le> snd_wnd_max p2" "ack_frame p p2"
      "unat (snd_queuelen p2) = unat (snd_queuelen p) - queue_clen (takeWhile P1 (unacked p))"
      using f0 fr by (simp_all add: ack_frame_def)
  qed
  note f2 = free_unsent_fields [where i = i and p = p2, folded p3_def]
  have P2': "P2 = (\<lambda>s. seq_between (in_ackno i) (seg_end s) (snd_nxt p2))" by (simp add: P2_def f1(4))
  have q3: "unacked p3 = dropWhile P1 (unacked p)" "unsent p3 = dropWhile P2 (unsent p)"
    using f1 f2 by (simp_all add: P2')
  have ql: "unat (snd_queuelen p3)
      = unat (snd_queuelen p) - queue_clen (takeWhile P1 (unacked p)) - queue_clen (takeWhile P2 (unsent p))"
    using f2(2) f1(2,8) c1 by (simp add: P2')
  have ov: "unsent_oversize p3 = (if unsent p \<noteq> [] \<and> unsent p3 = [] then 0 else unsent_oversize p)"
    using f2(4) f1 by simp
  have mss: "mss_local p \<le> mss_local p3" by (rule mss_local_mono) (use f1 f2 in simp_all)
  have fr: "ack_frame p p3" using f1(7) f2(7) by (simp add: ack_frame_def)
  then have st: "pcb_state p3 = pcb_state p" "snd_lbb p3 = snd_lbb p" by (simp_all add: ack_frame_def)
  have pre: "unacked p3 = [] \<or> takeWhile P2 (unsent p) = []" using prefix q3 by simp
  note rel = released_ok [OF good q3 pre ql ov mss st]
  have eq: "tcp_receive_ack i ticks p = estimate_rtt i ticks p3"
    using f0 r(4)
    by (auto simp: tcp_receive_ack_def Let_def p3_def p2_def p1_def [symmetric] dup_def edge_def)
  let ?L = "\<lambda>s. seq_leq (seg_end s) (in_ackno i)"
  have queue: "unacked p3 @ unsent p3 = dropWhile ?L (unacked p @ unsent p)"
  proof (cases dup)
    case True
    then have k0: "k = 0" using r(4) by (simp add: dup_def)
    have none: "takeWhile ?L (unacked p @ unsent p) = []"
      by (rule chain_none_acked [OF r(1) tot pos]) (use r(2) k0 in simp)
    then have L: "dropWhile ?L (unacked p @ unsent p) = unacked p @ unsent p"
      by (metis append_Nil takeWhile_dropWhile_id)
    have "P1 = (\<lambda>s. False)" using True by (simp add: P1_def)
    then have ua: "unacked p3 = unacked p" using q3(1) by (cases "unacked p") auto
    have "unsent p3 = unsent p"
    proof (cases "unacked p")
      case Nil
      then show ?thesis using none P2_leq r(2) q3(2) by (cases "unsent p") (auto split: if_splits)
    next
      case Cons
      then have "takeWhile P2 (unsent p) = []" using pre ua by simp
      then show ?thesis using q3(2) by (metis append_Nil takeWhile_dropWhile_id)
    qed
    then show ?thesis using ua L by simp
  next
    case False
    then have P1: "P1 = ?L" by (simp add: P1_def)
    show ?thesis
    proof (cases "dropWhile ?L (unacked p) = []")
      case True
      then have all: "\<And>s. s \<in> set (unacked p) \<Longrightarrow> ?L s" by (simp add: dropWhile_eq_Nil_conv)
      have "seq_leq (in_ackno i) (snd_nxt p)" using r(4) False by (simp add: dup_def seq_between_def)
      then have "P2 s = ?L s" if "s \<in> set (unsent p)" for s
        using chain_acked_iff [OF r(1) tot k, of s] that r(2) by (simp add: P2_def seq_between_def)
      then have "dropWhile P2 (unsent p) = dropWhile ?L (unsent p)" by (rule dropWhile_cong [OF refl])
      then show ?thesis using q3 P1 True dropWhile_append2 [OF all] by simp
    next
      case ne: False
      then have "takeWhile P2 (unsent p) = []" using pre unfolding q3(1) P1 by blast
      then have "unsent p3 = unsent p" using q3(2) by (metis append_Nil takeWhile_dropWhile_id)
      moreover have "dropWhile ?L (unacked p @ unsent p) = dropWhile ?L (unacked p) @ unsent p"
        using ne by (auto simp: dropWhile_append dropWhile_eq_Nil_conv)
      ultimately show ?thesis using q3(1) P1 by simp
    qed
  qed
  have es: "unacked (estimate_rtt i ticks p3) = unacked p3" "unsent (estimate_rtt i ticks p3) = unsent p3"
    by (simp_all add: estimate_rtt_def Let_def)
  show ?thesis
    by (rule that [of "queue_data (takeWhile P1 (unacked p) @ takeWhile P2 (unsent p))"])
       (use rel fr queue in \<open>simp_all add: eq estimate_rtt_fields es\<close>)
qed

lemma tcp_receive_ack_takes:
  assumes "pcb_good p" "ack_range i p"
  obtains gone where "pcb_good (tcp_receive_ack i ticks p)" "ack_frame p (tcp_receive_ack i ticks p)"
    "tcp_stream p = gone @ tcp_stream (tcp_receive_ack i ticks p)"
  by (rule tcp_receive_ack_queues [OF assms])

end
