(* ===== verification/Http_Run.thy ===== *)
theory Http_Run
  imports Http_Sending Tcp_In
begin

text \<open>
  The life of a connection between two requests: TCP calls the server back when bytes were
  acknowledged, when data arrives, and from its timers. \<open>tcp_input_events\<close> is the part of \<open>tcp_input\<close>
  (\<^verbatim>\<open>lwip/src/core/tcp_in.c\<close>) that calls the application. The step relation \<open>conn_step\<close>
  interleaves these events in any order; the theorem about its runs says that the client gets
  exactly the page.
\<close>

subsection \<open>Calling the application\<close>

definition tcp_recv_null :: "pbuf list \<Rightarrow> err_t \<Rightarrow> 'w conn \<Rightarrow> err_t \<times> 'w conn" where
  "tcp_recv_null p err c =
     (if p \<noteq> [] then
        (ERR_OK, pbuf_free p (map_net (\<lambda>n. tcp_recved n (of_nat (chain_tot_len p))) c))
      else if err = ERR_OK then
        (case tcp_close (c_net c) of (e, n) \<Rightarrow> (e, c\<lparr>c_net := n\<rparr>))
      else (ERR_OK, c))"

text \<open>\<open>TCP_EVENT_SENT\<close>, \<open>TCP_EVENT_RECV\<close> and \<open>TCP_EVENT_CLOSED\<close>.\<close>

definition event_sent :: "'w httpd_cfg \<Rightarrow> 'w conn \<Rightarrow> err_t \<times> 'w conn" where
  "event_sent cfg c =
     (let p = pcb (c_net c) in
      if pcb_acked p > 0 \<and> sent_cb p then http_sent cfg (callback_arg p) (pcb_acked p) c else (ERR_OK, c))"

definition event_recv ::
  "'w httpd_cfg \<Rightarrow> bytes \<Rightarrow> pbuf list \<Rightarrow> 'w conn \<Rightarrow> (err_t \<times> 'w conn) checked" where
  "event_recv cfg req_buf data c =
     (let p = pcb (c_net c) in
      if recv_cb p then http_recv cfg req_buf (callback_arg p) data ERR_OK c
      else Inr (tcp_recv_null data ERR_OK c))"

definition event_closed :: "'w httpd_cfg \<Rightarrow> bytes \<Rightarrow> 'w conn \<Rightarrow> (err_t \<times> 'w conn) checked" where
  "event_closed cfg req_buf c =
     (let p = pcb (c_net c) in
      if recv_cb p then http_recv cfg req_buf (callback_arg p) [] ERR_OK c else Inr (ERR_OK, c))"

text \<open>\<open>tcp_abort\<close> calls the error callback when it is set.\<close>

definition abort_conn :: "'w conn \<Rightarrow> 'w conn" where
  "abort_conn c =
     (case tcp_abort (c_net c) of
        (n, errf) \<Rightarrow>
          let c = c\<lparr>c_net := n\<rparr> in case errf of Some arg \<Rightarrow> http_err arg c | None \<Rightarrow> c)"

definition input_done :: "'w conn \<Rightarrow> 'w conn" where
  "input_done c = map_net (\<lambda>n. n\<lparr>in_input := False\<rparr>) c"

text \<open>
  The three events in their order; an \<open>ERR_ABRT\<close> from a callback skips the rest. A FIN behind
  refused data is noted there.
\<close>

definition input_closed :: "'w httpd_cfg \<Rightarrow> bytes \<Rightarrow> bool \<Rightarrow> 'w conn \<Rightarrow> (err_t \<times> 'w conn) checked" where
  "input_closed cfg req_buf got_fin c =
     (if got_fin then
        (case refused_data (pcb (c_net c)) of
           Some (data, _) \<Rightarrow> Inr (ERR_OK, map_net (map_pcb (\<lambda>p. p\<lparr>refused_data := Some (data, True)\<rparr>)) c)
         | None \<Rightarrow>
             event_closed cfg req_buf
               (map_net (map_pcb (\<lambda>p. if rcv_wnd p \<noteq> TCP_WND then p\<lparr>rcv_wnd := rcv_wnd p + 1\<rparr> else p)) c))
      else Inr (ERR_OK, c))"

definition input_data :: "'w httpd_cfg \<Rightarrow> bytes \<Rightarrow> pbuf list \<Rightarrow> 'w conn \<Rightarrow> (err_t \<times> 'w conn) checked" where
  "input_data cfg req_buf data c =
     (if data = [] then Inr (ERR_OK, c)
      else if pcb_flags (pcb (c_net c)) AND TF_RXCLOSED \<noteq> 0 then Inr (ERR_ABRT, abort_conn (pbuf_free data c))
      else (case event_recv cfg req_buf data c of
              Inl e \<Rightarrow> Inl e
            | Inr (err, c) \<Rightarrow>
                Inr (err, if err \<noteq> ERR_ABRT \<and> err \<noteq> ERR_OK
                          then map_net (map_pcb (\<lambda>p. p\<lparr>refused_data := Some (map pb_data data, False)\<rparr>)) c else c)))"

definition tcp_input_events ::
  "'w httpd_cfg \<Rightarrow> bytes \<Rightarrow> pbuf list \<Rightarrow> bool \<Rightarrow> 'w conn \<Rightarrow> 'w conn checked" where
  "tcp_input_events cfg req_buf data got_fin c =
     (case event_sent cfg c of
        (err, c) \<Rightarrow>
          if err = ERR_ABRT then Inr (input_done c)
          else (case input_data cfg req_buf data c of
                  Inl e \<Rightarrow> Inl e
                | Inr (err, c) \<Rightarrow>
                    if err = ERR_ABRT then Inr (input_done c)
                    else (case input_closed cfg req_buf got_fin c of
                            Inl e \<Rightarrow> Inl e
                          | Inr (err, c) \<Rightarrow>
                              if err = ERR_ABRT then Inr (input_done c)
                              else Inr (map_net (\<lambda>n. snd (tcp_output n)) (input_done c)))))"

subsection \<open>Steps of a connection that sends a page\<close>

text \<open>
  \<open>conn_step\<close> on the acknowledged bytes and the connection. \<open>Ack\<close>: an acknowledgement arrives,
  the bytes it takes from the queues are acknowledged. \<open>Data\<close>: the client sends more data while
  the receiving side is open.
  \<open>Poll\<close>: the poll timer, before its last try. \<open>Rexmit\<close> and \<open>Output\<close>: the slow and the fast timer
  of TCP send.
\<close>

definition enter_input :: "(tcp_pcb \<Rightarrow> tcp_pcb) \<Rightarrow> 'w conn \<Rightarrow> 'w conn" where
  "enter_input f c = map_net (\<lambda>n. map_pcb f (n\<lparr>in_input := True\<rparr>)) c"

definition receive_data :: "u16 \<Rightarrow> tcp_pcb \<Rightarrow> tcp_pcb" where
  "receive_data len p =
     snd (tcp_update_rcv_ann_wnd (p\<lparr>rcv_nxt := rcv_nxt p + ucast len, rcv_wnd := rcv_wnd p - len, pcb_acked := 0\<rparr>))"

inductive conn_step :: "'w httpd_cfg \<Rightarrow> bytes \<times> 'w conn \<Rightarrow> bytes \<times> 'w conn \<Rightarrow> bool"
  for cfg :: "'w httpd_cfg" where
  Ack: "c_hs c \<noteq> None \<Longrightarrow> ack_range i (pcb (c_net c)) \<Longrightarrow>
     tcp_stream (pcb (c_net c)) = gone @ tcp_stream (tcp_receive_ack i ticks (pcb (c_net c))) \<Longrightarrow>
     tcp_input_events cfg buf [] False (enter_input (tcp_receive_ack i ticks) c) = Inr c' \<Longrightarrow>
     conn_step cfg (A, c) (A @ gone, c')"
| Data: "c_hs c \<noteq> None \<Longrightarrow> data \<noteq> [] \<Longrightarrow> pcb_flags (pcb (c_net c)) AND TF_RXCLOSED = 0 \<Longrightarrow>
     tcp_input_events cfg buf data False (enter_input (receive_data (of_nat (chain_tot_len data))) c) = Inr c' \<Longrightarrow>
     conn_step cfg (A, c) (A, c')"
| Poll: "c_hs c = Some hs \<Longrightarrow> retries hs + 1 \<noteq> HTTPD_MAX_RETRIES \<Longrightarrow>
     conn_step cfg (A, c) (A, snd (http_poll cfg (callback_arg (pcb (c_net c))) c))"
| Rexmit: "c_hs c \<noteq> None \<Longrightarrow> conn_step cfg (A, c) (A, map_net tcp_rexmit_rto c)"
| Output: "c_hs c \<noteq> None \<Longrightarrow> conn_step cfg (A, c) (A, map_net (\<lambda>n. snd (tcp_output n)) c)"

inductive_cases conn_stepE: "conn_step cfg (A, c) (A', c')"

text \<open>
  How a connection ends before its page is sent: \<open>Give_up\<close>, the poll that finds no progress for the
  fourth time, and \<open>Fin\<close>, a FIN of the client without data, which TCP counts, notes in the state and
  reports with a null pbuf.
\<close>

definition receive_fin :: "tcp_pcb \<Rightarrow> tcp_pcb" where
  "receive_fin p = set_flag TF_ACK_NOW ((receive_data 1 p)\<lparr>pcb_state := CLOSE_WAIT\<rparr>)"

inductive conn_end :: "'w httpd_cfg \<Rightarrow> bytes \<times> 'w conn \<Rightarrow> bytes \<times> 'w conn \<Rightarrow> bool"
  for cfg :: "'w httpd_cfg" where
  Give_up: "c_hs c = Some hs \<Longrightarrow> retries hs + 1 = HTTPD_MAX_RETRIES \<Longrightarrow>
     conn_end cfg (A, c) (A, snd (http_poll cfg (callback_arg (pcb (c_net c))) c))"
| Fin: "c_hs c \<noteq> None \<Longrightarrow> pcb_state (pcb (c_net c)) = ESTABLISHED \<Longrightarrow> recv_cb (pcb (c_net c)) \<Longrightarrow>
     tcp_input_events cfg buf [] True (enter_input receive_fin c) = Inr c' \<Longrightarrow>
     conn_end cfg (A, c) (A, c')"

inductive_cases conn_endE: "conn_end cfg (A, c) (A', c')"

text \<open>What a connection that sends also keeps: TCP can close it in the ordinary way.\<close>

definition calm :: "'w conn \<Rightarrow> bool" where
  "calm c \<longleftrightarrow> (let p = pcb (c_net c) in
     (pcb_state p = ESTABLISHED \<or> pcb_state p = CLOSE_WAIT) \<and> refused_data p = None \<and> rcv_wnd p = TCP_WND
     \<and> callback_arg p)"

definition busy :: "bytes \<Rightarrow> page_spec \<Rightarrow> 'w conn \<Rightarrow> bool" where
  "busy A g c \<longleftrightarrow> sending A g c \<and> calm c"

text \<open>The page was handed over and the connection closed: its state is freed, TCP has every byte.\<close>

definition served :: "bytes \<Rightarrow> page_spec \<Rightarrow> 'w conn \<Rightarrow> bool" where
  "served A g c \<longleftrightarrow> c_hs c = None \<and> delivered A g c \<and> pcb_good (pcb (c_net c))"

lemma sending_net:
  assumes "sending A g c" "given A' c' = given A c" "pcb_good (pcb (c_net c'))"
    "c_hs c' = c_hs c" "c_log c' = c_log c"
  shows "sending A' g c'"
proof -
  obtain hs where hs: "c_hs c = Some hs" using assms(1) by (auto simp: sending_def)
  show ?thesis
  proof (cases "ssi hs")
    case None
    then show ?thesis using assms hs by (auto simp: sending_def)
  next
    case (Some s)
    have "A' @ tcp_stream (pcb (c_net c')) = A @ tcp_stream (pcb (c_net c))" using assms(2) by (simp add: given_def)
    then show ?thesis
      using assms hs Some by (auto simp: sending_def ssi_inv_def start_run_def Let_def tags_in_def)
  qed
qed

lemma sending_retries:
  "sending A g (c\<lparr>c_hs := Some (hs\<lparr>retries := k\<rparr>)\<rparr>) = sending A g (c\<lparr>c_hs := Some hs\<rparr>)"
  by (cases "ssi hs") (simp_all add: sending_def hs_ok_def given_def start_run_def)

subsection \<open>Each step keeps the page\<close>

lemma calm_fields: "calm c \<longleftrightarrow> (case close_fields (c_net c) of (arg, st, refused, wnd, freed) \<Rightarrow>
    (st = ESTABLISHED \<or> st = CLOSE_WAIT) \<and> refused = None \<and> wnd = TCP_WND \<and> arg)"
  by (simp add: calm_def close_fields_def Let_def)

lemma calm_cong: "close_fields (c_net c') = close_fields (c_net c) \<Longrightarrow> calm c' = calm c"
  by (simp add: calm_fields)

lemma clear_callbacks_pcb [simp]:
  "tcp_stream (pcb (clear_callbacks n)) = tcp_stream (pcb n)" "pcb_ok (pcb (clear_callbacks n)) = pcb_ok (pcb n)"
  "seq_ok (pcb (clear_callbacks n)) = seq_ok (pcb n)" "pcb_state (pcb (clear_callbacks n)) = pcb_state (pcb n)"
  "refused_data (pcb (clear_callbacks n)) = refused_data (pcb n)" "rcv_wnd (pcb (clear_callbacks n)) = rcv_wnd (pcb n)"
  by (simp_all add: clear_callbacks_def) 
     (simp_all add: tcp_arg_def tcp_recv_def tcp_sent_def tcp_err_def tcp_poll_def seq_ok_def)

text \<open>Closing a calm connection keeps what was queued.\<close>

lemma http_eof_keeps:
  assumes "calm c" "pcb_good (pcb (c_net c))"
  shows "given A (http_eof c) = given A c" "pcb_good (pcb (c_net (http_eof c)))"
proof -
  define c1 where "c1 = http_state_free (map_net clear_callbacks c)"
  obtain e n where t: "tcp_close (c_net c1) = (e, n)" by fastforce
  have n1: "c_net c1 = clear_callbacks (c_net c)" by (simp add: c1_def)
  have st: "pcb_state (pcb (c_net c1)) = ESTABLISHED \<or> pcb_state (pcb (c_net c1)) = CLOSE_WAIT"
    "refused_data (pcb (c_net c1)) = None" "rcv_wnd (pcb (c_net c1)) = TCP_WND"
    "pcb_ok (pcb (c_net c1))" "seq_ok (pcb (c_net c1))"
    using assms unfolding n1 by (auto simp: calm_def Let_def pcb_good_def)
  note cl = tcp_close_stream [OF t st(4,5,1,2,3)]
  have eof: "c_net (http_eof c) = (if e \<noteq> ERR_OK then map_pcb (\<lambda>p. tcp_poll p True HTTPD_POLL_INTERVAL) n else n)"
    using t unfolding n1 by (simp add: http_eof_def http_close_conn_def http_close_or_abort_conn_def Let_def)
  have "tcp_stream (pcb (c_net (http_eof c))) = tcp_stream (pcb n)" by (simp add: eof)
  then show "given A (http_eof c) = given A c" using cl(1) by (simp add: given_def n1)
  show "pcb_good (pcb (c_net (http_eof c)))"
    using cl(2) by (simp add: eof pcb_good_def) (simp add: tcp_poll_def seq_ok_def)
qed

text \<open>\<open>http_send\<close> on a busy connection: it stays busy, or the page is served.\<close>

lemma http_send_busy:
  assumes "busy A g c" "handler_ok (ssi_config cfg)" "pg_ok g" "http_send cfg c = (d, c')"
  shows "busy A g c' \<or> (served A g c' \<and> \<not> d)"
proof -
  consider (on) "sending A g c'" "close_fields (c_net c') = close_fields (c_net c)"
    | (off) c1 where "\<not> d" "c' = http_eof c1" "delivered A g c1" "sending A g c1"
        "close_fields (c_net c1) = close_fields (c_net c)"
    using http_send_result [OF _ assms(2-4)] assms(1) unfolding busy_def by blast
  then show ?thesis
  proof cases
    case on
    then show ?thesis using assms(1) calm_cong by (auto simp: busy_def)
  next
    case off
    have "calm c1" using off(5) assms(1) calm_cong by (auto simp: busy_def)
    moreover have "pcb_good (pcb (c_net c1))" using off(4) by (auto simp: sending_def)
    ultimately show ?thesis
      using http_eof_keeps(1) [of c1 A] http_eof_keeps(2) [of c1] off by (simp add: served_def delivered_def)
  qed
qed

text \<open>Sending by TCP does not change what was given to it.\<close>

lemma tcp_output_keeps:
  assumes "pcb_good (pcb n)"
  shows "pcb_good (pcb (snd (tcp_output n)))" "tcp_stream (pcb (snd (tcp_output n))) = tcp_stream (pcb n)"
    "close_fields (snd (tcp_output n)) = close_fields n"
proof -
  obtain e n' where o: "tcp_output n = (e, n')" by fastforce
  have ok: "pcb_ok (pcb n)" "seq_ok (pcb n)" using assms by (auto simp: pcb_good_def)
  show "pcb_good (pcb (snd (tcp_output n)))" "tcp_stream (pcb (snd (tcp_output n))) = tcp_stream (pcb n)"
    "close_fields (snd (tcp_output n)) = close_fields n"
    using tcp_output_ok [OF o ok(1)] tcp_output_seq_ok [OF o ok] o
    by (auto simp: pcb_good_def close_fields_def same_limits_def)
qed

lemma busy_net:
  assumes "busy A g c" "pcb_good (pcb n)" "A' @ tcp_stream (pcb n) = given A c"
    "close_fields n = close_fields (c_net c)"
  shows "busy A' g (c\<lparr>c_net := n\<rparr>)"
  using assms sending_net [of A g c A' "c\<lparr>c_net := n\<rparr>"] calm_cong [of "c\<lparr>c_net := n\<rparr>" c]
  by (simp add: busy_def given_def)

lemma busy_output:
  assumes "busy A g c"
  shows "busy A g (map_net (\<lambda>n. snd (tcp_output n)) c)"
proof -
  have "pcb_good (pcb (c_net c))" using assms by (auto simp: busy_def sending_def)
  note o = tcp_output_keeps [OF this]
  show ?thesis
    using busy_net [OF assms o(1) _ o(3), of A] o(2) by (simp add: map_net_def given_def)
qed

lemma served_output:
  assumes "served A g c"
  shows "served A g (map_net (\<lambda>n. snd (tcp_output n)) c)"
  using assms tcp_output_keeps [of "c_net c"] by (simp add: served_def delivered_def given_def)

lemma input_done_keeps [simp]: "busy A g (input_done c) = busy A g c" "served A g (input_done c) = served A g c"
proof -
  have good: "pcb_good (pcb (c_net c))" if "sending A g c \<or> sending A g (input_done c)"
    using that by (auto simp: sending_def input_done_def)
  have "sending A g (input_done c) = sending A g c"
  proof
    show "sending A g c" if "sending A g (input_done c)"
      by (rule sending_net [OF that]) (use good that in \<open>simp_all add: input_done_def given_def\<close>)
    show "sending A g (input_done c)" if "sending A g c"
      by (rule sending_net [OF that]) (use good that in \<open>simp_all add: input_done_def given_def\<close>)
  qed
  then show "busy A g (input_done c) = busy A g c" "served A g (input_done c) = served A g c"
    by (simp_all add: busy_def served_def delivered_def given_def input_done_def calm_def)
qed

lemma busy_state:
  assumes "busy A g c"
  obtains hs where "c_hs c = Some hs" "handle hs" "callback_arg (pcb (c_net c))"
    "pcb_good (pcb (c_net c))" "rcv_wnd (pcb (c_net c)) = TCP_WND"
  using assms by (auto simp: busy_def sending_def calm_def Let_def)

lemma busy_retries: "busy A g (c\<lparr>c_hs := Some (hs\<lparr>retries := k\<rparr>)\<rparr>) = busy A g (c\<lparr>c_hs := Some hs\<rparr>)"
  by (simp add: busy_def sending_retries calm_def)

lemma busy_req: "busy A g (c\<lparr>c_freed := fr, c_hs := Some (hs\<lparr>req := q\<rparr>)\<rparr>) = busy A g (c\<lparr>c_hs := Some hs\<rparr>)"
  by (cases "ssi hs") (simp_all add: busy_def calm_def sending_def hs_ok_def given_def start_run_def)

lemma event_sent_busy:
  assumes "busy A g c" "handler_ok (ssi_config cfg)" "pg_ok g" "event_sent cfg c = (err, c')"
  shows "err = ERR_OK \<and> (busy A g c' \<or> served A g c')"
proof -
  obtain hs where hs: "c_hs c = Some hs" "callback_arg (pcb (c_net c))" using busy_state [OF assms(1)] by metis
  let ?c = "c\<lparr>c_hs := Some (hs\<lparr>retries := 0\<rparr>)\<rparr>"
  have "c\<lparr>c_hs := Some hs\<rparr> = c" using hs(1) by (cases c) simp
  then have "busy A g ?c" using assms(1) by (simp add: busy_retries)
  then have "busy A g (snd (http_send cfg ?c)) \<or> served A g (snd (http_send cfg ?c))"
    using http_send_busy [of A g ?c cfg] assms(2,3) by (cases "http_send cfg ?c") auto
  then show ?thesis
    using assms(1,4) hs by (auto simp: event_sent_def Let_def http_sent_def split: if_splits)
qed

text \<open>Data that arrives while a page is sent is acknowledged and ignored.\<close>

lemma receive_data_fields:
  "pcb_good (receive_data len p) = pcb_good p" "tcp_stream (receive_data len p) = tcp_stream p"
  "pcb_state (receive_data len p) = pcb_state p" "refused_data (receive_data len p) = refused_data p"
  "callback_arg (receive_data len p) = callback_arg p" "rcv_wnd (receive_data len p) = rcv_wnd p - len"
  "pcb_acked (receive_data len p) = 0" "pcb_flags (receive_data len p) = pcb_flags p"
  by (auto simp: receive_data_def tcp_update_rcv_ann_wnd_def Let_def pcb_good_def pcb_ok_def seq_ok_def
      mss_local_def tcp_stream_def)

lemma pcb_good_rcv:
  "pcb_good (p\<lparr>rcv_wnd := w\<rparr>) = pcb_good p" "pcb_good (p\<lparr>rcv_ann_wnd := w\<rparr>) = pcb_good p"
  by (simp_all add: pcb_good_def seq_ok_def)

lemma set_flag_good:
  "pcb_good (set_flag f p) = pcb_good p" "tcp_stream (set_flag f p) = tcp_stream p"
  "pcb_state (set_flag f p) = pcb_state p" "refused_data (set_flag f p) = refused_data p"
  "callback_arg (set_flag f p) = callback_arg p" "rcv_wnd (set_flag f p) = rcv_wnd p"
  by (simp_all add: pcb_good_def) (simp_all add: set_flag_def)

lemma recved_again:
  assumes "rcv_wnd (pcb n) = TCP_WND" "pcb_good (pcb n)"
    and n': "n' = tcp_recved (map_pcb (receive_data len) (n\<lparr>in_input := True\<rparr>)) len"
  shows "pcb_good (pcb n')" "tcp_stream (pcb n') = tcp_stream (pcb n)" "close_fields n' = close_fields n"
    "net_heap n' = net_heap n"
proof -
  let ?m = "map_pcb (\<lambda>p. p\<lparr>rcv_wnd := TCP_WND\<rparr>) (map_pcb (receive_data len) (n\<lparr>in_input := True\<rparr>))"
  obtain infl p where u: "tcp_update_rcv_ann_wnd (pcb ?m) = (infl, p)" by fastforce
  obtain w where w: "p = pcb ?m\<lparr>rcv_ann_wnd := w\<rparr>"
    using u that by (auto simp: tcp_update_rcv_ann_wnd_def Let_def split: if_splits)
  have p: "pcb_good p = pcb_good (pcb n)" "tcp_stream p = tcp_stream (pcb n)"
    "pcb_state p = pcb_state (pcb n)" "refused_data p = refused_data (pcb n)"
    "callback_arg p = callback_arg (pcb n)" "rcv_wnd p = TCP_WND"
    by (simp_all add: w receive_data_fields pcb_good_rcv)
  have "n' = ?m\<lparr>pcb := p\<rparr> \<or> n' = map_pcb (set_flag TF_ACK_NOW) (?m\<lparr>pcb := p\<rparr>)"
    using u assms(1) receive_data_fields(6) [of len "pcb n"]
    by (auto simp: n' tcp_recved_def Let_def map_pcb_def tcp_output_def)
  then show "pcb_good (pcb n')" "tcp_stream (pcb n') = tcp_stream (pcb n)" "close_fields n' = close_fields n"
    "net_heap n' = net_heap n"
    using p assms by (auto simp: close_fields_def set_flag_good)
qed

lemma event_recv_busy:
  assumes busy: "busy A g c" and data: "data \<noteq> []"
    and ev: "event_recv cfg buf data (enter_input (receive_data (of_nat (chain_tot_len data))) c) = Inr (err, c')"
  shows "err = ERR_OK \<and> busy A g c'"
proof -
  obtain hs where hs: "c_hs c = Some hs" "handle hs" "callback_arg (pcb (c_net c))"
    "pcb_good (pcb (c_net c))" "rcv_wnd (pcb (c_net c)) = TCP_WND" by (rule busy_state [OF busy])
  let ?len = "of_nat (chain_tot_len data) :: u16"
  define n where "n = tcp_recved (map_pcb (receive_data ?len) ((c_net c)\<lparr>in_input := True\<rparr>)) ?len"
  note rc = recved_again [OF hs(5,4) n_def]
  have b: "busy A g (c\<lparr>c_net := n\<rparr>)"
    using busy_net [OF busy rc(1) _ rc(3)] rc(2) by (simp add: given_def)
  have same: "(c\<lparr>c_net := n\<rparr>)\<lparr>c_hs := Some hs\<rparr> = c\<lparr>c_net := n\<rparr>" using hs(1) by (cases c) simp
  show ?thesis
  proof (cases "recv_cb (receive_data ?len (pcb (c_net c)))")
    case True
    have "err = ERR_OK \<and> (\<exists>fr. c' = c\<lparr>c_net := n, c_freed := fr, c_hs := Some (hs\<lparr>req := []\<rparr>)\<rparr>
        \<or> c' = c\<lparr>c_net := n, c_hs := Some hs\<rparr>)"
      using ev True data hs(1-3) receive_data_fields(5) [of ?len "pcb (c_net c)"]
      by (auto simp: event_recv_def Let_def enter_input_def map_net_def http_recv_def n_def pbuf_free_def split: if_splits)
    then show ?thesis
      using b same busy_req [where A = A and g = g and c = "c\<lparr>c_net := n\<rparr>" and hs = hs and q = "[]"] by auto
  next
    case False
    then have "err = ERR_OK \<and> c' = pbuf_free data (c\<lparr>c_net := n\<rparr>)"
      using ev data by (auto simp: event_recv_def Let_def enter_input_def map_net_def tcp_recv_null_def n_def pbuf_free_def)
    moreover have "busy A g (pbuf_free data (c\<lparr>c_net := n\<rparr>))"
      using b busy_req [where A = A and g = g and c = "c\<lparr>c_net := n\<rparr>" and fr = "c_freed c @ data" and hs = hs and q = "req hs"] same
      by (simp add: pbuf_free_def) (cases c; simp add: hs(1))
    ultimately show ?thesis by simp
  qed
qed

lemma finish_input:
  assumes "busy A g c \<or> served A g c"
  shows "busy A g (map_net (\<lambda>n. snd (tcp_output n)) (input_done c))
    \<or> served A g (map_net (\<lambda>n. snd (tcp_output n)) (input_done c))"
  using assms busy_output [of A g "input_done c"] served_output [of A g "input_done c"] by auto

lemma step_ack:
  assumes busy: "busy A g c" and cfg: "handler_ok (ssi_config cfg)" "pg_ok g"
    and range: "ack_range i (pcb (c_net c))"
    and gone: "tcp_stream (pcb (c_net c)) = gone @ tcp_stream (tcp_receive_ack i ticks (pcb (c_net c)))"
    and ev: "tcp_input_events cfg buf [] False (enter_input (tcp_receive_ack i ticks) c) = Inr c'"
  shows "busy (A @ gone) g c' \<or> served (A @ gone) g c'"
proof -
  have good: "pcb_good (pcb (c_net c))" using busy_state [OF busy] by metis
  let ?n = "map_pcb (tcp_receive_ack i ticks) ((c_net c)\<lparr>in_input := True\<rparr>)"
  from tcp_receive_ack_takes [OF good range]
  have ack: "pcb_good (pcb ?n)" "ack_frame (pcb (c_net c)) (pcb ?n)" by auto
  have "close_fields ?n = close_fields (c_net c)" using ack(2) by (simp add: close_fields_def ack_frame_def)
  then have b: "busy (A @ gone) g (enter_input (tcp_receive_ack i ticks) c)"
    using busy_net [OF busy ack(1)] gone by (simp add: enter_input_def map_net_def given_def)
  obtain err c1 where s: "event_sent cfg (enter_input (tcp_receive_ack i ticks) c) = (err, c1)" by fastforce
  note es = event_sent_busy [OF b cfg s]
  then have "c' = map_net (\<lambda>n. snd (tcp_output n)) (input_done c1)"
    using ev s by (simp add: tcp_input_events_def input_data_def input_closed_def)
  then show ?thesis using finish_input [of "A @ gone" g c1] es by simp
qed

lemma step_data:
  assumes busy: "busy A g c" and data: "data \<noteq> []" and rx: "pcb_flags (pcb (c_net c)) AND TF_RXCLOSED = 0"
    and ev: "tcp_input_events cfg buf data False
        (enter_input (receive_data (of_nat (chain_tot_len data))) c) = Inr c'"
  shows "busy A g c'"
proof -
  let ?c = "enter_input (receive_data (of_nat (chain_tot_len data))) c"
  have "event_sent cfg ?c = (ERR_OK, ?c)"
    by (simp add: event_sent_def enter_input_def map_net_def receive_data_fields)
  moreover have "pcb_flags (pcb (c_net ?c)) AND TF_RXCLOSED = 0"
    using rx by (simp add: enter_input_def map_net_def receive_data_fields)
  ultimately obtain err c1 where r: "event_recv cfg buf data ?c = Inr (err, c1)"
    using ev data by (auto simp: tcp_input_events_def input_data_def split: sum.splits)
  note eb = event_recv_busy [OF busy data r]
  then have "c' = map_net (\<lambda>n. snd (tcp_output n)) (input_done c1)"
    using ev r data \<open>event_sent cfg ?c = (ERR_OK, ?c)\<close> \<open>pcb_flags (pcb (c_net ?c)) AND TF_RXCLOSED = 0\<close>
    by (simp add: tcp_input_events_def input_data_def input_closed_def)
  then show ?thesis using eb busy_output [of A g "input_done c1"] by simp
qed

lemma step_poll:
  assumes busy: "busy A g c" and cfg: "handler_ok (ssi_config cfg)" "pg_ok g"
    and hs: "c_hs c = Some hs" "retries hs + 1 \<noteq> HTTPD_MAX_RETRIES"
  shows "busy A g (snd (http_poll cfg (callback_arg (pcb (c_net c))) c))
    \<or> served A g (snd (http_poll cfg (callback_arg (pcb (c_net c))) c))"
proof -
  have h: "handle hs" "callback_arg (pcb (c_net c))" using busy hs(1) by (auto simp: busy_def sending_def calm_def Let_def)
  let ?c = "c\<lparr>c_hs := Some (hs\<lparr>retries := retries hs + 1\<rparr>)\<rparr>"
  have "c\<lparr>c_hs := Some hs\<rparr> = c" using hs(1) by (cases c) simp
  then have b: "busy A g ?c" using busy by (simp add: busy_retries)
  obtain d c1 where s: "http_send cfg ?c = (d, c1)" by fastforce
  have "snd (http_poll cfg (callback_arg (pcb (c_net c))) c) = tcp_output_if d c1"
    using hs h s by (simp add: http_poll_def Let_def)
  then show ?thesis
    using http_send_busy [OF b cfg s] busy_output served_output by (auto simp: tcp_output_if_def)
qed

lemma rexmit_rto_keeps:
  assumes "pcb_good (pcb n)"
  shows "pcb_good (pcb (tcp_rexmit_rto n))" "tcp_stream (pcb (tcp_rexmit_rto n)) = tcp_stream (pcb n)"
    "close_fields (tcp_rexmit_rto n) = close_fields n"
proof -
  let ?n = "map_pcb (\<lambda>p. p\<lparr>unsent := unacked p @ unsent p, unacked := [], nrtx := nrtx p + 1, rttest := 0\<rparr>) n"
  have "pcb_good (pcb ?n)"
    using assms by (auto simp: pcb_good_def pcb_ok_def mss_local_def tail_room_def seq_ok_def)
  note o = tcp_output_keeps [OF this]
  show "pcb_good (pcb (tcp_rexmit_rto n))" "tcp_stream (pcb (tcp_rexmit_rto n)) = tcp_stream (pcb n)"
    "close_fields (tcp_rexmit_rto n) = close_fields n"
    using o assms by (simp_all add: tcp_rexmit_rto_def tcp_stream_def close_fields_def)
qed

lemma step_rexmit:
  assumes "busy A g c"
  shows "busy A g (map_net tcp_rexmit_rto c)"
proof -
  have "pcb_good (pcb (c_net c))" using assms by (auto simp: busy_def sending_def)
  note o = rexmit_rto_keeps [OF this]
  show ?thesis
    using busy_net [OF assms o(1) _ o(3), of A] o(2) by (simp add: map_net_def given_def)
qed

lemma conn_step_busy:
  assumes "conn_step cfg (A, c) (A', c')" "busy A g c" "handler_ok (ssi_config cfg)" "pg_ok g"
  shows "busy A' g c' \<or> served A' g c'"
proof (rule conn_stepE [OF assms(1)])
  fix i gone ticks buf
  assume "A' = A @ gone" "ack_range i (pcb (c_net c))"
    "tcp_stream (pcb (c_net c)) = gone @ tcp_stream (tcp_receive_ack i ticks (pcb (c_net c)))"
    "tcp_input_events cfg buf [] False (enter_input (tcp_receive_ack i ticks) c) = Inr c'"
  then show ?thesis using step_ack [OF assms(2-4)] by blast
next
  fix data buf
  assume "A' = A" "data \<noteq> []" "pcb_flags (pcb (c_net c)) AND TF_RXCLOSED = 0"
    "tcp_input_events cfg buf data False (enter_input (receive_data (of_nat (chain_tot_len data))) c) = Inr c'"
  then show ?thesis using step_data [OF assms(2)] by blast
next
  fix hs
  assume "A' = A" "c' = snd (http_poll cfg (callback_arg (pcb (c_net c))) c)" "c_hs c = Some hs"
    "retries hs + 1 \<noteq> HTTPD_MAX_RETRIES"
  then show ?thesis using step_poll [OF assms(2-4)] by blast
next
  assume "A' = A" "c' = map_net tcp_rexmit_rto c"
  then show ?thesis using step_rexmit assms(2) by blast
next
  assume "A' = A" "c' = map_net (\<lambda>n. snd (tcp_output n)) c"
  then show ?thesis using busy_output assms(2) by blast
qed

text \<open>An early end frees the state, and TCP keeps every byte it was given.\<close>

lemma give_up_keeps:
  fixes cfg :: "'w httpd_cfg" and c :: "'w conn"
  assumes busy: "busy A g c" and hs: "c_hs c = Some hs" "retries hs + 1 = HTTPD_MAX_RETRIES"
  defines "c' \<equiv> snd (http_poll cfg (callback_arg (pcb (c_net c))) c)"
  shows "c_hs c' = None \<and> given A c' = given A c"
proof -
  let ?c = "c\<lparr>c_hs := Some (hs\<lparr>retries := retries hs + 1\<rparr>)\<rparr>"
  have "callback_arg (pcb (c_net c))" using busy by (auto simp: busy_def calm_def Let_def)
  then have c': "c' = http_eof ?c" using hs by (simp add: c'_def http_poll_def http_eof_def Let_def)
  have "c\<lparr>c_hs := Some hs\<rparr> = c" using hs(1) by (cases c) simp
  then have "busy A g ?c" using busy by (simp add: busy_retries)
  then have "calm ?c" "pcb_good (pcb (c_net ?c))" by (auto simp: busy_def sending_def)
  from http_eof_keeps(1) [OF this] show ?thesis by (simp add: c' given_def)
qed

lemma receive_fin_fields:
  "pcb_state p = ESTABLISHED \<Longrightarrow> pcb_good (receive_fin p) = pcb_good p" "tcp_stream (receive_fin p) = tcp_stream p"
  "pcb_state (receive_fin p) = CLOSE_WAIT" "refused_data (receive_fin p) = refused_data p"
  "callback_arg (receive_fin p) = callback_arg p" "rcv_wnd (receive_fin p) = rcv_wnd p - 1"
  "pcb_acked (receive_fin p) = 0" "recv_cb (receive_fin p) = recv_cb p"
proof -
  note rd = receive_data_fields [of 1 p]
  show "tcp_stream (receive_fin p) = tcp_stream p" "pcb_state (receive_fin p) = CLOSE_WAIT"
    "refused_data (receive_fin p) = refused_data p" "callback_arg (receive_fin p) = callback_arg p"
    "rcv_wnd (receive_fin p) = rcv_wnd p - 1"
    using rd by (simp_all add: receive_fin_def set_flag_good)
  show "pcb_acked (receive_fin p) = 0" "recv_cb (receive_fin p) = recv_cb p"
    by (simp_all add: receive_fin_def receive_data_def set_flag_def tcp_update_rcv_ann_wnd_def Let_def)
  assume st: "pcb_state p = ESTABLISHED"
  have "pcb_good ((receive_data 1 p)\<lparr>pcb_state := CLOSE_WAIT\<rparr>) = pcb_good (receive_data 1 p)"
    using st rd by (auto simp: pcb_good_def seq_ok_def sendable_def)
  then show "pcb_good (receive_fin p) = pcb_good p" using rd by (simp add: receive_fin_def set_flag_good)
qed

lemma fin_keeps:
  assumes busy: "busy A g c" and st: "pcb_state (pcb (c_net c)) = ESTABLISHED" and cb: "recv_cb (pcb (c_net c))"
    and ev: "tcp_input_events cfg buf [] True (enter_input receive_fin c) = Inr c'"
  shows "c_hs c' = None \<and> given A c' = given A c"
proof -
  let ?c = "enter_input receive_fin c" and ?p = "receive_fin (pcb (c_net c))"
  have b: "callback_arg (pcb (c_net c))" "refused_data (pcb (c_net c)) = None" "rcv_wnd (pcb (c_net c)) = TCP_WND"
    "pcb_good (pcb (c_net c))" using busy by (auto simp: busy_def calm_def sending_def Let_def)
  define c2 where "c2 = map_net (map_pcb (\<lambda>p. if rcv_wnd p \<noteq> TCP_WND then p\<lparr>rcv_wnd := rcv_wnd p + 1\<rparr> else p)) ?c"
  have p: "pcb (c_net ?c) = ?p" by (simp add: enter_input_def)
  have p2: "pcb (c_net c2) = ?p\<lparr>rcv_wnd := TCP_WND\<rparr>"
    using b(3) by (simp add: c2_def p receive_fin_fields TCP_WND_def)
  have "pcb_good (?p\<lparr>rcv_wnd := TCP_WND\<rparr>)" using b(4) receive_fin_fields(1) [OF st] by (simp add: pcb_good_rcv)
  then have c2: "calm c2" "pcb_good (pcb (c_net c2))" "given A c2 = given A c"
    using b unfolding p2 calm_def Let_def given_def by (simp_all add: p2 receive_fin_fields)
  have "event_sent cfg ?c = (ERR_OK, ?c)" by (simp add: event_sent_def p receive_fin_fields)
  moreover have "input_closed cfg buf True ?c = Inr (ERR_OK, http_eof c2)"
    using b cb by (simp add: input_closed_def event_closed_def p receive_fin_fields c2_def [symmetric] p2 http_recv_def http_eof_def)
  ultimately have c': "c' = map_net (\<lambda>n. snd (tcp_output n)) (input_done (http_eof c2))"
    using ev by (simp add: tcp_input_events_def input_data_def)
  note e = http_eof_keeps [OF c2(1,2)]
  have "tcp_stream (pcb (snd (tcp_output ((c_net (http_eof c2))\<lparr>in_input := False\<rparr>)))) = tcp_stream (pcb (c_net (http_eof c2)))"
    using tcp_output_keeps(2) [of "(c_net (http_eof c2))\<lparr>in_input := False\<rparr>"] e(2) by simp
  then show ?thesis using e(1) [of A] c2(3) by (simp add: c' input_done_def given_def)
qed

lemma conn_end_busy:
  assumes "conn_end cfg (A, c) (A', c')" "busy A g c"
  shows "c_hs c' = None \<and> given A' c' = given A c"
proof (rule conn_endE [OF assms(1)])
  fix hs
  assume "A' = A" "c' = snd (http_poll cfg (callback_arg (pcb (c_net c))) c)" "c_hs c = Some hs"
    "retries hs + 1 = HTTPD_MAX_RETRIES"
  then show ?thesis using give_up_keeps [OF assms(2)] by simp
next
  fix buf
  assume "A' = A" "pcb_state (pcb (c_net c)) = ESTABLISHED" "recv_cb (pcb (c_net c))"
    "tcp_input_events cfg buf [] True (enter_input receive_fin c) = Inr c'"
  then show ?thesis using fin_keeps [OF assms(2)] by simp
qed

lemma conn_end_live: "conn_end cfg s s' \<Longrightarrow> c_hs (snd s) \<noteq> None"
  by (induction rule: conn_end.induct) auto

text \<open>No step starts from a closed connection, so a run ends when the page is served.\<close>

lemma conn_step_live: "conn_step cfg s s' \<Longrightarrow> c_hs (snd s) \<noteq> None"
  by (induction rule: conn_step.induct) auto

lemma conn_run_busy:
  assumes "(conn_step cfg)\<^sup>*\<^sup>* (A, c) (A', c')" "busy A g c" "handler_ok (ssi_config cfg)" "pg_ok g"
  shows "busy A' g c' \<or> served A' g c'"
proof -
  have "busy (fst s) g (snd s) \<or> served (fst s) g (snd s)" if "(conn_step cfg)\<^sup>*\<^sup>* (A, c) s" for s
    using that
  proof (induction rule: rtranclp_induct)
    case base
    then show ?case using assms(2) by simp
  next
    case (step s t)
    have "c_hs (snd s) \<noteq> None" using conn_step_live step.hyps(2) by blast
    then have "busy (fst s) g (snd s)" using step.IH by (auto simp: served_def)
    then show ?case
      using conn_step_busy [of cfg "fst s" "snd s" "fst t" "snd t" g] step.hyps(2) assms(3,4) by simp
  qed
  then show ?thesis using assms(1) by fastforce
qed

end
