(* ===== verification/Http_Serve.thy ===== *)
theory Http_Serve
  imports Http_Run
begin

text \<open>
  A whole exchange: a complete GET request for a file arrives on an idle connection, the server
  opens the file and starts to send. Together with the runs of \<^verbatim>\<open>Http_Run\<close> this is the
  correctness of the server for one request.
\<close>

definition ssi_start :: "nat \<Rightarrow> http_ssi_state" where
  "ssi_start n = ssi_zero\<lparr>tag_index := 0, tag_state := TAG_NONE, parsed := 0, parse_left := n, tag_end := 0\<rparr>"

definition page_of :: "bytes \<Rightarrow> bool \<Rightarrow> bytes \<Rightarrow> page_spec" where
  "page_of before with_tags content = \<lparr>pg_before = before, pg_content = content, pg_start = 0,
     pg_tags = (if with_tags then scan content (ssi_start (length content)) else [])\<rparr>"

text \<open>The state that \<open>http_init_file\<close> leaves for a page sent from its start.\<close>

definition ready :: "http_state \<Rightarrow> bool \<Rightarrow> fsdata_file \<Rightarrow> http_state" where
  "ready hs with_tags f =
     (let hs = hs\<lparr>file_handle := opened f, handle := True, file_set := True,
                 send_position := \<lparr>hs_file = 0, hs_left = length (fd_data f)\<rparr>, retries := 0\<rparr>
      in if with_tags then hs\<lparr>ssi := Some (ssi_start (length (fd_data f)))\<rparr> else hs)"

lemma http_init_file_ready:
  assumes "http_init_file (hs\<lparr>file_handle := opened f\<rparr>) True False tag_check h = Inr (err, hs', h')"
  shows "err = ERR_OK \<and> hs' = ready hs (tag_check \<and> fst (alloc h)) f \<and> h' = (if tag_check then snd (alloc h) else h)"
  using assms
  by (auto simp: http_init_file_def http_ssi_state_alloc_def ready_def ssi_start_def opened_def Let_def require_def
      split: prod.splits bool.splits if_splits option.splits)

lemma parser_ok_start: "parser_ok (ssi_start n)"
  by (simp add: parser_ok_def ssi_start_def ssi_zero_def)

lemma ready_sending:
  assumes "pcb_good (pcb n)" "ssi hs = None"
  shows "sending A (page_of (A @ tcp_stream (pcb n)) with_tags (fd_data f))
    (c\<lparr>c_net := n, c_hs := Some (ready hs with_tags f), c_log := []\<rparr>)"
proof -
  have "hs_ok (ready hs with_tags f)"
    using parser_ok_start assms(2)
    by (auto simp: hs_ok_def ready_def Let_def pos_ok_def opened_def whole_file_def ssi_start_def)
  then show ?thesis
    using assms parser_ok_start [of "length (fd_data f)"]
    by (cases with_tags)
       (simp_all add: sending_def ready_def Let_def page_of_def given_def start_run_def ssi_inv_def pos_ok_def
         opened_def tags_in_def log_tags_def, simp_all add: ssi_start_def)
qed

subsection \<open>A complete GET request\<close>

text \<open>A connection that waits for a request, and a request in one pbuf.\<close>

definition idle :: "http_state \<Rightarrow> 'w conn \<Rightarrow> bool" where
  "idle hs c \<longleftrightarrow> c_hs c = Some hs \<and> \<not> handle hs \<and> \<not> file_set hs \<and> ssi hs = None \<and> req hs = []
     \<and> pcb_good (pcb (c_net c)) \<and> calm c"

definition get_request :: "string \<Rightarrow> pbuf \<Rightarrow> bool" where
  "get_request uri pb \<longleftrightarrow>
     (\<exists>head rest. pb_mem pb = GET_sp @ uri @ CHR '' '' # head @ CRLF @ CRLF @ rest \<and> NUL \<notin> set head
        \<and> length GET_sp + length uri + 1 + length head + 4 \<le> pb_len pb \<and> pb_len pb \<le> length (pb_mem pb))"

definition plain_uri :: "'w httpd_cfg \<Rightarrow> string \<Rightarrow> bool" where
  "plain_uri cfg uri \<longleftrightarrow> NUL \<notin> set uri \<and> CHR '' '' \<notin> set uri \<and> CHR ''?'' \<notin> set uri \<and> uri \<noteq> []
     \<and> uri \<noteq> ''/'' \<and> uri \<notin> fst ` set (g_pCGIs cfg)"

lemma parse_plain_get:
  assumes "get_request uri pb" "plain_uri cfg uri" "fs_lookup (fs_root cfg) uri = Some f"
    "\<not> handle hs" "\<not> file_set hs" "req hs = []" "fd_http_header_included f"
  shows "http_parse_request cfg buf hs [pb] h w
    = Inr (ERR_OK, ready (hs\<lparr>req := [pb]\<rparr>) (ssi_extension uri \<and> fst (alloc h)) f,
           if ssi_extension uri then snd (alloc h) else h, w)"
proof -
  let ?hs = "hs\<lparr>req := [pb]\<rparr>"
  obtain head rest where d: "pb_mem pb = GET_sp @ uri @ CHR '' '' # head @ CRLF @ CRLF @ rest"
    "NUL \<notin> set head" "length GET_sp + length uri + 1 + length head + 4 \<le> pb_len pb"
    using assms(1) by (auto simp: get_request_def)
  have u: "NUL \<notin> set uri" "CHR '' '' \<notin> set uri" "CHR ''?'' \<notin> set uri" "uri \<noteq> ''/''" "uri \<noteq> []"
    "uri \<notin> fst ` set (g_pCGIs cfg)" using assms(2) by (auto simp: plain_uri_def)
  obtain err hs' h' where i: "http_init_file (?hs\<lparr>file_handle := opened f\<rparr>) True False (ssi_extension uri) h
      = Inr (err, hs', h')"
    by (cases "http_init_file (?hs\<lparr>file_handle := opened f\<rparr>) True False (ssi_extension uri) h")
       (use assms(7) in \<open>auto simp: http_init_file_def Let_def require_def opened_def
          split: prod.splits if_splits option.splits\<close>)
  note r = http_init_file_ready [OF i]
  have "parse_data cfg ?hs (pb_mem pb) (pb_len pb) h w = Inr (Some (err, hs', h', w))"
    using parse_data_get [OF d(1) u(1) d(2) u(2) d(3), of cfg ?hs h w]
      http_find_file_plain [OF u(1,3,4,5,6) assms(3), where rest = "head @ CRLF @ CRLF @ rest" and hs = ?hs and h = h and w = w] i
    by simp
  then show ?thesis
    using assms(4-6) r by (simp add: http_parse_request_def collect_data_def)
qed

lemma ready_req: "req hs = [] \<Longrightarrow> (ready (hs\<lparr>req := q\<rparr>) tags f)\<lparr>req := []\<rparr> = ready hs tags f"
  by (cases hs) (simp add: ready_def Let_def)

lemma http_recv_get:
  assumes idle: "idle hs c" and req: "get_request uri pb" "plain_uri cfg uri"
    and found: "fs_lookup (fs_root cfg) uri = Some f" "fd_http_header_included f" and cfg: "handler_ok (ssi_config cfg)"
    and tags: "tags \<longleftrightarrow> ssi_extension uri \<and> fst (alloc (net_heap (c_net c)))"
    and g: "g = page_of (given A c) tags (fd_data f)" "pg_ok g"
  obtains c' where "http_recv cfg buf True [pb] ERR_OK
      (enter_input (receive_data (of_nat (chain_tot_len [pb]))) c) = Inr (ERR_OK, c')"
    "busy A g c' \<or> served A g c'" "c_freed c' = c_freed c @ [pb]"
proof -
  have i: "c_hs c = Some hs" "\<not> handle hs" "\<not> file_set hs" "ssi hs = None" "req hs = []"
    "pcb_good (pcb (c_net c))" "calm c" "rcv_wnd (pcb (c_net c)) = TCP_WND"
    using idle by (auto simp: idle_def calm_def Let_def)
  let ?len = "of_nat (chain_tot_len [pb]) :: u16"
  define n where "n = tcp_recved (map_pcb (receive_data ?len) ((c_net c)\<lparr>in_input := True\<rparr>)) ?len"
  note rc = recved_again [OF i(8,6) n_def]
  let ?h = "if ssi_extension uri then snd (alloc (net_heap n)) else net_heap n"
  let ?hs = "(ready (hs\<lparr>req := [pb]\<rparr>) tags f)\<lparr>req := []\<rparr>"
  define c1 where "c1 = c\<lparr>c_net := n\<lparr>net_heap := ?h\<rparr>, c_freed := c_freed c @ [pb], c_hs := Some ?hs, c_log := []\<rparr>"
  have p: "http_parse_request cfg buf hs [pb] (net_heap n) (c_world c)
    = Inr (ERR_OK, ready (hs\<lparr>req := [pb]\<rparr>) tags f, ?h, c_world c)"
    using parse_plain_get [OF req found(1) i(2,3,5) found(2)] rc(4) tags by simp
  have rq: "req (ready (hs\<lparr>req := [pb]\<rparr>) tags f) = [pb]" by (simp add: ready_def Let_def)
  have eq: "http_recv cfg buf True [pb] ERR_OK (enter_input (receive_data ?len) c)
    = Inr (ERR_OK, snd (http_send cfg c1))"
    using i(1,2) p rq
    by (simp add: http_recv_def enter_input_def map_net_def n_def [symmetric] pbuf_free_def c1_def Let_def)
  have freed: "c_freed c1 = c_freed c @ [pb]" by (simp add: c1_def)
  have "pcb_good (pcb n)" "tcp_stream (pcb n) = tcp_stream (pcb (c_net c))" using rc(1,2) by auto
  moreover have c1_eq: "c1 = (c\<lparr>c_freed := c_freed c @ [pb]\<rparr>)\<lparr>c_net := n\<lparr>net_heap := ?h\<rparr>,
      c_hs := Some (ready hs tags f), c_log := []\<rparr>"
    using ready_req [OF i(5)] by (cases c) (simp add: c1_def)
  ultimately have "sending A g c1"
    unfolding c1_eq using ready_sending [of "n\<lparr>net_heap := ?h\<rparr>" hs A tags f "c\<lparr>c_freed := c_freed c @ [pb]\<rparr>"] i(4) g(1)
    by (simp add: given_def)
  moreover have "calm c1" using i(7) rc(3) by (simp add: calm_fields c1_def close_fields_def)
  ultimately have b: "busy A g c1" by (simp add: busy_def)
  obtain d c' where s: "http_send cfg c1 = (d, c')" by fastforce
  have "c_freed c' = c_freed c1"
    using http_send_result [OF _ cfg g(2) s, of A] b by (auto simp: busy_def)
  then show ?thesis
    using that [of c'] eq s http_send_busy [OF b cfg g(2) s] freed by auto
qed

end
