(* ===== verification/Tcp_Recv.thy ===== *)
theory Tcp_Recv
  imports Tcp_In
begin

text \<open>
  The receiving half of TCP (\<^verbatim>\<open>lwip/src/core/tcp_in.c\<close>): the options, the data half of
  \<open>tcp_receive\<close> as this build has it (no queue for data out of order), and the state machine
  \<open>tcp_process\<close>. The main lemmas say which bytes of the peer's stream a segment delivers, whatever
  it repeats, overlaps or overruns.
\<close>

subsection \<open>States in their order\<close>

text \<open>The code compares states by their numbers in the enumeration of \<^verbatim>\<open>tcp.h\<close>.\<close>

fun state_number :: "tcp_state \<Rightarrow> nat" where
  "state_number CLOSED = 0"
| "state_number LISTEN = 1"
| "state_number SYN_SENT = 2"
| "state_number SYN_RCVD = 3"
| "state_number ESTABLISHED = 4"
| "state_number FIN_WAIT_1 = 5"
| "state_number FIN_WAIT_2 = 6"
| "state_number CLOSE_WAIT = 7"
| "state_number CLOSING = 8"
| "state_number LAST_ACK = 9"
| "state_number TIME_WAIT = 10"

lemma state_number_inj: "state_number s = state_number t \<Longrightarrow> s = t"
  by (cases s; cases t) simp_all

instantiation tcp_state :: linorder
begin

definition less_eq_tcp_state :: "tcp_state \<Rightarrow> tcp_state \<Rightarrow> bool" where
  "less_eq_tcp_state s t \<longleftrightarrow> state_number s \<le> state_number t"

definition less_tcp_state :: "tcp_state \<Rightarrow> tcp_state \<Rightarrow> bool" where
  "less_tcp_state s t \<longleftrightarrow> state_number s < state_number t"

instance
  by standard (auto simp: less_eq_tcp_state_def less_tcp_state_def intro: state_number_inj)

end

lemmas state_order = less_eq_tcp_state_def less_tcp_state_def

subsection \<open>Incoming segments\<close>

text \<open>
  What \<open>tcp_input\<close> leaves in the globals of the file: beside the header fields the flags, the
  payload of the pbufs behind the TCP header, and the option bytes, with what follows them in the
  first pbuf. \<open>inseg\<close> is the segment while \<open>tcp_receive\<close> trims it.
\<close>

record tcp_input = tcp_in_seg +
  in_flags :: u8
  in_p :: "bytes list"
  in_optlen :: nat
  in_opts :: bytes

record inseg =
  is_seqno :: u32
  is_flags :: u8
  is_len :: u16
  is_p :: "bytes list"

definition TCP_TCPLEN :: "inseg \<Rightarrow> u16" where
  "TCP_TCPLEN s = is_len s + (if is_flags s AND (TCP_FIN OR TCP_SYN) \<noteq> 0 then 1 else 0)"

definition tot_len :: "bytes list \<Rightarrow> nat" where
  "tot_len ps = sum_list (map length ps)"

definition inseg_of :: "tcp_input \<Rightarrow> inseg" where
  "inseg_of i = \<lparr>is_seqno = in_seqno i, is_flags = in_flags i, is_len = of_nat (tot_len (in_p i)), is_p = in_p i\<rparr>"

definition TF_RESET :: u8 where "TF_RESET = 0x08"
definition TF_CLOSED :: u8 where "TF_CLOSED = 0x10"
definition TF_GOT_FIN :: u8 where "TF_GOT_FIN = 0x20"

text \<open>The result of processing a segment: \<open>recv_data\<close>, \<open>recv_flags\<close> and the connection.\<close>

record rx =
  rx_net :: net
  rx_data :: "bytes list"
  rx_flags :: u8

subsection \<open>Options\<close>

text \<open>
  \<open>opts\<close> are the bytes from the first option to the end of the pbuf, \<open>max_c\<close> of them options.
\<close>

definition opt_at :: "bytes \<Rightarrow> nat \<Rightarrow> u8 checked" where
  "opt_at opts c = (if c < length opts then Inr (of_char (opts ! c)) else Inl Oob_read)"

lemma unat_pos: "w \<noteq> 0 \<Longrightarrow> 0 < unat w"
  by (simp add: unat_gt_0)

function parseopt_loop :: "bytes \<Rightarrow> nat \<Rightarrow> nat \<Rightarrow> u16 \<Rightarrow> u16 checked" where
  "parseopt_loop opts max_c c mss =
     (if c \<ge> max_c then Inr mss
      else case opt_at opts c of
        Inl e \<Rightarrow> Inl e
      | Inr opt \<Rightarrow>
          if opt = 0x00 then Inr mss
          else if opt = 0x01 then parseopt_loop opts max_c (c + 1) mss
          else if opt = 0x02 then
            (case opt_at opts (c + 1) of
               Inl e \<Rightarrow> Inl e
             | Inr l \<Rightarrow>
                 if l \<noteq> 0x04 \<or> c + 4 > max_c then Inr mss
                 else case (opt_at opts (c + 2), opt_at opts (c + 3)) of
                        (Inr hi, Inr lo) \<Rightarrow>
                          let m = push_bit 8 (ucast hi) OR ucast lo :: u16
                          in parseopt_loop opts max_c (c + 4) (if m > of_nat TCP_MSS \<or> m = 0 then of_nat TCP_MSS else m)
                      | _ \<Rightarrow> Inl Oob_read)
          else
            (case opt_at opts (c + 1) of
               Inl e \<Rightarrow> Inl e
             | Inr l \<Rightarrow> if l = 0 then Inr mss else parseopt_loop opts max_c (c + unat l) mss))"
  by pat_completeness auto

termination parseopt_loop
  by (relation "measure (\<lambda>(opts, max_c, c, mss). max_c - c)") (auto dest: unat_pos)

declare parseopt_loop.simps [simp del]

definition tcp_parseopt :: "tcp_input \<Rightarrow> tcp_pcb \<Rightarrow> tcp_pcb checked" where
  "tcp_parseopt i p =
     (if in_optlen i > 0 then map_sum id (\<lambda>mss. p\<lparr>pcb_mss := mss\<rparr>) (parseopt_loop (in_opts i) (in_optlen i) 0 (pcb_mss p))
      else Inr p)"

subsection \<open>Data\<close>

definition tcp_ack :: "tcp_pcb \<Rightarrow> tcp_pcb" where
  "tcp_ack p =
     (if pcb_flags p AND TF_ACK_DELAY \<noteq> 0 then set_flag TF_ACK_NOW (clear_flag TF_ACK_DELAY p)
      else set_flag TF_ACK_DELAY p)"

definition tcp_ack_now :: "tcp_pcb \<Rightarrow> tcp_pcb" where
  "tcp_ack_now p = set_flag TF_ACK_NOW p"

text \<open>
  The first \<open>off\<close> bytes are skipped: whole pbufs stay in the chain, empty; the chain's end is the
  null pointer.
\<close>

fun skip_bytes :: "nat \<Rightarrow> bytes list \<Rightarrow> bytes list checked" where
  "skip_bytes off [] = Inl Null_deref"
| "skip_bytes off (q # qs) =
     (if length q < off then map_sum id ((#) []) (skip_bytes (off - length q) qs) else Inr (drop off q # qs))"

definition trim_front :: "u32 \<Rightarrow> inseg \<Rightarrow> inseg checked" where
  "trim_front nxt s =
     (let off = nat (sint (nxt - is_seqno s))
      in if off \<ge> 0x7fff \<or> tot_len (is_p s) < off then Inl Assert_failed
         else map_sum id
                (\<lambda>ps. s\<lparr>is_p := ps, is_len := is_len s - ucast (nxt - is_seqno s), is_seqno := nxt\<rparr>)
                (skip_bytes off (is_p s)))"

text \<open>\<open>pbuf_realloc\<close>: the chain is cut behind \<open>new_len\<close> bytes.\<close>

fun realloc_chain :: "nat \<Rightarrow> bytes list \<Rightarrow> bytes list" where
  "realloc_chain n [] = []"
| "realloc_chain n (q # qs) = (if n > length q then q # realloc_chain (n - length q) qs else [take n q])"

definition pbuf_realloc :: "nat \<Rightarrow> bytes list \<Rightarrow> bytes list" where
  "pbuf_realloc n ps = (if n \<ge> tot_len ps then ps else realloc_chain n ps)"

definition trim_to_window :: "tcp_pcb \<Rightarrow> inseg \<Rightarrow> inseg checked" where
  "trim_to_window p s =
     (if TCP_TCPLEN s > rcv_wnd p then
        let s = s\<lparr>is_flags := is_flags s AND NOT TCP_FIN, is_len := rcv_wnd p\<rparr>;
            s = (if is_flags s AND TCP_SYN \<noteq> 0 then s\<lparr>is_len := is_len s - 1\<rparr> else s);
            s = s\<lparr>is_p := pbuf_realloc (unat (is_len s)) (is_p s)\<rparr>
        in if is_seqno s + ucast (TCP_TCPLEN s) \<noteq> rcv_nxt p + ucast (rcv_wnd p) then Inl Assert_failed else Inr s
      else Inr s)"

text \<open>The segment is the next in sequence: \<open>deliver_segment\<close> once it was trimmed.\<close>

definition deliver_segment :: "inseg \<Rightarrow> net \<Rightarrow> rx checked" where
  "deliver_segment s n =
     (let len = TCP_TCPLEN s;
          n = map_pcb (\<lambda>p. p\<lparr>rcv_nxt := is_seqno s + ucast len\<rparr>) n
      in if \<not> rcv_wnd (pcb n) \<ge> len then Inl Assert_failed
         else
           let n = map_pcb (\<lambda>p. p\<lparr>rcv_wnd := rcv_wnd p - len\<rparr>) n;
               n = map_pcb (\<lambda>p. snd (tcp_update_rcv_ann_wnd p)) n
           in Inr \<lparr>rx_net = map_pcb tcp_ack n,
                   rx_data = (if tot_len (is_p s) > 0 then is_p s else []),
                   rx_flags = (if is_flags s AND TCP_FIN \<noteq> 0 then TF_GOT_FIN else 0)\<rparr>)"

definition receive_in_sequence :: "inseg \<Rightarrow> net \<Rightarrow> rx checked" where
  "receive_in_sequence s n =
     (case trim_to_window (pcb n) s of Inl e \<Rightarrow> Inl e | Inr s \<Rightarrow> deliver_segment s n)"

definition tcp_receive_data :: "tcp_input \<Rightarrow> net \<Rightarrow> rx checked" where
  "tcp_receive_data i n =
     (let p = pcb n; s = inseg_of i; len = in_tcplen i; none = (\<lambda>n. Inr \<lparr>rx_net = n, rx_data = [], rx_flags = 0\<rparr>)
      in if len > 0 \<and> pcb_state p < CLOSE_WAIT then
           (let trimmed = (if seq_between (rcv_nxt p) (is_seqno s + 1) (is_seqno s + ucast len - 1)
                           then map_sum id (\<lambda>s. (s, n)) (trim_front (rcv_nxt p) s)
                           else if seq_lt (is_seqno s) (rcv_nxt p) then Inr (s, map_pcb tcp_ack_now n)
                           else Inr (s, n))
            in case trimmed of
                 Inl e \<Rightarrow> Inl e
               | Inr (s, n) \<Rightarrow>
                   if seq_between (is_seqno s) (rcv_nxt p) (rcv_nxt p + ucast (rcv_wnd p) - 1) then
                     (if rcv_nxt p = is_seqno s then receive_in_sequence s n
                      else none (snd (tcp_send_empty_ack n)))
                   else none (snd (tcp_send_empty_ack n)))
         else if \<not> seq_between (is_seqno s) (rcv_nxt p) (rcv_nxt p + ucast (rcv_wnd p) - 1)
         then none (map_pcb tcp_ack_now n)
         else none n)"

text \<open>
  \<open>tcp_receive\<close>, both halves. The assertions of the first one on the length of the queues are not
  faults of the model; well-formed queues (\<open>pcb_ok\<close>) satisfy them.
\<close>

definition tcp_receive :: "tcp_input \<Rightarrow> net \<Rightarrow> rx checked" where
  "tcp_receive i n =
     (if pcb_state (pcb n) < ESTABLISHED then Inl Assert_failed
      else tcp_receive_data i
             (if in_flags i AND TCP_ACK \<noteq> 0
              then map_pcb (tcp_receive_ack (tcp_in_seg.truncate i) (tcp_ticks n)) n else n))"

subsection \<open>The peer's stream\<close>

text \<open>
  The peer sends the bytes \<open>S\<close>; the byte with the index \<open>k\<close> has the sequence number \<open>b + k\<close>. A
  segment of the stream carries the bytes from some index \<open>k\<close> on, and has a FIN only at the end.
\<close>

definition fin_of :: "tcp_input \<Rightarrow> bool" where
  "fin_of i \<longleftrightarrow> in_flags i AND TCP_FIN \<noteq> 0"

definition segment_of :: "bytes \<Rightarrow> u32 \<Rightarrow> nat \<Rightarrow> nat \<Rightarrow> tcp_input \<Rightarrow> bool" where
  "segment_of S b k L i \<longleftrightarrow>
     in_seqno i = b + of_nat k \<and> concat (in_p i) = take L (drop k S) \<and> k + L \<le> length S \<and> L < 32767
     \<and> in_tcplen i = of_nat L + (if fin_of i then 1 else 0)
     \<and> in_flags i AND TCP_SYN = 0 \<and> (fin_of i \<longrightarrow> k + L = length S)"

text \<open>\<open>r\<close> bytes of the stream have been received; \<open>near\<close>: no segment is older or newer than \<open>2 ^ 30\<close> bytes.\<close>

definition near :: "nat \<Rightarrow> nat \<Rightarrow> bool" where
  "near k r \<longleftrightarrow> k < r + 2 ^ 30 \<and> r < k + 2 ^ 30"

lemma tot_len_concat: "tot_len ps = length (concat ps)"
  by (simp add: tot_len_def length_concat)

lemma skip_bytes_concat:
  "off \<le> tot_len ps \<Longrightarrow> ps \<noteq> [] \<Longrightarrow> \<exists>qs. skip_bytes off ps = Inr qs \<and> concat qs = drop off (concat ps)"
proof (induction off ps rule: skip_bytes.induct)
  case (2 off q qs)
  show ?case
  proof (cases "length q < off")
    case True
    then have "off - length q \<le> tot_len qs" "qs \<noteq> []" using 2(2) by (auto simp: tot_len_def)
    then show ?thesis using 2(1) [OF True] True by force
  qed simp
qed simp

lemma realloc_chain_concat: "ps \<noteq> [] \<Longrightarrow> n \<le> tot_len ps \<Longrightarrow> concat (realloc_chain n ps) = take n (concat ps)"
proof (induction n ps rule: realloc_chain.induct)
  case (2 n q qs)
  show ?case
  proof (cases "n > length q")
    case True
    then have "qs \<noteq> []" "n - length q \<le> tot_len qs" using 2(3) by (auto simp: tot_len_def)
    then show ?thesis using 2(1) True by simp
  qed simp
qed simp

lemma pbuf_realloc_concat: "concat (pbuf_realloc n ps) = take n (concat ps)"
proof (cases "n \<ge> tot_len ps")
  case True
  then show ?thesis by (simp add: pbuf_realloc_def tot_len_concat)
next
  case False
  then have "ps \<noteq> []" by (auto simp: tot_len_def)
  then show ?thesis using False realloc_chain_concat [of ps n] by (simp add: pbuf_realloc_def)
qed

text \<open>Sequence numbers that are near each other compare like the indices.\<close>

lemma sint_diff:
  fixes b :: u32
  assumes "\<bar>int x - int y\<bar> < 2 ^ 31"
  shows "sint (b + of_nat x - (b + of_nat y)) = int x - int y"
proof -
  have "b + of_nat x - (b + of_nat y) = (word_of_int (int x - int y) :: u32)" by simp
  then have "sint (b + of_nat x - (b + of_nat y)) = signed_take_bit 31 (int x - int y)"
    by (simp only: signed_of_int) simp
  then show ?thesis using assms by (simp add: signed_take_bit_int_eq_self)
qed

lemma seq_compare:
  assumes "\<bar>int x - int y\<bar> < 2 ^ 31"
  shows "seq_leq (b + of_nat x) (b + of_nat y) \<longleftrightarrow> x \<le> y"
    and "seq_lt (b + of_nat x) (b + of_nat y) \<longleftrightarrow> x < y"
    and "seq_geq (b + of_nat x) (b + of_nat y) \<longleftrightarrow> y \<le> x"
    and "b + of_nat x = b + (of_nat y :: u32) \<longleftrightarrow> x = y"
proof -
  note d = sint_diff [OF assms, of b]
  show "seq_leq (b + of_nat x) (b + of_nat y) \<longleftrightarrow> x \<le> y" "seq_lt (b + of_nat x) (b + of_nat y) \<longleftrightarrow> x < y"
    "seq_geq (b + of_nat x) (b + of_nat y) \<longleftrightarrow> y \<le> x"
    unfolding seq_leq_def seq_lt_def seq_geq_def d by auto
  show "b + of_nat x = b + (of_nat y :: u32) \<longleftrightarrow> x = y"
  proof
    assume "b + of_nat x = b + (of_nat y :: u32)"
    then have "sint (b + of_nat x - (b + of_nat y) :: u32) = 0" by simp
    then show "x = y" unfolding d by simp
  qed simp
qed

subsection \<open>What a segment delivers\<close>

lemma fin_syn_bits:
  assumes "f AND TCP_SYN = 0"
  shows "f AND (TCP_FIN OR TCP_SYN) = f AND TCP_FIN" "(f AND NOT TCP_FIN) AND TCP_FIN = 0"
    "(f AND NOT TCP_FIN) AND TCP_SYN = 0" "(f AND NOT TCP_FIN) AND (TCP_FIN OR TCP_SYN) = 0"
proof -
  show "f AND (TCP_FIN OR TCP_SYN) = f AND TCP_FIN" using assms by (simp add: bit.conj_disj_distrib)
  show fin: "(f AND NOT TCP_FIN) AND TCP_FIN = 0" unfolding and.assoc by simp
  have "(f AND NOT TCP_FIN) AND TCP_SYN = (f AND TCP_SYN) AND NOT TCP_FIN" by (simp only: ac_simps)
  then show syn: "(f AND NOT TCP_FIN) AND TCP_SYN = 0" unfolding assms by simp
  show "(f AND NOT TCP_FIN) AND (TCP_FIN OR TCP_SYN) = 0"
    unfolding bit.conj_disj_distrib fin syn by simp
qed

text \<open>The fields that receiving data leaves alone.\<close>

definition recv_frame :: "tcp_pcb \<Rightarrow> tcp_pcb \<Rightarrow> bool" where
  "recv_frame p q \<longleftrightarrow> pcb_state q = pcb_state p \<and> unsent q = unsent p \<and> unacked q = unacked p
     \<and> snd_lbb q = snd_lbb p \<and> snd_queuelen q = snd_queuelen p \<and> unsent_oversize q = unsent_oversize p
     \<and> pcb_mss q = pcb_mss p \<and> snd_wnd_max q = snd_wnd_max p \<and> refused_data q = refused_data p"

lemma recv_frame_simps [simp]:
  "recv_frame p p" "recv_frame p (q\<lparr>rcv_nxt := a\<rparr>) = recv_frame p q" "recv_frame p (q\<lparr>rcv_wnd := w\<rparr>) = recv_frame p q"
  "recv_frame p (q\<lparr>rcv_ann_wnd := w\<rparr>) = recv_frame p q" "recv_frame p (set_flag f q) = recv_frame p q"
  "recv_frame p (clear_flag f q) = recv_frame p q" "recv_frame p (q\<lparr>rcv_ann_right_edge := a\<rparr>) = recv_frame p q"
  by (simp_all add: recv_frame_def set_flag_def clear_flag_def)

lemma tcp_update_rcv_ann_wnd_fields [simp]:
  "rcv_nxt (snd (tcp_update_rcv_ann_wnd p)) = rcv_nxt p" "rcv_wnd (snd (tcp_update_rcv_ann_wnd p)) = rcv_wnd p"
  "recv_frame q (snd (tcp_update_rcv_ann_wnd p)) = recv_frame q p"
  by (simp_all add: tcp_update_rcv_ann_wnd_def Let_def)

lemma flag_rcv [simp]:
  "rcv_nxt (set_flag f p) = rcv_nxt p" "rcv_wnd (set_flag f p) = rcv_wnd p"
  "rcv_nxt (clear_flag f p) = rcv_nxt p" "rcv_wnd (clear_flag f p) = rcv_wnd p"
  by (simp_all add: set_flag_def clear_flag_def)

lemma tcp_ack_fields [simp]:
  "rcv_nxt (tcp_ack p) = rcv_nxt p" "rcv_wnd (tcp_ack p) = rcv_wnd p" "recv_frame q (tcp_ack p) = recv_frame q p"
  "rcv_nxt (tcp_ack_now p) = rcv_nxt p" "rcv_wnd (tcp_ack_now p) = rcv_wnd p"
  "recv_frame q (tcp_ack_now p) = recv_frame q p" "pcb_state (tcp_ack_now p) = pcb_state p"
  by (simp_all add: tcp_ack_def tcp_ack_now_def set_flag_def clear_flag_def recv_frame_def)

lemma empty_ack_fields [simp]:
  "rcv_nxt (pcb (snd (tcp_send_empty_ack n))) = rcv_nxt (pcb n)"
  "rcv_wnd (pcb (snd (tcp_send_empty_ack n))) = rcv_wnd (pcb n)"
  "recv_frame q (pcb (snd (tcp_send_empty_ack n))) = recv_frame q (pcb n)"
  "pcb_freed (snd (tcp_send_empty_ack n)) = pcb_freed n"
  by (auto simp: tcp_send_empty_ack_def Let_def split: prod.splits bool.splits)

lemma in_sequence_result:
  assumes s: "is_seqno s = rcv_nxt (pcb n)" "is_len s = of_nat (length D)" "concat (is_p s) = D" "length D < 32767"
    and syn: "is_flags s AND TCP_SYN = 0" and w: "w = unat (rcv_wnd (pcb n))"
    and f: "f \<longleftrightarrow> is_flags s AND TCP_FIN \<noteq> 0 \<and> length D < w" and c: "c = min (length D) w"
  shows "\<exists>x. receive_in_sequence s n = Inr x \<and> concat (rx_data x) = take c D
    \<and> rcv_nxt (pcb (rx_net x)) = rcv_nxt (pcb n) + of_nat (c + of_bool f)
    \<and> unat (rcv_wnd (pcb (rx_net x))) = w - c - of_bool f \<and> rx_flags x = (if f then TF_GOT_FIN else 0)
    \<and> recv_frame (pcb n) (pcb (rx_net x)) \<and> pcb_freed (rx_net x) = pcb_freed n"
proof -
  have w16: "w < 65536" using w by simp
  have L: "unat (is_len s) = length D" using s(2,4) by (simp add: unat_of_nat_u16)
  have fin: "TCP_TCPLEN s = of_nat (length D + of_bool (is_flags s AND TCP_FIN \<noteq> 0))"
    using s(2) fin_syn_bits(1) [OF syn] by (simp add: TCP_TCPLEN_def)
  then have tl: "unat (TCP_TCPLEN s) = length D + of_bool (is_flags s AND TCP_FIN \<noteq> 0)"
    using s(4) by (cases "is_flags s AND TCP_FIN = 0") (simp_all add: unat_of_nat_u16 del: of_nat_add of_nat_Suc)
  have deliver: "\<exists>x. deliver_segment s' n = Inr x \<and> concat (rx_data x) = take c D
      \<and> rcv_nxt (pcb (rx_net x)) = rcv_nxt (pcb n) + of_nat (c + of_bool f)
      \<and> unat (rcv_wnd (pcb (rx_net x))) = w - c - of_bool f \<and> rx_flags x = (if f then TF_GOT_FIN else 0)
      \<and> recv_frame (pcb n) (pcb (rx_net x)) \<and> pcb_freed (rx_net x) = pcb_freed n"
    if s': "is_seqno s' = rcv_nxt (pcb n)" "unat (TCP_TCPLEN s') = c + of_bool f" "concat (is_p s') = take c D"
      "is_flags s' AND TCP_FIN \<noteq> 0 \<longleftrightarrow> f" for s'
  proof -
    have le: "TCP_TCPLEN s' \<le> rcv_wnd (pcb n)" using s'(2) c f w by (auto simp: word_le_nat_alt)
    have "ucast (TCP_TCPLEN s') = (of_nat (c + of_bool f) :: u32)"
      unfolding s'(2) [symmetric] by simp
    moreover have "unat (rcv_wnd (pcb n) - TCP_TCPLEN s') = w - (c + of_bool f)"
      using unat_sub_u16 [OF le] s'(2) w by simp
    moreover have "concat (if tot_len (is_p s') > 0 then is_p s' else []) = take c D"
      using s'(3) by (auto simp: tot_len_concat)
    ultimately show ?thesis using le s'(1,4) by (simp add: deliver_segment_def Let_def)
  qed
  show ?thesis
  proof (cases "TCP_TCPLEN s > rcv_wnd (pcb n)")
    case True
    define s' where "s' = s\<lparr>is_flags := is_flags s AND NOT TCP_FIN, is_len := rcv_wnd (pcb n),
      is_p := pbuf_realloc w (is_p s)\<rparr>"
    have more: "w < length D + of_bool (is_flags s AND TCP_FIN \<noteq> 0)"
      using True tl w by (simp add: word_less_nat_alt)
    then have cw: "c = w" "\<not> f" using c f by (auto split: if_splits)
    have len: "TCP_TCPLEN s' = rcv_wnd (pcb n)" using fin_syn_bits(4) [OF syn] by (simp add: s'_def TCP_TCPLEN_def)
    have "trim_to_window (pcb n) s = Inr s'"
      using True fin_syn_bits(3) [OF syn] len s(1) w by (simp add: trim_to_window_def s'_def Let_def)
    moreover have "is_flags s' AND TCP_FIN = 0" using fin_syn_bits(2) [OF syn] by (simp add: s'_def)
    moreover have "concat (is_p s') = take c D" using s(3) cw by (simp add: s'_def pbuf_realloc_concat)
    moreover have "is_seqno s' = rcv_nxt (pcb n)" using s(1) by (simp add: s'_def)
    ultimately show ?thesis using deliver [of s'] len cw w by (simp add: receive_in_sequence_def)
  next
    case False
    then have "length D + of_bool (is_flags s AND TCP_FIN \<noteq> 0) \<le> w" using tl w by (simp add: word_less_nat_alt)
    then have cf: "c = length D" "f \<longleftrightarrow> is_flags s AND TCP_FIN \<noteq> 0" using c f by (auto split: if_splits)
    have "trim_to_window (pcb n) s = Inr s" using False by (simp add: trim_to_window_def)
    moreover have "unat (TCP_TCPLEN s) = c + of_bool f" unfolding tl cf ..
    moreover have "concat (is_p s) = take c D" using s(3) cf(1) by simp
    moreover have "is_flags s AND TCP_FIN \<noteq> 0 \<longleftrightarrow> f" using cf(2) by simp
    ultimately show ?thesis using deliver [OF s(1)] by (simp only: receive_in_sequence_def sum.case)
  qed
qed

text \<open>How much of a segment is new and fits, and whether its FIN is taken.\<close>

definition covers :: "nat \<Rightarrow> nat \<Rightarrow> nat \<Rightarrow> bool" where
  "covers k L r \<longleftrightarrow> k \<le> r \<and> r \<le> k + L"

definition taken :: "nat \<Rightarrow> nat \<Rightarrow> nat \<Rightarrow> nat \<Rightarrow> nat" where
  "taken k L r w = (if covers k L r then min (k + L - r) w else 0)"

definition fin_taken :: "bool \<Rightarrow> nat \<Rightarrow> nat \<Rightarrow> nat \<Rightarrow> nat \<Rightarrow> bool" where
  "fin_taken F k L r w \<longleftrightarrow> F \<and> covers k L r \<and> k + L - r < w"

text \<open>What the data half of \<open>tcp_receive\<close> makes of a segment of the stream.\<close>

definition received :: "bytes \<Rightarrow> u32 \<Rightarrow> nat \<Rightarrow> nat \<Rightarrow> bool \<Rightarrow> net \<Rightarrow> rx \<Rightarrow> bool" where
  "received S b r c f n x \<longleftrightarrow>
     concat (rx_data x) = take c (drop r S)
     \<and> rcv_nxt (pcb (rx_net x)) = b + of_nat (r + c + of_bool f)
     \<and> unat (rcv_wnd (pcb (rx_net x))) = unat (rcv_wnd (pcb n)) - c - of_bool f
     \<and> rx_flags x = (if f then TF_GOT_FIN else 0)
     \<and> recv_frame (pcb n) (pcb (rx_net x)) \<and> pcb_freed (rx_net x) = pcb_freed n"

lemma segment_tcplen:
  assumes "segment_of S b k L i"
  shows "unat (in_tcplen i) = L + of_bool (fin_of i)"
proof -
  have "in_tcplen i = of_nat (L + of_bool (fin_of i))" using assms by (simp add: segment_of_def)
  moreover have "L + of_bool (fin_of i) < 65536" using assms by (auto simp: segment_of_def)
  ultimately show ?thesis by (simp only: unat_of_nat_u16)
qed

lemma trim_front_result:
  assumes "segment_of S b k L i" "k < r" "r \<le> k + L" 
  shows "\<exists>s. trim_front (b + of_nat r) (inseg_of i) = Inr s \<and> is_seqno s = b + of_nat r
    \<and> is_len s = of_nat (k + L - r) \<and> concat (is_p s) = take (k + L - r) (drop r S)
    \<and> is_flags s = in_flags i"
proof -
  have L: "L < 32767" "k + L \<le> length S" and c: "concat (in_p i) = take L (drop k S)"
    and sq: "in_seqno i = b + of_nat k" using assms(1) by (auto simp: segment_of_def)
  have tot: "tot_len (in_p i) = L" using L c by (simp add: tot_len_concat)
  have small: "\<bar>int r - int k\<bar> < 2 ^ 31" using assms(2,3) L by simp
  have off: "nat (sint (b + of_nat r - in_seqno i)) = r - k"
    unfolding sq sint_diff [OF small] using assms(2) by simp
  have "in_p i \<noteq> []" using tot assms(2,3) by (auto simp: tot_len_def)
  moreover have "r - k \<le> tot_len (in_p i)" using tot assms(3) by simp
  ultimately obtain qs where qs: "skip_bytes (r - k) (in_p i) = Inr qs" "concat qs = drop (r - k) (take L (drop k S))"
    using skip_bytes_concat c by metis
  have d: "drop (r - k) (take L (drop k S)) = take (k + L - r) (drop r S)"
    using assms(2,3) by (simp add: drop_take add.commute)
  have "(ucast (b + of_nat r - in_seqno i) :: u16) = of_nat (r - k)"
  proof -
    have "b + of_nat r - in_seqno i = of_nat (r - k)" using sq assms(2) by (simp add: of_nat_diff)
    moreover have "take_bit 32 (r - k) = r - k"
      by (rule take_bit_nat_eq_self) (use assms(3) L in simp)
    ultimately show ?thesis by (simp add: unsigned_of_nat)
  qed
  then have "of_nat L - (ucast (b + of_nat r - in_seqno i) :: u16) = of_nat (k + L - r)"
    using assms(2,3) by (simp add: of_nat_diff algebra_simps)
  moreover have "\<not> 32767 \<le> r - k" "\<not> L < r - k" using assms(3) L by linarith+
  ultimately show ?thesis
    using qs off tot d unfolding trim_front_def Let_def
    by (simp add: inseg_of_def)
qed

lemma seq_between_near:
  fixes b :: u32
  assumes "\<bar>int x - int y\<bar> < 2 ^ 31" "\<bar>int x - int z\<bar> < 2 ^ 31"
  shows "seq_between (b + of_nat x) (b + of_nat y) (b + of_nat z) \<longleftrightarrow> y \<le> x \<and> x \<le> z"
  using seq_compare(1) [OF assms(2), of b] seq_compare(3) [OF assms(1), of b] by (auto simp: seq_between_def)

lemma in_window_near:
  fixes b :: u32
  assumes near: "near k r" and w: "w \<le> 65535"
  shows "seq_between (b + of_nat k) (b + of_nat r) (b + of_nat r + of_nat w - 1) \<longleftrightarrow> r \<le> k \<and> k < r + w"
proof -
  have d: "\<bar>int k - int r\<bar> < 2 ^ 30" using near unfolding near_def by (auto simp: abs_less_iff)
  show ?thesis
  proof (cases w)
    case 0
    have "b + of_nat k - (b + of_nat r - 1) = of_nat (Suc k) + b - (of_nat r + b)" by simp
    have "seq_leq (b + of_nat k) (b + of_nat r + of_nat w - 1) \<longleftrightarrow> sint (b + of_nat (Suc k) - (b + of_nat r)) \<le> 0"
      by (simp add: seq_leq_def 0 algebra_simps)
    also have "sint (b + of_nat (Suc k) - (b + of_nat r)) = int (Suc k) - int r"
      by (rule sint_diff) (use d in simp)
    finally show ?thesis using seq_compare(3) [of k r b] d 0 by (auto simp: seq_between_def)
  next
    case (Suc v)
    have "b + of_nat r + of_nat w - 1 = b + of_nat (r + v)" by (simp add: Suc)
    moreover have "\<bar>int k - int r\<bar> < 2 ^ 31" "\<bar>int k - int (r + v)\<bar> < 2 ^ 31" using d w Suc by simp_all
    ultimately show ?thesis using seq_between_near [of k r "r + v" b] Suc by auto
  qed
qed

lemma receive_data_result:
  assumes seg: "segment_of S b k L i" and r: "rcv_nxt (pcb n) = b + of_nat r" "near k r" "r \<le> length S"
    and st: "pcb_state (pcb n) < CLOSE_WAIT"
    and w: "w = unat (rcv_wnd (pcb n))"
  shows "\<exists>x. tcp_receive_data i n = Inr x \<and> received S b r (taken k L r w) (fin_taken (fin_of i) k L r w) n x"
proof -
  let ?none = "\<lambda>m. Inr \<lparr>rx_net = m, rx_data = [], rx_flags = 0\<rparr> :: rx checked"
  have w16: "w \<le> 65535" unfolding w using unat_u16_less [of "rcv_wnd (pcb n)"] by linarith
  have sq: "in_seqno i = b + of_nat k" and S: "k + L \<le> length S" "L < 32767"
    and syn: "in_flags i AND TCP_SYN = 0" and c: "concat (in_p i) = take L (drop k S)"
    using seg by (auto simp: segment_of_def)
  have tl: "unat (in_tcplen i) = L + of_bool (fin_of i)" by (rule segment_tcplen [OF seg])
  have near: "\<bar>int r - int k\<bar> < 2 ^ 30" using r(2) unfolding near_def by (auto simp: abs_less_iff)
  have none: "received S b r 0 False n \<lparr>rx_net = m, rx_data = [], rx_flags = 0\<rparr>"
    if "rcv_nxt (pcb m) = rcv_nxt (pcb n)" "rcv_wnd (pcb m) = rcv_wnd (pcb n)" "recv_frame (pcb n) (pcb m)" "pcb_freed m = pcb_freed n" for m
    using that r(1) w by (simp add: received_def)
  have win: "seq_between (b + of_nat j) (rcv_nxt (pcb n)) (rcv_nxt (pcb n) + ucast (rcv_wnd (pcb n)) - 1) \<longleftrightarrow> r \<le> j \<and> j < r + w"
    if "near j r" for j
  proof -
    have "(ucast (rcv_wnd (pcb n)) :: u32) = of_nat w" by (simp add: w)
    then show ?thesis using in_window_near [OF that w16, of b] by (simp add: r(1))
  qed
  show ?thesis
  proof (cases "in_tcplen i > 0")
    case False
    then have "L = 0" "\<not> fin_of i" using tl by (auto simp: word_gt_0 split: if_splits)
    then have t: "taken k L r w = 0" "\<not> fin_taken (fin_of i) k L r w" by (auto simp: taken_def covers_def fin_taken_def)
    have "\<exists>m. tcp_receive_data i n = ?none m \<and> rcv_nxt (pcb m) = rcv_nxt (pcb n) \<and> rcv_wnd (pcb m) = rcv_wnd (pcb n)
        \<and> recv_frame (pcb n) (pcb m) \<and> pcb_freed m = pcb_freed n"
      using False by (auto simp: tcp_receive_data_def Let_def)
    then show ?thesis using none t by auto
  next
    case True
    then have one: "1 \<le> L + of_bool (fin_of i)" using tl by (metis word_gt_0 unat_pos One_nat_def Suc_leI)
    have front: "seq_between (rcv_nxt (pcb n)) (in_seqno i + 1) (in_seqno i + ucast (in_tcplen i) - 1)
        \<longleftrightarrow> k < r \<and> r < k + (L + of_bool (fin_of i))"
    proof -
      have "(ucast (in_tcplen i) :: u32) = of_nat (L + of_bool (fin_of i))" unfolding tl [symmetric] by simp
      moreover obtain v where v: "L + of_bool (fin_of i) = Suc v" using one by (cases "L + of_bool (fin_of i)") auto
      ultimately have e: "in_seqno i + ucast (in_tcplen i) - 1 = b + of_nat (k + v)" "in_seqno i + 1 = b + of_nat (Suc k)"
        by (simp_all add: sq)
      have "v \<le> L" using v by (cases "fin_of i") auto
      then have "\<bar>int r - int (Suc k)\<bar> < 2 ^ 31" "\<bar>int r - int (k + v)\<bar> < 2 ^ 31" using near S(2) by simp_all
      then show ?thesis using seq_between_near [of r "Suc k" "k + v" b] v unfolding e r(1) by auto
    qed
    have finish: "\<exists>x. receive_in_sequence s n = Inr x
        \<and> received S b r (taken k L r w) (fin_taken (fin_of i) k L r w) n x"
      if cv: "covers k L r" and s: "is_seqno s = b + of_nat r" "is_len s = of_nat (k + L - r)"
        "concat (is_p s) = take (k + L - r) (drop r S)" "is_flags s = in_flags i" for s
    proof -
      define D where "D = take (k + L - r) (drop r S)"
      have D: "length D = k + L - r" "k + L - r < 32767" using cv S by (auto simp: D_def covers_def)
      have f: "fin_taken (fin_of i) k L r w \<longleftrightarrow> is_flags s AND TCP_FIN \<noteq> 0 \<and> length D < w"
        using cv s(4) D(1) by (simp add: fin_taken_def fin_of_def)
      have t: "taken k L r w = min (length D) w" using cv D(1) by (simp add: taken_def)
      have "take (taken k L r w) D = take (taken k L r w) (drop r S)" using t D(1) by (simp add: D_def)
      moreover have "\<exists>x. receive_in_sequence s n = Inr x \<and> concat (rx_data x) = take (taken k L r w) D
          \<and> rcv_nxt (pcb (rx_net x)) = rcv_nxt (pcb n) + of_nat (taken k L r w + of_bool (fin_taken (fin_of i) k L r w))
          \<and> unat (rcv_wnd (pcb (rx_net x))) = w - taken k L r w - of_bool (fin_taken (fin_of i) k L r w)
          \<and> rx_flags x = (if fin_taken (fin_of i) k L r w then TF_GOT_FIN else 0)
          \<and> recv_frame (pcb n) (pcb (rx_net x)) \<and> pcb_freed (rx_net x) = pcb_freed n"
        by (rule in_sequence_result [OF _ _ _ _ _ w f t]) (use s D syn r(1) in \<open>simp_all add: D_def\<close>)
      ultimately show ?thesis by (auto simp: received_def r(1) w algebra_simps)
    qed
    consider (trim) "k < r" "r \<le> k + L" "r < k + (L + of_bool (fin_of i))" | (exact) "k = r"
      | (other) "\<not> covers k L r \<or> (r = k + L \<and> \<not> fin_of i \<and> 0 < L)"
    proof -
      have "\<not> covers k L r \<or> (r = k + L \<and> \<not> fin_of i \<and> 0 < L)"
        if "k \<noteq> r" "\<not> (k < r \<and> r \<le> k + L \<and> r < k + (L + of_bool (fin_of i)))"
        using that by (cases "fin_of i") (auto simp: covers_def)
      then show thesis using that by blast
    qed
    then show ?thesis
    proof cases
      case trim
      obtain s where s: "trim_front (b + of_nat r) (inseg_of i) = Inr s" "is_seqno s = b + of_nat r"
        "is_len s = of_nat (k + L - r)" "concat (is_p s) = take (k + L - r) (drop r S)" "is_flags s = in_flags i"
        using trim_front_result [OF seg trim(1,2)] by auto
      have here: "tcp_receive_data i n = (if 0 < w then receive_in_sequence s n else ?none (snd (tcp_send_empty_ack n)))"
        using True st front trim s(1,2) win [of r] r(1) by (auto simp: tcp_receive_data_def Let_def inseg_of_def near_def)
      have cv: "covers k L r" using trim by (simp add: covers_def)
      show ?thesis
      proof (cases "0 < w")
        case True
        then show ?thesis using finish [OF cv s(2-5)] here by simp
      next
        case False
        then show ?thesis using here none [of "snd (tcp_send_empty_ack n)"] by (simp add: taken_def fin_taken_def)
      qed
    next
      case exact
      have here: "tcp_receive_data i n
          = (if 0 < w then receive_in_sequence (inseg_of i) n else ?none (snd (tcp_send_empty_ack n)))"
        using True st front exact win [of r] r(1) sq seq_compare(2) [of r r b]
        by (auto simp: tcp_receive_data_def Let_def inseg_of_def near_def)
      have cv: "covers k L r" using exact by (simp add: covers_def)
      have tot: "tot_len (in_p i) = L" using c S by (simp add: tot_len_concat)
      have s: "is_seqno (inseg_of i) = b + of_nat r" "is_len (inseg_of i) = of_nat (k + L - r)"
        "concat (is_p (inseg_of i)) = take (k + L - r) (drop r S)" "is_flags (inseg_of i) = in_flags i"
        using exact sq c tot by (simp_all add: inseg_of_def)
      show ?thesis
      proof (cases "0 < w")
        case True
        then show ?thesis using finish [OF cv s] here by simp
      next
        case False
        then show ?thesis using here none [of "snd (tcp_send_empty_ack n)"] by (simp add: taken_def fin_taken_def)
      qed
    next
      case other
      then have t: "taken k L r w = 0" "\<not> fin_taken (fin_of i) k L r w"
        by (auto simp: taken_def covers_def fin_taken_def)
      have nf: "\<not> (k < r \<and> r < k + (L + of_bool (fin_of i)))" using other by (cases "fin_of i") (auto simp: covers_def)
      have ne: "b + of_nat r \<noteq> b + of_nat k"
        using seq_compare(4) [of r k b] near other by (auto simp: covers_def)
      have "\<exists>m. tcp_receive_data i n = ?none m \<and> rcv_nxt (pcb m) = rcv_nxt (pcb n) \<and> rcv_wnd (pcb m) = rcv_wnd (pcb n)
          \<and> recv_frame (pcb n) (pcb m) \<and> pcb_freed m = pcb_freed n"
      proof (cases "seq_lt (in_seqno i) (rcv_nxt (pcb n))")
        case True2: True
        show ?thesis
          using True st front nf True2 ne sq r(1)
          by (intro exI [of _ "snd (tcp_send_empty_ack (map_pcb tcp_ack_now n))"])
             (auto simp: tcp_receive_data_def Let_def inseg_of_def)
      next
        case False
        then show ?thesis
          using True st front nf ne sq r(1)
          by (intro exI [of _ "snd (tcp_send_empty_ack n)"]) (auto simp: tcp_receive_data_def Let_def inseg_of_def)
      qed
      then show ?thesis using none t by auto
    qed
  qed
qed

end
