(* ===== verification/Tcp_Process.thy ===== *)
theory Tcp_Process
  imports Tcp_Recv
begin

text \<open>
  The state machine of a connection, \<open>tcp_process\<close> (\<^verbatim>\<open>lwip/src/core/tcp_in.c\<close>), and what
  \<open>tcp_input\<close> does with its result: the callbacks, refused data and the end of the connection. The
  callbacks are parameters; a log records the calls.
\<close>

subsection \<open>Callbacks\<close>

text \<open>
  A callback returns an error code and may change the connection. \<open>on_accept\<close> and \<open>on_connected\<close>
  may be null pointers; for the others the pcb says so. \<open>route_mtu\<close> is the MTU of the interface
  the route to the peer takes, \<open>None\<close> without a route.
\<close>

type_synonym callback = "net \<Rightarrow> err_t \<times> net"

record tcp_env =
  on_accept :: "callback option"
  on_connected :: "callback option"
  on_sent :: "u16 \<Rightarrow> callback"
  on_recv :: "bytes list \<Rightarrow> callback"
  on_closed :: callback
  route_mtu :: "u16 option"

text \<open>
  The events: data with the answer, the end of the data, and a call of the error callback with its code.
  Where no receive callback is set the events are logged too, with the answer of the default.
\<close>

datatype upcall = Recv_up "bytes list" err_t | Closed_up | Err_up err_t

definition tcp_eff_send_mss :: "tcp_env \<Rightarrow> u16 \<Rightarrow> u16" where
  "tcp_eff_send_mss env sendmss =
     (case route_mtu env of
        Some mtu \<Rightarrow> if mtu \<noteq> 0 then min sendmss (mtu - 20 - 20) else sendmss
      | None \<Rightarrow> sendmss)"

subsection \<open>The state machine\<close>

text \<open>
  The result: \<open>tcp_process\<close> returns \<open>pr_err\<close>; \<open>rx_data\<close> and \<open>rx_flags\<close> are the globals \<open>recv_data\<close> and
  \<open>recv_flags\<close>, and \<open>pr_log\<close> the calls of the error callback.
\<close>

record processed = rx +
  pr_err :: err_t
  pr_log :: "upcall list"

definition outcome :: "err_t \<Rightarrow> net \<Rightarrow> processed" where
  "outcome e n = \<lparr>rx_net = n, rx_data = [], rx_flags = 0, pr_err = e, pr_log = []\<rparr>"

definition ok_rx :: "rx \<Rightarrow> processed" where
  "ok_rx x = \<lparr>rx_net = rx_net x, rx_data = rx_data x, rx_flags = rx_flags x, pr_err = ERR_OK, pr_log = []\<rparr>"

definition reset_peer :: "tcp_input \<Rightarrow> net \<Rightarrow> net" where
  "reset_peer i n = tcp_rst (in_ackno i) (in_seqno i + ucast (in_tcplen i)) n"

definition has :: "u8 \<Rightarrow> tcp_input \<Rightarrow> bool" where
  "has f i \<longleftrightarrow> in_flags i AND f \<noteq> 0"

definition process_rst :: "tcp_input \<Rightarrow> net \<Rightarrow> processed checked" where
  "process_rst i n =
     (let p = pcb n;
          acceptable = (if pcb_state p = SYN_SENT then in_ackno i = snd_nxt p
                        else seq_between (in_seqno i) (rcv_nxt p) (rcv_nxt p + ucast (rcv_wnd p)))
      in if acceptable then
           (if pcb_state p = CLOSED then Inl Assert_failed
            else Inr ((outcome ERR_RST (map_pcb (clear_flag TF_ACK_DELAY) n))\<lparr>rx_flags := TF_RESET\<rparr>))
         else Inr (outcome ERR_OK n))"

text \<open>The pcb after the peer has acknowledged our SYN.\<close>

definition syn_acked :: "tcp_env \<Rightarrow> tcp_input \<Rightarrow> tcp_pcb \<Rightarrow> tcp_pcb" where
  "syn_acked env i p =
     (let p = p\<lparr>snd_buf := snd_buf p + 1, rcv_nxt := in_seqno i + 1, rcv_ann_right_edge := in_seqno i + 1,
                lastack := in_ackno i, snd_wnd := in_wnd i, snd_wnd_max := in_wnd i,
                snd_wl1 := in_seqno i - 1, pcb_state := ESTABLISHED,
                pcb_mss := tcp_eff_send_mss env (pcb_mss p)\<rparr>;
          p = p\<lparr>ssthresh := pcb_mss p * 10, cwnd := (if cwnd p = 1 then pcb_mss p * 2 else pcb_mss p)\<rparr>;
          p = p\<lparr>snd_queuelen := snd_queuelen p - 1, unacked := tl (unacked p)\<rparr>
      in if unacked p = [] then p\<lparr>rtime := - 1\<rparr> else p\<lparr>rtime := 0, nrtx := 0\<rparr>)"

definition process_syn_sent :: "tcp_env \<Rightarrow> tcp_input \<Rightarrow> net \<Rightarrow> processed checked" where
  "process_syn_sent env i n =
     (let p = pcb n in
      if has TCP_ACK i \<and> has TCP_SYN i \<and> unacked p = [] then Inl Null_deref
      else if has TCP_ACK i \<and> has TCP_SYN i \<and> in_ackno i = seg_seqno (hd (unacked p)) + 1 then
        (if snd_queuelen p = 0 then Inl Assert_failed
         else
           let m = n\<lparr>pcb := syn_acked env i p\<rparr>
           in (case (case on_connected env of None \<Rightarrow> (ERR_OK, m) | Some f \<Rightarrow> f m) of
                 (err, m) \<Rightarrow>
                   if err = ERR_ABRT then Inr (outcome ERR_ABRT m)
                   else Inr (outcome ERR_OK (map_pcb tcp_ack_now m))))
      else if has TCP_ACK i then Inr (outcome ERR_OK (reset_peer i n))
      else Inr (outcome ERR_OK n))"

text \<open>\<open>tcp_abort\<close> calls the error callback when it is set.\<close>

definition abort_pcb :: "net \<Rightarrow> net \<times> upcall list" where
  "abort_pcb n =
     (case tcp_abort n of (n, errf) \<Rightarrow> (n, case errf of Some _ \<Rightarrow> [Err_up ERR_ABRT] | None \<Rightarrow> []))"

definition got_fin :: "rx \<Rightarrow> bool" where
  "got_fin x \<longleftrightarrow> rx_flags x AND TF_GOT_FIN \<noteq> 0"

definition to_state :: "tcp_state \<Rightarrow> rx \<Rightarrow> rx" where
  "to_state st x = x\<lparr>rx_net := map_pcb (\<lambda>p. (tcp_ack_now p)\<lparr>pcb_state := st\<rparr>) (rx_net x)\<rparr>"

text \<open>The accept callback has taken the connection.\<close>

definition accepted :: "tcp_input \<Rightarrow> net \<Rightarrow> processed checked" where
  "accepted i n =
     (let old_cwnd = cwnd (pcb n) in
      case tcp_receive i n of
        Inl e \<Rightarrow> Inl e
      | Inr x \<Rightarrow>
          let x = x\<lparr>rx_net := map_pcb (\<lambda>p. let p = (if pcb_acked p \<noteq> 0 then p\<lparr>pcb_acked := pcb_acked p - 1\<rparr> else p)
                        in p\<lparr>cwnd := (if old_cwnd = 1 then pcb_mss p * 2 else pcb_mss p)\<rparr>) (rx_net x)\<rparr>
          in Inr (ok_rx (if got_fin x then to_state CLOSE_WAIT x else x)))"

definition process_syn_rcvd :: "tcp_env \<Rightarrow> tcp_input \<Rightarrow> net \<Rightarrow> processed checked" where
  "process_syn_rcvd env i n =
     (if has TCP_ACK i then
        (if seq_between (in_ackno i) (lastack (pcb n) + 1) (snd_nxt (pcb n)) then
           (case on_accept env of
              None \<Rightarrow> Inl Assert_failed
            | Some f \<Rightarrow>
                (case f (map_pcb (\<lambda>p. p\<lparr>pcb_state := ESTABLISHED\<rparr>) n) of
                   (err, n) \<Rightarrow>
                     if err \<noteq> ERR_OK then
                       (if err \<noteq> ERR_ABRT
                        then (case abort_pcb n of (n, log) \<Rightarrow> Inr ((outcome ERR_ABRT n)\<lparr>pr_log := log\<rparr>))
                        else Inr (outcome ERR_ABRT n))
                     else accepted i n))
         else Inr (outcome ERR_OK (reset_peer i n)))
      else if has TCP_SYN i \<and> in_seqno i = rcv_nxt (pcb n) - 1 then Inr (outcome ERR_OK (map_pcb tcp_rexmit n))
      else Inr (outcome ERR_OK n))"

text \<open>The states that call \<open>tcp_receive\<close> first, and what they do after it.\<close>

definition enter_time_wait :: "rx \<Rightarrow> rx" where
  "enter_time_wait x = x\<lparr>rx_net := map_pcb (\<lambda>p. (tcp_pcb_purge p)\<lparr>pcb_state := TIME_WAIT\<rparr>) (rx_net x)\<rparr>"

definition acks_all :: "tcp_input \<Rightarrow> rx \<Rightarrow> bool" where
  "acks_all i x \<longleftrightarrow> has TCP_ACK i \<and> in_ackno i = snd_nxt (pcb (rx_net x))"

definition ack_rx :: "rx \<Rightarrow> rx" where
  "ack_rx x = x\<lparr>rx_net := map_pcb tcp_ack_now (rx_net x)\<rparr>"

definition after_receive :: "tcp_state \<Rightarrow> tcp_input \<Rightarrow> rx \<Rightarrow> rx" where
  "after_receive st i x =
     (if st = FIN_WAIT_1 then
        (if got_fin x then (if acks_all i x then enter_time_wait (ack_rx x) else to_state CLOSING x)
         else if acks_all i x then x\<lparr>rx_net := map_pcb (\<lambda>p. p\<lparr>pcb_state := FIN_WAIT_2\<rparr>) (rx_net x)\<rparr>
         else x)
      else if st = FIN_WAIT_2 then (if got_fin x then enter_time_wait (ack_rx x) else x)
      else if st = CLOSING then (if acks_all i x then enter_time_wait x else x)
      else if st = LAST_ACK then (if acks_all i x then x\<lparr>rx_flags := rx_flags x OR TF_CLOSED\<rparr> else x)
      else (if got_fin x then to_state CLOSE_WAIT x else x))"

definition tcp_process :: "tcp_env \<Rightarrow> tcp_input \<Rightarrow> net \<Rightarrow> processed checked" where
  "tcp_process env i n =
     (let st = pcb_state (pcb n) in
      if has TCP_RST i then process_rst i n
      else if has TCP_SYN i \<and> st \<noteq> SYN_SENT \<and> st \<noteq> SYN_RCVD then Inr (outcome ERR_OK (map_pcb tcp_ack_now n))
      else
        let p = pcb n;
            p = (if pcb_flags p AND TF_RXCLOSED = 0 then p\<lparr>pcb_tmr := tcp_ticks n\<rparr> else p);
            p = p\<lparr>keep_cnt_sent := 0\<rparr>
        in (case tcp_parseopt i p of
              Inl e \<Rightarrow> Inl e
            | Inr p \<Rightarrow>
                let n = n\<lparr>pcb := p\<rparr>
                in if st = SYN_SENT then process_syn_sent env i n
                   else if st = SYN_RCVD then process_syn_rcvd env i n
                   else if st = CLOSED \<or> st = LISTEN \<or> st = TIME_WAIT then Inr (outcome ERR_OK n)
                   else map_sum id (\<lambda>x. ok_rx (after_receive st i x)) (tcp_receive i n)))"

subsection \<open>TIME-WAIT\<close>

definition tcp_timewait_input :: "tcp_input \<Rightarrow> net \<Rightarrow> err_t \<times> net" where
  "tcp_timewait_input i n =
     (let p = pcb n;
          ack = (\<lambda>n. if in_tcplen i > 0 then tcp_output (map_pcb tcp_ack_now n) else (ERR_OK, n))
      in if has TCP_RST i then (ERR_OK, n)
         else if has TCP_SYN i then
           (if seq_between (in_seqno i) (rcv_nxt p) (rcv_nxt p + ucast (rcv_wnd p))
            then (ERR_OK, reset_peer i n) else ack n)
         else ack (if has TCP_FIN i then map_pcb (\<lambda>p. p\<lparr>pcb_tmr := tcp_ticks n\<rparr>) n else n))"

subsection \<open>The callbacks of received data\<close>

definition tcp_event_recv :: "tcp_env \<Rightarrow> bytes list \<Rightarrow> callback" where
  "tcp_event_recv env data n =
     (if recv_cb (pcb n) then on_recv env data n else (ERR_OK, tcp_recved n (of_nat (tot_len data))))"

definition tcp_event_closed :: "tcp_env \<Rightarrow> callback" where
  "tcp_event_closed env n = (if recv_cb (pcb n) then on_closed env n else (ERR_OK, n))"

definition fin_credit :: "tcp_pcb \<Rightarrow> tcp_pcb" where
  "fin_credit p = (if rcv_wnd p \<noteq> TCP_WND then p\<lparr>rcv_wnd := rcv_wnd p + 1\<rparr> else p)"

definition signal_eof :: "tcp_env \<Rightarrow> net \<Rightarrow> err_t \<times> net \<times> upcall list" where
  "signal_eof env n =
     (case tcp_event_closed env (map_pcb fin_credit n) of
        (err, n') \<Rightarrow> (if err = ERR_ABRT then ERR_ABRT else ERR_OK, n', [Closed_up]))"

definition tcp_process_refused_data :: "tcp_env \<Rightarrow> net \<Rightarrow> (err_t \<times> net \<times> upcall list) checked" where
  "tcp_process_refused_data env n =
     (case refused_data (pcb n) of
        None \<Rightarrow> Inl Null_deref
      | Some (data, fin) \<Rightarrow>
          (case tcp_event_recv env data (map_pcb (\<lambda>p. p\<lparr>refused_data := None\<rparr>) n) of
             (err, n) \<Rightarrow>
               if err = ERR_OK then
                 (if fin then (case signal_eof env n of (err', n, log) \<Rightarrow> Inr (err', n, Recv_up data err # log))
                  else Inr (ERR_OK, n, [Recv_up data err]))
               else if err = ERR_ABRT then Inr (ERR_ABRT, n, [Recv_up data err])
               else Inr (ERR_OK, map_pcb (\<lambda>p. p\<lparr>refused_data := Some (data, fin)\<rparr>) n, [Recv_up data err])))"

text \<open>The end of a connection: the error callback, and the pcb goes back to its pool.\<close>

definition drop_pcb :: "err_t \<Rightarrow> net \<Rightarrow> net \<times> upcall list" where
  "drop_pcb err n = (memp_free_pcb (tcp_pcb_remove n), if err_cb (pcb n) then [Err_up err] else [])"

definition aborted :: "net \<Rightarrow> net" where
  "aborted n = n\<lparr>in_input := False\<rparr>"

definition input_eof :: "tcp_env \<Rightarrow> rx \<Rightarrow> net \<Rightarrow> err_t \<times> net \<times> upcall list" where
  "input_eof env x n =
     (if got_fin x then
        (case refused_data (pcb n) of
           Some (data, _) \<Rightarrow> (ERR_OK, map_pcb (\<lambda>p. p\<lparr>refused_data := Some (data, True)\<rparr>) n, [])
         | None \<Rightarrow> signal_eof env n)
      else (ERR_OK, n, []))"

definition input_recv :: "tcp_env \<Rightarrow> rx \<Rightarrow> net \<Rightarrow> (err_t \<times> net \<times> upcall list) checked" where
  "input_recv env x n =
     (if rx_data x = [] then Inr (ERR_OK, n, [])
      else if refused_data (pcb n) \<noteq> None then Inl Assert_failed
      else if pcb_flags (pcb n) AND TF_RXCLOSED \<noteq> 0
      then (case abort_pcb n of (n, log) \<Rightarrow> Inr (ERR_ABRT, n, log))
      else (case tcp_event_recv env (rx_data x) n of
              (err, n) \<Rightarrow>
                Inr (if err = ERR_ABRT then ERR_ABRT else ERR_OK,
                     if err \<noteq> ERR_OK \<and> err \<noteq> ERR_ABRT
                     then map_pcb (\<lambda>p. p\<lparr>refused_data := Some (rx_data x, False)\<rparr>) n else n,
                     [Recv_up (rx_data x) err])))"

definition input_sent :: "tcp_env \<Rightarrow> callback" where
  "input_sent env n =
     (if pcb_acked (pcb n) > 0 \<and> sent_cb (pcb n) then on_sent env (pcb_acked (pcb n)) n else (ERR_OK, n))"

definition input_deliver :: "tcp_env \<Rightarrow> rx \<Rightarrow> net \<Rightarrow> (net \<times> upcall list) checked" where
  "input_deliver env x n =
     (case input_sent env n of
        (err, n) \<Rightarrow>
          if err = ERR_ABRT then Inr (aborted n, [])
          else (case input_recv env x n of
                  Inl e \<Rightarrow> Inl e
                | Inr (err, n, log) \<Rightarrow>
                    if err = ERR_ABRT then Inr (aborted n, log)
                    else (case input_eof env x n of
                            (err, n, log') \<Rightarrow>
                              if err = ERR_ABRT then Inr (aborted n, log @ log')
                              else Inr (snd (tcp_output (n\<lparr>in_input := False\<rparr>)), log @ log'))))"

text \<open>The part of \<open>tcp_input\<close> for a segment of an active connection.\<close>

definition input_process :: "tcp_env \<Rightarrow> tcp_input \<Rightarrow> net \<Rightarrow> (net \<times> upcall list) checked" where
  "input_process env i n =
     (case tcp_process env i (n\<lparr>in_input := True\<rparr>) of
        Inl e \<Rightarrow> Inl e
      | Inr x \<Rightarrow>
          let n = rx_net x in
          if pr_err x = ERR_ABRT then Inr (aborted n, pr_log x)
          else if rx_flags x AND TF_RESET \<noteq> 0 then
            (case drop_pcb ERR_RST n of (n, log) \<Rightarrow> Inr (aborted n, log))
          else if rx_flags x AND TF_CLOSED \<noteq> 0 then
            (case drop_pcb ERR_CLSD n of
               (n', log) \<Rightarrow> Inr (aborted n', if pcb_flags (pcb n) AND TF_RXCLOSED = 0 then log else []))
          else input_deliver env (rx.truncate x) n)"

definition tcp_input_active :: "tcp_env \<Rightarrow> tcp_input \<Rightarrow> net \<Rightarrow> (net \<times> upcall list) checked" where
  "tcp_input_active env i n =
     (if refused_data (pcb n) = None then input_process env i n
      else (case tcp_process_refused_data env n of
              Inl e \<Rightarrow> Inl e
            | Inr (err, n, log) \<Rightarrow>
                if err = ERR_ABRT \<or> refused_data (pcb n) \<noteq> None \<and> in_tcplen i > 0 then Inr (aborted n, log)
                else map_sum id (\<lambda>(n, log'). (n, log @ log')) (input_process env i n)))"

text \<open>\<open>tcp_fasttmr\<close> for a connection.\<close>

definition tcp_fasttmr :: "tcp_env \<Rightarrow> net \<Rightarrow> (net \<times> upcall list) checked" where
  "tcp_fasttmr env n =
     (let n = (if pcb_flags (pcb n) AND TF_ACK_DELAY \<noteq> 0
               then map_pcb (clear_flag (TF_ACK_DELAY OR TF_ACK_NOW)) (snd (tcp_output (map_pcb tcp_ack_now n))) else n)
      in if refused_data (pcb n) = None then Inr (n, [])
         else map_sum id (\<lambda>(_, n, log). (n, log)) (tcp_process_refused_data env n))"

end
