(* ===== verification/Tcp_Slow.thy ===== *)
theory Tcp_Slow
  imports Tcp_Process
begin

text \<open>
  The slow timer of TCP, \<open>tcp_slowtmr\<close> (\<^verbatim>\<open>lwip/src/core/tcp.c\<close>), for one connection: the zero-window
  probe, the retransmission with its back-off, the states a connection may not stay in, and the poll
  callback. The keep-alive part needs the option \<open>SOF_KEEPALIVE\<close>, which nothing in the repository sets.
\<close>

subsection \<open>Zero-window probes\<close>

text \<open>\<open>pbuf_copy_partial\<close> of one byte: none is copied behind the end of the chain.\<close>

definition tcp_zero_window_probe :: "net \<Rightarrow> net" where
  "tcp_zero_window_probe n =
     (case unacked (pcb n) @ unsent (pcb n) of
        [] \<Rightarrow> n
      | seg # _ \<Rightarrow>
          let is_fin = (seg_hdrflags seg AND TCP_FIN \<noteq> 0 \<and> seg_len seg = 0);
              d = (if is_fin then [] else take 1 (concat (seg_p seg)))
          in case alloc (net_heap n) of
               (False, h) \<Rightarrow> n\<lparr>net_heap := h\<rparr>
             | (True, h) \<Rightarrow>
                 let p = (pcb n)\<lparr>rcv_ann_right_edge := rcv_nxt (pcb n) + ucast (rcv_ann_wnd (pcb n))\<rparr>
                 in ip_output (Probe_frame (seg_seqno seg) is_fin d (rcv_nxt p) (rcv_ann_wnd p))
                      (n\<lparr>net_heap := h, pcb := p\<rparr>))"

definition tcp_persist_backoff :: "u8 list" where
  "tcp_persist_backoff = [3, 6, 12, 24, 48, 96, 120]"

definition slow_persist :: "net \<Rightarrow> net checked" where
  "slow_persist n =
     (let n = map_pcb (\<lambda>p. p\<lparr>persist_cnt := persist_cnt p + 1\<rparr>) n;
          k = unat (persist_backoff (pcb n)) - 1
      in if k \<ge> length tcp_persist_backoff then Inl Oob_read
         else if persist_cnt (pcb n) \<ge> tcp_persist_backoff ! k then
           Inr (tcp_zero_window_probe
             (map_pcb (\<lambda>p. p\<lparr>persist_cnt := 0,
                persist_backoff := (if persist_backoff p < 7 then persist_backoff p + 1 else persist_backoff p)\<rparr>) n))
         else Inr n)"

subsection \<open>Retransmission\<close>

definition tcp_backoff :: "nat list" where
  "tcp_backoff = [1, 2, 3, 4, 5, 6, 7, 7, 7, 7, 7, 7, 7]"

definition TCP_MAXRTX :: u8 where "TCP_MAXRTX = 12"
definition TCP_SYNMAXRTX :: u8 where "TCP_SYNMAXRTX = 6"

definition cut_cwnd :: "tcp_pcb \<Rightarrow> tcp_pcb" where
  "cut_cwnd p =
     (let eff_wnd = min (cwnd p) (snd_wnd p);
          p = p\<lparr>rtime := 0, ssthresh := drop_bit 1 eff_wnd\<rparr>;
          p = (if unat (ssthresh p) < 2 * unat (pcb_mss p) then p\<lparr>ssthresh := push_bit 1 (pcb_mss p)\<rparr> else p)
      in p\<lparr>cwnd := pcb_mss p\<rparr>)"

definition slow_rexmit :: "net \<Rightarrow> net checked" where
  "slow_rexmit n =
     (let n = map_pcb (\<lambda>p. if rtime p \<ge> 0 then p\<lparr>rtime := signed_take_bit 15 (rtime p + 1)\<rparr> else p) n;
          p = pcb n
      in if unacked p \<noteq> [] \<and> rtime p \<ge> sint (rto p) then
           (if pcb_state p \<noteq> SYN_SENT \<and> unat (nrtx p) \<ge> length tcp_backoff then Inl Oob_read
            else
              let n = map_pcb (\<lambda>p. if pcb_state p \<noteq> SYN_SENT
                    then p\<lparr>rto := push_bit (tcp_backoff ! unat (nrtx p)) (signed_drop_bit 3 (pcb_sa p) + pcb_sv p)\<rparr>
                    else p) n
              in Inr (tcp_rexmit_rto (map_pcb cut_cwnd n)))
         else Inr n)"

subsection \<open>The timer\<close>

text \<open>\<open>rexmit_limit\<close>: too many retransmissions. \<open>stuck\<close>: too long in a state; the times are in ticks of 500 ms.\<close>

definition rexmit_limit :: "tcp_pcb \<Rightarrow> bool" where
  "rexmit_limit p \<longleftrightarrow> (pcb_state p = SYN_SENT \<and> nrtx p = TCP_SYNMAXRTX) \<or> nrtx p = TCP_MAXRTX"

definition stuck :: "u32 \<Rightarrow> tcp_pcb \<Rightarrow> bool" where
  "stuck ticks p \<longleftrightarrow>
     (pcb_state p = FIN_WAIT_2 \<and> pcb_flags p AND TF_RXCLOSED \<noteq> 0 \<and> ticks - pcb_tmr p > 20000 div 500)
   \<or> (pcb_state p = SYN_RCVD \<and> ticks - pcb_tmr p > 20000 div 500)
   \<or> (pcb_state p = LAST_ACK \<and> ticks - pcb_tmr p > 2 * 60000 div 500)"

definition slow_remove :: "net \<Rightarrow> net \<times> upcall list" where
  "slow_remove n =
     (memp_free_pcb (map_pcb tcp_pcb_purge n), if err_cb (pcb n) then [Err_up ERR_ABRT] else [])"

text \<open>
  The poll. When the callback closed or aborted the connection, it has left the list of active ones
  (\<open>tcp_active_pcbs_changed\<close>) and the timer does not send on it.
\<close>

definition left_active :: "net \<Rightarrow> bool" where
  "left_active n \<longleftrightarrow> pcb_freed n \<or> pcb_state (pcb n) = CLOSED \<or> pcb_state (pcb n) = TIME_WAIT"

definition slow_poll :: "callback \<Rightarrow> net \<Rightarrow> net" where
  "slow_poll on_poll n =
     (let n = map_pcb (\<lambda>p. p\<lparr>polltmr := polltmr p + 1\<rparr>) n
      in if polltmr (pcb n) \<ge> pollinterval (pcb n) then
           (let n = map_pcb (\<lambda>p. p\<lparr>polltmr := 0\<rparr>) n
            in case (if poll_cb (pcb n) then on_poll n else (ERR_OK, n)) of
                 (err, n) \<Rightarrow> if err = ERR_OK \<and> \<not> left_active n then snd (tcp_output n) else n)
         else n)"

definition slow_active :: "callback \<Rightarrow> net \<Rightarrow> (net \<times> upcall list) checked" where
  "slow_active on_poll n =
     (let p = pcb n in
      if pcb_state p = CLOSED \<or> pcb_state p = LISTEN \<or> pcb_state p = TIME_WAIT then Inl Assert_failed
      else
        (case (if rexmit_limit p then Inr n else if persist_backoff p > 0 then slow_persist n else slow_rexmit n) of
           Inl e \<Rightarrow> Inl e
         | Inr m \<Rightarrow>
             if rexmit_limit p \<or> stuck (tcp_ticks m) (pcb m) then Inr (slow_remove m)
             else Inr (slow_poll on_poll m, [])))"

definition tcp_slowtmr :: "callback \<Rightarrow> net \<Rightarrow> (net \<times> upcall list) checked" where
  "tcp_slowtmr on_poll n =
     (let n = n\<lparr>tcp_ticks := tcp_ticks n + 1\<rparr>
      in if pcb_state (pcb n) = TIME_WAIT then
           Inr (if tcp_ticks n - pcb_tmr (pcb n) > 2 * 60000 div 500
                then memp_free_pcb (map_pcb tcp_pcb_purge n) else n, [])
         else slow_active on_poll n)"

subsection \<open>A peer that has gone\<close>

text \<open>Ticks of the timer, until the connection is gone.\<close>

fun slow_ticks :: "callback \<Rightarrow> nat \<Rightarrow> net \<Rightarrow> (net \<times> upcall list) checked" where
  "slow_ticks on_poll 0 n = Inr (n, [])"
| "slow_ticks on_poll (Suc k) n =
     (case tcp_slowtmr on_poll n of
        Inl e \<Rightarrow> Inl e
      | Inr (m, log) \<Rightarrow>
          if pcb_freed m then Inr (m, log)
          else map_sum id (\<lambda>(m, log'). (m, log @ log')) (slow_ticks on_poll k m))"

text \<open>
  A connection that waits for an acknowledgement: the oldest segment fits into the windows, the
  retransmissions are inside their limit, and the application has no poll callback (it has closed).
\<close>

definition oldest_fits :: "tcp_pcb \<Rightarrow> bool" where
  "oldest_fits p \<longleftrightarrow> unacked p \<noteq> []
     \<and> seg_seqno (hd (unacked p)) - lastack p + ucast (seg_len (hd (unacked p))) \<le> ucast (min (snd_wnd p) (pcb_mss p))"

definition waiting :: "net \<Rightarrow> bool" where
  "waiting n \<longleftrightarrow> \<not> in_input n \<and> \<not> pcb_freed n \<and> pcb_good (pcb n)
     \<and> pcb_state (pcb n) \<notin> {CLOSED, LISTEN, TIME_WAIT} \<and> persist_backoff (pcb n) = 0
     \<and> unat (nrtx (pcb n)) \<le> 12 \<and> 0 \<le> rtime (pcb n) \<and> rtime (pcb n) < 32767 \<and> oldest_fits (pcb n)
     \<and> \<not> poll_cb (pcb n)"

text \<open>What sending leaves alone.\<close>

definition clock :: "tcp_pcb \<Rightarrow> tcp_state \<times> u8 \<times> u8 \<times> u16 \<times> u16 \<times> u16 \<times> u32 \<times> u16 \<times> bool \<times> bool" where
  "clock p = (pcb_state p, persist_backoff p, nrtx p, rto p, snd_wnd p, cwnd p, lastack p, pcb_mss p, err_cb p, poll_cb p)"

definition same_clock :: "net \<Rightarrow> net \<Rightarrow> bool" where
  "same_clock n m \<longleftrightarrow> clock (pcb m) = clock (pcb n) \<and> in_input m = in_input n \<and> pcb_freed m = pcb_freed n
     \<and> (0 \<le> rtime (pcb n) \<longrightarrow> rtime (pcb m) = rtime (pcb n))"

lemma same_clock_trans: "same_clock a b \<Longrightarrow> same_clock b c \<Longrightarrow> same_clock a c"
  by (auto simp: same_clock_def)

lemma send_first_clock: "same_clock n (send_first seg rest n)"
  by (simp add: same_clock_def clock_def send_first_def Let_def tcp_output_segment_def clear_flag_def ip_output_def map_pcb_def)

lemma tcp_output_loop_clock: "same_clock n (tcp_output_loop wnd q n)"
proof (induction wnd q n rule: tcp_output_loop.induct)
  case (2 wnd seg rest n)
  then show ?case using same_clock_trans [OF send_first_clock, of seg rest n] by (auto simp: same_clock_def)
qed (simp add: same_clock_def)

lemma tcp_output_clock: "same_clock n (snd (tcp_output n))"
proof -
  have e: "same_clock n (snd (tcp_send_empty_ack n))"
    by (auto simp: same_clock_def clock_def tcp_send_empty_ack_def Let_def clear_flag_def ip_output_def split: prod.splits bool.splits)
  have l: "same_clock n (map_pcb (clear_flag TF_NAGLEMEMERR) (if unsent (pcb m) = [] then map_pcb (\<lambda>p. p\<lparr>unsent_oversize := 0\<rparr>) m else m))"
    if "same_clock n m" for m
    using that by (simp add: same_clock_def clock_def clear_flag_def)
  show ?thesis
    using e l [OF tcp_output_loop_clock] by (auto simp: tcp_output_def Let_def) (simp_all add: same_clock_def)
qed

text \<open>Sending puts segments behind the unacknowledged ones.\<close>

lemma send_first_oldest:
  assumes "pcb_ok (fix_oversize (pcb n))" "unsent (pcb n) = seg # rest"
    "seq_chain a (unacked (pcb n) @ unsent (pcb n)) b"
  obtains seg' where "unacked (pcb (send_first seg rest n)) = unacked (pcb n) @ [seg']"
    "seg_seqno seg' = seg_seqno seg" "seg_len seg' = seg_len seg"
  by (rule send_first_appends [OF assms]) (auto intro: that simp: set_hdrflag_def)

lemma loop_oldest:
  assumes "pcb_ok (fix_oversize (pcb n))" "unsent (pcb n) = q" "seq_chain a (unacked (pcb n) @ unsent (pcb n)) b"
  shows "\<exists>ms. unacked (pcb (tcp_output_loop wnd q n)) = unacked (pcb n) @ ms"
  using assms
proof (induction wnd q n rule: tcp_output_loop.induct)
  case (2 wnd seg rest n)
  have tl: "unsent (pcb (send_first seg rest n)) = rest"
    by (simp add: send_first_def Let_def tcp_output_segment_def clear_flag_def)
  note s = send_first_ok(1) [OF 2(2,3)] send_first_seq(1) [OF 2(2,3,4)]
  obtain seg' where "unacked (pcb (send_first seg rest n)) = unacked (pcb n) @ [seg']"
    by (rule send_first_oldest [OF 2(2,3,4)])
  then show ?case using 2(1) [OF _ _ s(1) tl s(2)] by fastforce
qed simp

lemma output_oldest:
  assumes "pcb_good (pcb n)"
  shows "\<exists>ms. unacked (pcb (snd (tcp_output n))) = unacked (pcb n) @ ms"
proof -
  obtain a b where ch: "seq_chain a (unacked (pcb n) @ unsent (pcb n)) b"
    using assms by (auto simp: pcb_good_def seq_ok_def)
  have "pcb_ok (fix_oversize (pcb n))" using assms fix_oversize_ok by (simp add: pcb_good_def)
  note lp = loop_oldest [OF this refl ch]
  have "unacked (pcb (snd (tcp_send_empty_ack n))) = unacked (pcb n)"
    by (auto simp: tcp_send_empty_ack_def Let_def clear_flag_def split: prod.splits bool.splits)
  then show ?thesis using lp by (auto simp: tcp_output_def Let_def clear_flag_def)
qed

lemma oldest_append: "unacked q = unacked p @ ms \<Longrightarrow> lastack q = lastack p \<Longrightarrow> snd_wnd q = snd_wnd p \<Longrightarrow> pcb_mss q = pcb_mss p
    \<Longrightarrow> oldest_fits p \<Longrightarrow> oldest_fits q"
  by (cases "unacked p") (auto simp: oldest_fits_def)

lemma output_good: "pcb_good (pcb n) \<Longrightarrow> pcb_good (pcb (snd (tcp_output n)))"
  using tcp_output_ok(1) [of n _ "snd (tcp_output n)"] tcp_output_seq_ok(1) [of n _ "snd (tcp_output n)"]
  by (auto simp: pcb_good_def prod_eq_iff)

text \<open>A retransmission sends the oldest segment again.\<close>

lemma rexmit_oldest:
  assumes good: "pcb_good (pcb n)" and u: "unacked (pcb n) \<noteq> []" and i: "\<not> in_input n"
    and w: "in_window (ucast (min (snd_wnd (pcb n)) (cwnd (pcb n)))) (pcb n) (hd (unacked (pcb n)))"
  obtains s ms where "unacked (pcb (tcp_rexmit_rto n)) = s # ms"
    "seg_seqno s = seg_seqno (hd (unacked (pcb n)))" "seg_len s = seg_len (hd (unacked (pcb n)))"
proof -
  obtain s0 rest where s0: "unacked (pcb n) = s0 # rest" using u by (cases "unacked (pcb n)") auto
  define m where "m = map_pcb (\<lambda>p. p\<lparr>unsent := unacked p @ unsent p, unacked := [], nrtx := nrtx p + 1, rttest := 0\<rparr>) n"
  have mu: "unsent (pcb m) = s0 # rest @ unsent (pcb n)" "unacked (pcb m) = []" by (simp_all add: m_def s0)
  have ok: "pcb_ok (pcb m)" using good by (auto simp: m_def pcb_good_def pcb_ok_def mss_local_def tail_room_def)
  obtain a b where ch: "seq_chain a (unacked (pcb m) @ unsent (pcb m)) b"
    using good s0 by (auto simp: pcb_good_def seq_ok_def mu)
  let ?w = "ucast (min (snd_wnd (pcb m)) (cwnd (pcb m))) :: u32"
  have win: "in_window ?w (pcb m) s0" using w s0 by (simp add: m_def in_window_def)
  have nagle: "tcp_do_output_nagle (pcb m)" by (simp add: tcp_do_output_nagle_def mu)
  let ?k = "send_first s0 (rest @ unsent (pcb n)) m"
  have okf: "pcb_ok (fix_oversize (pcb m))" by (rule fix_oversize_ok [OF ok])
  have step: "tcp_output_loop ?w (unsent (pcb m)) m = tcp_output_loop ?w (rest @ unsent (pcb n)) ?k"
    using win nagle by (simp add: mu)
  obtain s where s: "unacked (pcb ?k) = [s]" "seg_seqno s = seg_seqno s0" "seg_len s = seg_len s0"
    using send_first_oldest [OF okf mu(1) ch] mu(2) by auto
  have "unsent (pcb ?k) = rest @ unsent (pcb n)"
    by (simp add: send_first_def Let_def tcp_output_segment_def clear_flag_def)
  then obtain ms where "unacked (pcb (tcp_output_loop ?w (unsent (pcb m)) m)) = s # ms"
    using loop_oldest [OF send_first_ok(1) [OF okf mu(1)] _ send_first_seq(1) [OF okf mu(1) ch]] s(1)
    unfolding step by fastforce
  then have "unacked (pcb (snd (tcp_output m))) = s # ms"
    using i win mu by (auto simp: tcp_output_def Let_def clear_flag_def m_def)
  then show thesis using that s(2,3) s0 u by (simp add: tcp_rexmit_rto_def m_def)
qed

lemma rexmit_good: "pcb_good (pcb n) \<Longrightarrow> pcb_good (pcb (tcp_rexmit_rto n))"
proof -
  assume g: "pcb_good (pcb n)"
  let ?m = "map_pcb (\<lambda>p. p\<lparr>unsent := unacked p @ unsent p, unacked := [], nrtx := nrtx p + 1, rttest := 0\<rparr>) n"
  have "pcb_good (pcb ?m)"
    using g by (auto simp: pcb_good_def pcb_ok_def mss_local_def tail_room_def seq_ok_def)
  then show ?thesis using output_good g by (simp add: tcp_rexmit_rto_def)
qed

lemma pcb_good_timers [simp]:
  "pcb_good (p\<lparr>rtime := t\<rparr>) = pcb_good p" "pcb_good (p\<lparr>rto := w\<rparr>) = pcb_good p" "pcb_good (p\<lparr>ssthresh := w\<rparr>) = pcb_good p"
  "pcb_good (p\<lparr>cwnd := w\<rparr>) = pcb_good p" "pcb_good (p\<lparr>polltmr := c\<rparr>) = pcb_good p"
  by (simp_all add: pcb_good_def pcb_ok_def seq_ok_def mss_local_def)

lemma cut_cwnd_fields [simp]:
  "pcb_good (cut_cwnd p) = pcb_good p" "unacked (cut_cwnd p) = unacked p" "cwnd (cut_cwnd p) = pcb_mss p"
  "rtime (cut_cwnd p) = 0" "snd_wnd (cut_cwnd p) = snd_wnd p" "lastack (cut_cwnd p) = lastack p"
  "pcb_mss (cut_cwnd p) = pcb_mss p" "nrtx (cut_cwnd p) = nrtx p" "pcb_state (cut_cwnd p) = pcb_state p"
  "persist_backoff (cut_cwnd p) = persist_backoff p" "err_cb (cut_cwnd p) = err_cb p" "poll_cb (cut_cwnd p) = poll_cb p"
  by (simp_all add: cut_cwnd_def Let_def)

text \<open>Every tick uses up some of the effort.\<close>

definition effort :: "net \<Rightarrow> nat" where
  "effort n = (12 - unat (nrtx (pcb n))) * 32769 + nat (32768 - rtime (pcb n))"

lemma waiting_output:
  assumes "waiting n"
  shows "waiting (snd (tcp_output n))" "effort (snd (tcp_output n)) = effort n"
    "err_cb (pcb (snd (tcp_output n))) = err_cb (pcb n)"
proof -
  obtain ms where u: "unacked (pcb (snd (tcp_output n))) = unacked (pcb n) @ ms"
    using output_oldest assms unfolding waiting_def by blast
  have c: "same_clock n (snd (tcp_output n))" by (rule tcp_output_clock)
  have "oldest_fits (pcb (snd (tcp_output n)))"
    by (rule oldest_append [OF u]) (use assms c in \<open>auto simp: same_clock_def clock_def waiting_def\<close>)
  then show "waiting (snd (tcp_output n))"
    using assms c output_good [of n] by (auto simp: waiting_def same_clock_def clock_def)
  show "effort (snd (tcp_output n)) = effort n" "err_cb (pcb (snd (tcp_output n))) = err_cb (pcb n)"
    using assms c by (auto simp: waiting_def same_clock_def clock_def effort_def)
qed

lemma waiting_polltmr [simp]: "waiting (map_pcb (\<lambda>p. p\<lparr>polltmr := f p\<rparr>) n) = waiting n"
  "effort (map_pcb (\<lambda>p. p\<lparr>polltmr := f p\<rparr>) n) = effort n"
  by (simp_all add: waiting_def oldest_fits_def effort_def)

lemma waiting_ticks [simp]: "waiting (n\<lparr>tcp_ticks := t\<rparr>) = waiting n" "effort (n\<lparr>tcp_ticks := t\<rparr>) = effort n"
  by (simp_all add: waiting_def effort_def)

lemma slow_poll_waiting:
  assumes "waiting n"
  shows "waiting (slow_poll f n)" "effort (slow_poll f n) = effort n" "err_cb (pcb (slow_poll f n)) = err_cb (pcb n)"
proof -
  define m1 where "m1 = map_pcb (\<lambda>p. p\<lparr>polltmr := polltmr p + 1\<rparr>) n"
  define m2 where "m2 = map_pcb (\<lambda>p. p\<lparr>polltmr := 0\<rparr>) m1"
  have m: "waiting m1" "effort m1 = effort n" "err_cb (pcb m1) = err_cb (pcb n)"
    "waiting m2" "effort m2 = effort n" "err_cb (pcb m2) = err_cb (pcb n)"
    using assms unfolding m2_def m1_def by simp_all
  have "slow_poll f n = (if polltmr (pcb m1) \<ge> pollinterval (pcb m1) then snd (tcp_output m2) else m1)"
    using m(4) unfolding slow_poll_def Let_def m1_def [symmetric] m2_def [symmetric]
    by (simp add: waiting_def left_active_def)
  then have "slow_poll f n \<in> {m1, snd (tcp_output m2)}" by (auto split: if_splits)
  then show "waiting (slow_poll f n)" "effort (slow_poll f n) = effort n" "err_cb (pcb (slow_poll f n)) = err_cb (pcb n)"
    using m waiting_output [OF m(4)] by (elim insertE emptyE; simp)+
qed

lemma sint_u16_less: "sint (w :: u16) \<le> 32767"
  using sint_less [of w] by simp

lemma slow_rexmit_waiting:
  assumes w: "waiting n" and k: "unat (nrtx (pcb n)) < 12"
  obtains m where "slow_rexmit n = Inr m" "waiting m" "effort m < effort n" "err_cb (pcb m) = err_cb (pcb n)"
proof -
  have rt: "0 \<le> rtime (pcb n)" "rtime (pcb n) < 32767" using w by (simp_all add: waiting_def)
  have inc: "signed_take_bit 15 (rtime (pcb n) + 1) = rtime (pcb n) + 1"
    by (rule signed_take_bit_int_eq_self) (use rt in simp_all)
  define n1 where "n1 = map_pcb (\<lambda>p. p\<lparr>rtime := rtime p + 1\<rparr>) n"
  have u: "unacked (pcb n) \<noteq> []" using w by (simp add: waiting_def oldest_fits_def)
  show thesis
  proof (cases "rtime (pcb n) + 1 \<ge> sint (rto (pcb n))")
    case False
    then have "slow_rexmit n = Inr n1" using u inc rt by (simp add: slow_rexmit_def Let_def n1_def map_pcb_def)
    moreover have "waiting n1"
      using w False rt sint_u16_less [of "rto (pcb n)"] by (simp add: waiting_def oldest_fits_def n1_def)
    moreover have "effort n1 < effort n" using rt by (simp add: effort_def n1_def)
    ultimately show thesis using that by (simp add: n1_def)
  next
    case True
    define n2 where "n2 = map_pcb cut_cwnd (map_pcb (\<lambda>p. if pcb_state p \<noteq> SYN_SENT
      then p\<lparr>rto := push_bit (tcp_backoff ! unat (nrtx p)) (signed_drop_bit 3 (pcb_sa p) + pcb_sv p)\<rparr> else p) n1)"
    have step: "slow_rexmit n = Inr (tcp_rexmit_rto n2)"
      using u inc rt True k
      by (simp add: slow_rexmit_def Let_def n2_def n1_def map_pcb_def tcp_backoff_def)
    have n2: "pcb_good (pcb n2)" "unacked (pcb n2) = unacked (pcb n)" "\<not> in_input n2" "rtime (pcb n2) = 0"
      "snd_wnd (pcb n2) = snd_wnd (pcb n)" "cwnd (pcb n2) = pcb_mss (pcb n)" "lastack (pcb n2) = lastack (pcb n)"
      "pcb_mss (pcb n2) = pcb_mss (pcb n)" "nrtx (pcb n2) = nrtx (pcb n)" "pcb_state (pcb n2) = pcb_state (pcb n)"
      "persist_backoff (pcb n2) = persist_backoff (pcb n)" "err_cb (pcb n2) = err_cb (pcb n)" "\<not> pcb_freed n2"
      "\<not> poll_cb (pcb n2)"
      using w by (simp_all add: n2_def n1_def waiting_def)
    have fits: "in_window (ucast (min (snd_wnd (pcb n2)) (cwnd (pcb n2)))) (pcb n2) (hd (unacked (pcb n2)))"
      using w n2 by (simp add: waiting_def oldest_fits_def in_window_def)
    obtain s ms where s: "unacked (pcb (tcp_rexmit_rto n2)) = s # ms"
      "seg_seqno s = seg_seqno (hd (unacked (pcb n2)))" "seg_len s = seg_len (hd (unacked (pcb n2)))"
      by (rule rexmit_oldest [OF n2(1) _ n2(3) fits]) (use n2(2) u in simp_all)
    let ?m = "map_pcb (\<lambda>p. p\<lparr>unsent := unacked p @ unsent p, unacked := [], nrtx := nrtx p + 1, rttest := 0\<rparr>) n2"
    have c: "same_clock ?m (tcp_rexmit_rto n2)" using tcp_output_clock [of ?m] n2(2) u by (simp add: tcp_rexmit_rto_def)
    have nx: "unat (nrtx (pcb (tcp_rexmit_rto n2))) = unat (nrtx (pcb n)) + 1"
    proof -
      have "nrtx (pcb (tcp_rexmit_rto n2)) = nrtx (pcb n) + 1" using c n2(9) by (simp add: same_clock_def clock_def)
      then show ?thesis using k by (simp add: unat_word_ariths)
    qed
    have "waiting (tcp_rexmit_rto n2)"
      using w k c n2 nx s fits rexmit_good [OF n2(1)]
      by (simp add: waiting_def oldest_fits_def same_clock_def clock_def in_window_def)
    moreover have "effort (tcp_rexmit_rto n2) < effort n"
    proof -
      have "rtime (pcb (tcp_rexmit_rto n2)) = 0" using c n2(4) by (simp add: same_clock_def)
      moreover obtain j where "12 - unat (nrtx (pcb n)) = Suc j" "12 - (unat (nrtx (pcb n)) + 1) = j"
        using k by (cases "12 - unat (nrtx (pcb n))") auto
      ultimately show ?thesis using nx rt by (simp add: effort_def)
    qed
    moreover have "err_cb (pcb (tcp_rexmit_rto n2)) = err_cb (pcb n)" using c n2(12) by (simp add: same_clock_def clock_def)
    ultimately show thesis using that step by blast
  qed
qed

text \<open>One tick: the connection is gone, or it waits with less effort left.\<close>

lemma slow_tick:
  assumes w: "waiting n"
  obtains m where "tcp_slowtmr f n = Inr (m, if err_cb (pcb n) then [Err_up ERR_ABRT] else [])" "pcb_freed m"
    | m where "tcp_slowtmr f n = Inr (m, [])" "waiting m" "effort m < effort n" "err_cb (pcb m) = err_cb (pcb n)"
proof -
  define n1 where "n1 = n\<lparr>tcp_ticks := tcp_ticks n + 1\<rparr>"
  have w1: "waiting n1" "effort n1 = effort n" "err_cb (pcb n1) = err_cb (pcb n)" using w by (simp_all add: n1_def)
  have st: "pcb_state (pcb n1) \<noteq> CLOSED" "pcb_state (pcb n1) \<noteq> LISTEN" "pcb_state (pcb n1) \<noteq> TIME_WAIT"
    "persist_backoff (pcb n1) = 0" using w1(1) by (simp_all add: waiting_def)
  have t: "tcp_slowtmr f n = slow_active f n1" using st by (simp add: tcp_slowtmr_def n1_def)
  have gone: "pcb_freed (fst (slow_remove m))" "snd (slow_remove m) = (if err_cb (pcb m) then [Err_up ERR_ABRT] else [])" for m
    by (simp_all add: slow_remove_def memp_free_pcb_def)
  show thesis
  proof (cases "rexmit_limit (pcb n1)")
    case True
    then have "tcp_slowtmr f n = Inr (slow_remove n1)" using t st by (simp add: slow_active_def Let_def)
    then show thesis using that(1) gone [of n1] w1(3) by (metis prod.collapse)
  next
    case False
    then have "unat (nrtx (pcb n1)) < 12"
      using w1(1) by (auto simp: rexmit_limit_def TCP_MAXRTX_def waiting_def word_unat_eq_iff order_le_less)
    then obtain m where m: "slow_rexmit n1 = Inr m" "waiting m" "effort m < effort n1" "err_cb (pcb m) = err_cb (pcb n1)"
      by (rule slow_rexmit_waiting [OF w1(1)])
    show thesis
    proof (cases "stuck (tcp_ticks m) (pcb m)")
      case True
      then have "tcp_slowtmr f n = Inr (slow_remove m)" using t st False m(1) by (simp add: slow_active_def Let_def)
      then show thesis using that(1) gone [of m] w1(3) m(4) by (metis prod.collapse)
    next
      case False2: False
      then have "tcp_slowtmr f n = Inr (slow_poll f m, [])" using t st False m(1) by (simp add: slow_active_def Let_def)
      then show thesis using that(2) slow_poll_waiting [OF m(2)] m(3,4) w1 by simp
    qed
  qed
qed

lemma slow_ticks_end:
  "waiting n \<Longrightarrow> effort n < j \<Longrightarrow>
    \<exists>k m. k \<le> j \<and> slow_ticks f k n = Inr (m, if err_cb (pcb n) then [Err_up ERR_ABRT] else []) \<and> pcb_freed m"
proof (induction j arbitrary: n)
  case (Suc j)
  show ?case
  proof (rule slow_tick [OF Suc.prems(1)])
    fix m
    assume "tcp_slowtmr f n = Inr (m, if err_cb (pcb n) then [Err_up ERR_ABRT] else [])" "pcb_freed m"
    then show ?thesis by (intro exI [of _ 1] exI [of _ m]) simp
  next
    fix m
    assume m: "tcp_slowtmr f n = Inr (m, [])" "waiting m" "effort m < effort n" "err_cb (pcb m) = err_cb (pcb n)"
    obtain k m' where k: "k \<le> j" "slow_ticks f k m = Inr (m', if err_cb (pcb m) then [Err_up ERR_ABRT] else [])" "pcb_freed m'"
      using Suc.IH [OF m(2)] m(3) Suc.prems(2) by auto
    have "\<not> pcb_freed m" using m(2) by (simp add: waiting_def)
    then show ?thesis using k m by (intro exI [of _ "Suc k"] exI [of _ m']) simp
  qed
qed simp

lemma effort_le: "waiting n \<Longrightarrow> effort n < 13 * 32769"
  by (auto simp: effort_def waiting_def)

end
