(* ===== verification/Http_Poll.thy ===== *)
theory Http_Poll
  imports Http_Serve Tcp_Slow
begin

text \<open>
  The polls of a connection: the part of the slow timer that calls \<open>http_poll\<close>, and what becomes of a
  connection that makes no progress. Its state is freed at the fourth poll; its pcb closes there or, when
  memory was missing for the FIN, at the next poll, which aborts it if need be.
\<close>

interpretation poll_frame: tcp_frame lwip_ops "\<lambda>n. poll_cb (pcb n)"
  by unfold_locales
     (auto simp: lwip_ops_def net_write_def tcp_write_def tcp_write_checks_def set_flag_def
        tcp_write_commit_def Let_def split: if_splits prod.splits option.splits)

text \<open>What sending does to the retry counter, on any connection: nothing.\<close>

lemma http_send_data_retries:
  assumes "http_send_data cfg hs c = (d, c')"
  shows "\<exists>hs'. c_hs c' = Some hs' \<and> retries hs' = retries hs" "close_fields (c_net c') = close_fields (c_net c)"
    "poll_cb (pcb (c_net c')) = poll_cb (pcb (c_net c))"
proof -
  have "(\<exists>hs'. c_hs c' = Some hs' \<and> retries hs' = retries hs) \<and> close_fields (c_net c') = close_fields (c_net c)
    \<and> poll_cb (pcb (c_net c')) = poll_cb (pcb (c_net c))"
  proof (cases "ssi hs")
    case None
    then show ?thesis
      using assms lwip_frame.http_send_data_nonssi_frame [of "f_data (file_handle hs)" "send_position hs" "c_net c"]
        poll_frame.http_send_data_nonssi_frame [of "f_data (file_handle hs)" "send_position hs" "c_net c"]
      by (auto simp: http_send_data_def split: prod.splits)
  next
    case (Some s)
    then have "c' = end_run hs (http_send_data_ssi lwip_ops (ssi_config cfg) (f_data (file_handle hs)) (start_run hs s c)) c"
      using assms by (simp add: http_send_data_def Let_def)
    then show ?thesis
      using lwip_frame.http_send_data_ssi_frame [of "ssi_config cfg" "f_data (file_handle hs)" "start_run hs s c"]
        poll_frame.http_send_data_ssi_frame [of "ssi_config cfg" "f_data (file_handle hs)" "start_run hs s c"]
      by simp (simp add: start_run_def)
  qed
  then show "\<exists>hs'. c_hs c' = Some hs' \<and> retries hs' = retries hs" "close_fields (c_net c') = close_fields (c_net c)"
    "poll_cb (pcb (c_net c')) = poll_cb (pcb (c_net c))"
    by auto
qed

subsection \<open>A poll\<close>

text \<open>The end of \<open>tcp_slowtmr\<close> for a connection whose poll timer has run out.\<close>

definition poll_tick :: "'w httpd_cfg \<Rightarrow> 'w conn \<Rightarrow> 'w conn" where
  "poll_tick cfg c =
     (if left_active (c_net c) then c
      else (case (if poll_cb (pcb (c_net c)) then http_poll cfg (callback_arg (pcb (c_net c))) c else (ERR_OK, c)) of
              (err, c) \<Rightarrow>
                if err = ERR_OK \<and> \<not> left_active (c_net c) then map_net (\<lambda>n. snd (tcp_output n)) c else c))"

text \<open>The pcb is on its way out: gone, or in a state behind its own FIN or a reset.\<close>

definition shut :: "net \<Rightarrow> bool" where
  "shut n \<longleftrightarrow> pcb_freed n \<or> pcb_state (pcb n) \<notin> {ESTABLISHED, CLOSE_WAIT}"

lemma output_fields [simp]:
  "pcb_state (pcb (snd (tcp_output n))) = pcb_state (pcb n)" "pcb_freed (snd (tcp_output n)) = pcb_freed n"
  "poll_cb (pcb (snd (tcp_output n))) = poll_cb (pcb n)"
  using tcp_output_clock [of n] by (simp_all add: same_clock_def clock_def)

lemma shut_output [simp]: "shut (snd (tcp_output n)) = shut n" "left_active (snd (tcp_output n)) = left_active n"
  by (simp_all add: shut_def left_active_def)

lemma left_active_shut: "left_active n \<Longrightarrow> shut n"
  by (auto simp: left_active_def shut_def)

lemma tcp_send_fin_err: "tcp_send_fin p h = (err, p', h') \<Longrightarrow> err = ERR_OK \<or> err = ERR_MEM"
  by (auto simp: tcp_send_fin_def tcp_enqueue_flags_def Let_def split: if_splits prod.splits option.splits bool.splits)

lemma send_fin_to_shut:
  assumes "send_fin_to st n = (err, n')" "st \<notin> {ESTABLISHED, CLOSE_WAIT}"
  shows "err = ERR_OK \<and> shut n' \<or> err = ERR_MEM"
proof -
  obtain e p h where "tcp_send_fin (pcb n) (net_heap n) = (e, p, h)" by (cases "tcp_send_fin (pcb n) (net_heap n)")
  then show ?thesis
    using assms tcp_send_fin_err [of "pcb n" "net_heap n" e p h]
    by (auto simp: send_fin_to_def Let_def shut_def split: if_splits)
qed

lemma tcp_close_shut:
  assumes "tcp_close n = (err, n')"
  shows "err = ERR_OK \<and> shut n' \<or> err = ERR_MEM"
proof -
  define m where "m = (if pcb_state (pcb n) \<noteq> LISTEN then map_pcb (set_flag TF_RXCLOSED) n else n)"
  have c: "tcp_close_shutdown m True = (err, n')" using assms by (simp add: tcp_close_def m_def)
  show ?thesis
  proof (cases "(pcb_state (pcb m) = ESTABLISHED \<or> pcb_state (pcb m) = CLOSE_WAIT)
      \<and> (refused_data (pcb m) \<noteq> None \<or> rcv_wnd (pcb m) \<noteq> TCP_WND)")
    case True
    then show ?thesis
      using c by (auto simp: tcp_close_shutdown_def Let_def shut_def memp_free_pcb_def split: if_splits)
  next
    case False
    then have "(err, n') = (case pcb_state (pcb m) of
           CLOSED \<Rightarrow> (ERR_OK, memp_free_pcb m)
         | LISTEN \<Rightarrow> (ERR_OK, memp_free_pcb (tcp_pcb_remove m))
         | SYN_SENT \<Rightarrow> (ERR_OK, memp_free_pcb (tcp_pcb_remove m))
         | SYN_RCVD \<Rightarrow> send_fin_to FIN_WAIT_1 m
         | ESTABLISHED \<Rightarrow> send_fin_to FIN_WAIT_1 m
         | CLOSE_WAIT \<Rightarrow> send_fin_to LAST_ACK m
         | _ \<Rightarrow> (ERR_OK, m))"
      using c by (auto simp: tcp_close_shutdown_def Let_def)
    then show ?thesis
      using send_fin_to_shut [of FIN_WAIT_1 m err n'] send_fin_to_shut [of LAST_ACK m err n']
      by (cases "pcb_state (pcb m)") (auto simp: shut_def memp_free_pcb_def)
  qed
qed

lemma http_close_conn_shut:
  assumes "http_close_conn c hs = (err, c')"
  shows "err = ERR_OK \<and> shut (c_net c')
    \<or> err = ERR_MEM \<and> poll_cb (pcb (c_net c')) \<and> pollinterval (pcb (c_net c')) = HTTPD_POLL_INTERVAL"
proof -
  define c1 where "c1 = (if hs then http_state_free (map_net clear_callbacks c) else map_net clear_callbacks c)"
  obtain e n where t: "tcp_close (c_net c1) = (e, n)" by fastforce
  have "err = e" "c' = (if err \<noteq> ERR_OK then map_net (map_pcb (\<lambda>p. tcp_poll p True HTTPD_POLL_INTERVAL)) (c1\<lparr>c_net := n\<rparr>)
      else c1\<lparr>c_net := n\<rparr>)"
    using assms t by (auto simp: http_close_conn_def http_close_or_abort_conn_def Let_def c1_def [symmetric])
  then show ?thesis using tcp_close_shut [OF t] by (auto simp: tcp_poll_def)
qed

lemma abort_shut: "shut (fst (tcp_abort n))"
  by (simp add: tcp_abort_def tcp_abandon_def memp_free_pcb_def shut_def Let_def)

subsection \<open>Four polls\<close>

text \<open>A connection that waits, with \<open>k\<close> polls since the last progress; or one that has been closed.\<close>

definition polled :: "nat \<Rightarrow> 'w conn \<Rightarrow> bool" where
  "polled k c \<longleftrightarrow> callback_arg (pcb (c_net c)) = (c_hs c \<noteq> None)
     \<and> (case c_hs c of
          Some hs \<Rightarrow> retries hs = of_nat k \<and> poll_cb (pcb (c_net c)) \<and> \<not> left_active (c_net c)
        | None \<Rightarrow> shut (c_net c) \<or> poll_cb (pcb (c_net c)) \<and> pollinterval (pcb (c_net c)) = HTTPD_POLL_INTERVAL)"

text \<open>Closing with the state leads to the second case.\<close>

lemma close_polled:
  assumes "http_close_conn c True = (err, c')"
  shows "polled k c'" "c_hs c' = None"
  using http_close_conn_effect(1,2) [OF assms] http_close_conn_shut [OF assms] by (auto simp: polled_def)

lemma eof_polled: "polled k (http_eof c)" "c_hs (http_eof c) = None"
  using close_polled [of c _ "http_eof c"] by (simp_all add: http_eof_def prod_eq_iff)

text \<open>A connection without its state is shut by the next poll.\<close>

lemma poll_closed:
  assumes "polled k c" "c_hs c = None"
  shows "c_hs (poll_tick cfg c) = None \<and> shut (c_net (poll_tick cfg c)) \<and> \<not> callback_arg (pcb (c_net (poll_tick cfg c)))"
proof (cases "left_active (c_net c)")
  case True
  then show ?thesis using assms left_active_shut by (simp add: poll_tick_def polled_def)
next
  case False
  have arg: "\<not> callback_arg (pcb (c_net c))" using assms by (simp add: polled_def)
  show ?thesis
  proof (cases "poll_cb (pcb (c_net c))")
    case nocb: False
    then show ?thesis using assms False arg by (simp add: poll_tick_def polled_def)
  next
    case cb: True
    obtain e c1 where cl: "http_close_conn c False = (e, c1)" by fastforce
    define c2 where "c2 = (if e = ERR_MEM then map_net (\<lambda>n. fst (tcp_abort n)) c1 else c1)"
    have c2: "c_hs c2 = None" "shut (c_net c2)" "\<not> callback_arg (pcb (c_net c2))"
      using http_close_conn_effect(1,2) [OF cl] http_close_conn_shut [OF cl] assms(2) abort_shut by (auto simp: c2_def)
    have "http_poll cfg False c = (if e = ERR_MEM then ERR_ABRT else ERR_OK, c2)"
      using cl by (simp add: http_poll_def c2_def)
    then have "poll_tick cfg c \<in> {c2, map_net (\<lambda>n. snd (tcp_output n)) c2}"
      using False cb arg by (auto simp: poll_tick_def)
    then show ?thesis using c2 by auto
  qed
qed

lemma send_polled:
  assumes "c_hs c = Some hs" "polled k c" "http_send cfg c = (d, c')"
  shows "polled k c'"
proof -
  obtain d1 c1 where s: "http_send_data cfg hs c = (d1, c1)" by fastforce
  note sd = http_send_data_retries [OF s]
  then obtain hs1 where hs1: "c_hs c1 = Some hs1" "retries hs1 = retries hs" by auto
  have "polled k c1"
    using sd(2,3) hs1 assms(1,2) by (auto simp: polled_def close_fields_def left_active_def)
  moreover have "(d, c') \<in> {(False, http_eof c), (False, http_eof c1), (d1, c1)}"
    using assms(1,3) s hs1
    by (auto simp: http_send_def fs_is_file_ready_def http_check_eof_def split: if_splits)
  ultimately show ?thesis using eof_polled by auto
qed

lemma send_first_interval [simp]: "pollinterval (pcb (send_first seg rest n)) = pollinterval (pcb n)"
  by (simp add: send_first_def Let_def tcp_output_segment_def clear_flag_def)

lemma tcp_output_loop_interval [simp]: "pollinterval (pcb (tcp_output_loop wnd q n)) = pollinterval (pcb n)"
  by (induction wnd q n rule: tcp_output_loop.induct) auto

lemma tcp_output_interval: "pollinterval (pcb (snd (tcp_output n))) = pollinterval (pcb n)"
  by (auto simp: tcp_output_def tcp_send_empty_ack_def clear_flag_def Let_def split: prod.split bool.split)

lemma polled_output [simp]: "polled k (map_net (\<lambda>n. snd (tcp_output n)) c) = polled k c"
proof -
  have "pollinterval (pcb (snd (tcp_output n))) = pollinterval (pcb n)" for n by (rule tcp_output_interval)
  then show ?thesis by (simp add: polled_def split: option.split)
qed

lemma poll_tick_polled:
  assumes "polled k c" "k < 4"
  shows "polled (Suc k) (poll_tick cfg c) \<and> (k = 3 \<longrightarrow> c_hs (poll_tick cfg c) = None)"
proof (cases "c_hs c")
  case None
  then show ?thesis using poll_closed [OF assms(1) None, of cfg] by (simp add: polled_def)
next
  case (Some hs)
  have h: "retries hs = of_nat k" "poll_cb (pcb (c_net c))" "\<not> left_active (c_net c)" "callback_arg (pcb (c_net c))"
    using assms(1) Some by (auto simp: polled_def)
  let ?c = "c\<lparr>c_hs := Some (hs\<lparr>retries := retries hs + 1\<rparr>)\<rparr>"
  have pc: "polled (Suc k) ?c" using h by (simp add: polled_def)
  obtain e c2 where cl: "http_close_conn ?c True = (e, c2)" by fastforce
  obtain d c1 where s: "http_send cfg ?c = (d, c1)" by fastforce
  have last: "retries hs + 1 = HTTPD_MAX_RETRIES \<longleftrightarrow> k = 3"
  proof -
    have "k \<in> {0, 1, 2, 3}" using assms(2) by auto
    then show ?thesis using h(1) by (auto simp: HTTPD_MAX_RETRIES_def)
  qed
  define c' where "c' = (if k = 3 then c2 else if handle hs then tcp_output_if d c1 else ?c)"
  have p: "http_poll cfg True c = (ERR_OK, c')"
    using Some s cl last unfolding c'_def http_poll_def by (simp add: Let_def)
  have "polled (Suc k) c' \<and> (k = 3 \<longrightarrow> c_hs c' = None)"
    using pc close_polled [OF cl] send_polled [OF _ pc s] by (auto simp: c'_def tcp_output_if_def)
  moreover have "poll_tick cfg c \<in> {c', map_net (\<lambda>n. snd (tcp_output n)) c'}"
    using h p by (auto simp: poll_tick_def)
  ultimately show ?thesis by auto
qed

end
