(* ===== verification/Tcp_Segs.thy ===== *)
theory Tcp_Segs
  imports Tcp_In
begin

text \<open>
  The segments themselves, not only their bytes: sending keeps the queued segments up to the ACK
  flag it sets in their headers, puts exactly the sent ones on the wire, and closing marks the last
  of them with the FIN.
\<close>

subsection \<open>Sending keeps the segments\<close>

lemma set_ack_twice [simp]: "set_hdrflag TCP_ACK (set_hdrflag TCP_ACK s) = set_hdrflag TCP_ACK s"
  by (simp add: set_hdrflag_def or.assoc)

definition headers :: "tcp_pcb \<Rightarrow> tcp_seg list" where
  "headers p = map (set_hdrflag TCP_ACK) (unacked p @ unsent p)"

lemma headers_fields [simp]:
  "headers (p\<lparr>unsent_oversize := ov\<rparr>) = headers p" "headers (clear_flag f p) = headers p"
  "headers (set_flag f p) = headers p" "headers (fix_oversize p) = headers p"
  by (simp_all add: headers_def clear_flag_def set_flag_def fix_oversize_def)

lemma tcp_output_loop_headers:
  assumes "pcb_ok (fix_oversize (pcb n))" "unsent (pcb n) = q" "seq_chain a (unacked (pcb n) @ unsent (pcb n)) b"
  shows "headers (pcb (tcp_output_loop wnd q n)) = headers (pcb n)"
  using assms
proof (induction wnd q n rule: tcp_output_loop.induct)
  case (2 wnd seg rest n)
  obtain seg' where s: "unsent (pcb (send_first seg rest n)) = rest"
    "unacked (pcb (send_first seg rest n)) = unacked (pcb n) @ [seg']"
    "seg' = seg \<or> seg' = set_hdrflag TCP_ACK seg"
    by (rule send_first_appends [OF 2(2,3,4)])
  have "headers (pcb (send_first seg rest n)) = headers (pcb n)" using s 2(3) by (auto simp: headers_def)
  then show ?case
    using 2(1) [OF _ _ send_first_ok(1) [OF 2(2,3)] s(1) send_first_seq(1) [OF 2(2,3,4)]] by auto
qed simp

lemma tcp_output_headers:
  assumes "pcb_ok (pcb n)" "seq_chain a (unacked (pcb n) @ unsent (pcb n)) b"
  shows "headers (pcb (snd (tcp_output n))) = headers (pcb n)"
proof -
  note lp = tcp_output_loop_headers [OF fix_oversize_ok [OF assms(1)] refl assms(2)]
  have "headers (pcb (snd (tcp_send_empty_ack n))) = headers (pcb n)"
    by (auto simp: tcp_send_empty_ack_def Let_def headers_def clear_flag_def split: prod.split bool.split)
  then show ?thesis using lp by (auto simp: tcp_output_def Let_def)
qed

subsection \<open>The frames of one output\<close>

text \<open>What is put on the wire for a segment: the segment with its ACK flag, except in \<open>SYN_SENT\<close>.\<close>

definition frame_of :: "tcp_pcb \<Rightarrow> tcp_seg \<Rightarrow> frame" where
  "frame_of p s = Seg_frame (if pcb_state p = SYN_SENT then s else s\<lparr>seg_hdrflags := seg_hdrflags s OR TCP_ACK\<rparr>)
     (rcv_nxt p) (rcv_ann_wnd p)"

definition sends_as :: "tcp_pcb \<Rightarrow> tcp_state \<times> u32 \<times> u16 \<times> u32" where
  "sends_as p = (pcb_state p, rcv_nxt p, rcv_ann_wnd p, lastack p)"

lemma frame_of_cong: "sends_as p = sends_as q \<Longrightarrow> frame_of p = frame_of q"
  by (simp add: frame_of_def sends_as_def fun_eq_iff)

lemma in_window_cong: "sends_as p = sends_as q \<Longrightarrow> in_window wnd p = in_window wnd q"
  by (simp add: in_window_def sends_as_def fun_eq_iff)

lemma send_first_frame:
  "wire (send_first seg rest n) = wire n @ [frame_of (pcb n) seg]"
  "sends_as (pcb (send_first seg rest n)) = sends_as (pcb n)" "unsent (pcb (send_first seg rest n)) = rest"
  by (simp_all add: send_first_def Let_def tcp_output_segment_def ip_output_def map_pcb_def frame_of_def
      set_hdrflag_def clear_flag_def sends_as_def)

lemma tcp_output_loop_frames:
  assumes "unsent (pcb n) = q"
  shows "\<exists>sent. q = sent @ unsent (pcb (tcp_output_loop wnd q n))
    \<and> wire (tcp_output_loop wnd q n) = wire n @ map (frame_of (pcb n)) sent
    \<and> sends_as (pcb (tcp_output_loop wnd q n)) = sends_as (pcb n)
    \<and> list_all (in_window wnd (pcb n)) sent
    \<and> (unsent (pcb (tcp_output_loop wnd q n)) = []
        \<or> \<not> in_window wnd (pcb n) (hd (unsent (pcb (tcp_output_loop wnd q n))))
        \<or> \<not> tcp_do_output_nagle (pcb (tcp_output_loop wnd q n)))"
  using assms
proof (induction wnd q n rule: tcp_output_loop.induct)
  case (2 wnd seg rest n)
  let ?m = "send_first seg rest n"
  show ?case
  proof (cases "\<not> in_window wnd (pcb n) seg \<or> (\<not> tcp_do_output_nagle (pcb n)
      \<and> pcb_flags (pcb n) AND (TF_NAGLEMEMERR OR TF_FIN) = 0)")
    case True
    then show ?thesis using 2(2) by (intro exI [of _ "[]"]) auto
  next
    case False
    note f = send_first_frame [of seg rest n]
    obtain sent where r: "rest = sent @ unsent (pcb (tcp_output_loop wnd rest ?m))"
      "wire (tcp_output_loop wnd rest ?m) = wire ?m @ map (frame_of (pcb ?m)) sent"
      "sends_as (pcb (tcp_output_loop wnd rest ?m)) = sends_as (pcb ?m)"
      "list_all (in_window wnd (pcb ?m)) sent"
      "unsent (pcb (tcp_output_loop wnd rest ?m)) = []
        \<or> \<not> in_window wnd (pcb ?m) (hd (unsent (pcb (tcp_output_loop wnd rest ?m))))
        \<or> \<not> tcp_do_output_nagle (pcb (tcp_output_loop wnd rest ?m))"
      using 2(1) [OF _ _ f(3)] False by auto
    have step: "tcp_output_loop wnd (seg # rest) n = tcp_output_loop wnd rest ?m" using False by auto
    show ?thesis unfolding step
      by (rule exI [of _ "seg # sent"])
         (use False f r(1-5) frame_of_cong [OF f(2)] in_window_cong [OF f(2), of wnd] in simp)
  qed
qed simp

text \<open>Nagle's rule does not look at the flag that \<open>tcp_output\<close> clears at its end.\<close>

lemma nagle_fields [simp]:
  "tcp_do_output_nagle (clear_flag TF_NAGLEMEMERR p) = tcp_do_output_nagle p"
  "tcp_do_output_nagle (p\<lparr>unsent_oversize := ov\<rparr>) = tcp_do_output_nagle p"
proof -
  have "(f AND NOT TF_NAGLEMEMERR) AND (TF_NODELAY OR TF_INFR) = f AND (TF_NODELAY OR TF_INFR)" for f :: u8
    unfolding and.assoc by (simp add: TF_NAGLEMEMERR_def TF_NODELAY_def TF_INFR_def)
  then show "tcp_do_output_nagle (clear_flag TF_NAGLEMEMERR p) = tcp_do_output_nagle p"
    by (simp add: tcp_do_output_nagle_def clear_flag_def)
qed (simp add: tcp_do_output_nagle_def)

subsection \<open>The FIN\<close>

lemma tcp_send_fin_marks:
  assumes "tcp_send_fin p h = (err, p', h')"
  shows "if err = ERR_OK then unsent p' \<noteq> [] \<and> seg_hdrflags (last (unsent p')) AND TCP_FIN \<noteq> 0
    else \<exists>f. p' = p\<lparr>pcb_flags := f\<rparr>"
proof -
  have e: "if err = ERR_OK then unsent p' \<noteq> [] \<and> seg_hdrflags (last (unsent p')) AND TCP_FIN \<noteq> 0
      else \<exists>f. p' = p\<lparr>pcb_flags := f\<rparr>" if "tcp_enqueue_flags p TCP_FIN h = (err, p', h')"
  proof -
    have same: "\<exists>f. p = p\<lparr>pcb_flags := f\<rparr>" by (rule exI [of _ "pcb_flags p"]) simp
    show ?thesis using that same
      by (auto simp: tcp_enqueue_flags_def tcp_create_segment_def Let_def set_flag_def TCP_FIN_def TCP_SYN_def
          split: if_splits prod.splits bool.splits option.splits)
  qed
  show ?thesis
  proof (cases "unsent p \<noteq> [] \<and> seg_hdrflags (last (unsent p)) AND (TCP_SYN OR TCP_FIN OR TCP_RST) = 0")
    case True
    then obtain us s where "unsent p = us @ [s]" by (cases "unsent p" rule: rev_cases) auto
    moreover have "(x OR TCP_FIN) AND TCP_FIN \<noteq> (0::u8)" for x by (simp add: TCP_FIN_def bit_eq_iff) (simp add: bit_simps)
    ultimately show ?thesis using True assms
      by (auto simp: tcp_send_fin_def set_flag_def set_hdrflag_def)
  next
    case False
    then show ?thesis using e assms by (auto simp: tcp_send_fin_def)
  qed
qed

text \<open>The ACK flag that sending sets does not hide the FIN of the last segment.\<close>

lemma headers_fin:
  assumes "headers p = headers q" "unsent q \<noteq> []"
  shows "unacked p @ unsent p \<noteq> [] \<and> seg_hdrflags (last (unacked p @ unsent p)) AND TCP_FIN
    = seg_hdrflags (last (unsent q)) AND TCP_FIN"
proof -
  have ne: "unacked p @ unsent p \<noteq> []" using assms by (metis headers_def map_is_Nil_conv append_is_Nil_conv)
  have ne': "unacked q @ unsent q \<noteq> []" using assms(2) by simp
  have "last (map (set_hdrflag TCP_ACK) (unacked p @ unsent p)) = last (map (set_hdrflag TCP_ACK) (unacked q @ unsent q))"
    using arg_cong [OF assms(1), of last] by (simp only: headers_def)
  then have "set_hdrflag TCP_ACK (last (unacked p @ unsent p)) = set_hdrflag TCP_ACK (last (unacked q @ unsent q))"
    by (simp only: last_map [OF ne] last_map [OF ne'])
  then have "seg_hdrflags (last (unacked p @ unsent p)) OR TCP_ACK = seg_hdrflags (last (unsent q)) OR TCP_ACK"
    using assms(2) by (simp add: set_hdrflag_def) (metis tcp_seg.ext_inject tcp_seg.surjective tcp_seg.update_convs(5))
  moreover have "(x OR TCP_ACK) AND TCP_FIN = x AND TCP_FIN" for x :: u8
    by (simp add: bit.conj_disj_distrib2) (simp add: TCP_ACK_def TCP_FIN_def)
  ultimately show ?thesis using ne by metis
qed

lemma send_fin_to_marks:
  assumes "send_fin_to st n = (err, n')" "pcb_ok (pcb n)" "seq_ok (pcb n)" "sendable (pcb_state (pcb n))"
  shows "if err = ERR_OK
    then unacked (pcb n') @ unsent (pcb n') \<noteq> [] \<and> seg_hdrflags (last (unacked (pcb n') @ unsent (pcb n'))) AND TCP_FIN \<noteq> 0
    else \<exists>f h. n' = n\<lparr>pcb := (pcb n)\<lparr>pcb_flags := f\<rparr>, net_heap := h\<rparr>"
proof -
  obtain e p h where f: "tcp_send_fin (pcb n) (net_heap n) = (e, p, h)"
    by (cases "tcp_send_fin (pcb n) (net_heap n)")
  note fin = tcp_send_fin_ok [OF f assms(2)] tcp_send_fin_chained [OF f assms(3,4)] tcp_send_fin_marks [OF f]
  let ?n = "map_pcb (\<lambda>p. p\<lparr>pcb_state := st\<rparr>) (n\<lparr>pcb := p, net_heap := h\<rparr>)"
  show ?thesis
  proof (cases "e = ERR_OK")
    case True
    obtain a b where "seq_chain a (unacked p @ unsent p) b" using fin(4) by (auto simp: chained_def)
    then have "headers (pcb (snd (tcp_output ?n))) = headers (pcb ?n)"
      using fin(1) by (intro tcp_output_headers) auto
    from headers_fin [OF this] fin(7) True show ?thesis
      using assms(1) f by (auto simp: send_fin_to_def Let_def)
  next
    case False
    then obtain g where "p = (pcb n)\<lparr>pcb_flags := g\<rparr>" using fin(7) by auto
    then show ?thesis using assms(1) f False by (auto simp: send_fin_to_def Let_def)
  qed
qed

end
