(* ===== verification/Tcp_Claims.thy ===== *)
theory Tcp_Claims
  imports Http_Run Tcp_Segs
begin

text \<open>
  The properties of the TCP half of the model, with a sample connection for their witnesses.
\<close>

text \<open>An accepted connection, as the handshake leaves it.\<close>

definition sample_pcb :: tcp_pcb where
  "sample_pcb = \<lparr>pcb_state = ESTABLISHED, pcb_flags = 0, rcv_nxt = 500, rcv_wnd = TCP_WND,
     rcv_ann_wnd = TCP_WND, rcv_ann_right_edge = 3420, rtime = - 1, rttest = 0, rtseq = 0, nrtx = 0,
     ssthresh = 8192, pcb_mss = 1460, lastack = 1000, cwnd = 2920, snd_nxt = 1000, snd_lbb = 1000,
     snd_wnd = 8192, snd_wnd_max = 8192, snd_buf = 2920, snd_queuelen = 0, unsent_oversize = 0,
     unsent = [], unacked = [], refused_data = None, callback_arg = True, recv_cb = True,
     sent_cb = True, err_cb = True, poll_cb = True, pollinterval = 4, polltmr = 0, snd_wl1 = 499,
     snd_wl2 = 1000, pcb_acked = 0, dupacks = 0, rto = 3, pcb_sa = 0, pcb_sv = 3, persist_cnt = 0,
     persist_backoff = 0, pcb_tmr = 0, keep_cnt_sent = 0\<rparr>"

definition sample_net :: "heap \<Rightarrow> net" where
  "sample_net h = \<lparr>pcb = sample_pcb, net_heap = h, wire = [], pcb_freed = False, in_input = False, tcp_ticks = 7\<rparr>"

lemma sample_good [simp]: "pcb_good sample_pcb"
  by (simp add: pcb_good_def pcb_ok_def seq_ok_def sample_pcb_def sendable_def tail_room_def)

text \<open>The same connection with five bytes on their way.\<close>

definition sample_sent :: tcp_pcb where
  "sample_sent = sample_pcb\<lparr>unacked := [\<lparr>seg_p = [''hello''], seg_len = 5, seg_optflags = 0, seg_seqno = 1000,
       seg_hdrflags = TCP_ACK\<rparr>], snd_queuelen := 1, snd_nxt := 1005, snd_lbb := 1005, snd_buf := 2915, rtime := 0\<rparr>"

lemma sample_sent_good [simp]: "pcb_good sample_sent"
  by (auto simp: pcb_good_def pcb_ok_def seq_ok_def sample_pcb_def sample_sent_def sendable_def tail_room_def
      seg_ok_def seg_data_def mss_local_def TCP_SND_QUEUELEN_def tcplen_def seg_syn_fin_def TCP_ACK_def TCP_SYN_def TCP_FIN_def
      queue_clen_def)

subsection \<open>Writing\<close>

text \<open>
  C2. \<open>tcp_write\<close> is all or nothing: when it succeeds, exactly the bytes it was given follow the
  bytes that were queued, whatever the memory manager answers and however they are cut into
  segments and pbufs; when it fails, nothing of them is queued. Both ways the queues stay
  well-formed and numbered in order.
\<close>

theorem tcp_write_all_or_nothing:
  assumes "tcp_write p arg len fl h = (err, p', h')" "pcb_good p" "0 < len" "unat len \<le> length arg"
  shows "pcb_good p' \<and>
    (if err = ERR_OK
     then tcp_stream p' = tcp_stream p @ take (unat len) arg \<and> len \<le> snd_buf p \<and> snd_buf p' = snd_buf p - len
     else (err = ERR_MEM \<or> err = ERR_CONN) \<and> tcp_stream p' = tcp_stream p \<and> unsent p' = unsent p
        \<and> unacked p' = unacked p \<and> snd_buf p' = snd_buf p)"
proof -
  have ok: "pcb_ok p" "seq_ok p" using assms(2) by (auto simp: pcb_good_def)
  show ?thesis
  proof (cases "err = ERR_OK")
    case True
    note w = tcp_write_ok [OF assms(1) [unfolded True] ok(1) assms(4,3)]
    have "snd_buf p' = snd_buf p - len"
      using w(3,4) by (simp add: word_unat_eq_iff unat_sub_u16)
    then show ?thesis
      using True w tcp_write_seq_ok [OF assms(1) [unfolded True] ok assms(4,3)] by (simp add: pcb_good_def)
  next
    case False
    from tcp_write_error [OF assms(1) False] show ?thesis
      using False ok by (auto simp: pcb_good_def set_flag_def simp flip: set_flag_def)
  qed
qed

lemma tcp_write_all_or_nothing_witness:
  "tcp_stream (fst (snd (tcp_write sample_pcb ''hello'' 5 0 [True, True, True, True]))) = ''hello''"
proof -
  obtain p h where w: "tcp_write sample_pcb ''hello'' 5 0 [True, True, True, True] = (ERR_OK, p, h)"
  proof -
    have "fst (tcp_write sample_pcb ''hello'' 5 0 [True, True, True, True]) = ERR_OK" by code_simp
    then show ?thesis using that by (metis prod.collapse)
  qed
  have "tcp_stream sample_pcb = []" by (simp add: tcp_stream_def sample_pcb_def)
  then show ?thesis using tcp_write_all_or_nothing [OF w sample_good] w by simp
qed

text \<open>
  C3. A connection closes without losing data: \<open>tcp_close\<close> on an open connection whose received
  data the application has taken keeps every queued byte. When it succeeds, the last segment that is
  queued or on its way carries the FIN and the state is \<open>FIN_WAIT_1\<close> (\<open>LAST_ACK\<close> behind the peer's FIN);
  when memory ran out nothing was sent and the connection is as it was, up to its flags.
\<close>

theorem tcp_close_keeps_data:
  assumes "tcp_close n = (err, n')" "pcb_good (pcb n)"
    "pcb_state (pcb n) = ESTABLISHED \<or> pcb_state (pcb n) = CLOSE_WAIT"
    "refused_data (pcb n) = None" "rcv_wnd (pcb n) = TCP_WND"
  shows "tcp_stream (pcb n') = tcp_stream (pcb n) \<and> pcb_good (pcb n')
    \<and> (if err = ERR_OK
        then pcb_state (pcb n') = (if pcb_state (pcb n) = ESTABLISHED then FIN_WAIT_1 else LAST_ACK)
          \<and> unacked (pcb n') @ unsent (pcb n') \<noteq> []
          \<and> seg_hdrflags (last (unacked (pcb n') @ unsent (pcb n'))) AND TCP_FIN \<noteq> 0
        else err = ERR_MEM \<and> (\<exists>f h. n' = n\<lparr>pcb := (pcb n)\<lparr>pcb_flags := f\<rparr>, net_heap := h\<rparr>))"
proof -
  note cl = tcp_close_stream [OF assms(1) _ _ assms(3-5)]
  let ?n = "map_pcb (set_flag TF_RXCLOSED) n"
  have n: "pcb_ok (pcb ?n)" "seq_ok (pcb ?n)" "sendable (pcb_state (pcb ?n))"
    using assms(2,3) by (auto simp: pcb_good_def sendable_def)
  have to: "send_fin_to (if pcb_state (pcb n) = ESTABLISHED then FIN_WAIT_1 else LAST_ACK) ?n = (err, n')"
    using assms(1,3-5) by (auto simp: tcp_close_def tcp_close_shutdown_def Let_def set_flag_def)
  have "\<exists>f h. n' = n\<lparr>pcb := (pcb n)\<lparr>pcb_flags := f\<rparr>, net_heap := h\<rparr>"
    if "n' = ?n\<lparr>pcb := (pcb ?n)\<lparr>pcb_flags := f\<rparr>, net_heap := h\<rparr>" for f h
    using that by (auto simp: map_pcb_def set_flag_def)
  then show ?thesis
    using cl assms(2) send_fin_to_marks [OF to n] send_fin_to_ok(4) [OF to n(1)] by (auto simp: pcb_good_def split: if_splits)
qed

lemma tcp_close_keeps_data_witness:
  "tcp_stream (pcb (snd (tcp_close ((sample_net [True, True, True])\<lparr>pcb := sample_sent\<rparr>)))) = ''hello''
    \<and> pcb_state (pcb (snd (tcp_close ((sample_net [True, True, True])\<lparr>pcb := sample_sent\<rparr>)))) = FIN_WAIT_1"
proof -
  let ?n = "(sample_net [True, True, True])\<lparr>pcb := sample_sent\<rparr>"
  obtain n' where c: "tcp_close ?n = (ERR_OK, n')"
  proof -
    have "fst (tcp_close ?n) = ERR_OK" by code_simp
    then show thesis using that by (metis prod.collapse)
  qed
  have "pcb_state (pcb ?n) = ESTABLISHED" "refused_data (pcb ?n) = None" "rcv_wnd (pcb ?n) = TCP_WND" "pcb_good (pcb ?n)"
    by simp_all (simp_all add: sample_sent_def sample_pcb_def)
  then have "tcp_stream (pcb n') = tcp_stream (pcb ?n) \<and> pcb_state (pcb n') = FIN_WAIT_1"
    using tcp_close_keeps_data [OF c] by simp
  then show ?thesis using c by (simp add: tcp_stream_def sample_sent_def sample_pcb_def seg_data_def)
qed

subsection \<open>Output\<close>

text \<open>
  C5. \<open>tcp_output\<close> puts the first unsent segments on the wire, in their order and each once, with their
  own sequence numbers, flags (and the ACK flag, except in \<open>SYN_SENT\<close>) and data, and with the number
  and window the receiving half has reached; none of them ends outside the window (the smaller of the
  peer's window and the congestion window), and it stops only at the end of the queue, at the window
  or at Nagle's rule. An empty acknowledgement is sent only when one is due and the first unsent segment
  does not fit, and then nothing else; during \<open>tcp_input\<close> nothing is sent.
\<close>

theorem tcp_output_sends_in_window:
  fixes n :: net
  defines "p \<equiv> pcb n" and "n' \<equiv> snd (tcp_output n)" and "wnd \<equiv> ucast (min (snd_wnd (pcb n)) (cwnd (pcb n))) :: u32"
  shows "\<exists>sent. unsent p = sent @ unsent (pcb n')
    \<and> list_all (\<lambda>s. seg_seqno s - lastack p + ucast (seg_len s) \<le> wnd) sent
    \<and> (if in_input n then n' = n
        else if pcb_flags p AND TF_ACK_NOW \<noteq> 0 \<and> (unsent p = [] \<or> \<not> in_window wnd p (hd (unsent p)))
        then sent = [] \<and> wire n' = wire n
          @ (if fst (alloc (net_heap n)) then [Ack_frame (snd_nxt p) (rcv_nxt p) (rcv_ann_wnd p)] else [])
        else wire n' = wire n @ map (\<lambda>s. Seg_frame
               (if pcb_state p = SYN_SENT then s else s\<lparr>seg_hdrflags := seg_hdrflags s OR TCP_ACK\<rparr>)
               (rcv_nxt p) (rcv_ann_wnd p)) sent
          \<and> (unsent (pcb n') = [] \<or> \<not> in_window wnd p (hd (unsent (pcb n'))) \<or> \<not> tcp_do_output_nagle (pcb n')))"
proof -
  let ?ack = "pcb_flags p AND TF_ACK_NOW \<noteq> 0 \<and> (unsent p = [] \<or> \<not> in_window wnd p (hd (unsent p)))"
  consider (input) "in_input n" | (ack) "\<not> in_input n" "?ack" | (send) "\<not> in_input n" "\<not> ?ack" by blast
  then show ?thesis
  proof cases
    case input
    then show ?thesis by (intro exI [of _ "[]"]) (simp add: n'_def p_def tcp_output_def)
  next
    case ack
    then have "n' = snd (tcp_send_empty_ack n)" by (simp add: n'_def p_def wnd_def tcp_output_def Let_def)
    then have "unsent (pcb n') = unsent p \<and> wire n' = wire n
        @ (if fst (alloc (net_heap n)) then [Ack_frame (snd_nxt p) (rcv_nxt p) (rcv_ann_wnd p)] else [])"
      by (auto simp: p_def tcp_send_empty_ack_def Let_def clear_flag_def split: prod.split bool.split)
    then show ?thesis using ack by (intro exI [of _ "[]"]) simp
  next
    case send
    let ?m = "tcp_output_loop wnd (unsent p) n"
    have out: "n' = map_pcb (clear_flag TF_NAGLEMEMERR)
        (if unsent (pcb ?m) = [] then map_pcb (\<lambda>p. p\<lparr>unsent_oversize := 0\<rparr>) ?m else ?m)"
      using send by (auto simp: n'_def p_def wnd_def tcp_output_def Let_def)
    have eq: "unsent (pcb n') = unsent (pcb ?m)" "wire n' = wire ?m"
      "tcp_do_output_nagle (pcb n') = tcp_do_output_nagle (pcb ?m)"
      by (simp_all add: out) (simp add: clear_flag_def)
    obtain sent where s: "unsent p = sent @ unsent (pcb ?m)" "wire ?m = wire n @ map (frame_of p) sent"
      "list_all (in_window wnd p) sent"
      "unsent (pcb ?m) = [] \<or> \<not> in_window wnd p (hd (unsent (pcb ?m))) \<or> \<not> tcp_do_output_nagle (pcb ?m)"
      using tcp_output_loop_frames [of n "unsent p" wnd] by (auto simp: p_def)
    have frs: "map (frame_of p) sent = map (\<lambda>s. Seg_frame
        (if pcb_state p = SYN_SENT then s else s\<lparr>seg_hdrflags := seg_hdrflags s OR TCP_ACK\<rparr>)
        (rcv_nxt p) (rcv_ann_wnd p)) sent" by (simp add: frame_of_def)
    have win: "list_all (in_window wnd p) sent
        = list_all (\<lambda>s. seg_seqno s - lastack p + ucast (seg_len s) \<le> wnd) sent" by (simp add: in_window_def [abs_def])
    show ?thesis
      unfolding eq if_not_P [OF send(1)] if_not_P [OF send(2)]
      by (intro exI [of _ sent] conjI s(1) s(4) s(3) [unfolded win] s(2) [unfolded frs])
  qed
qed

definition sample_queued :: tcp_pcb where
  "sample_queued = sample_sent\<lparr>unsent := unacked sample_sent, unacked := [], snd_nxt := 1000\<rparr>"

lemma tcp_output_sends_in_window_witness:
  "wire (snd (tcp_output ((sample_net [])\<lparr>pcb := sample_queued\<rparr>))) =
     [Seg_frame \<lparr>seg_p = [''hello''], seg_len = 5, seg_optflags = 0, seg_seqno = 1000, seg_hdrflags = TCP_ACK\<rparr> 500 TCP_WND]"
proof -
  let ?n = "(sample_net [])\<lparr>pcb := sample_queued\<rparr>"
  have q: "unsent (pcb (snd (tcp_output ?n))) = []" by code_simp
  have f: "pcb_flags (pcb ?n) AND TF_ACK_NOW = 0" "\<not> in_input ?n" "wire ?n = []" "pcb_state (pcb ?n) \<noteq> SYN_SENT"
    "rcv_nxt (pcb ?n) = 500" "rcv_ann_wnd (pcb ?n) = TCP_WND"
    by (simp_all add: sample_queued_def sample_sent_def sample_pcb_def sample_net_def)
  have u: "unsent (pcb ?n) = [\<lparr>seg_p = [''hello''], seg_len = 5, seg_optflags = 0, seg_seqno = 1000, seg_hdrflags = TCP_ACK\<rparr>]"
    by (simp add: sample_queued_def sample_sent_def)
  show ?thesis using tcp_output_sends_in_window [of ?n] f unfolding q u by auto
qed

text \<open>
  C6. Sending neither loses nor reorders a byte, and keeps the queues well-formed: \<open>tcp_output\<close>
  and the retransmission timer leave the bytes that are queued or unacknowledged as they were.
\<close>

theorem tcp_sending_keeps_stream:
  assumes "pcb_good (pcb n)"
  shows "tcp_stream (pcb (snd (tcp_output n))) = tcp_stream (pcb n) \<and> pcb_good (pcb (snd (tcp_output n)))
    \<and> tcp_stream (pcb (tcp_rexmit_rto n)) = tcp_stream (pcb n) \<and> pcb_good (pcb (tcp_rexmit_rto n))"
  using tcp_output_keeps [OF assms] rexmit_rto_keeps [OF assms] by simp

lemma tcp_sending_keeps_stream_witness:
  "tcp_stream (pcb (tcp_rexmit_rto ((sample_net [])\<lparr>pcb := sample_sent\<rparr>))) = ''hello''"
proof -
  let ?n = "(sample_net [])\<lparr>pcb := sample_sent\<rparr>"
  have "tcp_stream (pcb (tcp_rexmit_rto ?n)) = tcp_stream (pcb ?n)"
    using tcp_sending_keeps_stream [of ?n] by simp
  then show ?thesis by (simp add: tcp_stream_def sample_sent_def sample_pcb_def seg_data_def)
qed

subsection \<open>Acknowledgements\<close>

text \<open>
  C4. An acknowledgement inside the queued range, if it is not the third duplicate (which moves the
  oldest segment back), takes from the front of the queues exactly the
  segments that end at or before the acknowledged number, FIN included, and nothing else (an old one
  takes none); the bytes of the taken segments are gone from the front of the stream. The queues and the
  count of pbufs stay consistent.
\<close>

theorem tcp_ack_takes_prefix:
  fixes p :: tcp_pcb and i :: tcp_in_seg and ticks :: u32
  assumes "pcb_good p" "ack_range i p"
  defines "p' \<equiv> tcp_receive_ack i ticks p"
  shows "pcb_good p' \<and> pcb_state p' = pcb_state p
    \<and> (\<exists>gone. unacked p @ unsent p = gone @ unacked p' @ unsent p'
        \<and> tcp_stream p = concat (map seg_data gone) @ tcp_stream p'
        \<and> list_all (\<lambda>s. seq_leq (seg_seqno s + tcplen s) (in_ackno i)) gone
        \<and> (unacked p' @ unsent p' = []
            \<or> \<not> seq_leq (seg_seqno (hd (unacked p' @ unsent p')) + tcplen (hd (unacked p' @ unsent p'))) (in_ackno i)))"
proof -
  let ?L = "\<lambda>s. seq_leq (seg_end s) (in_ackno i)" and ?q = "unacked p @ unsent p"
  have r: "pcb_good p'" "pcb_state p' = pcb_state p" "unacked p' @ unsent p' = dropWhile ?L ?q"
    unfolding p'_def by (rule tcp_receive_ack_queues [OF assms(1,2), of ticks]; simp add: ack_frame_def)+
  have split: "?q = takeWhile ?L ?q @ unacked p' @ unsent p'" unfolding r(3) by simp
  have st: "tcp_stream x = queue_data (unacked x @ unsent x)" for x by (simp add: tcp_stream_def)
  have "tcp_stream p = queue_data (takeWhile ?L ?q @ unacked p' @ unsent p')" unfolding st [of p] using split by argo
  then have "tcp_stream p = concat (map seg_data (takeWhile ?L ?q)) @ tcp_stream p'"
    by (simp add: tcp_stream_def queue_data_def)
  moreover have "list_all ?L (takeWhile ?L ?q)" by (auto simp: list_all_iff dest: set_takeWhileD)
  moreover have "unacked p' @ unsent p' = [] \<or> \<not> ?L (hd (unacked p' @ unsent p'))"
    unfolding r(3) using hd_dropWhile by blast
  ultimately show ?thesis using r(1,2) split by (auto simp: seg_end_def)
qed

definition sample_ack :: tcp_in_seg where
  "sample_ack = \<lparr>in_seqno = 500, in_ackno = 1005, in_wnd = 8192, in_tcplen = 0\<rparr>"

lemma sample_ack_range: "ack_range sample_ack sample_sent"
  unfolding ack_range_def
  by (rule exI [of _ 1000], rule exI [of _ 1005], rule exI [of _ 5])
     (simp add: sample_ack_def sample_sent_def sample_pcb_def tcplen_def seg_syn_fin_def TCP_ACK_def TCP_SYN_def
       TCP_FIN_def seq_leq_def seq_between_def seq_geq_def)

lemma tcp_ack_takes_prefix_witness:
  "pcb_good (tcp_receive_ack sample_ack 9 sample_sent) \<and> tcp_stream (tcp_receive_ack sample_ack 9 sample_sent) = []"
proof
  show "pcb_good (tcp_receive_ack sample_ack 9 sample_sent)"
    using tcp_ack_takes_prefix [OF sample_sent_good sample_ack_range] by simp
  show "tcp_stream (tcp_receive_ack sample_ack 9 sample_sent) = []" by code_simp
qed

subsection \<open>Resets\<close>

text \<open>
  C14. A connection closed before the application took all received data is reset: every
  queued byte is dropped, the only frame sent is the reset (none when memory ran out), and the
  pcb waits out its time or goes back to its pool.
\<close>

theorem tcp_close_unread_resets:
  assumes "tcp_close n = (err, n')" "pcb_state (pcb n) = ESTABLISHED \<or> pcb_state (pcb n) = CLOSE_WAIT"
    "refused_data (pcb n) \<noteq> None \<or> rcv_wnd (pcb n) \<noteq> TCP_WND"
  shows "err = ERR_OK \<and> tcp_stream (pcb n') = []
    \<and> wire n' = wire n @ (if fst (alloc (net_heap n)) then [Rst_frame (snd_nxt (pcb n)) (rcv_nxt (pcb n))] else [])
    \<and> (if pcb_state (pcb n) = ESTABLISHED then pcb_state (pcb n') = TIME_WAIT else pcb_freed n')"
  using assms
  by (cases "alloc (net_heap n)")
     (auto simp: tcp_close_def tcp_close_shutdown_def Let_def set_flag_def tcp_rst_def tcp_pcb_purge_def
       ip_output_def memp_free_pcb_def tcp_stream_def map_pcb_def split: if_splits bool.splits)

lemma tcp_close_unread_resets_witness:
  "wire (snd (tcp_close ((sample_net [True])\<lparr>pcb := sample_sent\<lparr>rcv_wnd := 2000\<rparr>\<rparr>))) = [Rst_frame 1005 500]"
proof -
  let ?n = "(sample_net [True])\<lparr>pcb := sample_sent\<lparr>rcv_wnd := 2000\<rparr>\<rparr>"
  obtain e n' where c: "tcp_close ?n = (e, n')" by fastforce
  have "wire n' = wire ?n @ [Rst_frame 1005 500]"
    using tcp_close_unread_resets [OF c] by (simp add: sample_sent_def sample_pcb_def sample_net_def TCP_WND_def)
  then show ?thesis using c by (simp add: sample_net_def)
qed

end
