(* ===== verification/Http_Claims.thy ===== *)
theory Http_Claims
  imports Http_Serve Http_Poll Tcp_Claims
begin

text \<open>
  The properties of the HTTP server that span its parts, with a sample server for the
  witnesses: a plain file, a page with a tag, and a handler that inserts two characters.
\<close>

definition sample_handler :: "unit ssi_handler" where
  "sample_handler i buf w = (2, put_bytes 0 ''hi'' buf, w)"

definition sample_cfg :: "unit httpd_cfg" where
  "sample_cfg = \<lparr>fs_root = [\<lparr>fd_name = ''/a.txt'', fd_data = ''hello'', fd_http_header_included = True\<rparr>,
       \<lparr>fd_name = ''/t.shtml'', fd_data = ''a<!--#t-->b'', fd_http_header_included = True\<rparr>],
     g_pCGIs = [], ssi_config = \<lparr>g_pfnSSIHandler = Some sample_handler, g_ppcTags = Some [''t''], g_iNumTags = 1\<rparr>\<rparr>"

lemma sample_handler_ok [simp]: "handler_ok (ssi_config sample_cfg)"
  by (simp add: handler_ok_def sample_cfg_def sample_handler_def ssi_consts length_put_bytes)

definition sample_conn :: "heap \<Rightarrow> unit conn" where
  "sample_conn h = \<lparr>c_net = sample_net h, c_hs = Some http_state_zero, c_world = (), c_freed = [], c_log = []\<rparr>"




subsection \<open>What has been sent is a prefix of the page\<close>



subsection \<open>One request\<close>






subsection \<open>Tags and inserts\<close>



text \<open>
  C8. Sending never leaves the buffers of the tag parser, whatever TCP accepts and whatever the
  file holds: the name, the insert and every index stay inside, and what was sent stays the file
  with its inserts, up to the send position.
\<close>

theorem ssi_send_in_bounds:
  assumes "ssi_inv (\<lambda>n. tcp_stream (pcb n)) (\<lambda>n. pcb_good (pcb n)) S0 start content r" "handler_ok cfg"
  shows "parser_ok (r_ssi (http_send_data_ssi lwip_ops cfg content r))
    \<and> ssi_inv (\<lambda>n. tcp_stream (pcb n)) (\<lambda>n. pcb_good (pcb n)) S0 start content
        (http_send_data_ssi lwip_ops cfg content r)
    \<and> tags_in content (http_send_data_ssi lwip_ops cfg content r) = tags_in content r"
  using lwip.http_send_data_ssi_inv [OF assms] http_send_data_ssi_tags [of content lwip_ops cfg r]
  by (simp add: ssi_inv_def Let_def)

definition sample_run :: "(net, unit) ssi_run" where
  "sample_run = \<lparr>r_pos = \<lparr>hs_file = 0, hs_left = 11\<rparr>, r_ssi = ssi_start 11, r_tcp = sample_net [True, True, True, True],
     r_world = (), r_len = 0, r_err = ERR_OK, r_data_to_send = False, r_log = []\<rparr>"

lemma ssi_send_in_bounds_witness:
  "parser_ok (r_ssi (http_send_data_ssi lwip_ops (ssi_config sample_cfg) ''a<!--#t-->b'' sample_run))"
proof -
  have "ssi_inv (\<lambda>n. tcp_stream (pcb n)) (\<lambda>n. pcb_good (pcb n)) [] 0 ''a<!--#t-->b'' sample_run"
    using parser_ok_start [of 11]
    by (simp add: ssi_inv_def sample_run_def sample_net_def pos_ok_def Let_def)
       (simp add: ssi_start_def sample_pcb_def tcp_stream_def)
  from ssi_send_in_bounds [OF this sample_handler_ok] show ?thesis by simp
qed



lemma put_bytes_at: "length pre = off \<Longrightarrow> put_bytes off bs (pre @ mid @ post) = pre @ bs @ drop (length bs) (mid @ post)"
  by (simp add: put_bytes_def)




subsection \<open>Requests\<close>

definition occurs_at :: "char list \<Rightarrow> string \<Rightarrow> nat \<Rightarrow> nat \<Rightarrow> bool" where
  "occurs_at buf tok n i \<longleftrightarrow> i + length tok \<le> n \<and> take (length tok) (drop i buf) = tok \<and> NUL \<notin> set (take i buf)"

lemma strncmp_decides:
  assumes "c_strncmp_eq a tok (length tok) = Some b" "NUL \<notin> set tok"
  shows "b = (take (length tok) a = tok)"
proof -
  have "c_strncmp_eq a t (length t) = Some b \<Longrightarrow> NUL \<notin> set t \<Longrightarrow> b = (take (length t) a = t)" for a t
  proof (induction t arbitrary: a)
    case (Cons y t)
    then show ?case by (cases a) (auto split: if_splits)
  qed simp
  then show ?thesis using assms by blast
qed

lemma occurs_at_Suc: "c \<noteq> NUL \<Longrightarrow> occurs_at (c # cs) tok (Suc n) (Suc i) = occurs_at cs tok n i"
  by (simp add: occurs_at_def NUL_def)

lemma strnstr_loop_first:
  assumes "strnstr_loop p buf tok n = Inr r" "tok \<noteq> []" "NUL \<notin> set tok" "p \<le> n"
  shows "case r of Some i \<Rightarrow> p \<le> i \<and> occurs_at buf tok (n - p) (i - p) \<and> (\<forall>j<i - p. \<not> occurs_at buf tok (n - p) j)
    | None \<Rightarrow> \<forall>j. \<not> occurs_at buf tok (n - p) j"
  using assms
proof (induction p buf tok n rule: strnstr_loop.induct)
  case (2 p c cs tok n)
  let ?R = "\<lambda>p buf. case r of
      Some i \<Rightarrow> p \<le> i \<and> occurs_at buf tok (n - p) (i - p) \<and> (\<forall>j<i - p. \<not> occurs_at buf tok (n - p) j)
    | None \<Rightarrow> \<forall>j. \<not> occurs_at buf tok (n - p) j"
  have tl: "1 \<le> length tok" using 2(4) by (cases tok) auto
  show ?case
  proof (cases "c = NUL \<or> \<not> p + length tok \<le> n")
    case True
    then have "r = None" using 2(3) by (auto split: if_splits)
    moreover have "\<not> occurs_at (c # cs) tok (n - p) j" for j
    proof
      assume o: "occurs_at (c # cs) tok (n - p) j"
      then have "p + length tok \<le> n" using 2(6) by (auto simp: occurs_at_def)
      then have "c = NUL" using True by simp
      then show False using o 2(4,5) by (cases j; cases tok) (auto simp: occurs_at_def)
    qed
    ultimately show ?thesis by simp
  next
    case False
    have here: "occurs_at (c # cs) tok (n - p) 0 = (take (length tok) (c # cs) = tok)"
      using False by (auto simp: occurs_at_def)
    have sn: "n - p = Suc (n - Suc p)" "Suc p \<le> n" using False tl by auto
    have step: "?R p (c # cs)" if "strnstr_loop (Suc p) cs tok n = Inr r" "?R (Suc p) cs"
        "take (length tok) (c # cs) \<noteq> tok"
    proof -
      have no: "occurs_at (c # cs) tok (n - p) j \<longleftrightarrow> (\<exists>k. j = Suc k \<and> occurs_at cs tok (n - Suc p) k)" for j
        using here that(3) occurs_at_Suc [of c cs tok "n - Suc p"] sn(1) False by (cases j) auto
      show ?thesis
      proof (cases r)
        case (Some i)
        then have i: "Suc p \<le> i" "occurs_at cs tok (n - Suc p) (i - Suc p)"
          "\<forall>j<i - Suc p. \<not> occurs_at cs tok (n - Suc p) j" using that(2) by auto
        then have "i - p = Suc (i - Suc p)" by simp
        then show ?thesis using Some i no by auto
      qed (use that(2) no in auto)
    qed
    show ?thesis
    proof (cases "c = hd tok")
      case True
      obtain b where b: "c_strncmp_eq (c # cs) tok (length tok) = Some b"
        using 2(3) False True by (auto split: option.splits)
      have d: "b = (take (length tok) (c # cs) = tok)" by (rule strncmp_decides [OF b 2(5)])
      show ?thesis
      proof (cases b)
        case True
        then have "r = Some p" using 2(3) False \<open>c = hd tok\<close> b by auto
        then show ?thesis using d True here by simp
      next
        case nb: False
        then have l: "strnstr_loop (Suc p) cs tok n = Inr r" using 2(3) False \<open>c = hd tok\<close> b by auto
        have "?R (Suc p) cs" by (rule 2(1)) (use False \<open>c = hd tok\<close> b nb l 2(4,5) sn(2) in auto)
        then show ?thesis using step [OF l] d nb by simp
      qed
    next
      case h: False
      then have l: "strnstr_loop (Suc p) cs tok n = Inr r" using 2(3) False by auto
      have "?R (Suc p) cs" by (rule 2(2)) (use False h l 2(4,5) sn(2) in auto)
      moreover have "take (length tok) (c # cs) \<noteq> tok" using h 2(4) by (cases tok) auto
      ultimately show ?thesis using step [OF l] by simp
    qed
  qed
qed simp

text \<open>
  C10. \<open>strnstr\<close> is the search for the first occurrence: where it reports a position, the token
  stands there, inside the first \<open>n\<close> bytes and before any NUL, and nowhere earlier; where it
  reports none, there is none.
\<close>

theorem strnstr_first_occurrence:
  assumes "strnstr buf tok n = Inr r" "tok \<noteq> []" "NUL \<notin> set tok"
  shows "case r of Some i \<Rightarrow> occurs_at buf tok n i \<and> (\<forall>j<i. \<not> occurs_at buf tok n j)
    | None \<Rightarrow> \<forall>j. \<not> occurs_at buf tok n j"
  using strnstr_loop_first [of 0 buf tok n r] assms by (auto simp: strnstr_def split: option.splits)

lemma strnstr_first_occurrence_witness:
  "strnstr ''abcbc'' ''bc'' 5 = Inr (Some 1) \<and> \<not> occurs_at ''abcbc'' ''bc'' 5 0"
proof -
  have s: "strnstr ''abcbc'' ''bc'' 5 = Inr (Some 1)" by (simp add: strnstr_def NUL_def)
  show ?thesis using strnstr_first_occurrence [OF s] s by (simp add: NUL_def)
qed

text \<open>
  C11. The parameters of a CGI request: the query string is cut in place exactly as written, at
  each \<open>&\<close>, the last piece at the first blank, each piece at its first \<open>=\<close>; at most 16
  pieces are taken. The buffer keeps its length, so no write falls outside it.
\<close>

theorem cgi_parameters_parsed:
  assumes "NUL \<notin> set q"
  shows "let (m', ps) = extract_uri_parameters (pre @ q @ NUL # post) (Some (length pre))
    in length m' = length (pre @ q @ NUL # post)
       \<and> params_at m' ps = (if q = [] then [] else uri_params LWIP_HTTPD_MAX_CGI_PARAMETERS q)"
  using extract_uri_parameters_params [OF assms, of pre post] by auto

lemma cgi_parameters_parsed_witness:
  "params_at (fst (extract_uri_parameters (''/c'' @ ''a=1&b'' @ [NUL]) (Some 2)))
     (snd (extract_uri_parameters (''/c'' @ ''a=1&b'' @ [NUL]) (Some 2))) = [(''a'', Some ''1''), (''b'', None)]"
proof -
  have q: "NUL \<notin> set ''a=1&b''" by (simp add: NUL_def)
  have "uri_params LWIP_HTTPD_MAX_CGI_PARAMETERS ''a=1&b'' = [(''a'', Some ''1''), (''b'', None)]" by code_simp
  then show ?thesis
    using cgi_parameters_parsed [OF q, of "''/c''" "[]"] by (simp add: case_prod_beta Let_def numeral_2_eq_2)
qed


definition partial_pbuf :: pbuf where
  "partial_pbuf = \<lparr>pb_mem = ''GET /a'', pb_len = 6\<rparr>"


text \<open>
  Closing takes the connection's state away from TCP: afterwards TCP holds no pointer to it,
  so no later callback can reach the freed state, and the state with its file and its parser is
  freed exactly when it was given. This holds whether \<open>tcp_close\<close> succeeds or not.
\<close>

theorem close_detaches_state:
  "let c' = snd (http_close_conn c hs)
   in \<not> callback_arg (pcb (c_net c')) \<and> c_hs c' = (if hs then None else c_hs c) \<and> c_freed c' = c_freed c"
  using http_close_conn_effect [of c hs] by (simp add: prod_eq_iff Let_def)

subsection \<open>Timeouts\<close>

text \<open>
  C13. A connection whose peer stops acknowledging does not hold its state for ever: after four
  polls without a \<open>http_sent\<close> in between (eight seconds) its state has been freed and TCP holds no pointer
  to it, and the connection is closed, or memory was missing for the FIN and the poll is set to try again;
  after the fifth poll it is closed or aborted, whatever memory TCP could get.
\<close>

theorem poll_times_out:
  fixes cfg :: "'w httpd_cfg" and c :: "'w conn"
  assumes "c_hs c = Some hs" "retries hs = 0" "callback_arg (pcb (c_net c))" "poll_cb (pcb (c_net c))"
    "\<not> left_active (c_net c)"
  defines "c4 \<equiv> (poll_tick cfg ^^ 4) c" and "c5 \<equiv> (poll_tick cfg ^^ 5) c"
  shows "c_hs c4 = None \<and> \<not> callback_arg (pcb (c_net c4))
    \<and> (pcb_freed (c_net c4) \<or> pcb_state (pcb (c_net c4)) \<notin> {ESTABLISHED, CLOSE_WAIT}
        \<or> poll_cb (pcb (c_net c4)) \<and> pollinterval (pcb (c_net c4)) = 4)
    \<and> c_hs c5 = None \<and> (pcb_freed (c_net c5) \<or> pcb_state (pcb (c_net c5)) \<notin> {ESTABLISHED, CLOSE_WAIT})"
proof -
  have inv: "polled k ((poll_tick cfg ^^ k) c)" if "k \<le> 3" for k
    using that
  proof (induction k)
    case (Suc k)
    then show ?case using poll_tick_polled [of k "(poll_tick cfg ^^ k) c" cfg] by simp
  qed (use assms(1-5) in \<open>simp add: polled_def\<close>)
  have n: "c4 = poll_tick cfg ((poll_tick cfg ^^ 3) c)" "c5 = poll_tick cfg c4"
    by (simp_all add: c4_def c5_def eval_nat_numeral)
  have "polled 4 c4" "c_hs c4 = None" using poll_tick_polled [OF inv [of 3], of cfg] by (simp_all add: n)
  moreover from poll_closed [OF this, of cfg] have "c_hs c5 = None" "shut (c_net c5)" by (simp_all add: n)
  ultimately show ?thesis by (auto simp: polled_def shut_def HTTPD_POLL_INTERVAL_def)
qed

lemma poll_times_out_witness:
  "c_hs ((poll_tick sample_cfg ^^ 4) (sample_conn [False, False])) = None
    \<and> poll_cb (pcb (c_net ((poll_tick sample_cfg ^^ 4) (sample_conn [False, False]))))
    \<and> pcb_freed (c_net ((poll_tick sample_cfg ^^ 5) (sample_conn [False, False])))"
proof -
  let ?c = "sample_conn [False, False]"
  have "c_hs ?c = Some http_state_zero" "retries http_state_zero = 0" "callback_arg (pcb (c_net ?c))" "poll_cb (pcb (c_net ?c))"
    "\<not> left_active (c_net ?c)"
    by (simp_all add: sample_conn_def sample_net_def sample_pcb_def http_state_zero_def left_active_def)
  then have "c_hs ((poll_tick sample_cfg ^^ 4) ?c) = None" using poll_times_out [of ?c http_state_zero sample_cfg] by simp
  moreover have "poll_cb (pcb (c_net ((poll_tick sample_cfg ^^ 4) ?c))) \<and> pcb_freed (c_net ((poll_tick sample_cfg ^^ 5) ?c))"
    by code_simp
  ultimately show ?thesis by simp
qed

subsection \<open>Where the server fails\<close>

text \<open>
  The insert of a tag that ends at the very end of a file is never sent: once the file itself
  is sent and the parser is about to send an insert, the next call of \<open>http_send\<close> closes the
  connection, with nothing more given to TCP.
\<close>

theorem final_insert_lost:
  assumes "c_hs c = Some hs" "handle hs" "hs_ok hs" "ssi hs = Some s" "tag_state s = TAG_SENDING"
    "hs_left (send_position hs) = 0" "calm c" "pcb_good (pcb (c_net c))"
  shows "\<exists>c'. http_send cfg c = (False, c') \<and> c_hs c' = None \<and> given A c' = given A c"
proof -
  have "fs_bytes_left (file_handle hs) = 0" using assms(2,3) by (simp add: hs_ok_def)
  then have "http_send cfg c = (False, http_eof c)"
    using assms(1,2,6) by (simp add: http_send_def fs_is_file_ready_def http_check_eof_def)
  then show ?thesis using http_eof_keeps(1) [OF assms(7,8)] by simp
qed

definition stuck_ssi :: http_ssi_state where
  "stuck_ssi = (ssi_start 9)\<lparr>tag_state := TAG_SENDING, parsed := 9, parse_left := 0, tag_end := 9,
       tag_name_len := 1, tag_insert_len := 2\<rparr>"

definition stuck_hs :: http_state where
  "stuck_hs = http_state_zero\<lparr>handle := True, file_set := True,
     file_handle := opened \<lparr>fd_name = ''/u.shtml'', fd_data = ''<!--#t-->'', fd_http_header_included = True\<rparr>,
     send_position := \<lparr>hs_file = 9, hs_left = 0\<rparr>, ssi := Some stuck_ssi\<rparr>"

definition stuck_conn :: "unit conn" where
  "stuck_conn = (sample_conn [])\<lparr>c_hs := Some stuck_hs\<rparr>"

lemma stuck_fields:
  "c_hs stuck_conn = Some stuck_hs" "handle stuck_hs" "hs_ok stuck_hs" "ssi stuck_hs = Some stuck_ssi"
  "tag_state stuck_ssi = TAG_SENDING" "hs_left (send_position stuck_hs) = 0" "calm stuck_conn"
  "pcb_good (pcb (c_net stuck_conn))" "given [] stuck_conn = []" "req stuck_hs = []" "c_freed stuck_conn = []"
proof -
  show "hs_ok stuck_hs"
    by (simp add: stuck_hs_def stuck_ssi_def hs_ok_def http_state_zero_def parser_ok_def ssi_start_def
        ssi_zero_def ssi_consts pos_ok_def opened_def whole_file_def)
qed (simp_all add: stuck_conn_def stuck_hs_def stuck_ssi_def http_state_zero_def calm_def given_def
       sample_conn_def sample_net_def, simp_all add: sample_pcb_def tcp_stream_def)

lemma final_insert_lost_witness:
  "\<exists>c'. http_send sample_cfg stuck_conn = (False, c') \<and> c_hs c' = None \<and> given [] c' = []"
  using final_insert_lost [OF stuck_fields(1-8), of sample_cfg "[]"] stuck_fields(9) by simp

lemma strnstr_loop_overrun:
  "NUL \<notin> set xs \<Longrightarrow> t \<notin> set xs \<Longrightarrow> p + length xs = n \<Longrightarrow> strnstr_loop p xs [t] n = Inl Oob_read"
  by (induction xs arbitrary: p) auto

text \<open>
  An HTTP/0.9 request that fills its buffer to the last byte makes \<open>strnstr\<close> read one
  byte behind it: the loop dereferences its pointer before it compares it with the end.
\<close>

theorem short_request_overrun:
  assumes "data = GET_sp @ uri @ CRLF @ CRLF" "NUL \<notin> set uri" "CHR '' '' \<notin> set uri" "uri \<noteq> []"
  shows "parse_data cfg hs data (length data) h w = Inl Oob_read"
proof -
  have n: "NUL \<notin> set (GET_sp @ uri)" using assms(2) by (simp add: GET_sp_def NUL_def)
  have 1: "\<exists>i. strnstr data CRLF (length data) = Inr (Some i)"
    using strnstr_found [OF n, of CRLF "length data" CRLF] assms(1) by auto
  have 2: "c_strncmp_eq data ''GET '' 4 = Some True"
    using assms(1) by (subst c_strncmp_eq_some) (auto simp: GET_sp_def NUL_def)
  have d: "drop 4 data = uri @ CRLF @ CRLF" using assms(1) by (simp add: GET_sp_def)
  have 3: "strnstr (drop 4 data) '' '' (length data - 4) = Inl Oob_read"
    using assms strnstr_loop_overrun [of "uri @ CRLF @ CRLF" "CHR '' ''" 0 "length data - 4"]
    by (simp add: strnstr_def d GET_sp_def)
  have min: "\<not> length data < MIN_REQ_LEN" using assms(1,4) by (cases uri) (simp_all add: MIN_REQ_LEN_def GET_sp_def)
  show ?thesis using 1 2 3 min by (auto simp: parse_data_def Let_def)
qed

lemma short_request_overrun_witness:
  "parse_data sample_cfg http_state_zero (''GET /a'' @ CRLF @ CRLF) 10 [] () = Inl Oob_read"
  using short_request_overrun [of "''GET /a'' @ CRLF @ CRLF" "''/a''" sample_cfg http_state_zero "[]" "()"]
  by (simp add: GET_sp_def NUL_def)

text \<open>
  A pbuf that arrives while a page is being sent is lost: it is neither given back nor
  queued with the request, so its memory leaks.
\<close>

theorem pbuf_leaks_while_sending:
  assumes "c_hs c = Some hs" "handle hs" "req hs = []" "p \<noteq> []"
  shows "\<exists>c'. http_recv cfg buf True p ERR_OK c = Inr (ERR_OK, c') \<and> c_freed c' = c_freed c \<and> c_hs c' = Some hs"
  using assms by (simp add: http_recv_def map_net_def)

lemma pbuf_leaks_while_sending_witness:
  "\<exists>c'. http_recv sample_cfg [] True [partial_pbuf] ERR_OK stuck_conn = Inr (ERR_OK, c') \<and> c_freed c' = []"
  using pbuf_leaks_while_sending [OF stuck_fields(1,2,10), of "[partial_pbuf]" sample_cfg "[]"] stuck_fields(11) by auto

end
