(* ===== verification/Rtc.thy ===== *)
theory Rtc
  imports Prelude
begin

text \<open>
  The real-time clock of the board (\<^verbatim>\<open>SDK/platform/hal/src/rtc/fsl_rtc_hal.c\<close>): the conversions
  between seconds since 1970 and a date, the registers, setting and reading the time, the alarm.
  The theory proves that the two conversions are inverse to each other on all 32-bit times.
\<close>

unbundle bit_operations_syntax

subsection \<open>Dates\<close>

record rtc_datetime =
  dt_year :: u16
  dt_month :: u16
  dt_day :: u16
  dt_hour :: u16
  dt_minute :: u16
  dt_second :: u8

definition SECONDS_IN_A_DAY :: u32 where "SECONDS_IN_A_DAY = 86400"
definition SECONDS_IN_A_HOUR :: u32 where "SECONDS_IN_A_HOUR = 3600"
definition SECONDS_IN_A_MIN :: u32 where "SECONDS_IN_A_MIN = 60"
definition DAYS_IN_A_YEAR :: u32 where "DAYS_IN_A_YEAR = 365"
definition DAYS_IN_A_LEAP_YEAR :: u32 where "DAYS_IN_A_LEAP_YEAR = 366"
definition YEAR_RANGE_START :: u16 where "YEAR_RANGE_START = 1970"
definition YEAR_RANGE_END :: u16 where "YEAR_RANGE_END = 2099"

definition ULY :: "u8 list" where
  "ULY = [0, 31, 28, 31, 30, 31, 30, 31, 31, 30, 31, 30, 31]"
definition LY :: "u8 list" where
  "LY = [0, 31, 29, 31, 30, 31, 30, 31, 31, 30, 31, 30, 31]"
definition MONTH_DAYS :: "u16 list" where
  "MONTH_DAYS = [0, 0, 31, 59, 90, 120, 151, 181, 212, 243, 273, 304, 334]"

lemmas rtc_consts = SECONDS_IN_A_DAY_def SECONDS_IN_A_HOUR_def SECONDS_IN_A_MIN_def DAYS_IN_A_YEAR_def
  DAYS_IN_A_LEAP_YEAR_def YEAR_RANGE_START_def YEAR_RANGE_END_def

subsection \<open>From seconds to a date\<close>

text \<open>
  The year loop. \<open>Days_in_year\<close> always is the length of \<open>datetime->year\<close>: it starts as 365 for
  1970, and every turn sets it for the new year.
\<close>

definition Days_in_year :: "u16 \<Rightarrow> u32" where
  "Days_in_year year = (if year AND 3 \<noteq> 0 then DAYS_IN_A_YEAR else DAYS_IN_A_LEAP_YEAR)"

function year_loop :: "u32 \<Rightarrow> u16 \<Rightarrow> u32 \<times> u16" where
  "year_loop Days year =
     (if Days > Days_in_year year then year_loop (Days - Days_in_year year) (year + 1) else (Days, year))"
  by pat_completeness auto

termination year_loop
proof (relation "measure (\<lambda>(Days, year). unat Days)")
  fix Days :: u32 and year :: u16
  assume more: "Days > Days_in_year year"
  have "unat (Days - Days_in_year year) = unat Days - unat (Days_in_year year)"
    using more by (intro unat_sub) simp
  moreover have "0 < unat (Days_in_year year)" by (simp add: Days_in_year_def rtc_consts)
  ultimately show "((Days - Days_in_year year, year + 1), (Days, year)) \<in> measure (\<lambda>(Days, year). unat Days)"
    using more by (simp add: word_less_nat_alt)
qed simp

declare year_loop.simps [simp del]

text \<open>The month loop, on the lengths of the months from \<open>x\<close> on; \<open>None\<close> when no month was set.\<close>

fun month_loop :: "u16 \<Rightarrow> u8 list \<Rightarrow> u32 \<Rightarrow> u16 option \<times> u32" where
  "month_loop x [] Days = (None, Days)"
| "month_loop x (len # lens) Days =
     (if Days \<le> ucast len then (Some x, Days) else month_loop (x + 1) lens (Days - ucast len))"

definition Days_in_month :: "u16 \<Rightarrow> u8 list" where
  "Days_in_month year = (if year AND 3 \<noteq> 0 then ULY else LY)"

definition RTC_HAL_ConvertSecsToDatetime :: "u32 \<Rightarrow> rtc_datetime \<Rightarrow> rtc_datetime" where
  "RTC_HAL_ConvertSecsToDatetime seconds datetime =
     (let Days = seconds div SECONDS_IN_A_DAY + 1;
          Seconds = seconds mod SECONDS_IN_A_DAY;
          datetime = datetime\<lparr>dt_hour := ucast (Seconds div SECONDS_IN_A_HOUR)\<rparr>;
          Seconds = Seconds mod SECONDS_IN_A_HOUR;
          datetime = datetime\<lparr>dt_minute := ucast (Seconds div SECONDS_IN_A_MIN),
                              dt_second := ucast (Seconds mod SECONDS_IN_A_MIN)\<rparr>;
          (Days, year) = year_loop Days YEAR_RANGE_START;
          datetime = datetime\<lparr>dt_year := year\<rparr>;
          (month, Days) = month_loop 1 (tl (Days_in_month year)) Days;
          datetime = (case month of Some m \<Rightarrow> datetime\<lparr>dt_month := m\<rparr> | None \<Rightarrow> datetime)
      in datetime\<lparr>dt_day := ucast Days\<rparr>)"

subsection \<open>From a date to seconds\<close>

definition RTC_HAL_IsDatetimeCorrectFormat :: "rtc_datetime \<Rightarrow> bool" where
  "RTC_HAL_IsDatetimeCorrectFormat d =
     (let result = \<not> (dt_year d < YEAR_RANGE_START \<or> dt_year d > YEAR_RANGE_END
                      \<or> dt_month d > 12 \<or> dt_month d < 1 \<or> dt_day d > 31 \<or> dt_day d < 1
                      \<or> dt_hour d \<ge> 24 \<or> dt_minute d \<ge> 60 \<or> dt_second d \<ge> 60)
      in if result \<and> dt_year d AND 3 \<noteq> 0
         then (if ucast (ULY ! unat (dt_month d)) < dt_day d then False else result)
         else (if result \<and> ucast (LY ! unat (dt_month d)) < dt_day d then False else result))"

text \<open>The table \<open>MONTH_DAYS\<close> is read at \<open>month\<close> without a check.\<close>

definition RTC_HAL_ConvertDatetimeToSecs :: "rtc_datetime \<Rightarrow> u32 checked" where
  "RTC_HAL_ConvertDatetimeToSecs d =
     (let seconds = (ucast (dt_year d) - 1970) * DAYS_IN_A_YEAR;
          seconds = seconds + (ucast (dt_year d div 4) - 1970 div 4)
      in if unat (dt_month d) \<ge> length MONTH_DAYS then Inl Oob_read
         else
           let seconds = seconds + ucast (MONTH_DAYS ! unat (dt_month d));
               seconds = seconds + (ucast (dt_day d) - 1);
               seconds = (if dt_year d AND 3 = 0 \<and> dt_month d \<le> 2 then seconds - 1 else seconds)
           in Inr (seconds * SECONDS_IN_A_DAY + ucast (dt_hour d) * SECONDS_IN_A_HOUR
                   + ucast (dt_minute d) * SECONDS_IN_A_MIN + ucast (dt_second d)))"

subsection \<open>The registers\<close>

text \<open>
  The registers the driver uses. As the comment of \<open>RTC_HAL_SetSecsReg\<close> says, \<open>TSR\<close> is read only
  while the counter runs, it reads as zero while the time-invalid or the overflow flag is set, and a write
  to it clears both. The flags are set by the hardware.
\<close>

record rtc_regs =
  rtc_tsr :: u32
  rtc_tpr :: u32
  rtc_tar :: u32
  rtc_tce :: bool
  rtc_tif :: bool
  rtc_tof :: bool

definition RTC_HAL_EnableCounter :: "rtc_regs \<Rightarrow> bool \<Rightarrow> rtc_regs" where
  "RTC_HAL_EnableCounter r enable = r\<lparr>rtc_tce := enable\<rparr>"

definition RTC_HAL_SetSecsReg :: "rtc_regs \<Rightarrow> u32 \<Rightarrow> rtc_regs" where
  "RTC_HAL_SetSecsReg r seconds =
     (if rtc_tce r then r else r\<lparr>rtc_tpr := 0, rtc_tsr := seconds, rtc_tif := False, rtc_tof := False\<rparr>)"

definition RTC_HAL_GetSecsReg :: "rtc_regs \<Rightarrow> u32" where
  "RTC_HAL_GetSecsReg r = (if rtc_tif r \<or> rtc_tof r then 0 else rtc_tsr r)"

definition RTC_HAL_SetAlarmReg :: "rtc_regs \<Rightarrow> u32 \<Rightarrow> rtc_regs" where
  "RTC_HAL_SetAlarmReg r seconds = r\<lparr>rtc_tar := seconds\<rparr>"

definition RTC_HAL_GetAlarmReg :: "rtc_regs \<Rightarrow> u32" where
  "RTC_HAL_GetAlarmReg r = rtc_tar r"

definition RTC_HAL_SetDatetimeInsecs :: "rtc_regs \<Rightarrow> u32 \<Rightarrow> rtc_regs" where
  "RTC_HAL_SetDatetimeInsecs r seconds =
     RTC_HAL_EnableCounter (RTC_HAL_SetSecsReg (RTC_HAL_EnableCounter r False) seconds) True"

definition RTC_HAL_SetDatetime :: "rtc_regs \<Rightarrow> rtc_datetime \<Rightarrow> rtc_regs checked" where
  "RTC_HAL_SetDatetime r datetime =
     map_sum id (RTC_HAL_SetDatetimeInsecs r) (RTC_HAL_ConvertDatetimeToSecs datetime)"

definition RTC_HAL_GetDatetimeInSecs :: "rtc_regs \<Rightarrow> u32" where
  "RTC_HAL_GetDatetimeInSecs r = RTC_HAL_GetSecsReg r"

definition RTC_HAL_GetDatetime :: "rtc_regs \<Rightarrow> rtc_datetime \<Rightarrow> rtc_datetime" where
  "RTC_HAL_GetDatetime r datetime = RTC_HAL_ConvertSecsToDatetime (RTC_HAL_GetDatetimeInSecs r) datetime"

definition RTC_HAL_SetAlarm :: "rtc_regs \<Rightarrow> rtc_datetime \<Rightarrow> (bool \<times> rtc_regs) checked" where
  "RTC_HAL_SetAlarm r date =
     (case RTC_HAL_ConvertDatetimeToSecs date of
        Inl e \<Rightarrow> Inl e
      | Inr alrm_seconds \<Rightarrow>
          Inr (if alrm_seconds \<le> RTC_HAL_GetSecsReg r then (False, r)
               else (True, RTC_HAL_SetAlarmReg r alrm_seconds)))"

definition RTC_HAL_GetAlarm :: "rtc_regs \<Rightarrow> rtc_datetime \<Rightarrow> rtc_datetime" where
  "RTC_HAL_GetAlarm r date = RTC_HAL_ConvertSecsToDatetime (RTC_HAL_GetAlarmReg r) date"

subsection \<open>The calendar\<close>

text \<open>
  The calendar the driver means: every fourth year is a leap year. \<open>days_before y\<close> is the number of
  days from the start of 1970 to the start of \<open>y\<close>, and \<open>month_offset\<close> the one from the start of
  the year to the start of the month.
\<close>

definition year_days :: "nat \<Rightarrow> nat" where
  "year_days y = (if y mod 4 = 0 then 366 else 365)"

definition days_before :: "nat \<Rightarrow> nat" where
  "days_before y = (y - 1970) * 365 + ((y - 1) div 4 - 492)"

definition month_lengths :: "nat \<Rightarrow> nat list" where
  "month_lengths y = [31, if y mod 4 = 0 then 29 else 28, 31, 30, 31, 30, 31, 31, 30, 31, 30, 31]"

definition month_offset :: "nat \<Rightarrow> nat \<Rightarrow> nat" where
  "month_offset y m = sum_list (take (m - 1) (month_lengths y))"

definition day_number :: "nat \<Rightarrow> nat \<Rightarrow> nat \<Rightarrow> nat" where
  "day_number y m d = days_before y + month_offset y m + d"

definition calendar_day :: "nat \<Rightarrow> nat \<Rightarrow> nat \<Rightarrow> bool" where
  "calendar_day y m d \<longleftrightarrow> 1970 \<le> y \<and> 1 \<le> m \<and> m \<le> 12 \<and> 1 \<le> d \<and> d \<le> month_lengths y ! (m - 1)"

lemma div_4_pred:
  fixes y :: nat
  assumes "0 < y"
  shows "y div 4 = (y - 1) div 4 + (if y mod 4 = 0 then 1 else 0)"
proof -
  obtain k where k: "y = Suc k" using assms by (cases y) auto
  show ?thesis by (simp add: k div_Suc)
qed

lemma days_before_Suc:
  assumes "1970 \<le> y"
  shows "days_before (Suc y) = days_before y + year_days y"
proof -
  obtain k where k: "y = 1970 + k" using assms le_Suc_ex by blast
  have "492 \<le> (y - 1) div 4" using div_le_mono [of 1969 "y - 1" 4] assms by simp
  moreover have "(Suc y - 1970) * 365 = (y - 1970) * 365 + 365" by (simp add: k)
  ultimately show ?thesis
    using div_4_pred [of y] assms by (simp add: days_before_def year_days_def split: if_splits)
qed

lemma days_before_mono: "1970 \<le> y \<Longrightarrow> y \<le> z \<Longrightarrow> days_before y \<le> days_before z"
  unfolding days_before_def by (intro add_mono mult_right_mono diff_le_mono div_le_mono) auto

lemma sum_month_lengths: "sum_list (month_lengths y) = year_days y"
  by (simp add: month_lengths_def year_days_def)

lemma length_month_lengths [simp]: "length (month_lengths y) = 12"
  by (simp add: month_lengths_def)

lemma month_offset_Suc:
  assumes "1 \<le> m" "m \<le> 12"
  shows "month_offset y (Suc m) = month_offset y m + month_lengths y ! (m - 1)"
  using assms take_Suc_conv_app_nth [of "m - 1" "month_lengths y"]
  by (simp add: month_offset_def)

lemma sum_take_mono: "i \<le> j \<Longrightarrow> sum_list (take i xs) \<le> sum_list (take j (xs :: nat list))"
  by (metis le_Suc_ex le_add1 sum_list.append take_add)

lemma month_offset_mono: "m \<le> n \<Longrightarrow> month_offset y m \<le> month_offset y n"
  unfolding month_offset_def by (rule sum_take_mono) simp

lemma month_offset_year: "m \<le> 13 \<Longrightarrow> month_offset y m \<le> year_days y"
  using month_offset_mono [of m 13 y] sum_month_lengths [of y] by (simp add: month_offset_def)

lemma day_number_range:
  assumes "calendar_day y m d"
  shows "days_before y < day_number y m d" "day_number y m d \<le> days_before (Suc y)"
    "days_before y + month_offset y m < day_number y m d"
    "day_number y m d \<le> days_before y + month_offset y (Suc m)"
  using assms month_offset_Suc [of m y] month_offset_year [of "Suc m" y] days_before_Suc [of y]
  by (auto simp: calendar_day_def day_number_def)

text \<open>A day has one date.\<close>

lemma day_number_inj:
  assumes "calendar_day y m d" "calendar_day y' m' d'" "day_number y m d = day_number y' m' d'"
  shows "y = y' \<and> m = m' \<and> d = d'"
proof -
  note r = day_number_range [OF assms(1)] day_number_range [OF assms(2)]
  have y: "y = y'"
  proof (rule linorder_cases [of y y'])
    assume "y < y'"
    then show ?thesis using r(2,5) assms days_before_mono [of "Suc y" y'] by (simp add: calendar_day_def)
  next
    assume "y' < y"
    then show ?thesis using r(1,6) assms days_before_mono [of "Suc y'" y] by (simp add: calendar_day_def)
  qed
  have m: "m = m'"
  proof (rule linorder_cases [of m m'])
    assume "m < m'"
    then show ?thesis using r(4,7) assms y month_offset_mono [of "Suc m" m' y] by simp
  next
    assume "m' < m"
    then show ?thesis using r(3,8) assms y month_offset_mono [of "Suc m'" m y] by simp
  qed
  show ?thesis using y m assms(3) by (simp add: day_number_def)
qed

subsection \<open>The loops\<close>

lemma and_3_mod_4: "(year AND 3 = (0 :: u16)) = (unat year mod 4 = 0)"
proof -
  have "year AND 3 = take_bit 2 year" by (simp add: take_bit_eq_mask mask_eq_exp_minus_1)
  then have "unat (year AND 3) = unat year mod 4" by (simp add: take_bit_eq_mod unat_mod)
  then show ?thesis by (metis unat_0 unat_eq_zero)
qed

lemma unat_Days_in_year: "unat (Days_in_year year) = year_days (unat year)"
  by (simp add: Days_in_year_def year_days_def and_3_mod_4 rtc_consts)

lemma Days_in_month_lengths: "map unat (tl (Days_in_month year)) = month_lengths (unat year)"
  by (simp add: Days_in_month_def month_lengths_def and_3_mod_4 ULY_def LY_def)

text \<open>The year loop finds the year of a day; 49711 days are the whole range of the 32-bit seconds.\<close>

lemma year_loop_day:
  assumes "1970 \<le> unat year" "1 \<le> unat Days" "days_before (unat year) + unat Days \<le> 49711"
    "year_loop Days year = (d, y)"
  shows "1970 \<le> unat y \<and> days_before (unat y) + unat d = days_before (unat year) + unat Days
    \<and> 1 \<le> unat d \<and> unat d \<le> year_days (unat y)"
  using assms
proof (induction Days year rule: year_loop.induct)
  case (1 Days year)
  show ?case
  proof (cases "Days > Days_in_year year")
    case True
    have less: "unat (Days_in_year year) < unat Days" using True by (simp add: word_less_nat_alt)
    then have sub: "unat (Days - Days_in_year year) = unat Days - year_days (unat year)"
      using unat_sub [of "Days_in_year year" Days] True by (simp add: unat_Days_in_year)
    have "unat year \<le> 2106"
    proof (rule ccontr)
      assume "\<not> unat year \<le> 2106"
      then have "days_before 2107 \<le> days_before (unat year)" by (intro days_before_mono) auto
      moreover have "days_before 2107 = 50039" by (simp add: days_before_def)
      ultimately show False using 1(4) by simp
    qed
    then have suc: "unat (year + 1) = Suc (unat year)" by (simp add: unat_word_ariths)
    have loop: "year_loop (Days - Days_in_year year) (year + 1) = (d, y)"
      using 1(5) True by (subst (asm) year_loop.simps) simp
    show ?thesis
      using 1(1) [OF True _ _ _ loop] 1(2-4) sub suc less days_before_Suc [of "unat year"]
      by (simp add: unat_Days_in_year)
  next
    case False
    then have "d = Days" "y = year" using 1(5) by (simp_all add: year_loop.simps [of Days])
    then show ?thesis using False 1(2,3) by (simp add: word_less_nat_alt unat_Days_in_year not_less)
  qed
qed

text \<open>The month loop finds the month of a day of the year.\<close>

lemma unat_ucast_u8: "unat (ucast (len :: u8) :: u32) = unat len"
  by (simp add: unsigned_ucast_eq take_bit_nat_eq_self unsigned_less [of len, THEN order_less_trans])

lemma unat_ucast_u8_u16: "unat (ucast (len :: u8) :: u16) = unat len"
  by (simp add: unsigned_ucast_eq take_bit_nat_eq_self unsigned_less [of len, THEN order_less_trans])

lemma month_loop_day:
  assumes "1 \<le> unat Days" "unat Days \<le> sum_list (map unat lens)"
  shows "\<exists>k d. month_loop x lens Days = (Some (x + of_nat k), d) \<and> k < length lens
    \<and> sum_list (take k (map unat lens)) + unat d = unat Days \<and> 1 \<le> unat d \<and> unat d \<le> unat (lens ! k)"
  using assms
proof (induction x lens Days rule: month_loop.induct)
  case (2 x len lens Days)
  show ?case
  proof (cases "Days \<le> ucast len")
    case True
    then show ?thesis
      using 2(2) by (intro exI [of _ 0] exI [of _ Days]) (simp add: word_le_nat_alt unat_ucast_u8)
  next
    case False
    then have "unat len < unat Days" by (simp add: word_le_nat_alt unat_ucast_u8)
    moreover have "unat (Days - ucast len) = unat Days - unat len"
      using False by (subst unat_sub) (simp_all add: unat_ucast_u8)
    ultimately have "1 \<le> unat (Days - ucast len)" "unat (Days - ucast len) \<le> sum_list (map unat lens)"
      "unat (Days - ucast len) = unat Days - unat len"
      using 2(3) by auto
    then obtain k d where "month_loop (x + 1) lens (Days - ucast len) = (Some (x + 1 + of_nat k), d)"
      "k < length lens" "sum_list (take k (map unat lens)) + unat d = unat Days - unat len"
      "1 \<le> unat d" "unat d \<le> unat (lens ! k)"
      using 2(1) [OF False] by auto
    then show ?thesis
      using False \<open>unat len < unat Days\<close> by (intro exI [of _ "Suc k"] exI [of _ d]) (simp add: add.assoc)
  qed
qed simp

subsection \<open>The conversions\<close>

definition dt_calendar :: "rtc_datetime \<Rightarrow> bool" where
  "dt_calendar d \<longleftrightarrow> calendar_day (unat (dt_year d)) (unat (dt_month d)) (unat (dt_day d))"

definition dt_day_number :: "rtc_datetime \<Rightarrow> nat" where
  "dt_day_number d = day_number (unat (dt_year d)) (unat (dt_month d)) (unat (dt_day d))"

definition dt_day_secs :: "rtc_datetime \<Rightarrow> nat" where
  "dt_day_secs d = unat (dt_hour d) * 3600 + unat (dt_minute d) * 60 + unat (dt_second d)"

definition dt_clock :: "rtc_datetime \<Rightarrow> bool" where
  "dt_clock d \<longleftrightarrow> unat (dt_hour d) < 24 \<and> unat (dt_minute d) < 60 \<and> unat (dt_second d) < 60"

lemma unat_ucast_u32_u16: "unat w < 65536 \<Longrightarrow> unat (ucast (w :: u32) :: u16) = unat w"
  by (simp add: unsigned_ucast_eq take_bit_nat_eq_self)

lemma unat_ucast_u32_u8: "unat w < 256 \<Longrightarrow> unat (ucast (w :: u32) :: u8) = unat w"
  by (simp add: unsigned_ucast_eq take_bit_nat_eq_self)

lemma days_of_secs: "unat (s :: u32) div 86400 \<le> 49710"
proof -
  have "unat s < 2 ^ 32" using unsigned_less [of s] by simp
  then show ?thesis using div_le_mono [of "unat s" "2 ^ 32 - 1" 86400] by simp
qed

lemma date_of_secs:
  "dt_calendar (RTC_HAL_ConvertSecsToDatetime s d0)
   \<and> dt_day_number (RTC_HAL_ConvertSecsToDatetime s d0) = unat s div 86400 + 1"
proof -
  let ?Days = "s div SECONDS_IN_A_DAY + 1"
  have u: "unat (s div SECONDS_IN_A_DAY) = unat s div 86400" by (simp add: unat_div rtc_consts)
  have small: "unat s div 86400 \<le> 49710" by (rule days_of_secs)
  have days: "unat ?Days = unat s div 86400 + 1" using u small by (simp add: unat_word_ariths)
  obtain d y where y: "year_loop ?Days YEAR_RANGE_START = (d, y)" by fastforce
  have yl: "1970 \<le> unat y" "days_before (unat y) + unat d = unat s div 86400 + 1" "1 \<le> unat d"
    "unat d \<le> year_days (unat y)"
    using year_loop_day [OF _ _ _ y] days small by (simp_all add: YEAR_RANGE_START_def days_before_def)
  obtain k e where m: "month_loop 1 (tl (Days_in_month y)) d = (Some (1 + of_nat k), e)"
    "k < length (tl (Days_in_month y))" "sum_list (take k (month_lengths (unat y))) + unat e = unat d"
    "1 \<le> unat e" "unat e \<le> unat (tl (Days_in_month y) ! k)"
    using month_loop_day [of d "tl (Days_in_month y)" 1] yl
    by (auto simp: Days_in_month_lengths sum_month_lengths)
  have k: "k < 12" using m(2) by (metis Days_in_month_lengths length_map length_month_lengths)
  have nth: "unat (tl (Days_in_month y) ! k) = month_lengths (unat y) ! k"
    using m(2) by (metis Days_in_month_lengths nth_map)
  have mm: "unat (1 + of_nat k :: u16) = Suc k" using k by (simp add: unat_word_ariths u16_simps)
  have e: "unat (ucast e :: u16) = unat e"
    using m(3) yl(4) by (intro unat_ucast_u32_u16) (simp add: year_days_def split: if_splits)
  let ?r = "RTC_HAL_ConvertSecsToDatetime s d0"
  have "dt_year ?r = y" "dt_month ?r = 1 + of_nat k" "dt_day ?r = ucast e"
    by (simp_all add: RTC_HAL_ConvertSecsToDatetime_def Let_def y m(1))
  then show ?thesis
    using yl m(3-5) k nth mm e
    by (simp add: dt_calendar_def dt_day_number_def calendar_day_def day_number_def month_offset_def)
qed

lemma clock_of_secs:
  "dt_clock (RTC_HAL_ConvertSecsToDatetime s d0)
   \<and> dt_day_secs (RTC_HAL_ConvertSecsToDatetime s d0) = unat s mod 86400"
proof -
  let ?r = "RTC_HAL_ConvertSecsToDatetime s d0"
  define S where "S = unat s mod 86400"
  have S: "S < 86400" by (simp add: S_def)
  have "unat (s mod SECONDS_IN_A_DAY) = S" by (simp add: S_def unat_mod rtc_consts)
  moreover have "dt_hour ?r = ucast (s mod SECONDS_IN_A_DAY div SECONDS_IN_A_HOUR)"
    "dt_minute ?r = ucast (s mod SECONDS_IN_A_DAY mod SECONDS_IN_A_HOUR div SECONDS_IN_A_MIN)"
    "dt_second ?r = ucast (s mod SECONDS_IN_A_DAY mod SECONDS_IN_A_HOUR mod SECONDS_IN_A_MIN)"
    by (simp_all add: RTC_HAL_ConvertSecsToDatetime_def Let_def split: prod.splits option.splits)
  ultimately have f: "unat (dt_hour ?r) = S div 3600" "unat (dt_minute ?r) = S mod 3600 div 60"
    "unat (dt_second ?r) = S mod 3600 mod 60"
    using S by (simp_all add: unat_ucast_u32_u16 unat_ucast_u32_u8 unat_div unat_mod rtc_consts
        less_mult_imp_div_less)
  have "S div 3600 < 24" "S mod 3600 div 60 < 60" using S by (auto simp: less_mult_imp_div_less)
  moreover have "S div 3600 * 3600 + S mod 3600 div 60 * 60 + S mod 3600 mod 60 = S"
    by (metis add.assoc div_mult_mod_eq)
  ultimately show ?thesis using f by (simp add: dt_clock_def dt_day_secs_def S_def)
qed

lemma month_cases: "1 \<le> m \<Longrightarrow> m \<le> 12 \<Longrightarrow> m \<in> {1, 2, 3, 4, 5, 6, 7, 8, 9, 10, 11, 12 :: nat}"
  by (simp only: insert_iff empty_iff) arith

lemma calendar_day_31: "calendar_day y m d \<Longrightarrow> d \<le> 31"
proof -
  assume c: "calendar_day y m d"
  then have "m \<in> {1, 2, 3, 4, 5, 6, 7, 8, 9, 10, 11, 12}" by (intro month_cases) (auto simp: calendar_day_def)
  then show ?thesis using c by (elim insertE) (auto simp: calendar_day_def month_lengths_def split: if_splits)
qed

lemma month_table:
  assumes "1 \<le> m" "m \<le> 12"
  shows "month_offset y m = unat (MONTH_DAYS ! m) + (if y mod 4 = 0 \<and> 2 < m then 1 else 0)"
proof -
  have "m \<in> {1, 2, 3, 4, 5, 6, 7, 8, 9, 10, 11, 12}" using assms by (rule month_cases)
  then show ?thesis
    by (elim insertE) (simp_all add: month_offset_def month_lengths_def MONTH_DAYS_def)
qed

lemma secs_of_date:
  assumes "dt_calendar d"
  shows "RTC_HAL_ConvertDatetimeToSecs d = Inr (of_nat ((dt_day_number d - 1) * 86400 + dt_day_secs d))"
proof -
  define y m e where "y = unat (dt_year d)" and "m = unat (dt_month d)" and "e = unat (dt_day d)"
  have c: "1970 \<le> y" "1 \<le> m" "m \<le> 12" "1 \<le> e" using assms by (auto simp: dt_calendar_def calendar_day_def y_def m_def e_def)
  have four: "(ucast (dt_year d div 4) :: u32) = of_nat (unat (dt_year d div 4))" by simp
  have "unat (dt_year d div 4) = y div 4" by (simp add: unat_div y_def)
  then have four: "(ucast (dt_year d div 4) :: u32) = of_nat (y div 4)" using four by (simp only:)
  have nat: "(ucast (dt_year d) :: u32) = of_nat y" "(ucast (dt_day d) :: u32) = of_nat e"
    "(ucast (dt_year d div 4) :: u32) = of_nat (y div 4)"
    "(ucast (MONTH_DAYS ! m) :: u32) = of_nat (unat (MONTH_DAYS ! m))"
    by (simp add: y_def, simp add: e_def, rule four, simp)
  define N where "N = (y - 1970) * 365 + (y div 4 - 492) + unat (MONTH_DAYS ! m) + (e - 1)
    - (if y mod 4 = 0 \<and> m \<le> 2 then 1 else 0)"
  have N: "dt_day_number d - 1 = N"
    using month_table [OF c(2,3), of y] div_4_pred [of y] c div_le_mono [of 1970 y 4] div_le_mono [of 1969 "y - 1" 4]
    by (simp add: dt_day_number_def day_number_def days_before_def y_def [symmetric] m_def [symmetric]
        e_def [symmetric] N_def split: if_splits)
  have year: "(ucast (dt_year d) - 1970 :: u32) = of_nat (y - 1970)"
    unfolding nat using c by (simp add: of_nat_diff)
  have leaps: "(ucast (dt_year d div 4) - 1970 div 4 :: u32) = of_nat (y div 4 - 492)"
    unfolding nat using c div_le_mono [of 1970 y 4] by (simp add: of_nat_diff)
  have day: "(ucast (dt_day d) - 1 :: u32) = of_nat (e - 1)"
    unfolding nat using c by (simp add: of_nat_diff)
  have leap: "(dt_year d AND 3 = 0 \<and> dt_month d \<le> 2) = (y mod 4 = 0 \<and> m \<le> 2)"
    by (simp add: and_3_mod_4 y_def m_def word_le_nat_alt)
  let ?M = "(y - 1970) * 365 + (y div 4 - 492) + unat (MONTH_DAYS ! m) + (e - 1)"
  have pos: "1 \<le> ?M" if l: "y mod 4 = 0"
  proof -
    have "493 \<le> y div 4" using c(1) l by presburger
    then show ?thesis by simp
  qed
  have sum: "(if y mod 4 = 0 \<and> m \<le> 2 then of_nat ?M - 1 else of_nat ?M :: u32) = of_nat N"
    using pos by (auto simp: N_def of_nat_diff)
  have "m < length MONTH_DAYS" using c by (simp add: MONTH_DAYS_def)
  then have "RTC_HAL_ConvertDatetimeToSecs d = Inr (of_nat N * SECONDS_IN_A_DAY + ucast (dt_hour d) * SECONDS_IN_A_HOUR
      + ucast (dt_minute d) * SECONDS_IN_A_MIN + ucast (dt_second d))"
    unfolding RTC_HAL_ConvertDatetimeToSecs_def Let_def m_def [symmetric] year leaps day nat(4) leap sum [symmetric]
    by (simp add: rtc_consts)
  then show ?thesis unfolding N by (simp add: rtc_consts dt_day_secs_def)
qed

subsection \<open>Round trips\<close>

lemma dt_day_number_pos: "dt_calendar d \<Longrightarrow> 1 \<le> dt_day_number d"
  by (simp add: dt_calendar_def dt_day_number_def calendar_day_def day_number_def)

lemma secs_date_secs: "RTC_HAL_ConvertDatetimeToSecs (RTC_HAL_ConvertSecsToDatetime s d0) = Inr s"
  using secs_of_date [of "RTC_HAL_ConvertSecsToDatetime s d0"] date_of_secs [of s d0] clock_of_secs [of s d0]
  by simp

text \<open>A date in the range of 32 bits is found again.\<close>

definition dt_secs :: "rtc_datetime \<Rightarrow> nat" where
  "dt_secs d = (dt_day_number d - 1) * 86400 + dt_day_secs d"

lemma clock_inj:
  assumes "dt_clock d" "dt_clock d'" "dt_day_secs d = dt_day_secs d'"
  shows "dt_hour d = dt_hour d' \<and> dt_minute d = dt_minute d' \<and> dt_second d = dt_second d'"
proof -
  have split: "h = h' \<and> m = m' \<and> s = s'"
    if "h * 3600 + m * 60 + s = h' * 3600 + m' * 60 + s'" "m < 60" "s < 60" "m' < 60" "s' < 60"
    for h m s h' m' s' :: nat
  proof -
    let ?n = "h * 3600 + (m * 60 + s)" and ?n' = "h' * 3600 + (m' * 60 + s')"
    have "?n div 3600 = h" "?n' div 3600 = h'" "?n mod 3600 = m * 60 + s" "?n' mod 3600 = m' * 60 + s'"
      using that by simp_all
    then have h: "h = h'" "m * 60 + s = m' * 60 + s'" using that(1) by (metis add.assoc)+
    moreover have "(m * 60 + s) div 60 = m" "(m' * 60 + s') div 60 = m'" using that by simp_all
    ultimately show ?thesis by auto
  qed
  have "unat (dt_hour d) = unat (dt_hour d') \<and> unat (dt_minute d) = unat (dt_minute d')
      \<and> unat (dt_second d) = unat (dt_second d')"
    using assms by (intro split) (simp_all add: dt_clock_def dt_day_secs_def)
  then show ?thesis by (auto intro: unsigned_word_eqI)
qed

lemma day_secs_less: "dt_clock d \<Longrightarrow> dt_day_secs d < 86400"
  by (simp add: dt_clock_def dt_day_secs_def)

lemma date_secs_date:
  assumes "dt_calendar d" "dt_clock d" "dt_secs d < 2 ^ 32" "RTC_HAL_ConvertDatetimeToSecs d = Inr s"
  shows "RTC_HAL_ConvertSecsToDatetime s d0 = d"
proof -
  let ?r = "RTC_HAL_ConvertSecsToDatetime s d0"
  have s: "unat s = (dt_day_number d - 1) * 86400 + dt_day_secs d"
  proof -
    have "s = of_nat (dt_secs d)" using assms(4) secs_of_date [OF assms(1)] by (simp only: dt_secs_def sum.inject)
    then have "unat s = dt_secs d" using assms(3) by (simp add: take_bit_nat_eq_self unsigned_of_nat)
    then show ?thesis by (simp only: dt_secs_def)
  qed
  have "unat s div 86400 + 1 = dt_day_number d" "unat s mod 86400 = dt_day_secs d"
    using s day_secs_less [OF assms(2)] dt_day_number_pos [OF assms(1)] by simp_all
  then have "dt_day_number ?r = dt_day_number d" "dt_day_secs ?r = dt_day_secs d"
    using date_of_secs [of s d0] clock_of_secs [of s d0] by simp_all
  then have n: "dt_day_number ?r = dt_day_number d" "dt_day_secs ?r = dt_day_secs d" by simp_all
  have c: "dt_calendar ?r" "dt_clock ?r" using date_of_secs [of s d0] clock_of_secs [of s d0] by simp_all
  have "unat (dt_year ?r) = unat (dt_year d) \<and> unat (dt_month ?r) = unat (dt_month d) \<and> unat (dt_day ?r) = unat (dt_day d)"
    using c(1) assms(1) n(1) unfolding dt_calendar_def dt_day_number_def by (rule day_number_inj)
  moreover have "dt_hour ?r = dt_hour d \<and> dt_minute ?r = dt_minute d \<and> dt_second ?r = dt_second d"
    using c(2) assms(2) n(2) by (rule clock_inj)
  ultimately show ?thesis by (intro rtc_datetime.equality) (auto intro: unsigned_word_eqI)
qed

text \<open>The driver's own check accepts such dates up to 2099.\<close>

lemma correct_format:
  assumes "RTC_HAL_IsDatetimeCorrectFormat d"
  shows "dt_calendar d" "dt_clock d" "dt_secs d < 2 ^ 32"
proof -
  have r: "1970 \<le> unat (dt_year d)" "unat (dt_year d) \<le> 2099" "1 \<le> unat (dt_month d)" "unat (dt_month d) \<le> 12"
    "1 \<le> unat (dt_day d)" "unat (dt_hour d) < 24" "unat (dt_minute d) < 60" "unat (dt_second d) < 60"
    using assms
    by (auto simp: RTC_HAL_IsDatetimeCorrectFormat_def Let_def rtc_consts word_less_nat_alt word_le_nat_alt not_less
        split: if_splits)
  have "unat (dt_day d) \<le> unat (Days_in_month (dt_year d) ! unat (dt_month d))"
    using assms
    by (auto simp: RTC_HAL_IsDatetimeCorrectFormat_def Let_def Days_in_month_def word_less_nat_alt not_less
        unat_ucast_u8_u16 split: if_splits)
  moreover have "unat (Days_in_month (dt_year d) ! unat (dt_month d))
      = month_lengths (unat (dt_year d)) ! (unat (dt_month d) - 1)"
    using r(3,4) Days_in_month_lengths [of "dt_year d"]
    by (metis (no_types, lifting) Days_in_month_def LY_def One_nat_def ULY_def length_map length_month_lengths
        less_eq_Suc_le nth_map nth_tl Suc_pred le_imp_less_Suc not_less_eq_eq)
  ultimately show c: "dt_calendar d" using r by (simp add: dt_calendar_def calendar_day_def)
  show k: "dt_clock d" using r by (simp add: dt_clock_def)
  have "dt_day_number d \<le> days_before 2100"
    using day_number_range(2) [of "unat (dt_year d)"] c r days_before_mono [of "Suc (unat (dt_year d))" 2100]
    by (fastforce simp: dt_calendar_def dt_day_number_def)
  moreover have "days_before 2100 = 47482" by (simp add: days_before_def)
  ultimately show "dt_secs d < 2 ^ 32" using day_secs_less [OF k] by (simp add: dt_secs_def)
qed

subsection \<open>The clock\<close>

text \<open>
  What the application relies on: after the time was set to a date, the clock shows that date, as
  long as no second has passed. A lawful clock stays so however often it is set.
\<close>

locale clock =
  fixes set_time :: "rtc_datetime \<Rightarrow> 'r \<Rightarrow> 'r" and get_time :: "'r \<Rightarrow> rtc_datetime \<Rightarrow> rtc_datetime"
    and date_ok :: "rtc_datetime \<Rightarrow> bool"
  assumes get_set: "date_ok d \<Longrightarrow> get_time (set_time d r) d0 = d"
    and date_ok_minute: "date_ok d \<Longrightarrow> h < 24 \<Longrightarrow> m < 60 \<Longrightarrow> date_ok (d\<lparr>dt_hour := h, dt_minute := m\<rparr>)"
begin

lemma set_minute:
  assumes "get_time r d0 = d" "date_ok d" "h < 24" "m < 60"
  shows "get_time (set_time (d\<lparr>dt_hour := h, dt_minute := m\<rparr>) r) d1 = (get_time r d0)\<lparr>dt_hour := h, dt_minute := m\<rparr>"
  using get_set [OF date_ok_minute [OF assms(2-4)]] assms(1) by simp

end

definition set_datetime :: "rtc_datetime \<Rightarrow> rtc_regs \<Rightarrow> rtc_regs" where
  "set_datetime d r = (case RTC_HAL_SetDatetime r d of Inr r \<Rightarrow> r | Inl _ \<Rightarrow> r)"

lemma set_in_secs: "RTC_HAL_GetDatetimeInSecs (RTC_HAL_SetDatetimeInsecs r s) = s"
  by (simp add: RTC_HAL_GetDatetimeInSecs_def RTC_HAL_SetDatetimeInsecs_def RTC_HAL_GetSecsReg_def
      RTC_HAL_EnableCounter_def RTC_HAL_SetSecsReg_def)

lemma set_datetime_get:
  assumes "RTC_HAL_IsDatetimeCorrectFormat d"
  shows "RTC_HAL_GetDatetime (set_datetime d r) d0 = d"
proof -
  obtain s where s: "RTC_HAL_ConvertDatetimeToSecs d = Inr s"
    using secs_of_date [OF correct_format(1) [OF assms]] by blast
  show ?thesis
    using date_secs_date [OF correct_format [OF assms] s]
    by (simp add: set_datetime_def RTC_HAL_SetDatetime_def s RTC_HAL_GetDatetime_def set_in_secs)
qed

interpretation rtc: clock set_datetime RTC_HAL_GetDatetime RTC_HAL_IsDatetimeCorrectFormat
  by unfold_locales (simp_all add: set_datetime_get RTC_HAL_IsDatetimeCorrectFormat_def Let_def not_le split: if_splits)

end
