(* ===== verification/Gpio.thy ===== *)
theory Gpio
  imports Prelude
begin

text \<open>
  The output pins of the board (\<^verbatim>\<open>fsl_gpio_driver.c\<close> and \<^verbatim>\<open>fsl_gpio_hal.c\<close> of the SDK, the pin
  names of \<^verbatim>\<open>Generated_Code/gpio1.h\<close>). A pin name is a port and a bit in one word; the state is the
  output register of each port.
\<close>

unbundle bit_operations_syntax

definition GPIO_MAKE_PIN :: "u32 \<Rightarrow> u32 \<Rightarrow> u32" where
  "GPIO_MAKE_PIN r p = push_bit 8 r OR p"

definition GPIO_EXTRACT_PORT :: "u32 \<Rightarrow> u32" where
  "GPIO_EXTRACT_PORT v = drop_bit 8 v AND 0xFF"

definition GPIO_EXTRACT_PIN :: "u32 \<Rightarrow> u32" where
  "GPIO_EXTRACT_PIN v = v AND 0xFF"

datatype gpio_pin =
  INT2 | INT0 | INT1 | SD_CARD_DETECT | INTRP | SHIELD_RELAY2 | SHIELD_RELAY1 | SHIELD_RELAY3
| BUZZER | SHIELD_RELAY4 | LED6 | ON_BOARD_RELAY | LED7 | LED5 | GATILHO

text \<open>Ports A to E have the indices 0 to 4.\<close>

fun pinName :: "gpio_pin \<Rightarrow> u32" where
  "pinName INT2 = GPIO_MAKE_PIN 3 0"
| "pinName INT0 = GPIO_MAKE_PIN 1 2"
| "pinName INT1 = GPIO_MAKE_PIN 1 10"
| "pinName SD_CARD_DETECT = GPIO_MAKE_PIN 4 6"
| "pinName INTRP = GPIO_MAKE_PIN 3 2"
| "pinName SHIELD_RELAY2 = GPIO_MAKE_PIN 3 5"
| "pinName SHIELD_RELAY1 = GPIO_MAKE_PIN 3 4"
| "pinName SHIELD_RELAY3 = GPIO_MAKE_PIN 4 24"
| "pinName BUZZER = GPIO_MAKE_PIN 4 26"
| "pinName SHIELD_RELAY4 = GPIO_MAKE_PIN 4 25"
| "pinName LED6 = GPIO_MAKE_PIN 1 19"
| "pinName ON_BOARD_RELAY = GPIO_MAKE_PIN 1 3"
| "pinName LED7 = GPIO_MAKE_PIN 1 18"
| "pinName LED5 = GPIO_MAKE_PIN 1 23"
| "pinName GATILHO = GPIO_MAKE_PIN 2 8"

type_synonym pdor = "u32 \<Rightarrow> u32"

text \<open>
  The set, clear and toggle registers of a port, as \<open>GPIO_HAL_WritePinOutput\<close> and
  \<open>GPIO_HAL_TogglePinOutput\<close> use them, on the output register.
\<close>

definition GPIO_HAL_WritePinOutput :: "u32 \<Rightarrow> u32 \<Rightarrow> u32 \<Rightarrow> u32" where
  "GPIO_HAL_WritePinOutput reg pin output =
     (if output \<noteq> 0 then reg OR push_bit (unat pin) 1 else reg AND NOT (push_bit (unat pin) 1))"

definition GPIO_HAL_TogglePinOutput :: "u32 \<Rightarrow> u32 \<Rightarrow> u32" where
  "GPIO_HAL_TogglePinOutput reg pin = reg XOR push_bit (unat pin) 1"

definition GPIO_HAL_ReadPinOutput :: "u32 \<Rightarrow> u32 \<Rightarrow> u32" where
  "GPIO_HAL_ReadPinOutput reg pin = drop_bit (unat pin) reg AND 1"

definition GPIO_DRV_WritePinOutput :: "u32 \<Rightarrow> u32 \<Rightarrow> pdor \<Rightarrow> pdor" where
  "GPIO_DRV_WritePinOutput name output g =
     (let port = GPIO_EXTRACT_PORT name
      in g(port := GPIO_HAL_WritePinOutput (g port) (GPIO_EXTRACT_PIN name) output))"

definition GPIO_DRV_TogglePinOutput :: "u32 \<Rightarrow> pdor \<Rightarrow> pdor" where
  "GPIO_DRV_TogglePinOutput name g =
     (let port = GPIO_EXTRACT_PORT name
      in g(port := GPIO_HAL_TogglePinOutput (g port) (GPIO_EXTRACT_PIN name)))"

subsection \<open>Pins are independent\<close>

definition wr_pin :: "gpio_pin \<Rightarrow> u32 \<Rightarrow> pdor \<Rightarrow> pdor" where
  "wr_pin p output g = GPIO_DRV_WritePinOutput (pinName p) output g"

definition toggle_pin :: "gpio_pin \<Rightarrow> pdor \<Rightarrow> pdor" where
  "toggle_pin p g = GPIO_DRV_TogglePinOutput (pinName p) g"

definition rd_pin :: "gpio_pin \<Rightarrow> pdor \<Rightarrow> bool" where
  "rd_pin p g \<longleftrightarrow>
     GPIO_HAL_ReadPinOutput (g (GPIO_EXTRACT_PORT (pinName p))) (GPIO_EXTRACT_PIN (pinName p)) \<noteq> 0"

lemma read_bit: "GPIO_HAL_ReadPinOutput reg pin \<noteq> 0 \<longleftrightarrow> bit reg (unat pin)"
proof -
  have "drop_bit (unat pin) reg AND 1 = of_bool (bit reg (unat pin))"
    by (simp add: and_one_eq bit_iff_odd_drop_bit flip: mod_2_eq_odd)
  then show ?thesis by (simp add: GPIO_HAL_ReadPinOutput_def)
qed

text \<open>Different names are different bits.\<close>

lemma pin_names:
  "unat (GPIO_EXTRACT_PIN (pinName p)) < 32"
  "GPIO_EXTRACT_PORT (pinName p) = GPIO_EXTRACT_PORT (pinName q) \<Longrightarrow>
     unat (GPIO_EXTRACT_PIN (pinName p)) = unat (GPIO_EXTRACT_PIN (pinName q)) \<Longrightarrow> p = q"
   by (cases p; simp add: GPIO_EXTRACT_PIN_def GPIO_MAKE_PIN_def)
      (cases p; cases q; simp add: GPIO_EXTRACT_PORT_def GPIO_EXTRACT_PIN_def GPIO_MAKE_PIN_def)

lemma rd_wr_pin: "rd_pin p (wr_pin q v g) = (if p = q then v \<noteq> 0 else rd_pin p g)"
  using pin_names(1) [of p] pin_names(2) [of p q]
  by (auto simp: rd_pin_def wr_pin_def read_bit GPIO_DRV_WritePinOutput_def Let_def GPIO_HAL_WritePinOutput_def
      bit_or_iff bit_and_iff bit_not_iff bit_exp_iff)

lemma rd_toggle_pin: "rd_pin p (toggle_pin q g) = (if p = q then \<not> rd_pin p g else rd_pin p g)"
  using pin_names(1) [of p] pin_names(2) [of p q]
  by (auto simp: rd_pin_def toggle_pin_def read_bit GPIO_DRV_TogglePinOutput_def Let_def GPIO_HAL_TogglePinOutput_def
      bit_xor_iff bit_exp_iff)

subsection \<open>The interface\<close>

locale output_pins =
  fixes wr :: "'pin \<Rightarrow> u32 \<Rightarrow> 'g \<Rightarrow> 'g" and rd :: "'pin \<Rightarrow> 'g \<Rightarrow> bool"
  assumes rd_wr: "rd p (wr q v g) = (if p = q then v \<noteq> 0 else rd p g)"
begin

lemma rd_wr_all: "rd p (fold (\<lambda>q. wr q v) qs g) = (if p \<in> set qs then v \<noteq> 0 else rd p g)"
  by (induction qs arbitrary: g) (auto simp: rd_wr)

lemma rd_clear_set:
  "rd p (fold (\<lambda>q. wr q 1) ons (fold (\<lambda>q. wr q 0) offs g)) = (p \<in> set ons \<or> p \<notin> set offs \<and> rd p g)"
  by (simp add: rd_wr_all)

end

interpretation gpio: output_pins wr_pin rd_pin
  by unfold_locales (rule rd_wr_pin)

end
