(* ===== verification/Cformat.thy ===== *)
theory Cformat
  imports Cstring
begin

text \<open>
  The part of \<open>sprintf\<close> the application uses: \<^verbatim>\<open>%0<w>d\<close> and \<^verbatim>\<open>%0<w>hd\<close>, decimal numbers filled up
  with zeros. \<open>atoi\<close> reads such a number back.
\<close>

fun dec :: "nat \<Rightarrow> string" where
  "dec n = (if n < 10 then [char_of (48 + n)] else dec (n div 10) @ [char_of (48 + n mod 10)])"

declare dec.simps [simp del]

definition pad0 :: "nat \<Rightarrow> string \<Rightarrow> string" where
  "pad0 w s = replicate (w - length s) (CHR ''0'') @ s"

definition fmt_0d :: "nat \<Rightarrow> int \<Rightarrow> string" where
  "fmt_0d w z = (if z < 0 then CHR ''-'' # pad0 (w - 1) (dec (nat (- z))) else pad0 w (dec (nat z)))"

definition fmt_0hd :: "nat \<Rightarrow> u16 \<Rightarrow> string" where
  "fmt_0hd w x = fmt_0d w (sint x)"

subsection \<open>Lengths\<close>

lemma length_dec: "n < 10 ^ k \<Longrightarrow> 0 < k \<Longrightarrow> length (dec n) \<le> k"
proof (induction n arbitrary: k rule: dec.induct)
  case (1 n)
  show ?case
  proof (cases "n < 10")
    case True
    then show ?thesis using 1(3) by (simp add: dec.simps [of n])
  next
    case False
    obtain j where k: "k = Suc j" using 1(3) by (cases k) auto
    then have j: "k = Suc j" "0 < j" using 1(2) False by (auto intro: ccontr)
    then have "n div 10 < 10 ^ j" using 1(2) by (simp add: less_mult_imp_div_less mult.commute)
    then show ?thesis using 1(1) [OF False] j False by (simp add: dec.simps [of n])
  qed
qed

lemma length_pad0: "length s \<le> w \<Longrightarrow> length (pad0 w s) = w"
  by (simp add: pad0_def)

lemma length_fmt_0d: "0 \<le> z \<Longrightarrow> z < 10 ^ w \<Longrightarrow> 0 < w \<Longrightarrow> length (fmt_0d w z) = w"
  using length_dec [of "nat z" w] by (simp add: fmt_0d_def length_pad0 nat_less_iff)

lemma length_fmt_0d_le: "0 \<le> z \<Longrightarrow> z < 10 ^ k \<Longrightarrow> 0 < k \<Longrightarrow> w \<le> k \<Longrightarrow> length (fmt_0d w z) \<le> k"
  using length_dec [of "nat z" k] by (auto simp: fmt_0d_def pad0_def nat_less_iff)

lemma uint_less_nat: "unat (x :: 'a :: len word) < n \<Longrightarrow> uint x < int n"
  by (simp flip: of_nat_less_iff [where 'a = int] add: uint_nat [symmetric])

lemma sint_u16:
  assumes "unat (x :: u16) < 32768"
  shows "sint x = int (unat x)"
proof -
  have "uint x < 32768" using uint_less_nat [OF assms] by simp
  then have "signed_take_bit 15 (uint x) = uint x"
    by (intro signed_take_bit_int_eq_self) (simp_all add: order_trans [OF _ uint_ge_0])
  then show ?thesis by (simp add: sint_uint)
qed

lemma length_fmt_0hd: "unat x < 10 ^ w \<Longrightarrow> 0 < w \<Longrightarrow> unat x < 32768 \<Longrightarrow> length (fmt_0hd w x) = w"
  unfolding fmt_0hd_def using uint_less_nat [of x "10 ^ w"] by (subst sint_u16) (auto intro!: length_fmt_0d)

subsection \<open>Digits\<close>

lemma dec_digits: "c \<in> set (dec n) \<Longrightarrow> is_digit c"
proof (induction n rule: dec.induct)
  case (1 n)
  have d: "is_digit (char_of (48 + m))" if "m < 10" for m :: nat
    using that by (simp add: is_digit_def)
  show ?case
    using 1 d by (cases "n < 10") (auto simp: dec.simps [of n])
qed

lemma digits_value_app:
  "list_all is_digit ds \<Longrightarrow> digits_value n (ds @ cs) = digits_value (digits_value n ds) cs"
  by (induction ds arbitrary: n) auto

lemma digits_value_zeros: "digits_value 0 (replicate k (CHR ''0'') @ ds) = digits_value 0 ds"
  by (induction k) (auto simp: is_digit_def)

lemma digits_value_dec: "digits_value 0 (dec n) = int n"
proof (induction n rule: dec.induct)
  case (1 n)
  have d: "is_digit (char_of (48 + m)) \<and> of_char (char_of (48 + m)) - 48 = (int m)" if "m < 10" for m :: nat
  proof -
    have "(of_char (char_of (48 + m)) :: int) = int (of_char (char_of (48 + m)))" by (rule of_nat_of_char [symmetric])
    then show ?thesis using that by (simp add: is_digit_def)
  qed
  show ?case
  proof (cases "n < 10")
    case True
    then show ?thesis using d [of n] by (simp add: dec.simps [of n])
  next
    case False
    have "list_all is_digit (dec (n div 10))" by (auto simp: list_all_iff intro: dec_digits)
    then have "digits_value 0 (dec n) = 10 * int (n div 10) + int (n mod 10)"
      using False 1 d [of "n mod 10"] by (simp add: dec.simps [of n] digits_value_app)
    then show ?thesis by (metis mult_div_mod_eq of_nat_add of_nat_mult of_nat_numeral)
  qed
qed

lemma digit_not_space: "is_digit c \<Longrightarrow> \<not> is_space c \<and> c \<noteq> CHR ''-'' \<and> c \<noteq> CHR ''+''"
  by (auto simp: is_digit_def is_space_def)

text \<open>A padded number, read up to what follows it.\<close>

lemma atoi_fmt_0d:
  assumes "0 \<le> z" "rest = [] \<or> \<not> is_digit (hd rest)"
  shows "c_atoi (fmt_0d w z @ rest) = z"
proof -
  let ?s = "fmt_0d w z"
  have all: "list_all is_digit ?s"
    using assms(1) dec_digits by (auto simp: fmt_0d_def pad0_def list_all_iff is_digit_def)
  have "?s \<noteq> []" using assms(1) by (simp add: fmt_0d_def pad0_def dec.simps [of "nat z"])
  then obtain c cs where s: "?s = c # cs" by (cases ?s) auto
  have "is_digit c" using all s by simp
  then have "c_atoi (?s @ rest) = digits_value 0 (?s @ rest)"
    using digit_not_space [of c] by (simp add: c_atoi_def s)
  also have "\<dots> = digits_value (digits_value 0 ?s) rest" using all by (rule digits_value_app)
  also have "digits_value 0 ?s = z"
    using assms(1) by (simp add: fmt_0d_def pad0_def digits_value_zeros digits_value_dec)
  also have "digits_value z rest = z" using assms(2) by (cases rest) auto
  finally show ?thesis .
qed

end
