(* ===== verification/App.thy ===== *)
theory App
  imports Rtc Gpio Cformat Http_Request
begin

text \<open>
  The application on top of the server (the end of \<^verbatim>\<open>Sources/httpd.c\<close>): the CGI handler
  \<open>processaCGI\<close>, which switches the relays and sets the clock, the SSI handler \<open>atualizadorSSI\<close>,
  which writes the date, the time and the measured value into a page, and their registration. The
  globals of the program are the record \<open>app\<close>.
\<close>

subsection \<open>State\<close>

text \<open>
  \<open>ap_date\<close> is the global \<open>date\<close> and \<open>ap_pins\<close> the output registers of the ports. \<open>ap_malloc\<close>
  are the answers of the next calls of \<open>malloc\<close>: no block, or a block with whatever it contained
  before.
\<close>

record app =
  ap_rtc :: rtc_regs
  ap_date :: rtc_datetime
  valorADC11P :: int
  ap_pins :: pdor
  cardInserted :: bool
  cartaoSSI :: bool
  cartaoCGI :: bool
  cartaoRELAY :: bool
  buzzer :: bool
  cartao :: bool
  led7 :: bool
  ap_malloc :: "bytes option list"

definition c_malloc :: "nat \<Rightarrow> app \<Rightarrow> bytes option \<times> app" where
  "c_malloc n a =
     (case ap_malloc a of
        [] \<Rightarrow> (None, a)
      | b # bs \<Rightarrow> (map_option (\<lambda>m. take n (m @ replicate n NUL)) b, a\<lparr>ap_malloc := bs\<rparr>))"

text \<open>\<open>strcpy\<close> into a block or array; \<open>atoi\<close>, when it has to stop inside the block.\<close>

definition c_strcpy :: "bytes option \<Rightarrow> string option \<Rightarrow> bytes checked" where
  "c_strcpy dst src =
     (case (dst, src) of
        (Some d, Some s) \<Rightarrow> if length s + 1 > length d then Inl Oob_write else Inr (put_bytes 0 (s @ [NUL]) d)
      | _ \<Rightarrow> Inl Null_deref)"

definition atoi_at :: "bytes \<Rightarrow> int checked" where
  "atoi_at m =
     (let r = dropWhile is_space m;
          r = (case r of [] \<Rightarrow> [] | c # cs \<Rightarrow> if c = CHR ''-'' \<or> c = CHR ''+'' then cs else r)
      in if list_all is_digit r then Inl Oob_read else Inr (c_atoi m))"

definition refresh_date :: "app \<Rightarrow> app" where
  "refresh_date a = a\<lparr>ap_date := RTC_HAL_GetDatetime (ap_rtc a) (ap_date a)\<rparr>"

definition store_date :: "app \<Rightarrow> app checked" where
  "store_date a = map_sum id (\<lambda>r. a\<lparr>ap_rtc := r\<rparr>) (RTC_HAL_SetDatetime (ap_rtc a) (ap_date a))"

subsection \<open>The CGI handler\<close>

text \<open>The loop over the parameters of \<open>/rele.cgi\<close>: \<open>strcmp(pcValue[i], ...)\<close> reads the value.\<close>

definition relay_of :: "string \<Rightarrow> gpio_pin option" where
  "relay_of v =
     (if v = ''1'' then Some SHIELD_RELAY1 else if v = ''2'' then Some SHIELD_RELAY2
      else if v = ''3'' then Some SHIELD_RELAY3 else if v = ''4'' then Some SHIELD_RELAY4
      else if v = ''5'' then Some ON_BOARD_RELAY else None)"

fun rele_loop :: "(string \<times> string option) list \<Rightarrow> pdor \<Rightarrow> pdor checked" where
  "rele_loop [] g = Inr g"
| "rele_loop ((name, val) # ps) g =
     (if name = ''rele'' then
        (case val of
           None \<Rightarrow> Inl Null_deref
         | Some v \<Rightarrow> rele_loop ps (case relay_of v of Some p \<Rightarrow> wr_pin p 1 g | None \<Rightarrow> g))
      else rele_loop ps g)"

definition relays :: "gpio_pin list" where
  "relays = [SHIELD_RELAY1, SHIELD_RELAY2, SHIELD_RELAY3, SHIELD_RELAY4, ON_BOARD_RELAY]"

definition cgi_rele :: "(string \<times> string option) list \<Rightarrow> app \<Rightarrow> app checked" where
  "cgi_rele ps a =
     (case rele_loop ps (fold (\<lambda>p. wr_pin p 0) relays (ap_pins a)) of
        Inl e \<Rightarrow> Inl e
      | Inr g \<Rightarrow> Inr (let a = a\<lparr>ap_pins := g\<rparr> in if cardInserted a then a\<lparr>cartaoRELAY := True\<rparr> else a))"

text \<open>
  Two characters of the value, copied into a fresh block behind which nothing is written:
  \<open>tmp[0] = data[i]; tmp[1] = data[i + 1]; atoi(tmp)\<close>.
\<close>

definition two_chars :: "bytes \<Rightarrow> nat \<Rightarrow> bytes option \<Rightarrow> (int \<times> bytes) checked" where
  "two_chars data i tmp =
     (case tmp of
        None \<Rightarrow> Inl Null_deref
      | Some t \<Rightarrow>
          let t = t[0 := data ! i, 1 := data ! (i + 1)] in map_sum id (\<lambda>n. (n, t)) (atoi_at t))"

text \<open>
  The first value of the request. A request without parameters leaves \<^verbatim>\<open>hs->param_vals\<close> as
  \<^verbatim>\<open>http_state_init\<close> zeroed it, since a connection serves one request: the handler then copies from a null
  pointer.
\<close>

definition first_value :: "(string \<times> string option) list \<Rightarrow> string option" where
  "first_value ps = (case ps of [] \<Rightarrow> None | (_, v) # _ \<Rightarrow> v)"

definition cgi_data :: "(string \<times> string option) list \<Rightarrow> app \<Rightarrow> app checked" where
  "cgi_data ps a =
     (let (data, a) = c_malloc 10 a;
          (tmp, a) = c_malloc 10 a
      in case c_strcpy data (first_value ps) of
           Inl e \<Rightarrow> Inl e
         | Inr data \<Rightarrow>
             (case atoi_at data of
                Inl e \<Rightarrow> Inl e
              | Inr year \<Rightarrow>
                  (case two_chars data 5 tmp of
                     Inl e \<Rightarrow> Inl e
                   | Inr (month, tmp) \<Rightarrow>
                       (case two_chars data 8 (Some tmp) of
                          Inl e \<Rightarrow> Inl e
                        | Inr (day, tmp) \<Rightarrow>
                            Inr (a\<lparr>ap_date := (ap_date a)\<lparr>dt_year := word_of_int year,
                                     dt_month := word_of_int month, dt_day := word_of_int day\<rparr>\<rparr>)))))"

definition cgi_hora :: "(string \<times> string option) list \<Rightarrow> app \<Rightarrow> app checked" where
  "cgi_hora ps a =
     (let (relogio, a) = c_malloc 10 a;
          (tmp, a) = c_malloc 10 a
      in case c_strcpy relogio (first_value ps) of
           Inl e \<Rightarrow> Inl e
         | Inr relogio \<Rightarrow>
             (case atoi_at relogio of
                Inl e \<Rightarrow> Inl e
              | Inr hour \<Rightarrow>
                  (case two_chars relogio 5 tmp of
                     Inl e \<Rightarrow> Inl e
                   | Inr (minute, tmp) \<Rightarrow>
                       Inr (a\<lparr>ap_date := (ap_date a)\<lparr>dt_hour := word_of_int hour,
                                                         dt_minute := word_of_int minute\<rparr>\<rparr>))))"

definition processaCGI :: "app cgi_handler" where
  "processaCGI iIndex iNumParams ps a =
     (let a = refresh_date a
      in case (if iIndex = 0 then cgi_rele (take iNumParams ps) a
               else if iIndex = 1 then cgi_data ps a
               else if iIndex = 2 then cgi_hora ps a
               else Inr a) of
           Inl e \<Rightarrow> Inl e
         | Inr a \<Rightarrow>
             map_sum id (\<lambda>a. (''/index.shtml'', if cardInserted a then a\<lparr>cartaoCGI := True\<rparr> else a))
               (store_date a))"

subsection \<open>The SSI handler\<close>

definition date_text :: "rtc_datetime \<Rightarrow> string" where
  "date_text d = fmt_0hd 2 (dt_day d) @ ''/'' @ fmt_0hd 2 (dt_month d) @ ''/'' @ fmt_0hd 4 (dt_year d) @ '' ''"

definition time_text :: "rtc_datetime \<Rightarrow> string" where
  "time_text d = fmt_0hd 2 (dt_hour d) @ '':'' @ fmt_0hd 2 (dt_minute d) @ '' ''"

text \<open>
  \<open>sprintf\<close> into the local array \<open>tmpStr\<close>, 18 blanks and their NUL, then \<open>strcpy\<close> into the
  insert.
\<close>

definition TMP_STR_SIZE :: nat where "TMP_STR_SIZE = 19"

definition put_insert :: "string \<Rightarrow> bytes \<Rightarrow> app \<Rightarrow> (u16 \<times> bytes \<times> app) checked" where
  "put_insert s pcInsert a =
     (if length s + 1 > TMP_STR_SIZE then Inl Oob_write
      else map_sum id (\<lambda>buf. (of_nat (length s), buf, a)) (c_strcpy (Some pcInsert) (Some s)))"

definition atualizadorSSI_checked :: "nat \<Rightarrow> bytes \<Rightarrow> app \<Rightarrow> (u16 \<times> bytes \<times> app) checked" where
  "atualizadorSSI_checked iIndex pcInsert a =
     (let a = refresh_date a
      in if iIndex = 0 then put_insert (date_text (ap_date a)) pcInsert a
         else if iIndex = 1 then put_insert (time_text (ap_date a)) pcInsert a
         else if iIndex = 2 then put_insert (fmt_0d 3 (valorADC11P a)) pcInsert a
         else map_sum id (\<lambda>a. (0, pcInsert, if cardInserted a then a\<lparr>cartaoSSI := True\<rparr> else a)) (store_date a))"

text \<open>
  The handler as the server calls it; that the fault never occurs for the three tags is proved
  below.
\<close>

definition atualizadorSSI :: "app ssi_handler" where
  "atualizadorSSI iIndex pcInsert a =
     (case atualizadorSSI_checked iIndex pcInsert a of Inr r \<Rightarrow> r | Inl _ \<Rightarrow> (0, pcInsert, a))"

subsection \<open>Registration\<close>

definition http_set_ssi_handler :: "'w ssi_handler \<Rightarrow> string list \<Rightarrow> nat \<Rightarrow> 'w httpd_cfg \<Rightarrow> 'w httpd_cfg" where
  "http_set_ssi_handler ssi_handler tags num_tags cfg =
     cfg\<lparr>ssi_config := \<lparr>g_pfnSSIHandler = Some ssi_handler, g_ppcTags = Some tags, g_iNumTags = num_tags\<rparr>\<rparr>"

definition http_set_cgi_handlers :: "(string \<times> 'w cgi_handler) list \<Rightarrow> nat \<Rightarrow> 'w httpd_cfg \<Rightarrow> 'w httpd_cfg" where
  "http_set_cgi_handlers cgis num_handlers cfg = cfg\<lparr>g_pCGIs := take num_handlers cgis\<rparr>"

definition tabelaCGI :: "(string \<times> app cgi_handler) list" where
  "tabelaCGI = [(''/rele.cgi'', processaCGI), (''/data.cgi'', processaCGI), (''/hora.cgi'', processaCGI)]"

definition cgi_init :: "app httpd_cfg \<Rightarrow> app httpd_cfg" where
  "cgi_init cfg = http_set_cgi_handlers tabelaCGI 3 cfg"

definition etiquetasSSI :: "string list" where
  "etiquetasSSI = [''tag1'', ''tag2'', ''tag3'']"

definition ssi_init :: "app httpd_cfg \<Rightarrow> app httpd_cfg" where
  "ssi_init cfg = http_set_ssi_handler atualizadorSSI etiquetasSSI 3 cfg"

text \<open>The globals after \<open>cgi_init\<close> and \<open>ssi_init\<close>, over a file system.\<close>

definition app_cfg :: "fsdata_file list \<Rightarrow> app httpd_cfg" where
  "app_cfg root = ssi_init (cgi_init \<lparr>fs_root = root, g_pCGIs = [],
     ssi_config = \<lparr>g_pfnSSIHandler = None, g_ppcTags = None, g_iNumTags = 0\<rparr>\<rparr>)"

end
