(* ===== verification/Sdcard.thy ===== *)
theory Sdcard
  imports Cstring
begin

text \<open>
  Appending a line to a file of the memory card (\<^verbatim>\<open>Sources/sdcard.c\<close>). FatFs is a third-party
  library: the results of its calls are an input of the model, and the calls, with their
  arguments, are recorded. \<open>sd_sizes\<close> are the sizes that its calls of \<open>f_open\<close> store into \<open>file.fsize\<close>,
  one for each call.
\<close>

datatype FRESULT =
  FR_OK | FR_DISK_ERR | FR_INT_ERR | FR_NOT_READY | FR_NO_FILE | FR_NO_PATH | FR_INVALID_NAME
| FR_DENIED | FR_EXIST | FR_INVALID_OBJECT | FR_WRITE_PROTECTED | FR_INVALID_DRIVE | FR_NOT_ENABLED
| FR_NO_FILESYSTEM | FR_MKFS_ABORTED | FR_TIMEOUT | FR_LOCKED | FR_NOT_ENOUGH_CORE
| FR_TOO_MANY_OPEN_FILES | FR_INVALID_PARAMETER

text \<open>\<open>F_mount True\<close> mounts, \<open>F_mount False\<close> unmounts (a null work area).\<close>

datatype fat_call =
  F_mount bool | F_chdrive | F_open string | F_lseek nat | F_write string | F_close

record sd =
  sd_results :: "FRESULT list"
  sd_sizes :: "nat list"
  sd_log :: "fat_call list"

definition fat :: "fat_call \<Rightarrow> sd \<Rightarrow> FRESULT \<times> sd" where
  "fat c s =
     (case sd_results s of [] \<Rightarrow> FR_DISK_ERR | r # _ \<Rightarrow> r,
      s\<lparr>sd_results := tl (sd_results s), sd_log := sd_log s @ [c]\<rparr>)"

definition SD_DRIVE_NUMBER :: char where "SD_DRIVE_NUMBER = CHR ''1''"

definition PATH_SIZE :: nat where "PATH_SIZE = 255"

text \<open>Opening also yields the size of the file; the size of a file that was not opened is not read.\<close>

definition file_size :: "sd \<Rightarrow> nat" where
  "file_size s = (case sd_sizes s of [] \<Rightarrow> 0 | n # _ \<Rightarrow> n)"

definition fat_open :: "string \<Rightarrow> sd \<Rightarrow> FRESULT \<times> nat \<times> sd" where
  "fat_open path s =
     (case fat (F_open path) s of (r, s') \<Rightarrow> (r, file_size s, s'\<lparr>sd_sizes := tl (sd_sizes s)\<rparr>))"

text \<open>The part between opening and closing the file, whose size is \<open>fsize\<close>.\<close>

definition append_open :: "string \<Rightarrow> nat \<Rightarrow> sd \<Rightarrow> sd" where
  "append_open line fsize s =
     (case fat (F_lseek fsize) s of (_, s) \<Rightarrow> snd (fat (F_write line) s))"

definition append_file :: "string \<Rightarrow> string \<Rightarrow> sd \<Rightarrow> sd checked" where
  "append_file name line s =
     (let path = SD_DRIVE_NUMBER # CHR '':'' # name
      in if length path + 1 > PATH_SIZE then Inl Oob_write
         else
           (case fat_open path s of
              (r, fsize, s) \<Rightarrow>
                let s = (if r = FR_OK then append_open line fsize s else s) in Inr (snd (fat F_close s))))"

text \<open>\<open>append(fileNameAndPath, text)\<close>.\<close>

definition sd_append :: "string \<Rightarrow> string \<Rightarrow> sd \<Rightarrow> sd checked" where
  "sd_append name line s =
     (case fat (F_mount True) s of
        (r, s) \<Rightarrow>
          if r \<noteq> FR_OK then Inr s
          else
            (case fat F_chdrive s of
               (r, s) \<Rightarrow>
                 map_sum id (\<lambda>s. snd (fat (F_mount False) s))
                   (if r = FR_OK then append_file name line s else Inr s)))"

lemma fat_simps [simp]:
  "sd_log (snd (fat c s)) = sd_log s @ [c]" "sd_sizes (snd (fat c s)) = sd_sizes s"
  "file_size (snd (fat c s)) = file_size s"
  by (simp_all add: fat_def file_size_def)

text \<open>The calls of \<open>append\<close>, as the results of the first three decide them.\<close>

definition result :: "FRESULT list \<Rightarrow> nat \<Rightarrow> FRESULT" where
  "result rs i = (if i < length rs then rs ! i else FR_DISK_ERR)"

definition append_calls :: "string \<Rightarrow> string \<Rightarrow> nat \<Rightarrow> FRESULT list \<Rightarrow> fat_call list" where
  "append_calls name line n rs =
     F_mount True #
     (if result rs 0 \<noteq> FR_OK then []
      else F_chdrive #
        (if result rs 1 \<noteq> FR_OK then []
         else F_open (SD_DRIVE_NUMBER # CHR '':'' # name) #
           (if result rs 2 = FR_OK then [F_lseek n, F_write line] else []) @ [F_close]) @ [F_mount False])"

lemma sd_append_log:
  assumes "length name + 3 \<le> 255"
  shows "\<exists>s'. sd_append name line s = Inr s'
    \<and> sd_log s' = sd_log s @ append_calls name line (file_size s) (sd_results s)"
proof -
  have fst: "fst (fat c s) = result (sd_results s) 0" "sd_results (snd (fat c s)) = tl (sd_results s)" for c s
    by (simp_all add: fat_def result_def split: list.splits)
  have tl: "result (tl rs) i = result rs (Suc i)" for rs i by (cases rs) (simp_all add: result_def)
  show ?thesis
    using assms
    by (auto simp: sd_append_def append_file_def append_open_def fat_open_def PATH_SIZE_def Let_def case_prod_beta
        append_calls_def fst tl numeral_2_eq_2 split: if_splits)
qed

end
