(* ===== verification/App_Run.thy ===== *)
theory App_Run
  imports App Sdcard
begin

text \<open>
  The interrupt handlers (\<^verbatim>\<open>Sources/Events.c\<close>) and the main loop (\<open>httpd_server_init\<close> of
  \<^verbatim>\<open>Sources/httpd.c\<close>). A handler runs between two statements of the main loop; they share the flags
  of the record \<open>app\<close>. What the pins and the converter read is an argument.
\<close>

subsection \<open>Interrupt handlers\<close>

definition write_pin :: "gpio_pin \<Rightarrow> u32 \<Rightarrow> app \<Rightarrow> app" where
  "write_pin p v a = a\<lparr>ap_pins := wr_pin p v (ap_pins a)\<rparr>"

definition PIT0_IRQHandler :: "app \<Rightarrow> app" where
  "PIT0_IRQHandler a = a\<lparr>ap_pins := toggle_pin LED6 (ap_pins a)\<rparr>"

text \<open>The argument is the result of the conversion, 16 bits.\<close>

definition PIT1_IRQHandler :: "u16 \<Rightarrow> app \<Rightarrow> app" where
  "PIT1_IRQHandler conv a =
     (let a = a\<lparr>valorADC11P := uint conv\<rparr>
      in if buzzer a then write_pin BUZZER 1 (a\<lparr>buzzer := False\<rparr>) else write_pin BUZZER 0 a)"

definition PIT2_IRQHandler :: "app \<Rightarrow> app" where
  "PIT2_IRQHandler a =
     (let a = (if cartao a then write_pin LED5 1 (a\<lparr>cartao := False\<rparr>) else write_pin LED5 0 a)
      in if led7 a then write_pin LED7 1 (a\<lparr>led7 := False\<rparr>) else write_pin LED7 0 a)"

definition PORTB_IRQHandler :: "(gpio_pin \<Rightarrow> u32) \<Rightarrow> app \<Rightarrow> app" where
  "PORTB_IRQHandler rd a =
     (let a = (if rd INT0 = 0 then write_pin ON_BOARD_RELAY 1 a else a)
      in if rd INT1 = 0 then write_pin ON_BOARD_RELAY 0 a else a)"

definition PORTD_IRQHandler :: "(gpio_pin \<Rightarrow> u32) \<Rightarrow> app \<Rightarrow> app" where
  "PORTD_IRQHandler rd a = (if rd INT2 = 0 then a\<lparr>buzzer := True\<rparr> else a)"

text \<open>
  \<open>check_card_inserted\<close> reads the pin until two readings in a row agree. The readings are the
  infinite sequence \<open>f\<close>, from the index \<open>i\<close> on; the loop may not end.
\<close>

partial_function (option) debounce :: "(nat \<Rightarrow> u32) \<Rightarrow> nat \<Rightarrow> u32 \<Rightarrow> (u32 \<times> nat) option" where
  "debounce f i state =
     (let matchState = state; state = f i
      in if state \<noteq> matchState then debounce f (Suc i) state else Some (state, Suc i))"

definition check_card_inserted :: "(nat \<Rightarrow> u32) \<Rightarrow> nat \<Rightarrow> app \<Rightarrow> (app \<times> nat) option" where
  "check_card_inserted f i a =
     map_option (\<lambda>(state, j). (a\<lparr>cardInserted := (state = 1)\<rparr>, j)) (debounce f (Suc i) (f i))"

definition PORTE_IRQHandler :: "(nat \<Rightarrow> u32) \<Rightarrow> nat \<Rightarrow> app \<Rightarrow> (app \<times> nat) option" where
  "PORTE_IRQHandler f i a =
     (case (if f i = 0 then check_card_inserted f (Suc i) a else Some (a, Suc i)) of
        None \<Rightarrow> None
      | Some (a, j) \<Rightarrow> Some (a\<lparr>cartao := True\<rparr>, j))"

subsection \<open>The main loop\<close>

text \<open>
  The lines of the log. \<open>TMP_LINE_SIZE\<close> is the size of the local array: 133 blanks and their NUL.
\<close>

definition TMP_LINE_SIZE :: nat where "TMP_LINE_SIZE = 134"

definition log_line :: "rtc_datetime \<Rightarrow> string \<Rightarrow> string" where
  "log_line d what = CRLF @ fmt_0hd 2 (dt_hour d) @ '':'' @ fmt_0hd 2 (dt_minute d) @ '':''
     @ fmt_0d 2 (uint (dt_second d)) @ what"

definition log_access :: "string \<Rightarrow> app \<times> sd \<Rightarrow> (app \<times> sd) checked" where
  "log_access what st =
     (case st of (a, s) \<Rightarrow>
        let a = refresh_date a;
            line = log_line (ap_date a) what
        in if length line + 1 > TMP_LINE_SIZE then Inl Oob_write
           else map_sum id (\<lambda>s. (a, s)) (sd_append ''/httpd.log'' line s))"

definition init_card :: "u32 \<Rightarrow> app \<times> sd \<Rightarrow> (app \<times> sd) checked" where
  "init_card pin st =
     (case st of (a, s) \<Rightarrow>
        if pin \<noteq> 0 then Inr (a\<lparr>cardInserted := False\<rparr>, s)
        else log_access '' servidor httpd inicializado com sucesso'' (a\<lparr>cardInserted := True\<rparr>, s))"

definition serve_CGI :: "app \<times> sd \<Rightarrow> (app \<times> sd) checked" where
  "serve_CGI st =
     (if cartaoCGI (fst st) then log_access '' CGI acessado'' ((fst st)\<lparr>cartaoCGI := False\<rparr>, snd st) else Inr st)"

definition serve_SSI :: "app \<times> sd \<Rightarrow> (app \<times> sd) checked" where
  "serve_SSI st =
     (if cartaoSSI (fst st) then log_access '' SSI acessado'' ((fst st)\<lparr>cartaoSSI := False\<rparr>, snd st) else Inr st)"

definition serve_RELAY :: "app \<times> sd \<Rightarrow> (app \<times> sd) checked" where
  "serve_RELAY st =
     (if cartaoRELAY (fst st) then log_access '' Relay acessado'' ((fst st)\<lparr>cartaoRELAY := False\<rparr>, snd st) else Inr st)"

definition then_do :: "'a checked \<Rightarrow> ('a \<Rightarrow> 'b checked) \<Rightarrow> 'b checked" where
  "then_do m f = (case m of Inl e \<Rightarrow> Inl e | Inr x \<Rightarrow> f x)"

text \<open>
  One pass of the loop; \<open>net\<close> is what \<open>ENET_receive\<close> and \<open>sys_check_timeouts\<close> do, the calls of the
  server's handlers among it.
\<close>

definition main_pass :: "(app \<Rightarrow> app) \<Rightarrow> app \<times> sd \<Rightarrow> (app \<times> sd) checked" where
  "main_pass net st =
     then_do (then_do (serve_CGI (net (fst st), snd st)) serve_SSI) serve_RELAY"

subsection \<open>Facts\<close>

lemma log_line_length:
  assumes "dt_clock d"
  shows "length (log_line d what) = 10 + length what"
proof -
  have "unat (dt_hour d) < 24" "unat (dt_minute d) < 60" "unat (dt_second d) < 60"
    using assms by (simp_all add: dt_clock_def)
  moreover have "0 \<le> uint (dt_second d)" "uint (dt_second d) < 60"
    using uint_less_nat [OF \<open>unat (dt_second d) < 60\<close>] by simp_all
  ultimately show ?thesis
    by (simp add: log_line_def CRLF_def length_fmt_0hd length_fmt_0d)
qed

text \<open>The readings, until two agree.\<close>

lemma debounce_first:
  assumes "f (i + n) = f (Suc (i + n))" "\<forall>k<n. f (i + k) \<noteq> f (Suc (i + k))"
  shows "debounce f (Suc i) (f i) = Some (f (i + n), Suc (Suc (i + n)))"
  using assms
proof (induction n arbitrary: i)
  case 0
  then show ?case by (subst debounce.simps) simp
next
  case (Suc n)
  have "debounce f (Suc i) (f i) = debounce f (Suc (Suc i)) (f (Suc i))"
    using Suc(3) by (subst debounce.simps) (auto simp: Let_def)
  moreover have "\<forall>k<n. f (Suc i + k) \<noteq> f (Suc (Suc i + k))"
    using Suc(3) by (metis Suc_less_eq add_Suc_shift)
  ultimately show ?case using Suc(1) [of "Suc i"] Suc(2) by simp
qed

text \<open>And only then it returns.\<close>

lemma debounce_stops:
  assumes ret: "debounce f i state = Some r"
  shows "state = f i \<or> (\<exists>k. f (i + k) = f (Suc (i + k)))"
proof (rule debounce.raw_induct [where P = "\<lambda>f i state r. state = f i \<or> (\<exists>k. f (i + k) = f (Suc (i + k)))", OF _ ret])
  fix D :: "(nat \<Rightarrow> u32) \<Rightarrow> nat \<Rightarrow> u32 \<Rightarrow> (u32 \<times> nat) option" and f i state r
  assume IH: "\<And>f i state r. D f i state = Some r \<Longrightarrow> state = f i \<or> (\<exists>k. f (i + k) = f (Suc (i + k)))"
    and eq: "(let matchState = state; state = f i
       in if state \<noteq> matchState then D f (Suc i) state else Some (state, Suc i)) = Some r"
  show "state = f i \<or> (\<exists>k. f (i + k) = f (Suc (i + k)))"
  proof (cases "state = f i")
    case False
    then have "D f (Suc i) (f i) = Some r" using eq by (auto simp: Let_def)
    from IH [OF this] show ?thesis
    proof
      assume "f i = f (Suc i)"
      then show ?thesis by (intro disjI2 exI [of _ 0]) simp
    next
      assume "\<exists>k. f (Suc i + k) = f (Suc (Suc i + k))"
      then obtain k where "f (Suc i + k) = f (Suc (Suc i + k))" by blast
      then show ?thesis by (intro disjI2 exI [of _ "Suc k"]) simp
    qed
  qed simp
qed

lemma debounce_result:
  "debounce f (Suc i) (f i) =
     (if \<exists>k. f (i + k) = f (Suc (i + k))
      then let n = LEAST k. f (i + k) = f (Suc (i + k)) in Some (f (i + n), Suc (Suc (i + n)))
      else None)"
proof (cases "\<exists>k. f (i + k) = f (Suc (i + k))")
  case True
  let ?n = "LEAST k. f (i + k) = f (Suc (i + k))"
  have "f (i + ?n) = f (Suc (i + ?n))" using True by (rule LeastI_ex)
  moreover have "\<forall>k<?n. f (i + k) \<noteq> f (Suc (i + k))" using not_less_Least by blast
  ultimately have "debounce f (Suc i) (f i) = Some (f (i + ?n), Suc (Suc (i + ?n)))" by (rule debounce_first)
  then show ?thesis using True by (simp add: Let_def)
next
  case False
  have "debounce f (Suc i) (f i) = None"
  proof (rule ccontr)
    assume "debounce f (Suc i) (f i) \<noteq> None"
    then obtain r where "debounce f (Suc i) (f i) = Some r" by blast
    from debounce_stops [OF this] show False
    proof
      assume "f i = f (Suc i)"
      then have "f (i + 0) = f (Suc (i + 0))" by simp
      then show False using False by blast
    next
      assume "\<exists>k. f (Suc i + k) = f (Suc (Suc i + k))"
      then obtain k where "f (i + Suc k) = f (Suc (i + Suc k))" by auto
      then show False using False by blast
    qed
  qed
  then show ?thesis using False by simp
qed

end
