(* ===== verification/App_Claims.thy ===== *)
theory App_Claims
  imports App Http_Ssi_Inv
begin

text \<open>
  The properties of the application: the relays follow the request, the clock is set and shown,
  the handlers stay in their buffers, and the requests that make them fail.
\<close>

definition sample_app :: app where
  "sample_app = \<lparr>ap_rtc = \<lparr>rtc_tsr = 86399, rtc_tpr = 0, rtc_tar = 0, rtc_tce = True, rtc_tif = False, rtc_tof = False\<rparr>,
     ap_date = \<lparr>dt_year = 0, dt_month = 0, dt_day = 0, dt_hour = 0, dt_minute = 0, dt_second = 0\<rparr>,
     valorADC11P = 4095, ap_pins = (\<lambda>_. 0), cardInserted = True, cartaoSSI = False, cartaoCGI = False,
     cartaoRELAY = False, buzzer = False, cartao = False, led7 = False, ap_malloc = [Some [], Some []]\<rparr>"

subsection \<open>The clock\<close>

text \<open>
  C15. The two conversions of the clock are inverse to each other: every one of the 2 to the 32
  seconds becomes a date that is turned back into it.
\<close>

theorem seconds_date_seconds:
  "RTC_HAL_ConvertDatetimeToSecs (RTC_HAL_ConvertSecsToDatetime s d0) = Inr s"
  by (rule secs_date_secs)

text \<open>
  C16. And every date that the driver's check accepts becomes seconds that are turned back into it,
  whatever the fields held before.
\<close>

theorem date_seconds_date:
  assumes "RTC_HAL_IsDatetimeCorrectFormat d"
  shows "\<exists>s. RTC_HAL_ConvertDatetimeToSecs d = Inr s \<and> RTC_HAL_ConvertSecsToDatetime s d0 = d"
  using secs_of_date [OF correct_format(1) [OF assms]] date_secs_date [OF correct_format [OF assms]] by blast

theorem date_seconds_date_witness:
  "\<exists>s. RTC_HAL_ConvertDatetimeToSecs \<lparr>dt_year = 2024, dt_month = 2, dt_day = 29, dt_hour = 23, dt_minute = 59, dt_second = 58\<rparr> = Inr s
     \<and> RTC_HAL_ConvertSecsToDatetime s (ap_date sample_app)
       = \<lparr>dt_year = 2024, dt_month = 2, dt_day = 29, dt_hour = 23, dt_minute = 59, dt_second = 58\<rparr>"
  by (rule date_seconds_date) code_simp

text \<open>
  C17. What the two conversions compute: the date of a number of seconds is a day of the calendar
  with a leap year every four years, counted from 1970, and the time of the day.
\<close>

theorem date_is_calendar_day:
  "let d = RTC_HAL_ConvertSecsToDatetime s d0
   in calendar_day (unat (dt_year d)) (unat (dt_month d)) (unat (dt_day d))
    \<and> day_number (unat (dt_year d)) (unat (dt_month d)) (unat (dt_day d)) = unat s div 86400 + 1
    \<and> unat (dt_hour d) < 24 \<and> unat (dt_minute d) < 60 \<and> unat (dt_second d) < 60
    \<and> unat (dt_hour d) * 3600 + unat (dt_minute d) * 60 + unat (dt_second d) = unat s mod 86400"
  using date_of_secs [of s d0] clock_of_secs [of s d0]
  by (simp add: dt_calendar_def dt_day_number_def dt_clock_def dt_day_secs_def Let_def)

subsection \<open>The clock below the handlers\<close>

lemma two_digits: "unat x < 100 \<Longrightarrow> length (fmt_0hd 2 x) = 2"
  by (rule length_fmt_0hd) auto

lemma refresh_date_fields [simp]:
  "ap_rtc (refresh_date a) = ap_rtc a" "ap_pins (refresh_date a) = ap_pins a"
  "cardInserted (refresh_date a) = cardInserted a" "ap_malloc (refresh_date a) = ap_malloc a"
  "valorADC11P (refresh_date a) = valorADC11P a" "cartaoRELAY (refresh_date a) = cartaoRELAY a"
  "ap_date (refresh_date a) = RTC_HAL_GetDatetime (ap_rtc a) (ap_date a)"
  by (simp_all add: refresh_date_def)

text \<open>Storing the date that was just read leaves the clock as it was.\<close>

lemma store_refreshed:
  assumes "ap_date b = RTC_HAL_GetDatetime (ap_rtc b) d0"
  shows "\<exists>r. store_date b = Inr (b\<lparr>ap_rtc := r\<rparr>)
    \<and> RTC_HAL_GetDatetimeInSecs r = RTC_HAL_GetDatetimeInSecs (ap_rtc b)"
  by (intro exI [of _ "RTC_HAL_SetDatetimeInsecs (ap_rtc b) (RTC_HAL_GetDatetimeInSecs (ap_rtc b))"])
     (simp add: store_date_def RTC_HAL_SetDatetime_def assms RTC_HAL_GetDatetime_def secs_date_secs set_in_secs)

lemma store_correct:
  assumes "RTC_HAL_IsDatetimeCorrectFormat (ap_date b)"
  shows "store_date b = Inr (b\<lparr>ap_rtc := set_datetime (ap_date b) (ap_rtc b)\<rparr>)"
  using secs_of_date [OF correct_format(1) [OF assms]]
  by (simp add: store_date_def set_datetime_def RTC_HAL_SetDatetime_def)

subsection \<open>Relays\<close>

text \<open>The relays a list of parameters asks for.\<close>

definition asked :: "(string \<times> string option) list \<Rightarrow> gpio_pin set" where
  "asked ps = {p. \<exists>v. (''rele'', Some v) \<in> set ps \<and> relay_of v = Some p}"

definition values_given :: "(string \<times> string option) list \<Rightarrow> bool" where
  "values_given ps \<longleftrightarrow> (''rele'', None) \<notin> set ps"

lemma rele_loop_asked:
  "values_given ps \<Longrightarrow> \<exists>g'. rele_loop ps g = Inr g' \<and> (\<forall>p. rd_pin p g' \<longleftrightarrow> p \<in> asked ps \<or> rd_pin p g)"
proof (induction ps g rule: rele_loop.induct)
  case (2 name val ps g)
  have vals: "values_given ps" using 2(3) by (auto simp: values_given_def)
  show ?case
  proof (cases "name = ''rele''")
    case True
    then obtain v where v: "val = Some v" using 2(3) by (cases val) (auto simp: values_given_def)
    show ?thesis
      using 2(1) [OF True v vals] True v
      by (auto simp: asked_def gpio.rd_wr split: option.splits)
  next
    case False
    then show ?thesis using 2(2) [OF False vals] by (auto simp: asked_def)
  qed
qed (simp add: asked_def)

lemma asked_relays: "asked ps \<subseteq> set relays"
  by (auto simp: asked_def relay_of_def relays_def split: if_splits)

lemma relays_asked:
  assumes "values_given (take n ps)"
  shows "\<exists>a'. processaCGI 0 n ps a = Inr (''/index.shtml'', a')
    \<and> (\<forall>p. rd_pin p (ap_pins a') =
          (if p \<in> set relays then p \<in> asked (take n ps) else rd_pin p (ap_pins a)))
    \<and> RTC_HAL_GetDatetimeInSecs (ap_rtc a') = RTC_HAL_GetDatetimeInSecs (ap_rtc a)
    \<and> cartaoCGI a' = (cartaoCGI a \<or> cardInserted a)"
proof -
  obtain g where g: "rele_loop (take n ps) (fold (\<lambda>p. wr_pin p 0) relays (ap_pins a)) = Inr g"
    "\<And>p. rd_pin p g \<longleftrightarrow> p \<in> asked (take n ps) \<or> rd_pin p (fold (\<lambda>p. wr_pin p 0) relays (ap_pins a))"
    using rele_loop_asked [OF assms] by blast
  define b where "b = (let a = (refresh_date a)\<lparr>ap_pins := g\<rparr> in if cardInserted a then a\<lparr>cartaoRELAY := True\<rparr> else a)"
  have b: "cgi_rele (take n ps) (refresh_date a) = Inr b" by (simp add: cgi_rele_def g(1) b_def)
  have f: "ap_date b = RTC_HAL_GetDatetime (ap_rtc b) (ap_date a)" "ap_pins b = g" "ap_rtc b = ap_rtc a"
    "cardInserted b = cardInserted a" "cartaoCGI b = cartaoCGI a"
    by (auto simp: b_def Let_def refresh_date_def)
  obtain r where "store_date b = Inr (b\<lparr>ap_rtc := r\<rparr>)"
    "RTC_HAL_GetDatetimeInSecs r = RTC_HAL_GetDatetimeInSecs (ap_rtc a)"
    using store_refreshed [OF f(1)] f(3) by auto
  then show ?thesis
    using b f g(2) asked_relays [of "take n ps"] by (auto simp: processaCGI_def gpio.rd_wr_all)
qed

lemma rele_loop_null: "(''rele'', None) \<in> set qs \<Longrightarrow> rele_loop qs g = Inl Null_deref"
proof (induction qs g rule: rele_loop.induct)
  case (2 name val ps g)
  then show ?case by (cases val) auto
qed simp

text \<open>
  C18. A request to \<open>/rele.cgi\<close> whose parameters \<open>rele\<close> all have values switches on the shield relays that
  it names by \<open>1\<close> to \<open>4\<close> and the relay of the board by \<open>5\<close>, and switches off those it does not name; no
  other pin, and not the time, is changed, and the page is \<open>/index.shtml\<close>. With a parameter \<open>rele\<close> without a
  value the handler compares a null pointer.
\<close>

theorem relays_follow_request:
  fixes n :: nat and ps :: "(string \<times> string option) list" and a :: app
  defines "qs \<equiv> take n ps"
  shows "if (''rele'', None) \<in> set qs then processaCGI 0 n ps a = Inl Null_deref
    else \<exists>a'. processaCGI 0 n ps a = Inr (''/index.shtml'', a')
      \<and> (rd_pin SHIELD_RELAY1 (ap_pins a') \<longleftrightarrow> (''rele'', Some ''1'') \<in> set qs)
      \<and> (rd_pin SHIELD_RELAY2 (ap_pins a') \<longleftrightarrow> (''rele'', Some ''2'') \<in> set qs)
      \<and> (rd_pin SHIELD_RELAY3 (ap_pins a') \<longleftrightarrow> (''rele'', Some ''3'') \<in> set qs)
      \<and> (rd_pin SHIELD_RELAY4 (ap_pins a') \<longleftrightarrow> (''rele'', Some ''4'') \<in> set qs)
      \<and> (rd_pin ON_BOARD_RELAY (ap_pins a') \<longleftrightarrow> (''rele'', Some ''5'') \<in> set qs)
      \<and> (\<forall>p. p \<notin> {SHIELD_RELAY1, SHIELD_RELAY2, SHIELD_RELAY3, SHIELD_RELAY4, ON_BOARD_RELAY}
            \<longrightarrow> rd_pin p (ap_pins a') = rd_pin p (ap_pins a))
      \<and> RTC_HAL_GetDatetimeInSecs (ap_rtc a') = RTC_HAL_GetDatetimeInSecs (ap_rtc a)
      \<and> cartaoCGI a' = (cartaoCGI a \<or> cardInserted a)"
proof (cases "(''rele'', None) \<in> set qs")
  case True
  then show ?thesis using rele_loop_null by (simp add: processaCGI_def cgi_rele_def qs_def)
next
  case False
  then have "values_given (take n ps)" by (simp add: qs_def values_given_def)
  then obtain a' where a': "processaCGI 0 n ps a = Inr (''/index.shtml'', a')"
    "\<And>p. rd_pin p (ap_pins a') = (if p \<in> set relays then p \<in> asked qs else rd_pin p (ap_pins a))"
    "RTC_HAL_GetDatetimeInSecs (ap_rtc a') = RTC_HAL_GetDatetimeInSecs (ap_rtc a)"
    "cartaoCGI a' = (cartaoCGI a \<or> cardInserted a)"
    unfolding qs_def by (metis relays_asked)
  have one: "p \<in> asked qs \<longleftrightarrow> (''rele'', Some v) \<in> set qs" if "\<And>w. relay_of w = Some p \<longleftrightarrow> w = v" for p v
    using that by (auto simp: asked_def)
  have names: "relay_of w = Some SHIELD_RELAY1 \<longleftrightarrow> w = ''1''" "relay_of w = Some SHIELD_RELAY2 \<longleftrightarrow> w = ''2''"
    "relay_of w = Some SHIELD_RELAY3 \<longleftrightarrow> w = ''3''" "relay_of w = Some SHIELD_RELAY4 \<longleftrightarrow> w = ''4''"
    "relay_of w = Some ON_BOARD_RELAY \<longleftrightarrow> w = ''5''" for w
    by (auto simp: relay_of_def)
  show ?thesis
    unfolding if_not_P [OF False]
    by (intro exI [of _ a'] conjI allI impI a'(1,3,4))
       (simp_all add: a'(2) relays_def one [OF names(1)] one [OF names(2)] one [OF names(3)] one [OF names(4)] one [OF names(5)])
qed

theorem relays_follow_request_witness:
  "\<exists>a'. processaCGI 0 1 [(''rele'', Some ''3'')] sample_app = Inr (''/index.shtml'', a')
     \<and> rd_pin SHIELD_RELAY3 (ap_pins a') \<and> \<not> rd_pin SHIELD_RELAY1 (ap_pins a')"
  using relays_follow_request [of 1 "[(''rele'', Some ''3'')]" sample_app] by fastforce

subsection \<open>The query of a CGI request\<close>

lemma run_cgi_query:
  assumes "NUL \<notin> set path" "CHR ''?'' \<notin> set path" "NUL \<notin> set q" "find_cgi 0 (g_pCGIs cfg) path = Some (i, handler)"
    "params = (if q = [] then [] else uri_params LWIP_HTTPD_MAX_CGI_PARAMETERS q)"
  shows "run_cgi cfg hs (pre @ path @ CHR ''?'' # q @ NUL # post) (length pre) w
    = (case handler i (length params) params w of
         Inl e \<Rightarrow> Inl e
       | Inr (uri, w) \<Rightarrow> Inr (uri, hs\<lparr>hs_params := params\<rparr>, w))"
proof -
  let ?m = "pre @ path @ CHR ''?'' # q @ NUL # post"
  let ?n = "(pre @ path @ [NUL]) @ q @ NUL # post"
  have tw: "takeWhile (\<lambda>x. x \<noteq> CHR ''?'') (path @ CHR ''?'' # q) = path"
    by (rule takeWhile_stop) (use assms(2) in auto)
  have "NUL \<notin> set (path @ CHR ''?'' # q)" using assms(1,3) by (simp add: NUL_def)
  then have "c_strchr ?m (length pre) (CHR ''?'') = Some (length pre + length path)"
    using c_strchr_nul [of "path @ CHR ''?'' # q" "CHR ''?''" pre post] tw by (simp add: NUL_def)
  moreover have "?m[length pre + length path := NUL] = ?n"
    using list_update_append_here [of "pre @ path" "CHR ''?''" "q @ NUL # post" NUL] by simp
  moreover have "cstr (drop (length pre) ?n) = path" using assms(1) by (simp add: cstr_nul)
  moreover obtain m' ps where "extract_uri_parameters ?n (Some (length (pre @ path @ [NUL]))) = (m', ps)"
    "params_at m' ps = params"
    using extract_uri_parameters_params [OF assms(3), of "pre @ path @ [NUL]" post] assms(5) by blast
  moreover from this have "length ps = length params" by (metis length_map params_at_def)
  ultimately show ?thesis
    using assms(4) by (cases "handler i (length params) params w") (auto simp: run_cgi_def Let_def)
qed

lemma app_cfg_simps:
  "g_pCGIs (app_cfg root) = tabelaCGI"
  "ssi_config (app_cfg root) = \<lparr>g_pfnSSIHandler = Some atualizadorSSI, g_ppcTags = Some etiquetasSSI, g_iNumTags = 3\<rparr>"
  by (simp_all add: app_cfg_def ssi_init_def cgi_init_def http_set_ssi_handler_def http_set_cgi_handlers_def tabelaCGI_def)

lemma one_pair:
  assumes "CHR ''&'' \<notin> set (n @ v)" "CHR '' '' \<notin> set (n @ v)" "CHR ''='' \<notin> set n"
  shows "uri_params LWIP_HTTPD_MAX_CGI_PARAMETERS (n @ CHR ''='' # v) = [(n, Some v)]"
proof -
  let ?q = "n @ CHR ''='' # v"
  have "uri_params (Suc 15) ?q = [split_eq (takeWhile (\<lambda>c. c \<noteq> CHR '' '') ?q)]"
    unfolding uri_params.simps using assms(1) by auto
  also have "takeWhile (\<lambda>c. c \<noteq> CHR '' '') ?q = ?q"
    by (simp only: takeWhile_eq_all_conv) (use assms(2) in auto)
  also have "split_eq ?q = (n, Some v)"
  proof -
    have n: "\<forall>c\<in>set n. c \<noteq> CHR ''=''" using assms(3) by auto
    have "takeWhile (\<lambda>c. c \<noteq> CHR ''='') ?q = n" by (rule takeWhile_stop [OF n]) simp
    moreover have "dropWhile (\<lambda>c. c \<noteq> CHR ''='') ?q = CHR ''='' # v" by (rule dropWhile_stop [OF n]) simp
    ultimately show ?thesis by (simp only: split_eq_def) simp
  qed
  finally show ?thesis by (simp add: LWIP_HTTPD_MAX_CGI_PARAMETERS_def)
qed

subsection \<open>Setting the time\<close>

text \<open>The value a browser sends for a time, with the colon escaped.\<close>

definition time_value :: "nat \<Rightarrow> nat \<Rightarrow> string" where
  "time_value h mi = fmt_0d 2 (int h) @ ''%3A'' @ fmt_0d 2 (int mi)"

definition query_special :: "char set" where
  "query_special = {CHR ''='', CHR ''&'', CHR '' '', NUL}"

definition block10 :: "bytes \<Rightarrow> bytes" where
  "block10 m = take 10 (m @ replicate 10 NUL)"

lemma c_malloc_block: "ap_malloc a = Some b # ms \<Longrightarrow> c_malloc 10 a = (Some (block10 b), a\<lparr>ap_malloc := ms\<rparr>)"
  by (simp add: c_malloc_def block10_def)

lemma length_block10 [simp]: "length (block10 m) = 10"
  by (simp add: block10_def)

lemma fmt_2: "n < 100 \<Longrightarrow> length (fmt_0d 2 (int n)) = 2"
  by (rule length_fmt_0d) auto

lemma fmt_2_digits: "c \<in> set (fmt_0d 2 (int n)) \<Longrightarrow> is_digit c"
  by (auto simp: fmt_0d_def pad0_def dest: dec_digits) (simp add: is_digit_def)

lemma fmt_2_list: "n < 100 \<Longrightarrow> \<exists>a b. fmt_0d 2 (int n) = [a, b] \<and> is_digit a \<and> is_digit b"
  using fmt_2 [of n] fmt_2_digits [of _ n] by (auto simp: length_Suc_conv numeral_2_eq_2)

lemma dropWhile_digit: "s \<noteq> [] \<Longrightarrow> is_digit (hd s) \<Longrightarrow> dropWhile is_space (s @ r) = s @ r"
  using digit_not_space by (cases s) auto

lemma atoi_at_fmt:
  assumes "n < 100" "rest \<noteq> []" "\<not> is_digit (hd rest)"
  shows "atoi_at (fmt_0d 2 (int n) @ rest) = Inr (int n)"
proof -
  obtain d1 d2 where s: "fmt_0d 2 (int n) = [d1, d2]" and d: "is_digit d1" "is_digit d2"
    using fmt_2_list [OF assms(1)] by blast
  have "dropWhile is_space (fmt_0d 2 (int n) @ rest) = d1 # d2 # rest"
    using dropWhile_digit [of "fmt_0d 2 (int n)" rest] s d by simp
  moreover have "\<not> list_all is_digit rest" using assms(2,3) by (cases rest) auto
  ultimately show ?thesis
    using atoi_fmt_0d [of "int n" rest 2] assms(3) digit_not_space [OF d(1)] by (simp add: atoi_at_def)
qed

lemma cgi_hora_value:
  assumes "h < 24" "mi < 60" "ap_malloc a = Some b1 # Some b2 # bs" "\<not> is_digit (block10 b2 ! 2)"
  shows "\<exists>ms. cgi_hora [(name, Some (time_value h mi))] a
    = Inr (a\<lparr>ap_malloc := ms, ap_date := (ap_date a)\<lparr>dt_hour := of_nat h, dt_minute := of_nat mi\<rparr>\<rparr>)"
proof -
  obtain h1 h2 where h: "fmt_0d 2 (int h) = [h1, h2]" using fmt_2_list [of h] assms(1) by auto
  obtain m1 m2 where m: "fmt_0d 2 (int mi) = [m1, m2]" using fmt_2_list [of mi] assms(2) by auto
  define data where "data = put_bytes 0 (time_value h mi @ [NUL]) (block10 b1)"
  have cpy: "c_strcpy (Some (block10 b1)) (Some (time_value h mi)) = Inr data"
    by (simp add: c_strcpy_def data_def time_value_def h m)
  have data: "data = fmt_0d 2 (int h) @ ''%3A'' @ fmt_0d 2 (int mi) @ NUL # drop 8 (block10 b1)"
    by (simp add: data_def put_bytes_def time_value_def h m) (simp add: eval_nat_numeral)
  have hour: "atoi_at data = Inr (int h)"
    unfolding data by (rule atoi_at_fmt) (use assms(1) in \<open>auto simp: is_digit_def\<close>)
  obtain x r where r: "block10 b2 = x # r" "length r = 9"
    using length_block10 [of b2] by (cases "block10 b2") auto
  obtain y rest where "r = y # rest" "length rest = 8" using r(2) by (cases r) auto
  then have b2: "block10 b2 = x # y # rest" "length rest = 8" using r(1) by simp_all
  have "rest \<noteq> []" "\<not> is_digit (hd rest)" using b2 assms(4) by (cases rest; simp)+
  then have "atoi_at (fmt_0d 2 (int mi) @ rest) = Inr (int mi)" using assms(2) by (intro atoi_at_fmt) auto
  then have minute: "two_chars data 5 (Some (block10 b2)) = Inr (int mi, fmt_0d 2 (int mi) @ rest)"
    by (simp add: two_chars_def data h m b2(1) Let_def)
  show ?thesis
    using assms(3) cpy hour minute
    by (intro exI [of _ bs]) (simp add: cgi_hora_def c_malloc_block first_value_def)
qed

text \<open>The date behind the tag \<open>tag2\<close>.\<close>

lemma put_insert_ok:
  assumes "length s \<le> 18" "length buf = LWIP_HTTPD_MAX_TAG_INSERT_LEN + 1"
  shows "put_insert s buf a = Inr (of_nat (length s), put_bytes 0 (s @ [NUL]) buf, a)"
  using assms by (simp add: put_insert_def c_strcpy_def TMP_STR_SIZE_def ssi_consts)

lemma fmt_0hd_of_nat: "n < 100 \<Longrightarrow> fmt_0hd 2 (of_nat n) = fmt_0d 2 (int n)"
  using sint_u16 [of "of_nat n"] by (simp add: fmt_0hd_def u16_simps)

lemma find_tags:
  assumes "cstr (tag_name s) = etiquetasSSI ! i" "i < 3"
  shows "find_tag 0 (take 3 etiquetasSSI) (tag_name s) = Some i"
proof -
  have n: "cstr t = t" if "NUL \<notin> set t" for t using that by (simp add: cstr_def takeWhile_eq_all_conv) blast
  have "i = 0 \<or> i = 1 \<or> i = 2" using assms(2) by arith
  then show ?thesis
    using assms(1) by (auto simp: etiquetasSSI_def c_streq_def n NUL_def)
qed

text \<open>
  C19. Setting the time from a page: when the clock shows a date in the driver's format, both blocks
  can be allocated, and the second does not happen to hold a digit behind the two copied characters (the
  code never terminates that string), the request \<open>/hora.cgi\<close> with a time sets hours and minutes of
  the clock and nothing else of the date, and the tag of the time, filled in by the next page,
  shows it.
\<close>

theorem clock_request_shown:
  assumes "h < 24" "mi < 60" "ap_malloc a = Some b1 # Some b2 # bs" "\<not> is_digit (block10 b2 ! 2)"
    "set name \<inter> query_special = {}"
    "RTC_HAL_IsDatetimeCorrectFormat (RTC_HAL_GetDatetime (ap_rtc a) (ap_date a))"
    "cstr (tag_name s) = ''tag2''" "length (tag_insert s) = LWIP_HTTPD_MAX_TAG_INSERT_LEN + 1"
  shows "\<exists>a'. run_cgi (app_cfg root) hs
        (pre @ ''/hora.cgi?'' @ name @ ''='' @ time_value h mi @ NUL # post) (length pre) a
      = Inr (''/index.shtml'', hs\<lparr>hs_params := [(name, Some (time_value h mi))]\<rparr>, a')
    \<and> (\<forall>d0. RTC_HAL_GetDatetime (ap_rtc a') d0
        = (RTC_HAL_GetDatetime (ap_rtc a) (ap_date a))\<lparr>dt_hour := of_nat h, dt_minute := of_nat mi\<rparr>)
    \<and> (case get_tag_insert (ssi_config (app_cfg root)) s a' of
         (s', _) \<Rightarrow> take (tag_insert_len s') (tag_insert s')
           = fmt_0d 2 (int h) @ '':'' @ fmt_0d 2 (int mi) @ '' '')"
proof -
  let ?q = "name @ CHR ''='' # time_value h mi"
  let ?d = "RTC_HAL_GetDatetime (ap_rtc a) (ap_date a)"
  let ?d' = "?d\<lparr>dt_hour := of_nat h, dt_minute := of_nat mi\<rparr>"
  have val: "\<not> is_digit c \<Longrightarrow> c \<in> set (time_value h mi) \<Longrightarrow> c \<in> {CHR ''%'', CHR ''A''}" for c
    using fmt_2_digits by (auto simp: time_value_def) (auto simp: is_digit_def)
  have not: "c \<notin> set (time_value h mi)" if "c \<in> query_special" for c
    using val [of c] that by (auto simp: is_digit_def NUL_def query_special_def)
  have params: "uri_params LWIP_HTTPD_MAX_CGI_PARAMETERS ?q = [(name, Some (time_value h mi))]"
    using assms(5) not by (intro one_pair) (auto simp: query_special_def)
  have nul: "NUL \<notin> set ?q" using assms(5) not by (auto simp: NUL_def query_special_def)
  have cgi: "find_cgi 0 (g_pCGIs (app_cfg root)) ''/hora.cgi'' = Some (2, processaCGI)"
    by (simp add: app_cfg_simps tabelaCGI_def)
  obtain ms where hora: "cgi_hora [(name, Some (time_value h mi))] (refresh_date a)
      = Inr ((refresh_date a)\<lparr>ap_malloc := ms, ap_date := ?d'\<rparr>)"
    using cgi_hora_value [of h mi "refresh_date a" b1 b2 bs name] assms(1-4) by auto
  have unat: "(of_nat h :: u16) < 24" "(of_nat mi :: u16) < 60"
    using assms(1,2) by (simp_all add: word_less_nat_alt u16_simps)
  have ok: "RTC_HAL_IsDatetimeCorrectFormat ?d'" by (rule rtc.date_ok_minute [OF assms(6) unat])
  define b where "b = (refresh_date a)\<lparr>ap_malloc := ms, ap_date := ?d'\<rparr>"
  define c where "c = b\<lparr>ap_rtc := set_datetime ?d' (ap_rtc b)\<rparr>"
  define a' where "a' = (if cardInserted c then c\<lparr>cartaoCGI := True\<rparr> else c)"
  have b: "ap_date b = ?d'" "ap_rtc b = ap_rtc a" by (simp_all add: b_def)
  have "processaCGI 2 1 [(name, Some (time_value h mi))] a = Inr (''/index.shtml'', a')"
    using store_correct [of b] ok hora b by (simp add: processaCGI_def a'_def c_def flip: b_def)
  then have run: "run_cgi (app_cfg root) hs (pre @ ''/hora.cgi'' @ CHR ''?'' # ?q @ NUL # post) (length pre) a
      = Inr (''/index.shtml'', hs\<lparr>hs_params := [(name, Some (time_value h mi))]\<rparr>, a')"
    by (subst run_cgi_query [OF _ _ nul cgi refl]) (simp_all add: params NUL_def)
  have rtc: "ap_rtc a' = set_datetime ?d' (ap_rtc a)" by (simp add: a'_def c_def b)
  have shown: "RTC_HAL_GetDatetime (ap_rtc a') d0 = ?d'" for d0 unfolding rtc by (rule rtc.get_set [OF ok])
  have txts: "time_text ?d' = fmt_0d 2 (int h) @ '':'' @ fmt_0d 2 (int mi) @ '' ''"
    using assms(1,2) by (simp add: time_text_def fmt_0hd_of_nat)
  have len: "length (time_text ?d') = 6" using assms(1,2) by (simp add: txts fmt_2)
  have "find_tag 0 (take 3 etiquetasSSI) (tag_name s) = Some 1"
    by (rule find_tags) (use assms(7) in \<open>simp_all add: etiquetasSSI_def\<close>)
  moreover have "atualizadorSSI_checked 1 (tag_insert s) a'
      = Inr (6, put_bytes 0 (time_text ?d' @ [NUL]) (tag_insert s), refresh_date a')"
    using put_insert_ok [of "time_text ?d'" "tag_insert s" "refresh_date a'"] assms(8) len
    by (simp add: atualizadorSSI_checked_def shown)
  ultimately have "case get_tag_insert (ssi_config (app_cfg root)) s a' of
      (s', _) \<Rightarrow> take (tag_insert_len s') (tag_insert s') = time_text ?d'"
    using len by (simp add: get_tag_insert_def app_cfg_simps atualizadorSSI_def put_bytes_def)
  then show ?thesis using run shown txts by (intro exI [of _ a']) simp
qed

definition sample_tag :: http_ssi_state where
  "sample_tag = ssi_zero\<lparr>tag_name := ''tag2'' @ replicate 5 NUL\<rparr>"

theorem clock_request_shown_witness:
  "\<exists>a'. run_cgi (app_cfg []) http_state_zero (''/hora.cgi?h=14%3A42'' @ [NUL]) 0 sample_app
      = Inr (''/index.shtml'', http_state_zero\<lparr>hs_params := [(''h'', Some ''14%3A42'')]\<rparr>, a')"
proof -
  have v: "time_value 14 42 = ''14%3A42''" by code_simp
  have "RTC_HAL_IsDatetimeCorrectFormat (RTC_HAL_GetDatetime (ap_rtc sample_app) (ap_date sample_app))" by code_simp
  then show ?thesis
    using clock_request_shown [of 14 42 sample_app "[]" "[]" "[]" "''h''" sample_tag "[]" http_state_zero "[]" "[]"]
    by (auto simp: v sample_app_def block10_def query_special_def NUL_def is_digit_def sample_tag_def cstr_def
        ssi_zero_def ssi_consts)
qed

subsection \<open>The inserts stay in their buffers\<close>

lemma date_text_length:
  assumes "dt_calendar d" "unat (dt_year d) < 10000"
  shows "length (date_text d) = 11"
proof -
  have "unat (dt_day d) \<le> 31" using assms(1) calendar_day_31 by (auto simp: dt_calendar_def)
  then show ?thesis
    using assms two_digits length_fmt_0hd [of "dt_year d" 4]
    by (simp add: date_text_def dt_calendar_def calendar_day_def)
qed

lemma time_text_length: "dt_clock d \<Longrightarrow> length (time_text d) = 6"
  using two_digits by (simp add: time_text_def dt_clock_def)

text \<open>The year of a 32-bit time has four digits.\<close>

lemma year_of_secs: "unat (dt_year (RTC_HAL_ConvertSecsToDatetime s d0)) < 10000"
proof (rule ccontr)
  let ?d = "RTC_HAL_ConvertSecsToDatetime s d0"
  assume "\<not> unat (dt_year ?d) < 10000"
  then have "days_before 10000 \<le> days_before (unat (dt_year ?d))" by (intro days_before_mono) auto
  moreover have "days_before (unat (dt_year ?d)) < dt_day_number ?d"
    using date_of_secs [of s d0] unfolding dt_calendar_def dt_day_number_def by (blast intro: day_number_range(1))
  moreover have "dt_day_number ?d = unat s div 86400 + 1" using date_of_secs by blast
  moreover have "unat s div 86400 \<le> 49710" by (rule days_of_secs)
  moreover have "days_before 10000 = 2932957" by (simp add: days_before_def)
  ultimately show False by linarith
qed

lemma refreshed_date: "\<exists>s d0. ap_date (refresh_date a) = RTC_HAL_ConvertSecsToDatetime s d0"
  by (auto simp: RTC_HAL_GetDatetime_def)

lemma put_insert_result:
  assumes "put_insert s buf a = Inr (n, buf', a')" "length buf = LWIP_HTTPD_MAX_TAG_INSERT_LEN + 1"
  shows "length buf' = LWIP_HTTPD_MAX_TAG_INSERT_LEN + 1 \<and> unat n \<le> LWIP_HTTPD_MAX_TAG_INSERT_LEN"
  using assms
  by (auto simp: put_insert_def c_strcpy_def TMP_STR_SIZE_def ssi_consts length_put_bytes u16_simps split: if_splits)

lemma app_handler_ok: "handler_ok (ssi_config (app_cfg root))"
proof -
  have "length buf' = LWIP_HTTPD_MAX_TAG_INSERT_LEN + 1 \<and> unat n \<le> LWIP_HTTPD_MAX_TAG_INSERT_LEN"
    if r: "atualizadorSSI i buf a = (n, buf', a')" and l: "length buf = LWIP_HTTPD_MAX_TAG_INSERT_LEN + 1" for i buf a n buf' a'
  proof (cases "atualizadorSSI_checked i buf a")
    case (Inr b)
    then have c: "atualizadorSSI_checked i buf a = Inr (n, buf', a')" using r by (simp add: atualizadorSSI_def)
    show ?thesis
    proof (cases "i < 3")
      case True
      then have "i = 0 \<or> i = 1 \<or> i = 2" by arith
      then show ?thesis
        using c put_insert_result [OF _ l] unfolding atualizadorSSI_checked_def Let_def by auto
    next
      case False
      then have "i \<noteq> 0" "i \<noteq> 1" "i \<noteq> 2" by auto
      then show ?thesis
        using c l by (cases "store_date (refresh_date a)") (auto simp: atualizadorSSI_checked_def Let_def)
    qed
  qed (use r l in \<open>simp add: atualizadorSSI_def\<close>)
  then show ?thesis by (auto simp: handler_ok_def app_cfg_simps)
qed

text \<open>
  C20. The inserts of the three tags fit: whatever the clock shows and whatever the converter
  measured, no text overflows the 19 bytes of the local buffer or the insert buffer of the
  server, and what the handler returns is the length of what it wrote. So the handler meets what
  the tag parser asks of a handler.
\<close>

theorem ssi_inserts_fit:
  assumes "i < 3" "length buf = LWIP_HTTPD_MAX_TAG_INSERT_LEN + 1" "0 \<le> valorADC11P a" "valorADC11P a < 65536"
  shows "\<exists>s a'. atualizadorSSI_checked i buf a = Inr (of_nat (length s), put_bytes 0 (s @ [NUL]) buf, a')
    \<and> s = [date_text (ap_date a'), time_text (ap_date a'), fmt_0d 3 (valorADC11P a)] ! i
    \<and> length s \<le> 11 \<and> ap_rtc a' = ap_rtc a \<and> handler_ok (ssi_config (app_cfg root))"
proof -
  let ?a = "refresh_date a"
  obtain s d0 where d: "ap_date ?a = RTC_HAL_ConvertSecsToDatetime s d0" using refreshed_date by blast
  have lens: "length (date_text (ap_date ?a)) = 11" "length (time_text (ap_date ?a)) = 6"
    unfolding d using date_of_secs clock_of_secs year_of_secs by (auto intro!: date_text_length time_text_length)
  have adc: "length (fmt_0d 3 (valorADC11P a)) \<le> 5"
    using assms(3,4) by (intro length_fmt_0d_le) auto
  define s where "s = [date_text (ap_date ?a), time_text (ap_date ?a), fmt_0d 3 (valorADC11P a)] ! i"
  have i: "i = 0 \<or> i = 1 \<or> i = 2" using assms(1) by arith
  then have "length s \<le> 11" using lens adc by (auto simp: s_def)
  moreover have "atualizadorSSI_checked i buf a = put_insert s buf ?a"
    using i by (auto simp: atualizadorSSI_checked_def s_def)
  ultimately show ?thesis
    using put_insert_ok [OF _ assms(2), of s ?a] by (intro exI [of _ s] exI [of _ ?a]) (simp add: s_def app_handler_ok)
qed

theorem ssi_inserts_fit_witness:
  "\<exists>s a'. atualizadorSSI_checked 2 (replicate 193 NUL) sample_app
      = Inr (of_nat (length s), put_bytes 0 (s @ [NUL]) (replicate 193 NUL), a') \<and> s = ''4095''"
proof -
  have v: "fmt_0d 3 (valorADC11P sample_app) = ''4095''" by code_simp
  have "0 \<le> valorADC11P sample_app" "valorADC11P sample_app < 65536" by (simp_all add: sample_app_def)
  then show ?thesis using ssi_inserts_fit [of 2 "replicate 193 NUL" sample_app] by (auto simp: ssi_consts v)
qed

subsection \<open>Requests that fail\<close>

text \<open>
  A request \<open>/rele.cgi?rele\<close>, without a value, makes the handler compare a null pointer.
\<close>

theorem rele_without_value_fails:
  assumes "(''rele'', None) \<in> set (take n ps)"
  shows "processaCGI 0 n ps a = Inl Null_deref"
  using rele_loop_null [OF assms] by (simp add: processaCGI_def cgi_rele_def)

theorem rele_without_value_fails_witness:
  "processaCGI 0 1 [(''rele'', None)] sample_app = Inl Null_deref"
  by (rule rele_without_value_fails) simp

text \<open>
  C24. The date a browser sends has ten characters; \<open>/data.cgi\<close> copies it with its NUL into a block
  of ten bytes. Every such request writes behind the block.
\<close>

theorem data_request_overflows:
  assumes "ap_malloc a = Some b1 # ms" "first_value ps = Some v" "10 \<le> length v"
  shows "processaCGI 1 n ps a = Inl Oob_write"
proof -
  have "c_malloc 10 (refresh_date a) = (Some (block10 b1), (refresh_date a)\<lparr>ap_malloc := ms\<rparr>)"
    using assms(1) by (intro c_malloc_block) simp
  then show ?thesis
    using assms(2,3) by (simp add: processaCGI_def cgi_data_def c_strcpy_def split: prod.splits)
qed

theorem data_request_overflows_witness:
  "processaCGI 1 1 [(''d'', Some ''2021-05-18'')] sample_app = Inl Oob_write"
  by (rule data_request_overflows, simp add: sample_app_def, simp add: first_value_def, code_simp)

end
