(* ===== verification/App_Run_Claims.thy ===== *)
theory App_Run_Claims
  imports App_Run App_Claims
begin

text \<open>
  The properties of the memory card, its detection and the main loop.
\<close>

subsection \<open>Writing the log\<close>

text \<open>
  C22. Appending to the log, whatever FatFs answers: the card is mounted first and, if that
  succeeded, unmounted last; a line is written only into a file that was opened, at the size that
  opening it reported; and the file is closed even when it could not be opened.
\<close>

theorem append_protocol:
  assumes "length name + 3 \<le> 255"
  shows "\<exists>s'. sd_append name line s = Inr s'
    \<and> sd_log s' = sd_log s @ append_calls name line (file_size s) (sd_results s)"
  by (rule sd_append_log [OF assms])

definition sample_sd :: "FRESULT list \<Rightarrow> sd" where
  "sample_sd rs = \<lparr>sd_results = rs, sd_sizes = [10], sd_log = []\<rparr>"

theorem append_protocol_witness:
  "\<exists>s'. sd_append ''/a'' ''x'' (sample_sd [FR_OK, FR_OK, FR_NO_FILE]) = Inr s'
     \<and> sd_log s' = [F_mount True, F_chdrive, F_open ''1:/a'', F_close, F_mount False]"
  using append_protocol [of "''/a''" "''x''" "sample_sd [FR_OK, FR_OK, FR_NO_FILE]"]
  by (simp add: sample_sd_def append_calls_def result_def SD_DRIVE_NUMBER_def)

text \<open>Calls that succeed.\<close>

definition all_ok :: "nat \<Rightarrow> sd \<Rightarrow> bool" where
  "all_ok n s \<longleftrightarrow> n \<le> length (sd_results s) \<and> list_all (\<lambda>r. r = FR_OK) (take n (sd_results s))"

lemma fat_ok: "all_ok (Suc n) s \<Longrightarrow> fst (fat c s) = FR_OK \<and> all_ok n (snd (fat c s))"
  by (cases "sd_results s") (auto simp: all_ok_def fat_def)

lemma all_ok_sizes [simp]: "all_ok n (s\<lparr>sd_sizes := xs\<rparr>) = all_ok n s"
  by (simp add: all_ok_def)

lemma append_ok:
  assumes "length name + 3 \<le> 255" "all_ok (7 + n) s"
  shows "\<exists>s'. sd_append name line s = Inr s' \<and> all_ok n s' \<and> sd_sizes s' = tl (sd_sizes s)
    \<and> sd_log s' = sd_log s @ [F_mount True, F_chdrive, F_open (''1:'' @ name), F_lseek (file_size s),
        F_write line, F_close, F_mount False]"
proof -
  let ?p = "SD_DRIVE_NUMBER # CHR '':'' # name"
  define s1 where "s1 = snd (fat (F_mount True) s)"
  define s2 where "s2 = snd (fat F_chdrive s1)"
  define s3 where "s3 = (snd (fat (F_open ?p) s2))\<lparr>sd_sizes := tl (sd_sizes s2)\<rparr>"
  define s4 where "s4 = snd (fat (F_lseek (file_size s2)) s3)"
  define s5 where "s5 = snd (fat (F_write line) s4)"
  define s6 where "s6 = snd (fat F_close s5)"
  define s7 where "s7 = snd (fat (F_mount False) s6)"
  have 1: "fat (F_mount True) s = (FR_OK, s1)" "all_ok (6 + n) s1"
    using fat_ok [of "6 + n" s "F_mount True"] assms(2) by (auto simp: s1_def prod_eq_iff numeral_eq_Suc)
  have 2: "fat F_chdrive s1 = (FR_OK, s2)" "all_ok (5 + n) s2"
    using fat_ok [of "5 + n" s1 F_chdrive] 1(2) by (auto simp: s2_def prod_eq_iff numeral_eq_Suc)
  have 3: "fat_open ?p s2 = (FR_OK, file_size s2, s3)" "all_ok (4 + n) s3"
    using fat_ok [of "4 + n" s2 "F_open ?p"] 2(2)
    by (auto simp: s3_def fat_open_def case_prod_beta prod_eq_iff numeral_eq_Suc)
  have 4: "all_ok (3 + n) s4" using fat_ok [of "3 + n" s3] 3(2) by (auto simp: s4_def numeral_eq_Suc)
  have 5: "all_ok (2 + n) s5" using fat_ok [of "2 + n" s4] 4 by (auto simp: s5_def numeral_eq_Suc)
  have 6: "all_ok (1 + n) s6" using fat_ok [of "1 + n" s5] 5 by (auto simp: s6_def numeral_eq_Suc)
  have 7: "all_ok n s7" using fat_ok [of n s6] 6 by (auto simp: s7_def)
  have "sd_append name line s = Inr s7"
    using assms(1) 1(1) 2(1) 3(1)
    by (simp add: sd_append_def append_file_def append_open_def PATH_SIZE_def case_prod_beta
        s4_def s5_def s6_def s7_def)
  then show ?thesis
    using 7 by (simp add: s1_def s2_def s3_def s4_def s5_def s6_def s7_def SD_DRIVE_NUMBER_def file_size_def)
qed

lemma log_access_effect:
  assumes "length what \<le> 100"
  shows "\<exists>s'. log_access what (a, s) = Inr (refresh_date a, s')
    \<and> (all_ok (7 + n) s \<longrightarrow> all_ok n s' \<and> sd_sizes s' = tl (sd_sizes s)
        \<and> sd_log s' = sd_log s @ [F_mount True, F_chdrive, F_open ''1:/httpd.log'', F_lseek (file_size s),
            F_write (log_line (ap_date (refresh_date a)) what), F_close, F_mount False])"
proof -
  let ?line = "log_line (ap_date (refresh_date a)) what"
  obtain t d0 where "ap_date (refresh_date a) = RTC_HAL_ConvertSecsToDatetime t d0"
    using refreshed_date by blast
  then have "length ?line = 10 + length what" using log_line_length clock_of_secs by metis
  then have short: "\<not> length ?line + 1 > TMP_LINE_SIZE" using assms by (simp add: TMP_LINE_SIZE_def)
  obtain s' where s': "sd_append ''/httpd.log'' ?line s = Inr s'"
    using sd_append_log [of "''/httpd.log''" ?line s] by auto
  have "log_access what (a, s) = Inr (refresh_date a, s')" using short s' by (simp add: log_access_def Let_def)
  moreover have "all_ok (7 + n) s \<longrightarrow> all_ok n s' \<and> sd_sizes s' = tl (sd_sizes s)
      \<and> sd_log s' = sd_log s @ [F_mount True, F_chdrive, F_open ''1:/httpd.log'', F_lseek (file_size s),
          F_write ?line, F_close, F_mount False]"
    using append_ok [of "''/httpd.log''" n s ?line] s' by auto
  ultimately show ?thesis by blast
qed

text \<open>What the clock shows does not depend on what the date held before.\<close>

lemma date_independent: "RTC_HAL_ConvertSecsToDatetime s d0 = RTC_HAL_ConvertSecsToDatetime s d1"
proof -
  have "dt_secs (RTC_HAL_ConvertSecsToDatetime s d1) = unat s"
    using date_of_secs [of s d1] clock_of_secs [of s d1] by (simp add: dt_secs_def)
  moreover have "unat s < 2 ^ 32" using unsigned_less [of s] by simp
  ultimately show ?thesis
    using date_secs_date [of "RTC_HAL_ConvertSecsToDatetime s d1" s d0] date_of_secs [of s d1]
      clock_of_secs [of s d1] secs_date_secs by simp
qed

lemma shown_independent: "RTC_HAL_GetDatetime r d0 = RTC_HAL_GetDatetime r d1"
  unfolding RTC_HAL_GetDatetime_def by (rule date_independent)

subsection \<open>The main loop\<close>

definition pending :: "app \<Rightarrow> string list" where
  "pending a = (if cartaoCGI a then ['' CGI acessado''] else []) @ (if cartaoSSI a then ['' SSI acessado''] else [])
     @ (if cartaoRELAY a then ['' Relay acessado''] else [])"

text \<open>One flag; what a file that is opened again and again holds when each line is appended to the last.\<close>

fun appended :: "nat \<Rightarrow> string list \<Rightarrow> nat list" where
  "appended n [] = []"
| "appended n (l # ls) = n # appended (n + length l) ls"

definition reports :: "bytes \<Rightarrow> string list \<Rightarrow> sd \<Rightarrow> bool" where
  "reports content lines s \<longleftrightarrow> take (length lines) (sd_sizes s) = appended (length content) lines"

fun calls_at :: "(string \<times> nat) list \<Rightarrow> fat_call list" where
  "calls_at [] = []"
| "calls_at ((line, n) # ls) = [F_mount True, F_chdrive, F_open ''1:/httpd.log'', F_lseek n, F_write line,
     F_close, F_mount False] @ calls_at ls"

text \<open>The bytes of the file after the calls, when seeking and writing do what their names say.\<close>

fun file_after :: "fat_call list \<Rightarrow> nat \<Rightarrow> bytes \<Rightarrow> bytes" where
  "file_after [] pos content = content"
| "file_after (F_lseek n # cs) pos content = file_after cs n content"
| "file_after (F_write line # cs) pos content =
     file_after cs (pos + length line) (take pos content @ line @ drop (pos + length line) content)"
| "file_after (_ # cs) pos content = file_after cs pos content"

lemma calls_append:
  "file_after (calls_at (zip lines (appended (length content) lines))) pos content = content @ concat lines"
proof (induction lines arbitrary: content pos)
  case (Cons l ls)
  show ?case using Cons [of "content @ l" "length content + length l"] by simp
qed simp

lemma serve_step:
  fixes d0 :: rtc_datetime and what :: string and a b :: app
  assumes "length what \<le> 100" "ap_rtc b = ap_rtc a"
  defines "line \<equiv> log_line (RTC_HAL_GetDatetime (ap_rtc a) d0) what"
  shows "\<exists>s'. (if flag then log_access what (b, s) else Inr (a, s)) = Inr (if flag then refresh_date b else a, s')
    \<and> (all_ok (7 + n) s \<and> reports content ((if flag then [line] else []) @ rest) s \<longrightarrow>
        all_ok n s' \<and> reports (content @ (if flag then line else [])) rest s'
        \<and> sd_log s' = sd_log s @ calls_at (if flag then [(line, length content)] else []))"
proof (cases flag)
  case True
  have d: "log_line (ap_date (refresh_date b)) what = line"
    using shown_independent [of "ap_rtc a" "ap_date b" d0] assms(2) by (simp add: line_def)
  obtain s' where s': "log_access what (b, s) = Inr (refresh_date b, s')"
    "all_ok (7 + n) s \<longrightarrow> all_ok n s' \<and> sd_sizes s' = tl (sd_sizes s)
        \<and> sd_log s' = sd_log s @ calls_at [(line, file_size s)]"
    using log_access_effect [OF assms(1), of b s n] unfolding d by auto
  have "file_size s = length content \<and> reports (content @ line) rest s'"
    if "reports content (line # rest) s" "sd_sizes s' = tl (sd_sizes s)"
    using that by (cases "sd_sizes s") (auto simp: reports_def file_size_def)
  then show ?thesis using s' True by auto
next
  case False
  then show ?thesis by (auto simp: all_ok_def list_all_length)
qed

lemma serve_pairs:
  "serve_CGI (b, s) = (if cartaoCGI b then log_access '' CGI acessado'' (b\<lparr>cartaoCGI := False\<rparr>, s) else Inr (b, s))"
  "serve_SSI (b, s) = (if cartaoSSI b then log_access '' SSI acessado'' (b\<lparr>cartaoSSI := False\<rparr>, s) else Inr (b, s))"
  "serve_RELAY (b, s) = (if cartaoRELAY b then log_access '' Relay acessado'' (b\<lparr>cartaoRELAY := False\<rparr>, s) else Inr (b, s))"
  by (simp_all add: serve_CGI_def serve_SSI_def serve_RELAY_def)

text \<open>
  C21. One pass of the main loop serves every event the handlers left: none of its buffers
  overflows, all three flags are cleared whatever the card answers, and when the card works
  exactly one line per event is appended to the log, with the time, in the order CGI, SSI, relay, each
  behind the one before. A card works when every call succeeds and each \<open>f_open\<close> reports the size the file
  has by then; what was written is then the old content followed by the lines.
\<close>

theorem main_pass_logs:
  fixes content :: bytes and net :: "app \<Rightarrow> app" and a :: app and d0 :: rtc_datetime
  defines "b \<equiv> net a"
  defines "lines \<equiv> map (log_line (RTC_HAL_GetDatetime (ap_rtc b) d0)) (pending b)"
  shows "\<exists>a' s'. main_pass net (a, s) = Inr (a', s')
    \<and> \<not> cartaoCGI a' \<and> \<not> cartaoSSI a' \<and> \<not> cartaoRELAY a' \<and> ap_pins a' = ap_pins b \<and> ap_rtc a' = ap_rtc b
    \<and> (all_ok 21 s \<and> take (length lines) (sd_sizes s) = appended (length content) lines \<longrightarrow>
        (\<exists>calls. sd_log s' = sd_log s @ calls
          \<and> calls = calls_at (zip lines (appended (length content) lines))
          \<and> file_after calls 0 content = content @ concat lines))"
proof -
  let ?d = "RTC_HAL_GetDatetime (ap_rtc b) d0"
  define b1 where "b1 = (if cartaoCGI b then refresh_date (b\<lparr>cartaoCGI := False\<rparr>) else b)"
  define b2 where "b2 = (if cartaoSSI b1 then refresh_date (b1\<lparr>cartaoSSI := False\<rparr>) else b1)"
  define b3 where "b3 = (if cartaoRELAY b2 then refresh_date (b2\<lparr>cartaoRELAY := False\<rparr>) else b2)"
  have r1: "ap_rtc b1 = ap_rtc b" "ap_pins b1 = ap_pins b" "\<not> cartaoCGI b1" "cartaoSSI b1 = cartaoSSI b"
    "cartaoRELAY b1 = cartaoRELAY b" by (auto simp: b1_def refresh_date_def)
  have r2: "ap_rtc b2 = ap_rtc b" "ap_pins b2 = ap_pins b" "\<not> cartaoCGI b2" "\<not> cartaoSSI b2"
    "cartaoRELAY b2 = cartaoRELAY b" using r1 by (auto simp: b2_def refresh_date_def)
  have r3: "ap_rtc b3 = ap_rtc b" "ap_pins b3 = ap_pins b" "\<not> cartaoCGI b3" "\<not> cartaoSSI b3" "\<not> cartaoRELAY b3"
    using r2 by (auto simp: b3_def refresh_date_def)
  let ?line = "log_line ?d"
  define l1 where "l1 = (if cartaoCGI b then [?line '' CGI acessado''] else [])"
  define l2 where "l2 = (if cartaoSSI b then [?line '' SSI acessado''] else [])"
  define l3 where "l3 = (if cartaoRELAY b then [?line '' Relay acessado''] else [])"
  have lines: "lines = l1 @ l2 @ l3 @ []" by (simp add: lines_def pending_def l1_def l2_def l3_def)
  obtain s1 where s1: "serve_CGI (b, s) = Inr (b1, s1)"
    "all_ok 21 s \<and> reports content (l1 @ l2 @ l3) s \<longrightarrow> all_ok 14 s1 \<and> reports (content @ concat l1) (l2 @ l3) s1
      \<and> sd_log s1 = sd_log s @ calls_at (zip l1 (appended (length content) l1))"
    using serve_step [of "'' CGI acessado''" "b\<lparr>cartaoCGI := False\<rparr>" b "cartaoCGI b" s 14 content d0 "l2 @ l3"]
    unfolding serve_pairs b1_def l1_def by (cases "cartaoCGI b") auto
  obtain s2 where s2: "serve_SSI (b1, s1) = Inr (b2, s2)"
    "all_ok 14 s1 \<and> reports (content @ concat l1) (l2 @ l3) s1 \<longrightarrow> all_ok 7 s2
      \<and> reports ((content @ concat l1) @ concat l2) l3 s2
      \<and> sd_log s2 = sd_log s1 @ calls_at (zip l2 (appended (length (content @ concat l1)) l2))"
    using serve_step [of "'' SSI acessado''" "b1\<lparr>cartaoSSI := False\<rparr>" b1 "cartaoSSI b" s1 7 "content @ concat l1" d0 l3] r1
    unfolding serve_pairs b2_def l2_def by (cases "cartaoSSI b") auto
  obtain s3 where s3: "serve_RELAY (b2, s2) = Inr (b3, s3)"
    "all_ok 7 s2 \<and> reports ((content @ concat l1) @ concat l2) l3 s2 \<longrightarrow>
      sd_log s3 = sd_log s2 @ calls_at (zip l3 (appended (length ((content @ concat l1) @ concat l2)) l3))"
    using serve_step [of "'' Relay acessado''" "b2\<lparr>cartaoRELAY := False\<rparr>" b2 "cartaoRELAY b" s2 0
        "(content @ concat l1) @ concat l2" d0 "[]"] r2
    unfolding serve_pairs b3_def l3_def by (cases "cartaoRELAY b") auto
  have pass: "main_pass net (a, s) = Inr (b3, s3)"
    using s1(1) s2(1) s3(1) by (simp add: main_pass_def then_do_def b_def)
  have "sd_log s3 = sd_log s @ calls_at (zip lines (appended (length content) lines))"
    if "all_ok 21 s" "reports content lines s"
    using that s1(2) s2(2) s3(2)
    by (auto simp: lines l1_def l2_def l3_def add.assoc)
  then show ?thesis
    using r3 pass calls_append [of lines content 0]
    by (intro exI [of _ b3] exI [of _ s3]) (simp add: reports_def)
qed

theorem main_pass_logs_witness:
  "\<exists>a' s'. main_pass (\<lambda>a. a\<lparr>cartaoCGI := True\<rparr>) (sample_app, sample_sd (replicate 21 FR_OK)) = Inr (a', s')
     \<and> \<not> cartaoCGI a' \<and> F_write (log_line (RTC_HAL_GetDatetime (ap_rtc sample_app) (ap_date sample_app)) '' CGI acessado'')
       \<in> set (sd_log s')"
proof -
  have p: "pending (sample_app\<lparr>cartaoCGI := True\<rparr>) = ['' CGI acessado'']" by (simp add: pending_def sample_app_def)
  have "all_ok 21 (sample_sd (replicate 21 FR_OK))" by (simp add: all_ok_def sample_sd_def list_all_iff)
  then show ?thesis
    using main_pass_logs [of "\<lambda>a. a\<lparr>cartaoCGI := True\<rparr>" sample_app "sample_sd (replicate 21 FR_OK)" "ap_date sample_app"
        "replicate 10 NUL"]
    unfolding p by (auto simp: sample_sd_def)
qed

subsection \<open>Detecting the card\<close>

text \<open>
  C23. The debouncing loop of \<open>check_card_inserted\<close> returns exactly when at some time two readings
  in a row agree, at the first such time, and the flag is what was read then. A pin that never
  settles keeps the interrupt handler for ever.
\<close>

theorem card_check_result:
  "check_card_inserted f i a =
     (if \<exists>k. f (i + k) = f (Suc (i + k))
      then let n = LEAST k. f (i + k) = f (Suc (i + k))
           in Some (a\<lparr>cardInserted := (f (i + n) = 1)\<rparr>, Suc (Suc (i + n)))
      else None)"
  by (simp add: check_card_inserted_def debounce_result Let_def)

text \<open>
  Start-up and interrupt disagree on the polarity of the card's pin: a pin that reads 0 makes
  start-up set \<open>cardInserted\<close>, and makes the interrupt handler clear it, so that inserting a card
  into the running board switches the log off.
\<close>

theorem card_polarity_differs:
  assumes "\<forall>k. f (i + k) = 0" "init_card 0 (a, s) = Inr (a', s')"
  shows "cardInserted a' \<and> PORTE_IRQHandler f i a = Some (a\<lparr>cardInserted := False, cartao := True\<rparr>, i + 3)"
proof
  show "cardInserted a'"
    using assms(2) log_access_effect [of "'' servidor httpd inicializado com sucesso''" "a\<lparr>cardInserted := True\<rparr>" s 0]
    by (auto simp: init_card_def)
  have z: "f i = 0" "f (Suc i) = 0" "f (Suc (Suc i)) = 0"
    using assms(1) [rule_format, of 0] assms(1) [rule_format, of 1] assms(1) [rule_format, of 2] by simp_all
  have "debounce f (Suc (Suc i)) (f (Suc i)) = Some (0, Suc (Suc (Suc i)))"
    using debounce_first [of f "Suc i" 0] z by simp
  then show "PORTE_IRQHandler f i a = Some (a\<lparr>cardInserted := False, cartao := True\<rparr>, i + 3)"
    using z by (simp add: PORTE_IRQHandler_def check_card_inserted_def)
qed

theorem card_polarity_differs_witness:
  "PORTE_IRQHandler (\<lambda>_. 0) 0 sample_app = Some (sample_app\<lparr>cardInserted := False, cartao := True\<rparr>, 3)"
proof -
  obtain a' s' where "init_card 0 (sample_app, sample_sd []) = Inr (a', s')"
    using log_access_effect [of "'' servidor httpd inicializado com sucesso''" "sample_app\<lparr>cardInserted := True\<rparr>"
        "sample_sd []" 0]
    by (auto simp: init_card_def)
  then show ?thesis using card_polarity_differs [of "\<lambda>_. 0" 0 sample_app "sample_sd []"] by simp
qed

end
