(* ===== verification/Timers.thy ===== *)
theory Timers
  imports Prelude "HOL-Library.Multiset"
begin

text \<open>
  The timeouts of lwIP without an operating system (\<^verbatim>\<open>lwip/src/core/lwip_timers.c\<close>): the list of
  pending timeouts, each with the time that it comes after the one before it, and the timers of the
  protocols that live on it. \<open>due\<close> is the abstract queue, absolute times in order; the theory
  proves that the list implements it and that the timers of the program never exhaust their pool.
\<close>

unbundle bit_operations_syntax

subsection \<open>The list of timeouts\<close>

text \<open>
  \<open>t_h\<close> is the handler with its argument, \<open>None\<close> for a null handler. The pool of the timeouts has
  \<open>MEMP_NUM_SYS_TIMEOUT\<close> elements, and an element is in use exactly while it is in the list. The
  assertion of \<open>sys_timeout\<close> that the pool is not empty calls \<open>sys_assert\<close>, which never returns;
  \<open>None\<close> is a call that does not return.
\<close>

record 'h timeo =
  t_time :: u32
  t_h :: "'h option"

record ('h, 'w) timers =
  next_timeout :: "'h timeo list"
  timeouts_last_time :: u32
  tcpip_tcp_timer_active :: bool
  tcp_timer_cnt :: u8
  tm_world :: 'w

definition MEMP_NUM_SYS_TIMEOUT :: nat where "MEMP_NUM_SYS_TIMEOUT = 10"

text \<open>The search of \<open>sys_timeout\<close>, behind an element that is not later.\<close>

fun timeout_after :: "u32 \<Rightarrow> 'h option \<Rightarrow> 'h timeo list \<Rightarrow> 'h timeo list" where
  "timeout_after msecs h [] = []"
| "timeout_after msecs h (t # ts) =
     (let left = msecs - t_time t
      in case ts of
           [] \<Rightarrow> [t, \<lparr>t_time = left, t_h = h\<rparr>]
         | n # r \<Rightarrow>
             if t_time n > left then t # \<lparr>t_time = left, t_h = h\<rparr> # n\<lparr>t_time := t_time n - left\<rparr> # r
             else t # timeout_after left h ts)"

definition link_timeout :: "u32 \<Rightarrow> 'h option \<Rightarrow> 'h timeo list \<Rightarrow> 'h timeo list" where
  "link_timeout msecs h l =
     (case l of
        [] \<Rightarrow> [\<lparr>t_time = msecs, t_h = h\<rparr>]
      | n # r \<Rightarrow>
          if t_time n > msecs then \<lparr>t_time = msecs, t_h = h\<rparr> # n\<lparr>t_time := t_time n - msecs\<rparr> # r
          else timeout_after msecs h l)"

definition sys_timeout :: "u32 \<Rightarrow> 'h option \<Rightarrow> ('h, 'w) timers \<Rightarrow> ('h, 'w) timers option" where
  "sys_timeout msecs h s =
     (if length (next_timeout s) \<ge> MEMP_NUM_SYS_TIMEOUT then None
      else Some (s\<lparr>next_timeout := link_timeout msecs h (next_timeout s)\<rparr>))"

fun unlink_timeout :: "'h option \<Rightarrow> 'h timeo list \<Rightarrow> 'h timeo list" where
  "unlink_timeout h [] = []"
| "unlink_timeout h (t # ts) =
     (if t_h t = h
      then (case ts of [] \<Rightarrow> [] | n # r \<Rightarrow> n\<lparr>t_time := t_time n + t_time t\<rparr> # r)
      else t # unlink_timeout h ts)"

definition sys_untimeout :: "'h option \<Rightarrow> ('h, 'w) timers \<Rightarrow> ('h, 'w) timers" where
  "sys_untimeout h s = s\<lparr>next_timeout := unlink_timeout h (next_timeout s)\<rparr>"

text \<open>
  The loop of \<open>sys_check_timeouts\<close>: the handler is called after its timeout left the list, and may
  add others. \<open>exec\<close> calls a handler.
\<close>

partial_function (option) check_loop ::
  "('h \<Rightarrow> ('h, 'w) timers \<Rightarrow> ('h, 'w) timers option) \<Rightarrow> u32 \<Rightarrow> u32 \<Rightarrow> ('h, 'w) timers \<Rightarrow> ('h, 'w) timers option" where
  "check_loop exec now diff s =
     (case next_timeout s of
        [] \<Rightarrow> Some s
      | t # ts \<Rightarrow>
          if t_time t \<le> diff
          then Option.bind
                 (case t_h t of
                    None \<Rightarrow> Some (s\<lparr>timeouts_last_time := now, next_timeout := ts\<rparr>)
                  | Some h \<Rightarrow> exec h (s\<lparr>timeouts_last_time := now, next_timeout := ts\<rparr>))
                 (\<lambda>s. check_loop exec now (diff - t_time t) s)
          else Some s)"

definition sys_check_timeouts ::
  "('h \<Rightarrow> ('h, 'w) timers \<Rightarrow> ('h, 'w) timers option) \<Rightarrow> u32 \<Rightarrow> ('h, 'w) timers \<Rightarrow> ('h, 'w) timers option" where
  "sys_check_timeouts exec now s =
     (if next_timeout s = [] then Some s else check_loop exec now (now - timeouts_last_time s) s)"

definition sys_restart_timeouts :: "u32 \<Rightarrow> ('h, 'w) timers \<Rightarrow> ('h, 'w) timers" where
  "sys_restart_timeouts now s = s\<lparr>timeouts_last_time := now\<rparr>"

subsection \<open>The timers of the protocols\<close>

text \<open>
  What the timer functions of the protocols do is an argument, and so is whether there is a
  connection (\<open>tcp_active_pcbs || tcp_tw_pcbs\<close>). None of them sets or removes a timeout of its own;
  where \<open>tcp_slowtmr\<close> moves a connection to TIME-WAIT, \<open>TCP_REG\<close> calls \<open>tcp_timer_needed\<close>, which
  does nothing then: the timer has been marked active since the connection was registered.
\<close>

record 'w tmrs =
  tcp_fasttmr :: "'w \<Rightarrow> 'w"
  tcp_slowtmr :: "'w \<Rightarrow> 'w"
  ip_reass_tmr :: "'w \<Rightarrow> 'w"
  etharp_tmr :: "'w \<Rightarrow> 'w"
  dhcp_coarse_tmr :: "'w \<Rightarrow> 'w"
  dhcp_fine_tmr :: "'w \<Rightarrow> 'w"
  pcbs_exist :: "'w \<Rightarrow> bool"

datatype timer = TCP_TIMER | IP_REASS_TIMER | ARP_TIMER | DHCP_TIMER_COARSE | DHCP_TIMER_FINE

type_synonym 'w lwip_timers = "(timer, 'w) timers"

definition TCP_TMR_INTERVAL :: u32 where "TCP_TMR_INTERVAL = 250"
definition IP_TMR_INTERVAL :: u32 where "IP_TMR_INTERVAL = 1000"
definition ARP_TMR_INTERVAL :: u32 where "ARP_TMR_INTERVAL = 5000"
definition DHCP_COARSE_TIMER_MSECS :: u32 where "DHCP_COARSE_TIMER_MSECS = 60 * 1000"
definition DHCP_FINE_TIMER_MSECS :: u32 where "DHCP_FINE_TIMER_MSECS = 500"

lemmas intervals = TCP_TMR_INTERVAL_def IP_TMR_INTERVAL_def ARP_TMR_INTERVAL_def
  DHCP_COARSE_TIMER_MSECS_def DHCP_FINE_TIMER_MSECS_def

definition tcp_tmr :: "'w tmrs \<Rightarrow> 'w lwip_timers \<Rightarrow> 'w lwip_timers" where
  "tcp_tmr f s =
     (let s = s\<lparr>tm_world := tcp_fasttmr f (tm_world s), tcp_timer_cnt := tcp_timer_cnt s + 1\<rparr>
      in if tcp_timer_cnt s AND 1 \<noteq> 0 then s\<lparr>tm_world := tcp_slowtmr f (tm_world s)\<rparr> else s)"

definition tcpip_tcp_timer :: "'w tmrs \<Rightarrow> 'w lwip_timers \<Rightarrow> 'w lwip_timers option" where
  "tcpip_tcp_timer f s =
     (let s = tcp_tmr f s
      in if pcbs_exist f (tm_world s) then sys_timeout TCP_TMR_INTERVAL (Some TCP_TIMER) s
         else Some (s\<lparr>tcpip_tcp_timer_active := False\<rparr>))"

definition tcp_timer_needed :: "'w tmrs \<Rightarrow> 'w lwip_timers \<Rightarrow> 'w lwip_timers option" where
  "tcp_timer_needed f s =
     (if \<not> tcpip_tcp_timer_active s \<and> pcbs_exist f (tm_world s)
      then sys_timeout TCP_TMR_INTERVAL (Some TCP_TIMER) (s\<lparr>tcpip_tcp_timer_active := True\<rparr>)
      else Some s)"

definition ip_reass_timer :: "'w tmrs \<Rightarrow> 'w lwip_timers \<Rightarrow> 'w lwip_timers option" where
  "ip_reass_timer f s =
     sys_timeout IP_TMR_INTERVAL (Some IP_REASS_TIMER) (s\<lparr>tm_world := ip_reass_tmr f (tm_world s)\<rparr>)"

definition arp_timer :: "'w tmrs \<Rightarrow> 'w lwip_timers \<Rightarrow> 'w lwip_timers option" where
  "arp_timer f s =
     sys_timeout ARP_TMR_INTERVAL (Some ARP_TIMER) (s\<lparr>tm_world := etharp_tmr f (tm_world s)\<rparr>)"

definition dhcp_timer_coarse :: "'w tmrs \<Rightarrow> 'w lwip_timers \<Rightarrow> 'w lwip_timers option" where
  "dhcp_timer_coarse f s =
     sys_timeout DHCP_COARSE_TIMER_MSECS (Some DHCP_TIMER_COARSE) (s\<lparr>tm_world := dhcp_coarse_tmr f (tm_world s)\<rparr>)"

definition dhcp_timer_fine :: "'w tmrs \<Rightarrow> 'w lwip_timers \<Rightarrow> 'w lwip_timers option" where
  "dhcp_timer_fine f s =
     sys_timeout DHCP_FINE_TIMER_MSECS (Some DHCP_TIMER_FINE) (s\<lparr>tm_world := dhcp_fine_tmr f (tm_world s)\<rparr>)"

fun run_timer :: "'w tmrs \<Rightarrow> timer \<Rightarrow> 'w lwip_timers \<Rightarrow> 'w lwip_timers option" where
  "run_timer f TCP_TIMER s = tcpip_tcp_timer f s"
| "run_timer f IP_REASS_TIMER s = ip_reass_timer f s"
| "run_timer f ARP_TIMER s = arp_timer f s"
| "run_timer f DHCP_TIMER_COARSE s = dhcp_timer_coarse f s"
| "run_timer f DHCP_TIMER_FINE s = dhcp_timer_fine f s"

definition sys_timeouts_init :: "u32 \<Rightarrow> 'w lwip_timers \<Rightarrow> 'w lwip_timers option" where
  "sys_timeouts_init now s =
     Option.bind (sys_timeout IP_TMR_INTERVAL (Some IP_REASS_TIMER) s) (\<lambda>s.
     Option.bind (sys_timeout ARP_TMR_INTERVAL (Some ARP_TIMER) s) (\<lambda>s.
     Option.bind (sys_timeout DHCP_COARSE_TIMER_MSECS (Some DHCP_TIMER_COARSE) s) (\<lambda>s.
     Option.bind (sys_timeout DHCP_FINE_TIMER_MSECS (Some DHCP_TIMER_FINE) s) (\<lambda>s.
     Option.bind (sys_timeout TCP_TMR_INTERVAL (Some TCP_TIMER) s) (\<lambda>s.
     Some (s\<lparr>timeouts_last_time := now\<rparr>))))))"

subsection \<open>The abstract queue\<close>

text \<open>Absolute times, the earliest first; of equal times the older timeout first.\<close>

fun due :: "nat \<Rightarrow> 'h timeo list \<Rightarrow> (nat \<times> 'h option) list" where
  "due t [] = []"
| "due t (x # xs) = (t + unat (t_time x), t_h x) # due (t + unat (t_time x)) xs"

fun insert_due :: "nat \<times> 'h \<Rightarrow> (nat \<times> 'h) list \<Rightarrow> (nat \<times> 'h) list" where
  "insert_due (m, h) [] = [(m, h)]"
| "insert_due (m, h) ((d, k) # q) = (if m < d then (m, h) # (d, k) # q else (d, k) # insert_due (m, h) q)"

fun remove_due :: "'h \<Rightarrow> (nat \<times> 'h) list \<Rightarrow> (nat \<times> 'h) list" where
  "remove_due h [] = []"
| "remove_due h ((d, k) # q) = (if k = h then q else (d, k) # remove_due h q)"

lemma due_timeout_after:
  assumes "l \<noteq> []" "t_time (hd l) \<le> m"
  shows "due t (timeout_after m h l) = insert_due (t + unat m, h) (due t l)"
  using assms
proof (induction m h l arbitrary: t rule: timeout_after.induct)
  case (2 m h x ts)
  have sub: "unat (m - t_time x) = unat m - unat (t_time x)" "unat (t_time x) \<le> unat m"
    using 2(3) by (auto simp: unat_sub word_le_nat_alt)
  show ?case
  proof (cases ts)
    case Nil
    then show ?thesis using sub by (simp add: Let_def)
  next
    case (Cons n r)
    show ?thesis
    proof (cases "t_time n > m - t_time x")
      case True
      then have less: "unat (m - t_time x) < unat (t_time n)" by (simp add: word_less_nat_alt)
      then have "unat (t_time n - (m - t_time x)) = unat (t_time n) - unat (m - t_time x)"
        by (intro unat_sub) (simp add: word_le_nat_alt)
      moreover have "unat m < unat (t_time x) + unat (t_time n)" using less sub by simp
      moreover have "t + unat (t_time x) + (unat m - unat (t_time x)) = t + unat m" using sub by simp
      moreover have "t + unat m + (unat (t_time n) - (unat m - unat (t_time x))) = t + unat (t_time x) + unat (t_time n)"
        using less sub by simp
      ultimately show ?thesis using True sub Cons by (simp add: Let_def ac_simps)
    next
      case False
      have "due (t + unat (t_time x)) (timeout_after (m - t_time x) h ts)
        = insert_due (t + unat (t_time x) + unat (m - t_time x), h) (due (t + unat (t_time x)) ts)"
        by (rule 2(1)) (use Cons False in simp_all)
      moreover have "\<not> t + unat m < t + unat (t_time x)" using sub by simp
      ultimately show ?thesis using False sub Cons by (simp add: Let_def)
    qed
  qed
qed simp

lemma due_link: "due t (link_timeout m h l) = insert_due (t + unat m, h) (due t l)"
proof (cases l)
  case (Cons n r)
  show ?thesis
  proof (cases "t_time n > m")
    case True
    then have less: "unat m < unat (t_time n)" by (simp add: word_less_nat_alt)
    then have "unat (t_time n - m) = unat (t_time n) - unat m"
      by (intro unat_sub) (simp add: word_le_nat_alt)
    then show ?thesis using True less Cons by (simp add: link_timeout_def)
  next
    case False
    then have "due t (timeout_after m h l) = insert_due (t + unat m, h) (due t l)"
      by (intro due_timeout_after) (use Cons in auto)
    then show ?thesis using False Cons by (simp add: link_timeout_def)
  qed
qed (simp add: link_timeout_def)

text \<open>
  The times add up to less than \<open>2 ^ 32\<close>: what makes the addition of \<open>sys_untimeout\<close> exact. Adding
  a timeout keeps it, because the last time is the later of two 32-bit times.
\<close>

definition span :: "'h timeo list \<Rightarrow> nat" where
  "span l = sum_list (map (\<lambda>x. unat (t_time x)) l)"

lemma due_unlink:
  assumes "span l < 2 ^ 32"
  shows "due t (unlink_timeout h l) = remove_due h (due t l)"
  using assms
proof (induction l arbitrary: t)
  case (Cons x xs)
  show ?case
  proof (cases xs)
    case (Cons n r)
    have "unat (t_time n + t_time x) = unat (t_time n) + unat (t_time x)"
      using Cons.prems Cons by (simp add: span_def unat_word_ariths)
    moreover have "due (t + unat (t_time x)) (unlink_timeout h xs) = remove_due h (due (t + unat (t_time x)) xs)"
      using Cons.IH Cons.prems by (simp add: span_def)
    ultimately show ?thesis using Cons by (simp add: ac_simps)
  qed simp
qed simp

lemma span_due: "l \<noteq> [] \<Longrightarrow> fst (last (due t l)) = t + span l"
proof (induction l arbitrary: t)
  case (Cons x xs)
  then show ?case by (cases xs) (simp_all add: span_def)
qed simp

lemma due_Nil [simp]: "due t l = [] \<longleftrightarrow> l = []"
  by (cases l) auto

lemma insert_due_Nil [simp]: "insert_due x q \<noteq> []"
  by (cases x; cases q) (auto split: if_splits)

lemma due_sorted: "sorted (map fst (due t l)) \<and> (\<forall>x \<in> set (due t l). t \<le> fst x)"
  by (induction l arbitrary: t) (force dest: order_trans [rotated] le_add1 [THEN order_trans])+

lemma last_insert_due:
  "sorted (map fst q) \<Longrightarrow> fst (last (insert_due (m, h) q)) = (if q = [] then m else max m (fst (last q)))"
proof (induction q)
  case (Cons x q)
  obtain d k where x: "x = (d, k)" by (cases x)
  show ?case
  proof (cases "m < d")
    case True
    have "d \<le> fst (last (x # q))" using Cons.prems x last_in_set [of q] by (cases "q = []") auto
    then show ?thesis using True x by simp
  next
    case False
    then show ?thesis using Cons x by (cases q) auto
  qed
qed simp

lemma span_link:
  assumes "span l < 2 ^ 32"
  shows "span (link_timeout m h l) < 2 ^ 32"
proof -
  have ne: "link_timeout m h l \<noteq> []" using due_link [of 0 m h l] due_Nil [of 0 "link_timeout m h l"] by auto
  have "span (link_timeout m h l) = fst (last (due 0 (link_timeout m h l)))" using span_due [OF ne, of 0] by simp
  also have "\<dots> = (if l = [] then unat m else max (unat m) (span l))"
    using last_insert_due [of "due 0 l" "unat m" h] due_sorted [of 0 l] span_due [of l 0] by (simp add: due_link)
  finally show ?thesis using assms unsigned_less [of m] by (auto split: if_splits)
qed

text \<open>Which handlers are pending.\<close>

definition handlers :: "'h timeo list \<Rightarrow> 'h option multiset" where
  "handlers l = mset (map t_h l)"

lemma handlers_due: "handlers l = mset (map snd (due t l))"
  by (induction l arbitrary: t) (simp_all add: handlers_def)

lemma mset_insert_due: "mset (insert_due x q) = add_mset x (mset q)"
  by (cases x, induction q) auto

lemma handlers_link [simp]: "handlers (link_timeout m h l) = add_mset h (handlers l)"
  by (simp add: handlers_due [of _ 0] due_link mset_insert_due)

lemma length_handlers: "length l = size (handlers l)"
  by (simp add: handlers_def)

lemma handlers_Cons [simp]: "handlers (x # xs) = add_mset (t_h x) (handlers xs)"
  by (simp add: handlers_def)

lemma handlers_Nil [simp]: "handlers [] = {#}"
  by (simp add: handlers_def)

subsection \<open>The interface\<close>

text \<open>
  A queue of timeouts: what the clients of \<^verbatim>\<open>lwip_timers.c\<close> rely on. \<open>view\<close> is the abstract queue.
\<close>

locale timeout_queue =
  fixes add :: "nat \<Rightarrow> 'h \<Rightarrow> 'q \<Rightarrow> 'q" and del :: "'h \<Rightarrow> 'q \<Rightarrow> 'q"
    and ok :: "'q \<Rightarrow> bool" and view :: "'q \<Rightarrow> (nat \<times> 'h) list"
  assumes view_add: "m < 2 ^ 32 \<Longrightarrow> view (add m h q) = insert_due (m, h) (view q)"
    and view_del: "ok q \<Longrightarrow> view (del h q) = remove_due h (view q)"
    and ok_add: "ok q \<Longrightarrow> m < 2 ^ 32 \<Longrightarrow> ok (add m h q)"
begin

lemma mset_add: "m < 2 ^ 32 \<Longrightarrow> mset (view (add m h q)) = add_mset (m, h) (mset (view q))"
  by (simp add: view_add mset_insert_due)

lemma remove_insert_due: "h \<notin> snd ` set q \<Longrightarrow> remove_due h (insert_due (m, h) q) = q"
  by (induction q) auto

text \<open>Setting a timeout and taking it back leaves the queue as it was.\<close>

lemma del_add:
  assumes "ok q" "m < 2 ^ 32" "h \<notin> snd ` set (view q)"
  shows "view (del h (add m h q)) = view q"
  using assms by (simp add: view_del view_add ok_add remove_insert_due)

end

definition add_timeout :: "nat \<Rightarrow> 'h option \<Rightarrow> 'h timeo list \<Rightarrow> 'h timeo list" where
  "add_timeout m h l = link_timeout (of_nat m) h l"

interpretation lwip_queue: timeout_queue add_timeout unlink_timeout "\<lambda>l. span l < 2 ^ 32" "due 0"
  by unfold_locales
    (simp_all only: add_timeout_def due_link due_unlink span_link,
     simp_all add: unsigned_of_nat take_bit_nat_eq_self)

subsection \<open>The loop ends\<close>

lemma due_shift: "due (a + b) l = map (\<lambda>(d, h). (a + d, h)) (due b l)"
  by (induction l arbitrary: b) (simp_all add: add.assoc)

text \<open>How long the pending timeouts have been expired, in sum.\<close>

definition weight :: "nat \<Rightarrow> 'h timeo list \<Rightarrow> nat" where
  "weight D l = sum_list (map (\<lambda>(d, _). Suc D - d) (due 0 l))"

lemma weight_Cons:
  assumes "unat (t_time x) \<le> D"
  shows "weight D (x # xs) = Suc (D - unat (t_time x)) + weight (D - unat (t_time x)) xs"
proof -
  have "map (\<lambda>(d, _). Suc D - d) (due (unat (t_time x)) xs) = map (\<lambda>(d, _). Suc (D - unat (t_time x)) - d) (due 0 xs)"
    using due_shift [of "unat (t_time x)" 0 xs] assms by (auto simp: case_prod_beta)
  then show ?thesis using assms by (simp add: weight_def)
qed

lemma sum_insert_due: "sum_list (map f (insert_due x q)) = f x + (sum_list (map f q) :: nat)"
  by (cases x, induction q) auto

lemma weight_link: "weight D (link_timeout m h l) = (Suc D - unat m) + weight D l"
  by (simp add: weight_def due_link sum_insert_due)

subsection \<open>The timers of the program\<close>

fun interval :: "timer \<Rightarrow> u32" where
  "interval TCP_TIMER = TCP_TMR_INTERVAL"
| "interval IP_REASS_TIMER = IP_TMR_INTERVAL"
| "interval ARP_TIMER = ARP_TMR_INTERVAL"
| "interval DHCP_TIMER_COARSE = DHCP_COARSE_TIMER_MSECS"
| "interval DHCP_TIMER_FINE = DHCP_FINE_TIMER_MSECS"

lemma interval_pos: "1 \<le> unat (interval k)"
  by (cases k) (simp_all add: intervals)

text \<open>A handler sets its timeout again, except the one of TCP when there is no connection.\<close>

lemma sys_timeout_room:
  "length (next_timeout s) < MEMP_NUM_SYS_TIMEOUT \<Longrightarrow>
   sys_timeout m h s = Some (s\<lparr>next_timeout := link_timeout m h (next_timeout s)\<rparr>)"
  by (simp add: sys_timeout_def)

lemma tcp_tmr_fields [simp]:
  "next_timeout (tcp_tmr f s) = next_timeout s" "timeouts_last_time (tcp_tmr f s) = timeouts_last_time s"
  "tcpip_tcp_timer_active (tcp_tmr f s) = tcpip_tcp_timer_active s"
  by (simp_all add: tcp_tmr_def Let_def)

lemma run_timer_cases:
  assumes "length (next_timeout s) < MEMP_NUM_SYS_TIMEOUT"
  obtains s' where "run_timer f k s = Some s'" "next_timeout s' = link_timeout (interval k) (Some k) (next_timeout s)"
      "tcpip_tcp_timer_active s' = tcpip_tcp_timer_active s"
  | s' where "run_timer f k s = Some s'" "k = TCP_TIMER" "next_timeout s' = next_timeout s"
      "\<not> tcpip_tcp_timer_active s'" "\<exists>w. \<not> pcbs_exist f w"
proof (cases k)
  case TCP_TIMER
  then show ?thesis
    using assms that by (cases "pcbs_exist f (tm_world (tcp_tmr f s))")
      (auto simp: tcpip_tcp_timer_def sys_timeout_room Let_def)
qed (use assms that(1) in \<open>simp_all add: sys_timeout_room ip_reass_timer_def arp_timer_def
       dhcp_timer_coarse_def dhcp_timer_fine_def\<close>)

text \<open>
  The invariant: every timer of a protocol is pending once; the timer of TCP at least once when it
  is marked active, and at most once more than the mark says.
\<close>

definition armed :: "timer \<Rightarrow> 'w lwip_timers \<Rightarrow> nat" where
  "armed k s = count (handlers (next_timeout s)) (Some k)"

definition timers_ok :: "'w lwip_timers \<Rightarrow> bool" where
  "timers_ok s \<longleftrightarrow>
     (\<forall>k. k \<noteq> TCP_TIMER \<longrightarrow> armed k s = 1) \<and> armed TCP_TIMER s \<le> 1 + of_bool (tcpip_tcp_timer_active s)
     \<and> (tcpip_tcp_timer_active s \<longrightarrow> 1 \<le> armed TCP_TIMER s) \<and> None \<notin># handlers (next_timeout s)"

lemma finite_handlers:
  fixes M :: "timer option multiset"
  shows "size M = count M None + count M (Some TCP_TIMER) + count M (Some IP_REASS_TIMER)
    + count M (Some ARP_TIMER) + count M (Some DHCP_TIMER_COARSE) + count M (Some DHCP_TIMER_FINE)"
proof (induction M)
  case (add x M)
  then show ?case
  proof (cases x)
    case (Some k)
    then show ?thesis using add by (cases k) simp_all
  qed simp
qed simp

lemma timers_ok_length: "timers_ok s \<Longrightarrow> length (next_timeout s) \<le> 6"
  using finite_handlers [of "handlers (next_timeout s)"]
  by (cases "tcpip_tcp_timer_active s") (auto simp: timers_ok_def armed_def length_handlers not_in_iff)

subsection \<open>Every check returns\<close>

lemma armed_eqs:
  "next_timeout s' = next_timeout s \<Longrightarrow> armed k s' = armed k s"
  "next_timeout s' = link_timeout m h (next_timeout s) \<Longrightarrow> armed k s' = armed k s + of_bool (h = Some k)"
  "next_timeout s = x # next_timeout s' \<Longrightarrow> armed k s = armed k s' + of_bool (t_h x = Some k)"
  by (simp_all add: armed_def)

text \<open>One expired timeout: it leaves the list, and its handler runs.\<close>

lemma run_expired:
  assumes "timers_ok s" "next_timeout s = x # xs"
  obtains k s' where "t_h x = Some k" "run_timer f k (s\<lparr>timeouts_last_time := now, next_timeout := xs\<rparr>) = Some s'"
    "timers_ok s'" "next_timeout s' = xs \<or> next_timeout s' = link_timeout (interval k) (Some k) xs"
    "(\<forall>w. pcbs_exist f w) \<longrightarrow> (\<forall>j. armed j s' = armed j s)"
proof -
  let ?s = "s\<lparr>timeouts_last_time := now, next_timeout := xs\<rparr>"
  obtain k where k: "t_h x = Some k" using assms by (cases "t_h x") (auto simp: timers_ok_def)
  have room: "length (next_timeout ?s) < MEMP_NUM_SYS_TIMEOUT"
    using timers_ok_length [OF assms(1)] assms(2) by (simp add: MEMP_NUM_SYS_TIMEOUT_def)
  have none: "None \<notin># handlers xs" using assms by (auto simp: timers_ok_def)
  from room show ?thesis
  proof (cases rule: run_timer_cases [where f = f and k = k])
    case (1 s')
    then have same: "armed j s' = armed j s" for j
      using armed_eqs(2) [of s' _ _ ?s j] armed_eqs(3) [of s x ?s j] assms(2) k by simp
    then have "timers_ok s'" using assms(1) 1 none by (simp add: timers_ok_def)
    then show ?thesis using that [OF k 1(1)] 1(2) same by simp
  next
    case (2 s')
    then have less: "armed j s = armed j s' + of_bool (j = TCP_TIMER)" for j
      using armed_eqs(1) [of s' ?s j] armed_eqs(3) [of s x ?s j] assms(2) k by simp
    have "armed TCP_TIMER s' \<le> 1"
      using assms(1) less [of TCP_TIMER] by (cases "tcpip_tcp_timer_active s") (auto simp: timers_ok_def)
    moreover have "armed j s' = 1" if "j \<noteq> TCP_TIMER" for j
      using assms(1) less [of j] that by (simp add: timers_ok_def)
    ultimately have "timers_ok s'" using 2 none by (simp add: timers_ok_def)
    then show ?thesis using that [OF k 2(1)] 2(3,5) by auto
  qed
qed

lemma check_loop_ends:
  assumes "timers_ok s"
  shows "\<exists>s'. check_loop (run_timer f) now diff s = Some s' \<and> timers_ok s'
    \<and> ((\<forall>w. pcbs_exist f w) \<longrightarrow> (\<forall>j. armed j s' = armed j s))"
  using assms
proof (induction "weight (unat diff) (next_timeout s)" arbitrary: diff s rule: less_induct)
  case less
  show ?case
  proof (cases "next_timeout s")
    case Nil
    then show ?thesis using less(2) by (subst check_loop.simps) simp
  next
    case (Cons x xs)
    show ?thesis
    proof (cases "t_time x \<le> diff")
      case True
      obtain k s1 where s1: "t_h x = Some k"
        "run_timer f k (s\<lparr>timeouts_last_time := now, next_timeout := xs\<rparr>) = Some s1" "timers_ok s1"
        "next_timeout s1 = xs \<or> next_timeout s1 = link_timeout (interval k) (Some k) xs"
        "(\<forall>w. pcbs_exist f w) \<longrightarrow> (\<forall>j. armed j s1 = armed j s)"
        by (rule run_expired [OF less(2) Cons, where f = f and now = now])
      have sub: "unat (diff - t_time x) = unat diff - unat (t_time x)" "unat (t_time x) \<le> unat diff"
        using True by (simp_all add: unat_sub word_le_nat_alt)
      have "weight (unat (diff - t_time x)) (next_timeout s1) < weight (unat diff) (next_timeout s)"
        using s1(4) interval_pos [of k] weight_Cons [OF sub(2), of xs]
        by (auto simp: sub(1) Cons weight_link)
      from less(1) [OF this s1(3)] obtain s' where s':
        "check_loop (run_timer f) now (diff - t_time x) s1 = Some s'" "timers_ok s'"
        "(\<forall>w. pcbs_exist f w) \<longrightarrow> (\<forall>j. armed j s' = armed j s1)" by blast
      have "check_loop (run_timer f) now diff s = Some s'"
        using Cons True s1(1,2) s'(1) by (subst check_loop.simps) simp
      then show ?thesis using s' s1(5) by simp
    next
      case False
      then show ?thesis using less(2) Cons by (subst check_loop.simps) simp
    qed
  qed
qed

lemma check_ends:
  assumes "timers_ok s"
  shows "\<exists>s'. sys_check_timeouts (run_timer f) now s = Some s' \<and> timers_ok s'
    \<and> ((\<forall>w. pcbs_exist f w) \<longrightarrow> (\<forall>j. armed j s' = armed j s))"
  using check_loop_ends [OF assms] assms by (simp add: sys_check_timeouts_def)

lemma needed_ends:
  assumes "timers_ok s"
  shows "\<exists>s'. tcp_timer_needed f s = Some s' \<and> timers_ok s'
    \<and> (pcbs_exist f (tm_world s) \<longrightarrow> 1 \<le> armed TCP_TIMER s')"
proof (cases "\<not> tcpip_tcp_timer_active s \<and> pcbs_exist f (tm_world s)")
  case True
  let ?s = "s\<lparr>tcpip_tcp_timer_active := True\<rparr>"
  define s' where "s' = ?s\<lparr>next_timeout := link_timeout TCP_TMR_INTERVAL (Some TCP_TIMER) (next_timeout s)\<rparr>"
  have "tcp_timer_needed f s = Some s'"
    using timers_ok_length [OF assms] True
    by (simp add: tcp_timer_needed_def sys_timeout_def MEMP_NUM_SYS_TIMEOUT_def s'_def)
  moreover have "armed k s' = armed k s + of_bool (k = TCP_TIMER)" for k
    using armed_eqs(2) [of s' TCP_TMR_INTERVAL "Some TCP_TIMER" s k] by (simp add: s'_def)
  ultimately show ?thesis using assms True by (auto simp: timers_ok_def s'_def)
next
  case False
  then show ?thesis using assms by (auto simp: tcp_timer_needed_def timers_ok_def)
qed

lemma init_ends:
  assumes "next_timeout s = []"
  shows "\<exists>s'. sys_timeouts_init now s = Some s'
    \<and> handlers (next_timeout s') = {#Some TCP_TIMER, Some DHCP_TIMER_FINE, Some DHCP_TIMER_COARSE, Some ARP_TIMER, Some IP_REASS_TIMER#}
    \<and> tcpip_tcp_timer_active s' = tcpip_tcp_timer_active s"
  using assms by (simp add: sys_timeouts_init_def sys_timeout_def length_handlers MEMP_NUM_SYS_TIMEOUT_def)

subsection \<open>The life of the timers\<close>

text \<open>
  The events: the main loop checks the timeouts, a connection is registered (\<open>tcp_timer_needed\<close>
  from \<open>TCP_REG\<close>), the protocols change, the time stamp is set back.
\<close>

inductive timers_step :: "'w tmrs \<Rightarrow> 'w lwip_timers \<Rightarrow> 'w lwip_timers \<Rightarrow> bool" for f where
  check: "sys_check_timeouts (run_timer f) now s = Some s' \<Longrightarrow> timers_step f s s'"
| needed: "tcp_timer_needed f s = Some s' \<Longrightarrow> timers_step f s s'"
| world: "timers_step f s (s\<lparr>tm_world := w\<rparr>)"
| restart: "timers_step f s (sys_restart_timeouts now s)"

inductive timers_reach :: "'w tmrs \<Rightarrow> 'w lwip_timers \<Rightarrow> bool" for f where
  init: "next_timeout s0 = [] \<Longrightarrow> \<not> tcpip_tcp_timer_active s0 \<Longrightarrow> sys_timeouts_init now s0 = Some s
    \<Longrightarrow> timers_reach f s"
| step: "timers_reach f s \<Longrightarrow> timers_step f s s' \<Longrightarrow> timers_reach f s'"

inductive_cases timers_stepE: "timers_step f s s'"

lemma timers_step_ok: "timers_step f s s' \<Longrightarrow> timers_ok s \<Longrightarrow> timers_ok s'"
proof (erule timers_stepE)
  fix now assume "sys_check_timeouts (run_timer f) now s = Some s'" "timers_ok s"
  then show "timers_ok s'" using check_ends [of s f now] by auto
next
  assume "tcp_timer_needed f s = Some s'" "timers_ok s"
  then show "timers_ok s'" using needed_ends [of s f] by auto
qed (auto simp: timers_ok_def armed_def sys_restart_timeouts_def)

lemma timers_reach_ok: "timers_reach f s \<Longrightarrow> timers_ok s"
proof (induction rule: timers_reach.induct)
  case (init s0 now s)
  then show ?case using init_ends [of s0 now] by (auto simp: timers_ok_def armed_def)
       (metis timer.exhaust)
next
  case (step s s')
  then show ?case using timers_step_ok by blast
qed

subsection \<open>Properties\<close>

text \<open>
  C25. The list of time differences implements the queue of absolute times: \<open>sys_timeout\<close> inserts
  behind everything that is due no later, and \<open>sys_untimeout\<close> takes out the first timeout of a
  handler and leaves the time of every other, as long as the times add up to less than \<open>2 ^ 32\<close>,
  which every call keeps.
\<close>

theorem timeout_list_is_queue:
  assumes "span (next_timeout s) < 2 ^ 32" "length (next_timeout s) < MEMP_NUM_SYS_TIMEOUT"
  shows "\<exists>s'. sys_timeout msecs h s = Some s'
    \<and> due 0 (next_timeout s') = insert_due (unat msecs, h) (due 0 (next_timeout s))
    \<and> due 0 (next_timeout (sys_untimeout k s')) = remove_due k (due 0 (next_timeout s'))
    \<and> (h \<notin> snd ` set (due 0 (next_timeout s)) \<longrightarrow>
         due 0 (next_timeout (sys_untimeout h s')) = due 0 (next_timeout s))
    \<and> span (next_timeout s') < 2 ^ 32 \<and> sorted (map fst (due 0 (next_timeout s')))"
proof -
  have m: "unat msecs < 2 ^ 32" using unsigned_less [of msecs] by simp
  have link: "link_timeout msecs h (next_timeout s) = add_timeout (unat msecs) h (next_timeout s)"
    by (simp add: add_timeout_def)
  note q = lwip_queue.view_add [OF m, of h "next_timeout s"] lwip_queue.del_add [OF assms(1) m, of h]
    lwip_queue.view_del [OF lwip_queue.ok_add [OF assms(1) m], of k h] lwip_queue.ok_add [OF assms(1) m, of h]
  show ?thesis
    using q due_sorted [of 0 "add_timeout (unat msecs) h (next_timeout s)"] assms(2)
    by (simp add: sys_timeout_def sys_untimeout_def link)
qed

definition idle_timers :: "unit lwip_timers" where
  "idle_timers = \<lparr>next_timeout = [], timeouts_last_time = 0, tcpip_tcp_timer_active = False, tcp_timer_cnt = 0, tm_world = ()\<rparr>"

theorem timeout_list_is_queue_witness:
  "\<exists>s'. sys_timeout 250 (Some TCP_TIMER)
        (idle_timers\<lparr>next_timeout := [\<lparr>t_time = 100, t_h = Some ARP_TIMER\<rparr>, \<lparr>t_time = 200, t_h = Some IP_REASS_TIMER\<rparr>]\<rparr>) = Some s'
     \<and> due 0 (next_timeout s') = [(100, Some ARP_TIMER), (250, Some TCP_TIMER), (300, Some IP_REASS_TIMER)]"
  using timeout_list_is_queue
    [of "idle_timers\<lparr>next_timeout := [\<lparr>t_time = 100, t_h = Some ARP_TIMER\<rparr>, \<lparr>t_time = 200, t_h = Some IP_REASS_TIMER\<rparr>]\<rparr>"
      250 "Some TCP_TIMER" "Some TCP_TIMER"]
  by (force simp: idle_timers_def span_def MEMP_NUM_SYS_TIMEOUT_def)

text \<open>
  C26. The timers of the program never stop: in every reachable state \<open>sys_check_timeouts\<close> returns,
  however much time has passed, and so does \<open>tcp_timer_needed\<close>, after which the TCP timer is
  pending when there is a connection; the pool of ten timeouts is never exhausted, and each of the
  timers of ARP, reassembly and DHCP is pending exactly once.
\<close>

theorem timers_never_stop:
  assumes "timers_reach f s"
  shows "(\<exists>s'. sys_check_timeouts (run_timer f) now s = Some s')
    \<and> (\<exists>s'. tcp_timer_needed f s = Some s' \<and> (pcbs_exist f (tm_world s) \<longrightarrow> 1 \<le> armed TCP_TIMER s'))
    \<and> length (next_timeout s) \<le> 6 \<and> (\<forall>k. k \<noteq> TCP_TIMER \<longrightarrow> armed k s = 1)"
proof -
  have ok: "timers_ok s" using timers_reach_ok [OF assms] .
  show ?thesis
    using check_ends [OF ok, of f now] needed_ends [OF ok, of f] timers_ok_length [OF ok] ok
    unfolding timers_ok_def by blast
qed

definition idle_tmrs :: "bool \<Rightarrow> unit tmrs" where
  "idle_tmrs pcbs = \<lparr>tcp_fasttmr = id, tcp_slowtmr = id, ip_reass_tmr = id, etharp_tmr = id, dhcp_coarse_tmr = id,
     dhcp_fine_tmr = id, pcbs_exist = (\<lambda>_. pcbs)\<rparr>"

theorem timers_never_stop_witness:
  "\<exists>s. sys_timeouts_init 0 idle_timers = Some s
     \<and> (\<exists>s'. sys_check_timeouts (run_timer (idle_tmrs False)) 5000 s = Some s') \<and> armed ARP_TIMER s = 1"
proof -
  have idle: "next_timeout idle_timers = []" "\<not> tcpip_tcp_timer_active idle_timers"
    by (simp_all add: idle_timers_def)
  obtain s where s: "sys_timeouts_init 0 idle_timers = Some s" using init_ends [OF idle(1)] by blast
  have "timers_reach (idle_tmrs False) s" using idle s by (rule timers_reach.init)
  from timers_never_stop [OF this, of 5000] show ?thesis using s by simp
qed

text \<open>
  A connection that is registered before the first run of the TCP timer starts a second one:
  \<open>sys_timeouts_init\<close> sets the timeout without marking it active. Both stay, whenever the
  timeouts are checked, as long as there are connections, so that TCP's time runs twice as fast.
\<close>

theorem tcp_timer_doubled:
  assumes "next_timeout s0 = []" "\<not> tcpip_tcp_timer_active s0" "\<forall>w. pcbs_exist f w"
  shows "\<exists>s1 s2 s3. sys_timeouts_init now s0 = Some s1 \<and> tcp_timer_needed f s1 = Some s2
    \<and> armed TCP_TIMER s2 = 2 \<and> sys_check_timeouts (run_timer f) later s2 = Some s3 \<and> armed TCP_TIMER s3 = 2"
proof -
  obtain s1 where s1: "sys_timeouts_init now s0 = Some s1" "armed TCP_TIMER s1 = 1"
    "\<not> tcpip_tcp_timer_active s1"
    using init_ends [OF assms(1), of now] assms(2) by (auto simp: armed_def)
  have r1: "timers_reach f s1" using assms(1,2) s1(1) by (rule timers_reach.init)
  then have room: "length (next_timeout s1) \<le> 6" using timers_reach_ok timers_ok_length by blast
  obtain s2 where s2: "tcp_timer_needed f s1 = Some s2"
    "next_timeout s2 = link_timeout TCP_TMR_INTERVAL (Some TCP_TIMER) (next_timeout s1)"
    using s1(3) assms(3) room by (simp add: tcp_timer_needed_def sys_timeout_def MEMP_NUM_SYS_TIMEOUT_def)
  then have two: "armed TCP_TIMER s2 = 2" using s1(2) armed_eqs(2) [OF s2(2), of TCP_TIMER] by simp
  have "timers_ok s2" using timers_step_ok [OF timers_step.needed [OF s2(1)] timers_reach_ok [OF r1]] .
  then obtain s3 where "sys_check_timeouts (run_timer f) later s2 = Some s3" "armed TCP_TIMER s3 = armed TCP_TIMER s2"
    using check_ends [of s2 f later] assms(3) by blast
  then show ?thesis using s1(1) s2(1) two by auto
qed

theorem tcp_timer_doubled_witness:
  "\<exists>s1 s2. sys_timeouts_init 0 idle_timers = Some s1 \<and> tcp_timer_needed (idle_tmrs True) s1 = Some s2
     \<and> armed TCP_TIMER s2 = 2"
  using tcp_timer_doubled [of idle_timers "idle_tmrs True" 0 0] by (auto simp: idle_timers_def idle_tmrs_def)

end
