(* ===== verification/Chksum.thy ===== *)
theory Chksum
  imports Prelude
begin

text \<open>
  The Internet checksum (\<^verbatim>\<open>lwip/src/core/ipv4/inet_chksum.c\<close>, algorithm 2 on the little-endian
  processor of the board): the sum over memory at even or odd addresses, over a chain of pbufs, and
  with the pseudo header of TCP. The theory proves that all of them compute the one's complement
  sum of RFC 1071, wherever the data lies and however it is cut into pbufs, that a receiver accepts
  what a sender computed, and that it notices every wrong byte.
\<close>

unbundle bit_operations_syntax

subsection \<open>The code\<close>

definition FOLD_U32T :: "u32 \<Rightarrow> u32" where
  "FOLD_U32T u = drop_bit 16 u + (u AND 0xffff)"

definition SWAP_BYTES_IN_WORD :: "u32 \<Rightarrow> u32" where
  "SWAP_BYTES_IN_WORD w = push_bit 8 (w AND 0xff) OR drop_bit 8 (w AND 0xff00)"

definition lwip_htons :: "u16 \<Rightarrow> u16" where
  "lwip_htons n = push_bit 8 (n AND 0xff) OR drop_bit 8 (n AND 0xff00)"

text \<open>
  The loop over the aligned 16-bit words: \<open>*ps\<close> is a little-endian word. It returns the sum and the
  byte left over, if any.
\<close>

definition octet :: "char \<Rightarrow> nat" where
  "octet c = of_char c"

definition u16_at :: "char \<Rightarrow> char \<Rightarrow> u16" where
  "u16_at a b = of_nat (octet a) + 256 * of_nat (octet b)"

fun sum_words :: "bytes \<Rightarrow> u32 \<Rightarrow> u32 \<times> bytes" where
  "sum_words (a # b # r) s = sum_words r (s + ucast (u16_at a b))"
| "sum_words r s = (s, r)"

text \<open>\<open>odd_adr\<close> says that \<open>dataptr\<close> is an odd address.\<close>

definition lwip_standard_chksum :: "bool \<Rightarrow> bytes \<Rightarrow> u16" where
  "lwip_standard_chksum odd_adr pb =
     (let (t1, pb) = (if odd_adr \<and> pb \<noteq> [] then (hd pb, tl pb) else (CHR 0x00, pb));
          (s, left) = sum_words pb 0;
          t0 = (case left of [] \<Rightarrow> CHR 0x00 | c # _ \<Rightarrow> c);
          s = s + ucast (u16_at t0 t1);
          s = FOLD_U32T s;
          s = FOLD_U32T s;
          s = (if odd_adr then SWAP_BYTES_IN_WORD s else s)
      in ucast s)"

text \<open>A chain of pbufs: for each whether its payload starts at an odd address, and its bytes.\<close>

type_synonym chain = "(bool \<times> bytes) list"

fun chain_loop :: "chain \<Rightarrow> u32 \<Rightarrow> bool \<Rightarrow> u32 \<times> bool" where
  "chain_loop [] acc swapped = (acc, swapped)"
| "chain_loop ((odd_adr, payload) # q) acc swapped =
     (let acc = acc + ucast (lwip_standard_chksum odd_adr payload);
          acc = FOLD_U32T acc
      in if length payload mod 2 \<noteq> 0 then chain_loop q (SWAP_BYTES_IN_WORD acc) (\<not> swapped)
         else chain_loop q acc swapped)"

definition chain_sum :: "chain \<Rightarrow> u32" where
  "chain_sum p = (case chain_loop p 0 False of (acc, swapped) \<Rightarrow> if swapped then SWAP_BYTES_IN_WORD acc else acc)"

definition inet_chksum_pbuf :: "chain \<Rightarrow> u16" where
  "inet_chksum_pbuf p = ucast (NOT (chain_sum p AND 0xffff))"

definition inet_chksum_pseudo :: "chain \<Rightarrow> u32 \<Rightarrow> u32 \<Rightarrow> u8 \<Rightarrow> u16 \<Rightarrow> u16" where
  "inet_chksum_pseudo p src dest proto proto_len =
     (let acc = chain_sum p;
          acc = acc + (src AND 0xffff);
          acc = acc + (drop_bit 16 src AND 0xffff);
          acc = acc + (dest AND 0xffff);
          acc = acc + (drop_bit 16 dest AND 0xffff);
          acc = acc + ucast (lwip_htons (ucast proto));
          acc = acc + ucast (lwip_htons proto_len);
          acc = FOLD_U32T acc;
          acc = FOLD_U32T acc
      in ucast (NOT (acc AND 0xffff)))"

definition inet_chksum :: "bool \<Rightarrow> bytes \<Rightarrow> u16" where
  "inet_chksum odd_adr dataptr = NOT (lwip_standard_chksum odd_adr dataptr)"

subsection \<open>The reference\<close>

text \<open>
  RFC 1071: the 16-bit words, the last one padded with a zero byte, added in one's complement, each
  carry added back at the low end; the checksum is the complement of the sum.
\<close>

definition oc_add :: "u16 \<Rightarrow> u16 \<Rightarrow> u16" where
  "oc_add a b = (if a + b < a then a + b + 1 else a + b)"

fun rfc_sum :: "bytes \<Rightarrow> u16" where
  "rfc_sum [] = 0"
| "rfc_sum [a] = u16_at a (CHR 0x00)"
| "rfc_sum (a # b # r) = oc_add (u16_at a b) (rfc_sum r)"

definition rfc_checksum :: "bytes \<Rightarrow> u16" where
  "rfc_checksum bs = NOT (rfc_sum bs)"

text \<open>The pseudo header of TCP and UDP: addresses as they lie in memory, zero, protocol, length.\<close>

definition bytes_of_u32 :: "u32 \<Rightarrow> bytes" where
  "bytes_of_u32 w = map (\<lambda>i. char_of (unat (drop_bit (8 * i) w AND 0xff))) [0, 1, 2, 3]"

definition pseudo_header :: "u32 \<Rightarrow> u32 \<Rightarrow> u8 \<Rightarrow> u16 \<Rightarrow> bytes" where
  "pseudo_header src dest proto len =
     bytes_of_u32 src @ bytes_of_u32 dest
     @ [CHR 0x00, char_of (unat proto), char_of (unat (drop_bit 8 len)), char_of (unat (len AND 0xff))]"

subsection \<open>Sums modulo 65535\<close>

text \<open>
  \<open>norm\<close> is what folding makes of a sum: its residue modulo 65535, with 65535 for a positive
  multiple. \<open>wsum\<close> is the sum of the little-endian words without any folding.
\<close>

definition norm :: "nat \<Rightarrow> nat" where
  "norm n = (if n = 0 then 0 else Suc ((n - 1) mod 65535))"

fun wsum :: "bytes \<Rightarrow> nat" where
  "wsum [] = 0"
| "wsum [a] = octet a"
| "wsum (a # b # r) = octet a + 256 * octet b + wsum r"

lemma norm_le: "norm n \<le> 65535"
proof -
  have "(n - 1) mod 65535 < 65535" by (rule mod_less_divisor) simp
  then show ?thesis unfolding norm_def by (metis Suc_leI le0)
qed

lemma norm_0 [simp]: "norm n = 0 \<longleftrightarrow> n = 0" "norm 0 = 0"
  by (simp_all add: norm_def)

lemma norm_mod: "norm n mod 65535 = n mod 65535"
proof (cases n)
  case (Suc m)
  then show ?thesis by (simp add: norm_def mod_Suc)
qed simp

lemma norm_eqI:
  assumes "m mod 65535 = n mod 65535" "m = 0 \<longleftrightarrow> n = 0"
  shows "norm m = norm n"
proof (cases "m = 0")
  case False
  then obtain a b where ab: "m = Suc a" "n = Suc b" using assms(2) by (metis not0_implies_Suc)
  have "Suc (a mod 65535) mod 65535 = Suc (b mod 65535) mod 65535" using assms(1) ab by (simp add: mod_Suc_eq)
  moreover have "a mod 65535 < 65535" "b mod 65535 < 65535" by simp_all
  ultimately have "a mod 65535 = b mod 65535" by (auto simp: mod_Suc split: if_splits)
  then show ?thesis by (simp add: norm_def ab)
qed (use assms in simp)

lemma norm_id: "n \<le> 65535 \<Longrightarrow> norm n = n"
  by (simp add: norm_def)

lemma norm_unique:
  assumes "k \<le> 65535" "k mod 65535 = n mod 65535" "k = 0 \<longleftrightarrow> n = 0"
  shows "k = norm n"
  using norm_eqI [OF assms(2,3)] norm_id [OF assms(1)] by simp

lemma norm_norm_add: "norm (norm a + b) = norm (a + b)"
proof (rule norm_eqI)
  show "(norm a + b) mod 65535 = (a + b) mod 65535" by (rule mod_add_cong [OF norm_mod refl])
qed simp

lemma norm_add_norm: "norm (a + norm b) = norm (a + b)"
  using norm_norm_add [of b a] by (simp add: add.commute)

lemma octet_less [simp]: "octet c < 256"
  using of_char_mod_256 [where 'a = nat, of c] by (simp add: octet_def)

lemma unat_u16_at: "unat (u16_at a b) = octet a + 256 * octet b"
proof -
  have *: "unat (of_nat (octet c) :: u16) = octet c" for c
    by (rule unat_of_nat_u16) (rule order_less_trans [OF octet_less], simp)
  have "unat (256 * of_nat (octet b) :: u16) = 256 * octet b"
    using * [of b] octet_less [of b] by (simp add: unat_word_ariths)
  moreover have "octet a + 256 * octet b < 65536" using octet_less [of a] octet_less [of b] by linarith
  ultimately show ?thesis using * [of a] unat_add_u16 [of "of_nat (octet a)" "256 * of_nat (octet b)"]
    by (simp add: u16_at_def)
qed

lemma unat_u16_at_ucast: "unat (ucast (u16_at a b) :: u32) = octet a + 256 * octet b"
  by (simp add: unat_ucast_u16 unat_u16_at)

subsection \<open>The machine operations as arithmetic\<close>

lemma unat_low16: "unat (w AND 0xffff :: u32) = unat w mod 65536"
proof -
  have "w AND 0xffff = take_bit 16 w" by (simp add: take_bit_eq_mask mask_eq_exp_minus_1)
  then show ?thesis by (simp add: take_bit_eq_mod unat_mod)
qed

lemma unat_FOLD: "unat (FOLD_U32T u) = unat u div 65536 + unat u mod 65536"
proof -
  have hi: "unat (drop_bit 16 u) = unat u div 65536" by (simp add: drop_bit_eq_div unat_div)
  have "unat u < 2 ^ 32" using unsigned_less [of u] by simp
  then have "unat u div 65536 < 65536" by (simp add: less_mult_imp_div_less)
  then have "unat u div 65536 + unat u mod 65536 < 2 ^ 32" by simp
  then show ?thesis by (simp add: FOLD_U32T_def unat_word_ariths hi unat_low16)
qed

lemma fold_mod: "(n div 65536 + n mod 65536) mod 65535 = n mod (65535 :: nat)"
proof -
  have "n = 65535 * (n div 65536) + (n div 65536 + n mod 65536)"
    using div_mult_mod_eq [of n 65536] by simp
  then show ?thesis by (metis mod_mult_self4)
qed

lemma fold_once:
  assumes "unat u \<le> 131070"
  shows "unat (FOLD_U32T u) = norm (unat u)"
proof (rule norm_unique)
  have "unat u div 65536 \<le> 1" using div_le_mono [OF assms, of 65536] by simp
  moreover have "unat u = 65536 * (unat u div 65536) + unat u mod 65536" by simp
  moreover have "unat u mod 65536 < 65536" by simp
  ultimately show "unat (FOLD_U32T u) \<le> 65535" using assms unfolding unat_FOLD by linarith
  show "unat (FOLD_U32T u) mod 65535 = unat u mod 65535" unfolding unat_FOLD by (rule fold_mod)
  show "unat (FOLD_U32T u) = 0 \<longleftrightarrow> unat u = 0"
    unfolding unat_FOLD by (metis add_is_0 div_0 mod_0 mult_0 div_mult_mod_eq)
qed

lemma fold_twice: "unat (FOLD_U32T (FOLD_U32T u)) = norm (unat u)"
proof -
  have "unat u < 2 ^ 32" using unsigned_less [of u] by simp
  then have "unat u div 65536 < 65536" by (simp add: less_mult_imp_div_less)
  moreover have "unat u mod 65536 < 65536" by simp
  ultimately have "unat (FOLD_U32T u) \<le> 131070" unfolding unat_FOLD by linarith
  then have "unat (FOLD_U32T (FOLD_U32T u)) = norm (unat (FOLD_U32T u))" by (rule fold_once)
  also have "\<dots> = norm (unat u)"
    by (rule norm_eqI, unfold unat_FOLD, rule fold_mod) (metis add_is_0 div_0 mod_0 mult_0 div_mult_mod_eq)
  finally show ?thesis .
qed

lemma swap_sum: "SWAP_BYTES_IN_WORD w = push_bit 8 (take_bit 8 w) + take_bit 8 (drop_bit 8 w)"
proof -
  have "w AND 0xff = take_bit 8 w" by (simp add: take_bit_eq_mask mask_eq_exp_minus_1)
  moreover have "drop_bit 8 (w AND 0xff00) = take_bit 8 (drop_bit 8 w)"
  proof -
    have "drop_bit 8 (w AND 0xff00) = drop_bit 8 w AND drop_bit 8 0xff00" by (rule drop_bit_and)
    also have "drop_bit 8 0xff00 = (mask 8 :: u32)" by (simp add: mask_eq_exp_minus_1)
    finally show ?thesis by (simp add: take_bit_eq_mask)
  qed
  moreover have "push_bit 8 (take_bit 8 w) OR take_bit 8 (drop_bit 8 w)
    = push_bit 8 (take_bit 8 w) + take_bit 8 (drop_bit 8 w)"
    by (rule disjunctive_add_eq_or [symmetric]) (auto simp: bit_eq_iff bit_simps)
  ultimately show ?thesis by (simp add: SWAP_BYTES_IN_WORD_def)
qed

lemma unat_SWAP:
  assumes "unat w < 65536"
  shows "unat (SWAP_BYTES_IN_WORD w) = 256 * (unat w mod 256) + unat w div 256"
proof -
  have lo: "unat (push_bit 8 (take_bit 8 w)) = 256 * (unat w mod 256)"
    using mod_less_divisor [of 256 "unat w"]
    by (simp add: take_bit_eq_mod push_bit_eq_mult unat_word_ariths unat_mod)
  have "unat w div 256 < 256" using assms by (simp add: less_mult_imp_div_less)
  then have hi: "unat (take_bit 8 (drop_bit 8 w)) = unat w div 256"
    by (simp add: take_bit_eq_mod drop_bit_eq_div unat_div unat_mod)
  have "256 * (unat w mod 256) + unat w div 256 < 2 ^ 32" using \<open>unat w div 256 < 256\<close> by simp
  then show ?thesis by (simp add: swap_sum unat_word_ariths lo hi)
qed

lemma swap_norm:
  assumes "unat w = norm n"
  shows "unat (SWAP_BYTES_IN_WORD w) = norm (256 * n)"
proof (rule norm_unique)
  have less: "unat w < 65536" using norm_le [of n] assms by simp
  note sw = unat_SWAP [OF less]
  have "unat w div 256 < 256" using less by (simp add: less_mult_imp_div_less)
  moreover have "unat w mod 256 < 256" by simp
  ultimately show "unat (SWAP_BYTES_IN_WORD w) \<le> 65535" unfolding sw by linarith
  have "256 * unat w = 65535 * (unat w div 256) + unat (SWAP_BYTES_IN_WORD w)"
    unfolding sw using div_mult_mod_eq [of "unat w" 256] by linarith
  then have "unat (SWAP_BYTES_IN_WORD w) mod 65535 = (256 * unat w) mod 65535" by (metis mod_mult_self4)
  also have "\<dots> = (256 * n) mod 65535" using assms norm_mod [of n] by (metis mod_mult_right_eq)
  finally show "unat (SWAP_BYTES_IN_WORD w) mod 65535 = (256 * n) mod 65535" .
  show "unat (SWAP_BYTES_IN_WORD w) = 0 \<longleftrightarrow> 256 * n = 0"
    unfolding sw using assms div_mult_mod_eq [of "unat w" 256] by auto
qed

lemma unat_htons: "unat (lwip_htons n) = 256 * (unat n mod 256) + unat n div 256"
proof -
  have lo: "unat (n AND 0xff) = unat n mod 256"
  proof -
    have "n AND 0xff = take_bit 8 n" by (simp add: take_bit_eq_mask mask_eq_exp_minus_1)
    then show ?thesis by (simp add: take_bit_eq_mod unat_mod)
  qed
  have hi: "drop_bit 8 (n AND 0xff00) = drop_bit 8 n"
  proof -
    have "drop_bit 8 (n AND 0xff00) = drop_bit 8 n AND drop_bit 8 0xff00" by (rule drop_bit_and)
    also have "drop_bit 8 0xff00 = (mask 8 :: u16)" by (simp add: mask_eq_exp_minus_1)
    also have "drop_bit 8 n AND mask 8 = drop_bit 8 n"
      by (rule bit_word_eqI) (auto simp: bit_simps dest: bit_imp_le_length)
    finally show ?thesis .
  qed
  have "lwip_htons n = push_bit 8 (n AND 0xff) + drop_bit 8 n"
    unfolding lwip_htons_def hi
    by (rule disjunctive_add_eq_or [symmetric]) (auto simp: bit_eq_iff bit_simps dest: bit_imp_le_length)
  moreover have "unat (push_bit 8 (n AND 0xff)) = 256 * (unat n mod 256)"
    using lo mod_less_divisor [of 256 "unat n"] by (simp add: push_bit_eq_mult unat_word_ariths)
  moreover have "unat (drop_bit 8 n) = unat n div 256" by (simp add: drop_bit_eq_div unat_div)
  moreover have "unat n div 256 < 256" using unat_u16_less [of n] by (simp add: less_mult_imp_div_less)
  ultimately show ?thesis using mod_less_divisor [of 256 "unat n"]
    by (simp add: unat_word_ariths)
qed

subsection \<open>Sums of bytes\<close>

lemma wsum_le: "wsum bs \<le> 65535 * length bs"
proof (induction bs rule: wsum.induct)
  case (2 a)
  have "octet a \<le> 65535" using octet_less [of a] by linarith
  then show ?case by simp
next
  case (3 a b r)
  have "octet a \<le> 255" "octet b \<le> 255" using octet_less [of a] octet_less [of b] by linarith+
  then show ?case using 3 by simp
qed simp

lemma wsum_0: "wsum bs = 0 \<longleftrightarrow> (\<forall>c\<in>set bs. octet c = 0)"
  by (induction bs rule: wsum.induct) auto

lemma mod_65535_step: "x mod 65535 = y mod 65535 \<Longrightarrow> (a + 256 * x) mod 65535 = (a + 256 * y) mod (65535 :: nat)"
  by (intro mod_add_cong mod_mult_cong refl)

lemma mod_65536: "(a + 65536 * x) mod 65535 = (a + x) mod (65535 :: nat)"
proof -
  have "a + 65536 * x = (a + x) + 65535 * x" by simp
  then show ?thesis by (metis mod_mult_self2)
qed

text \<open>A byte put in front moves every other byte to the other half of its word.\<close>

lemma wsum_Cons: "wsum (b # bs) mod 65535 = (octet b + 256 * wsum bs) mod 65535"
proof (induction bs arbitrary: b)
  case (Cons c r)
  have "(octet b + 256 * wsum (c # r)) mod 65535 = (octet b + 256 * (octet c + 256 * wsum r)) mod 65535"
    by (rule mod_65535_step) (rule Cons)
  also have "octet b + 256 * (octet c + 256 * wsum r) = (octet b + 256 * octet c) + 65536 * wsum r" by simp
  also have "\<dots> mod 65535 = (octet b + 256 * octet c + wsum r) mod 65535" by (rule mod_65536)
  finally show ?case by simp
qed simp

definition shift :: "bool \<Rightarrow> nat" where
  "shift swapped = (if swapped then 256 else 1)"

lemma shift_simps [simp]: "shift True = 256" "shift False = 1" "0 < shift s"
  by (simp_all add: shift_def)

lemma wsum_append: "wsum (bs @ cs) mod 65535 = (wsum bs + shift (odd (length bs)) * wsum cs) mod 65535"
proof (induction bs)
  case (Cons b bs)
  have "wsum (b # bs @ cs) mod 65535 = (octet b + 256 * (wsum bs + shift (odd (length bs)) * wsum cs)) mod 65535"
    unfolding wsum_Cons by (rule mod_65535_step) (rule Cons)
  also have "\<dots> = ((octet b + 256 * wsum bs) + 256 * (shift (odd (length bs)) * wsum cs)) mod 65535"
    by (simp add: algebra_simps)
  also have "\<dots> = (wsum (b # bs) + 256 * (shift (odd (length bs)) * wsum cs)) mod 65535"
    by (rule mod_add_cong [OF _ refl]) (rule wsum_Cons [symmetric])
  also have "\<dots> = (wsum (b # bs) + shift (odd (length (b # bs))) * wsum cs) mod 65535"
  proof (cases "odd (length bs)")
    case True
    then show ?thesis using mod_65536 [of "wsum (b # bs)" "wsum cs"] by (simp del: wsum.simps)
  qed simp
  finally show ?case by simp
qed simp

lemma wsum_append_0: "wsum (bs @ cs) = 0 \<longleftrightarrow> wsum bs = 0 \<and> wsum cs = 0"
  by (auto simp: wsum_0)

lemma norm_append_even: "even (length bs) \<Longrightarrow> norm (wsum (bs @ cs)) = norm (wsum bs + wsum cs)"
  by (rule norm_eqI) (simp_all add: wsum_append wsum_append_0)

subsection \<open>The sum over a piece of memory\<close>

lemma sum_words_wsum:
  assumes "sum_words bs s = (s', left)" "unat s + wsum bs < 2 ^ 32"
  shows "unat s' + wsum left = unat s + wsum bs \<and> length left \<le> 1"
  using assms
proof (induction bs s rule: sum_words.induct)
  case (1 a b r s)
  have add: "unat (s + ucast (u16_at a b)) = unat s + (octet a + 256 * octet b)"
    using 1(3) by (simp add: unat_word_ariths unat_u16_at_ucast)
  show ?case using 1(1) [of] 1(2,3) by (simp add: add)
qed auto

lemma unat_ucast_16: "unat w < 65536 \<Longrightarrow> unat (ucast (w :: u32) :: u16) = unat w"
  by (simp add: unsigned_ucast_eq take_bit_nat_eq_self)

lemma norm_swap_odd:
  assumes "b # r = bs"
  shows "norm (256 * (256 * octet b + wsum r)) = norm (wsum bs)"
proof (rule norm_eqI)
  have "256 * (256 * octet b + wsum r) = (octet b + 256 * wsum r) + 65535 * octet b" by simp
  then show "256 * (256 * octet b + wsum r) mod 65535 = wsum bs mod 65535"
    using wsum_Cons [of b r] assms by (metis mod_mult_self2)
  show "256 * (256 * octet b + wsum r) = 0 \<longleftrightarrow> wsum bs = 0"
    using assms by (auto simp: wsum_0)
qed

lemma unat_standard_chksum:
  assumes "length bs < 65536"
  shows "unat (lwip_standard_chksum odd_adr bs) = norm (wsum bs)"
proof -
  define t1 where "t1 = (if odd_adr \<and> bs \<noteq> [] then hd bs else CHR 0x00)"
  define pb where "pb = (if odd_adr \<and> bs \<noteq> [] then tl bs else bs)"
  obtain s left where s: "sum_words pb 0 = (s, left)" by (cases "sum_words pb 0")
  define t0 where "t0 = (case left of [] \<Rightarrow> CHR 0x00 | c # _ \<Rightarrow> c)"
  have o0: "octet (CHR 0x00) = 0" by (simp add: octet_def)
  have len: "length pb < 65536" using assms by (auto simp: pb_def)
  then have small: "wsum pb < 65535 * 65536" using wsum_le [of pb] by (intro le_less_trans [OF wsum_le]) simp
  then have sw: "unat s + wsum left = wsum pb" "length left \<le> 1" using sum_words_wsum [OF s] by simp_all
  have "wsum left = octet t0" using sw(2) o0 by (cases left) (auto simp: t0_def)
  moreover have "wsum pb + 256 * octet t1 < 2 ^ 32" proof -
    have "(2 :: nat) ^ 32 = 65535 * 65536 + 65536" by simp
    then show ?thesis using small octet_less [of t1] by linarith
  qed
  ultimately have total: "unat (s + ucast (u16_at t0 t1)) = wsum pb + 256 * octet t1"
    using sw(1) by (simp add: unat_word_ariths unat_u16_at_ucast)
  define f where "f = FOLD_U32T (FOLD_U32T (s + ucast (u16_at t0 t1)))"
  have f: "unat f = norm (wsum pb + 256 * octet t1)" unfolding f_def fold_twice total ..
  have result: "lwip_standard_chksum odd_adr bs = ucast (if odd_adr then SWAP_BYTES_IN_WORD f else f)"
    using s by (auto simp: lwip_standard_chksum_def Let_def t0_def t1_def pb_def f_def)
  show ?thesis
  proof (cases odd_adr)
    case True
    have "unat (SWAP_BYTES_IN_WORD f) = norm (256 * (wsum pb + 256 * octet t1))" by (rule swap_norm [OF f])
    also have "\<dots> = norm (wsum bs)"
    proof (cases bs)
      case Nil
      then show ?thesis by (simp add: pb_def t1_def o0)
    next
      case (Cons b r)
      then show ?thesis using norm_swap_odd [of b r bs] True by (simp add: pb_def t1_def add.commute)
    qed
    finally show ?thesis using result True norm_le [of "wsum bs"] by (simp add: unat_ucast_16)
  next
    case False
    then show ?thesis using result f norm_le [of "wsum bs"] by (simp add: unat_ucast_16 pb_def t1_def o0)
  qed
qed

subsection \<open>The reference, and chains\<close>

lemma unat_oc_add: "unat (oc_add a b) = norm (unat a + unat b)"
proof (cases "unat a + unat b < 65536")
  case True
  then have "unat (a + b) = unat a + unat b" by (rule unat_add_u16)
  then show ?thesis using True by (simp add: oc_add_def word_less_nat_alt norm_id)
next
  case False
  let ?x = "unat a + unat b"
  have x: "65536 \<le> ?x" "?x < 131071" using False unat_u16_less [of a] unat_u16_less [of b] by linarith+
  have "unat (a + b) = ?x mod 65536" by (simp add: unat_word_ariths)
  also have "\<dots> = (?x - 65536) mod 65536" using x by (intro le_mod_geq)
  also have "\<dots> = ?x - 65536" using x by (intro mod_less) linarith
  finally have ab: "unat (a + b) = ?x - 65536" .
  then have "unat (a + b) < unat a" using x unat_u16_less [of b] by linarith
  then have carry: "a + b < a" by (simp add: word_less_nat_alt)
  have "unat (a + b + 1) = ?x - 65535" using x ab by (subst unat_add_u16) simp_all
  moreover have "?x - 65535 = norm ?x"
    using x by (intro norm_unique) (auto simp: le_mod_geq [of 65535 ?x])
  ultimately show ?thesis using carry by (simp add: oc_add_def)
qed

lemma unat_rfc_sum: "unat (rfc_sum bs) = norm (wsum bs)"
proof (induction bs rule: rfc_sum.induct)
  case (2 a)
  have "octet a \<le> 65535" using octet_less [of a] by linarith
  then show ?case by (simp add: unat_u16_at norm_id octet_def [of "CHR 0x00"])
next
  case (3 a b r)
  then show ?case using norm_add_norm [of "octet a + 256 * octet b" "wsum r"] by (simp add: unat_oc_add unat_u16_at)
qed simp

lemma word_of_norm: "unat w = norm n \<Longrightarrow> unat v = norm n \<Longrightarrow> w = (v :: u16)"
  by (metis unsigned_word_eqI)

text \<open>Whatever the address: one piece of memory has the sum of the RFC.\<close>

lemma standard_chksum_rfc: "length bs < 65536 \<Longrightarrow> lwip_standard_chksum odd_adr bs = rfc_sum bs"
  by (rule word_of_norm [OF unat_standard_chksum unat_rfc_sum])

definition payload :: "chain \<Rightarrow> bytes" where
  "payload p = concat (map snd p)"

definition chain_ok :: "chain \<Rightarrow> bool" where
  "chain_ok p \<longleftrightarrow> list_all (\<lambda>q. length (snd q) < 65536) p"

lemma norm_shift_step:
  "norm (norm (shift s * wsum bs) + norm (wsum cs)) = norm (shift s * wsum (bs @ cs))" if "s = odd (length bs)"
proof -
  have "norm (norm (shift s * wsum bs) + norm (wsum cs)) = norm (shift s * wsum bs + wsum cs)"
    by (simp add: norm_norm_add norm_add_norm)
  also have "\<dots> = norm (shift s * wsum (bs @ cs))"
  proof (rule norm_eqI)
    have "shift s * wsum (bs @ cs) mod 65535 = shift s * (wsum bs + shift s * wsum cs) mod 65535"
      using that by (intro mod_mult_cong refl) (simp add: wsum_append)
    also have "\<dots> = (shift s * wsum bs + wsum cs) mod 65535"
    proof (cases s)
      case True
      then show ?thesis using mod_65536 [of "256 * wsum bs" "wsum cs"] by (simp add: algebra_simps)
    qed simp
    finally show "(shift s * wsum bs + wsum cs) mod 65535 = shift s * wsum (bs @ cs) mod 65535" ..
  qed (auto simp: wsum_append_0 shift_def)
  finally show ?thesis .
qed

lemma norm_shift_not: "norm (256 * (shift s * n)) = norm (shift (\<not> s) * n)"
proof (cases s)
  case True
  show ?thesis using mod_65536 [of 0 n] True by (intro norm_eqI) simp_all
qed simp

lemma chain_loop_sum:
  assumes "chain_ok p" "unat acc = norm (shift swapped * wsum bs)" "swapped = odd (length bs)"
    "chain_loop p acc swapped = (acc', swapped')"
  shows "unat acc' = norm (shift swapped' * wsum (bs @ payload p)) \<and> swapped' = odd (length (bs @ payload p))"
  using assms
proof (induction p arbitrary: acc swapped bs)
  case Nil
  then show ?case by (simp add: payload_def)
next
  case (Cons x p)
  obtain o' q where x: "x = (o', q)" by (cases x)
  have q: "length q < 65536" and p: "chain_ok p" using Cons.prems(1) x by (simp_all add: chain_ok_def)
  let ?acc = "acc + ucast (lwip_standard_chksum o' q)"
  have "unat (ucast (lwip_standard_chksum o' q) :: u32) = norm (wsum q)"
    by (simp add: unat_ucast_u16 unat_standard_chksum [OF q])
  then have add: "unat ?acc = norm (shift swapped * wsum bs) + norm (wsum q)"
    using Cons.prems(2) norm_le [of "shift swapped * wsum bs"] norm_le [of "wsum q"] by (simp add: unat_word_ariths)
  have "unat ?acc \<le> 131070"
    unfolding add using norm_le [of "shift swapped * wsum bs"] norm_le [of "wsum q"] by linarith
  then have f: "unat (FOLD_U32T ?acc) = norm (shift swapped * wsum (bs @ q))"
    using fold_once [of ?acc] add norm_shift_step [OF Cons.prems(3), of q] by simp
  have app: "bs @ payload (x # p) = (bs @ q) @ payload p" by (simp add: payload_def x)
  show ?case
  proof (cases "odd (length q)")
    case True
    then have loop: "chain_loop p (SWAP_BYTES_IN_WORD (FOLD_U32T ?acc)) (\<not> swapped) = (acc', swapped')"
      using Cons.prems(4) x by (simp add: Let_def odd_iff_mod_2_eq_one)
    have "unat (SWAP_BYTES_IN_WORD (FOLD_U32T ?acc)) = norm (shift (\<not> swapped) * wsum (bs @ q))"
      using swap_norm [OF f] by (simp add: norm_shift_not)
    from Cons.IH [OF p this _ loop] show ?thesis using Cons.prems(3) True unfolding app by simp
  next
    case False
    then have loop: "chain_loop p (FOLD_U32T ?acc) swapped = (acc', swapped')"
      using Cons.prems(4) x by (simp add: Let_def odd_iff_mod_2_eq_one)
    from Cons.IH [OF p f _ loop] show ?thesis using Cons.prems(3) False unfolding app by simp
  qed
qed

lemma unat_chain_sum:
  assumes "chain_ok p"
  shows "unat (chain_sum p) = norm (wsum (payload p))"
proof -
  obtain acc sw where l: "chain_loop p 0 False = (acc, sw)" by (cases "chain_loop p 0 False")
  have r: "unat acc = norm (shift sw * wsum (payload p))"
    using chain_loop_sum [OF assms _ _ l, of "[]"] by simp
  show ?thesis
  proof (cases sw)
    case True
    have "unat (SWAP_BYTES_IN_WORD acc) = norm (256 * (shift sw * wsum (payload p)))" by (rule swap_norm [OF r])
    then show ?thesis using True norm_shift_not [of True "wsum (payload p)"] by (simp add: chain_sum_def l)
  next
    case False
    then show ?thesis using r by (simp add: chain_sum_def l)
  qed
qed

subsection \<open>The pseudo header\<close>

lemma octet_char_of: "octet (char_of (n :: nat)) = n mod 256"
  by (simp add: octet_def)

lemma octet_0 [simp]: "octet (CHR 0x00) = 0"
  by (simp add: octet_def)

lemma unat_byte: "unat (drop_bit n w AND 0xff :: 'a :: len word) = unat w div 2 ^ n mod 256" if "8 \<le> LENGTH('a)"
proof -
  have "drop_bit n w AND 0xff = take_bit 8 (drop_bit n w)" by (simp add: take_bit_eq_mask mask_eq_exp_minus_1)
  then have "unat (drop_bit n w AND 0xff) = take_bit 8 (drop_bit n (unat w))"
    by (simp only: unsigned_take_bit_eq unat_drop_bit_eq)
  then show ?thesis by (simp add: take_bit_eq_mod drop_bit_eq_div)
qed

lemma word_mod_div: "n mod 256 + 256 * (n div 256 mod 256) = n mod (65536 :: nat)"
  using mod_mult2_eq [of n 256 256] by simp

lemma div_word: "n div 65536 = n div 65536 mod 256 + 256 * (n div 16777216)" if "n < 2 ^ 32" for n :: nat
  using div_mult_mod_eq [of "n div 65536" 256] by (simp add: div_mult2_eq [of n 65536 256, simplified])

lemma wsum_bytes_of_u32: "wsum (bytes_of_u32 w) = unat w mod 65536 + unat w div 65536"
proof -
  have less: "unat w < 2 ^ 32" using unsigned_less [of w] by simp
  have "unat w div 16777216 mod 256 = unat w div 16777216"
    using less by (intro mod_less) (simp add: less_mult_imp_div_less)
  then show ?thesis
    using word_mod_div [of "unat w"] div_word [OF less]
    by (simp add: bytes_of_u32_def octet_char_of unat_byte)
qed

lemma unat_high16: "unat (drop_bit 16 w AND 0xffff :: u32) = unat w div 65536"
proof -
  have "unat w < 2 ^ 32" using unsigned_less [of w] by simp
  then have "unat w div 65536 < 65536" by (simp add: less_mult_imp_div_less)
  then show ?thesis by (simp add: unat_low16 drop_bit_eq_div unat_div)
qed

lemma length_pseudo_header: "length (pseudo_header src dest proto len) = 12"
  by (simp add: pseudo_header_def bytes_of_u32_def)

lemma wsum_pseudo_header:
  "wsum (pseudo_header src dest proto len) = unat src mod 65536 + unat src div 65536
     + (unat dest mod 65536 + unat dest div 65536) + 256 * unat proto
     + (256 * (unat len mod 256) + unat len div 256)"
proof -
  have app: "wsum (bytes_of_u32 w @ r) = wsum (bytes_of_u32 w) + wsum r" for w r
    by (simp add: bytes_of_u32_def)
  have "unat proto < 256" using unsigned_less [of proto] by simp
  moreover have "unat len div 256 < 256" using unat_u16_less [of len] by (simp add: less_mult_imp_div_less)
  moreover have "unat (len AND 0xff) = unat len mod 256" using unat_byte [of 0 len] by simp
  moreover have "unat (drop_bit 8 len) = unat len div 256" by (simp add: drop_bit_eq_div unat_div)
  ultimately show ?thesis
    by (simp add: pseudo_header_def app wsum_bytes_of_u32 octet_char_of)
qed

lemma unat_not_low:
  fixes w :: u32
  assumes "unat w = norm n"
  shows "ucast (NOT (w AND 0xffff)) = NOT (ucast w :: u16)" "unat (ucast w :: u16) = norm n"
proof -
  show "ucast (NOT (w AND 0xffff)) = NOT (ucast w :: u16)"
  proof (rule bit_word_eqI)
    have "w AND 0xffff = take_bit 16 w" by (simp add: take_bit_eq_mask mask_eq_exp_minus_1)
    then show "bit (ucast (NOT (w AND 0xffff)) :: u16) i = bit (NOT (ucast w :: u16)) i"
      if "i < LENGTH(16)" for i
      using that by (auto simp: bit_simps)
  qed
  show "unat (ucast w :: u16) = norm n" using assms norm_le [of n] by (simp add: unat_ucast_16)
qed

lemma unat_sum_list:
  fixes ws :: "u32 list"
  assumes "sum_list (map unat ws) < 2 ^ 32"
  shows "unat (sum_list ws) = sum_list (map unat ws)"
  using assms by (induction ws) (simp_all add: unat_word_ariths)

lemma pseudo_chksum:
  assumes "chain_ok p"
  shows "\<exists>v. inet_chksum_pseudo p src dest proto len = NOT v
    \<and> unat v = norm (wsum (pseudo_header src dest proto len @ payload p))"
proof -
  let ?ws = "[chain_sum p, src AND 0xffff, drop_bit 16 src AND 0xffff, dest AND 0xffff,
    drop_bit 16 dest AND 0xffff, ucast (lwip_htons (ucast proto)), ucast (lwip_htons len)]"
  have c: "unat (chain_sum p) = norm (wsum (payload p))" by (rule unat_chain_sum [OF assms])
  have pr: "unat proto < 256" using unsigned_less [of proto] by simp
  then have up: "unat (ucast proto :: u16) = unat proto" by (simp add: unsigned_ucast_eq take_bit_nat_eq_self)
  have "map unat ?ws = [norm (wsum (payload p)), unat src mod 65536, unat src div 65536, unat dest mod 65536,
      unat dest div 65536, 256 * unat proto, 256 * (unat len mod 256) + unat len div 256]"
    using c pr by (simp only: list.map unat_low16 [of src] unat_low16 [of dest] unat_high16 unat_ucast_u16 unat_htons up) simp
  then have total: "sum_list (map unat ?ws) = norm (wsum (payload p)) + wsum (pseudo_header src dest proto len)"
    by (simp only: wsum_pseudo_header sum_list.Cons sum_list.Nil ac_simps add_0_right)
  have "wsum (pseudo_header src dest proto len) \<le> 65535 * 12"
    using wsum_le [of "pseudo_header src dest proto len"] by (simp only: length_pseudo_header)
  moreover have "(2 :: nat) ^ 32 = 65535 * 65536 + 65536" by simp
  ultimately have "sum_list (map unat ?ws) < 2 ^ 32"
    unfolding total using norm_le [of "wsum (payload p)"] by linarith
  then have acc: "unat (sum_list ?ws) = norm (wsum (payload p)) + wsum (pseudo_header src dest proto len)"
    unfolding total [symmetric] by (rule unat_sum_list)
  let ?f = "FOLD_U32T (FOLD_U32T (sum_list ?ws))"
  have "unat ?f = norm (wsum (pseudo_header src dest proto len) + wsum (payload p))"
    unfolding fold_twice acc norm_norm_add by (simp only: add.commute)
  also have "\<dots> = norm (wsum (pseudo_header src dest proto len @ payload p))"
    by (rule norm_append_even [symmetric]) (simp add: length_pseudo_header)
  finally have f: "unat ?f = norm (wsum (pseudo_header src dest proto len @ payload p))" .
  have "inet_chksum_pseudo p src dest proto len = ucast (NOT (?f AND 0xffff))"
    unfolding inet_chksum_pseudo_def Let_def by (simp only: sum_list.Cons sum_list.Nil add_0_right add.assoc)
  then show ?thesis using unat_not_low [OF f] by auto
qed

subsection \<open>Properties\<close>

lemma unat_not_u16: "unat (NOT v :: u16) = 65535 - unat v"
proof -
  have "NOT v = 65535 - v" by (simp add: not_eq_complement)
  moreover have "v \<le> 65535"
  proof -
    have "unat v \<le> 65535" using unat_u16_less [of v] by linarith
    then show ?thesis by (simp add: word_le_nat_alt)
  qed
  ultimately show ?thesis by (simp add: unat_sub)
qed

lemma not_of_norm: "unat v = norm (wsum bs) \<Longrightarrow> NOT v = rfc_checksum bs"
  unfolding rfc_checksum_def by (rule arg_cong [of _ _ NOT]) (rule word_of_norm [OF _ unat_rfc_sum])

lemma pseudo_rfc:
  "chain_ok p \<Longrightarrow> inet_chksum_pseudo p src dest proto len = rfc_checksum (pseudo_header src dest proto len @ payload p)"
  using pseudo_chksum [of p src dest proto len] not_of_norm by auto

lemma pbuf_rfc:
  assumes "chain_ok p"
  shows "inet_chksum_pbuf p = rfc_checksum (payload p)"
proof -
  note s = unat_not_low [OF unat_chain_sum [OF assms]]
  show ?thesis unfolding inet_chksum_pbuf_def s(1) by (rule not_of_norm [OF s(2)])
qed

text \<open>
  C27. The checksums of lwIP are the checksum of RFC 1071: the sum over one piece of memory at any
  address, over a chain of pbufs, however the data is cut and wherever its pieces lie, and over a
  chain with the pseudo header before it. Only each piece, not the chain, must be shorter than
  \<open>2 ^ 16\<close> bytes.
\<close>

theorem checksum_is_rfc:
  assumes "chain_ok p"
  shows "inet_chksum_pbuf p = rfc_checksum (payload p)
    \<and> inet_chksum_pseudo p src dest proto len = rfc_checksum (pseudo_header src dest proto len @ payload p)
    \<and> (\<forall>q\<in>set p. inet_chksum odd_adr (snd q) = rfc_checksum (snd q))"
proof -
  have "inet_chksum odd_adr (snd q) = rfc_checksum (snd q)" if "q \<in> set p" for q
    using assms that by (auto simp: chain_ok_def list_all_iff inet_chksum_def standard_chksum_rfc rfc_checksum_def)
  then show ?thesis using pbuf_rfc [OF assms] pseudo_rfc [OF assms] by simp
qed

definition sample_chain :: chain where
  "sample_chain = [(True, [CHR 0x01, CHR 0x02, CHR 0x03]), (False, [CHR 0xff])]"

theorem checksum_is_rfc_witness:
  "inet_chksum_pbuf sample_chain = rfc_checksum [CHR 0x01, CHR 0x02, CHR 0x03, CHR 0xff]"
  using checksum_is_rfc [of sample_chain 0 0 0 0 False] by (simp add: sample_chain_def chain_ok_def payload_def)

text \<open>A receiver looks whether the checksum over everything, the field included, is zero.\<close>

lemma chksum_zero: "rfc_checksum bs = 0 \<longleftrightarrow> wsum bs mod 65535 = 0 \<and> wsum bs \<noteq> 0"
proof -
  have "rfc_checksum bs = 0 \<longleftrightarrow> unat (NOT (rfc_sum bs)) = 0" by (simp add: rfc_checksum_def unsigned_eq_0_iff)
  also have "\<dots> \<longleftrightarrow> unat (rfc_sum bs) = 65535"
    unfolding unat_not_u16 using unat_u16_less [of "rfc_sum bs"] by linarith
  also have "\<dots> \<longleftrightarrow> wsum bs mod 65535 = 0 \<and> wsum bs \<noteq> 0"
    unfolding unat_rfc_sum
  proof (cases "wsum bs")
    case (Suc m)
    have "m mod 65535 < 65535" by (rule mod_less_divisor) simp
    then show "norm (wsum bs) = 65535 \<longleftrightarrow> wsum bs mod 65535 = 0 \<and> wsum bs \<noteq> 0"
      by (auto simp: Suc norm_def mod_Suc)
  qed simp
  finally show ?thesis .
qed

lemma wsum_insert_even:
  assumes "even (length pre)"
  shows "wsum (pre @ [a, b] @ post) mod 65535 = (wsum (pre @ [CHR 0x00, CHR 0x00] @ post) + (octet a + 256 * octet b)) mod 65535"
proof -
  let ?s = "\<lambda>x y. wsum pre + (octet x + 256 * octet y + wsum post)"
  have all: "wsum (pre @ [x, y] @ post) mod 65535 = ?s x y mod 65535" for x y
    using wsum_append [of pre "[x, y] @ post"] assms by simp
  have "?s a b = ?s (CHR 0x00) (CHR 0x00) + (octet a + 256 * octet b)" by simp
  moreover have "(?s (CHR 0x00) (CHR 0x00) + (octet a + 256 * octet b)) mod 65535
      = (wsum (pre @ [CHR 0x00, CHR 0x00] @ post) + (octet a + 256 * octet b)) mod 65535"
    by (rule mod_add_cong [OF all [symmetric] refl])
  ultimately show ?thesis using all [of a b] by (metis (no_types, lifting))
qed

text \<open>Two sums that differ in one byte have different residues.\<close>

lemma mod_cancel_small:
  fixes u v a n :: nat
  assumes "(a + u) mod n = (a + v) mod n" "u < n" "v < n"
  shows "u = v"
proof (rule linorder_cases [of u v])
  assume "u < v"
  then have "n dvd (a + v) - (a + u)" using assms(1) by (subst mod_eq_dvd_iff_nat [symmetric]) simp_all
  then show ?thesis using \<open>u < v\<close> assms(3) by (auto dest: dvd_imp_le)
next
  assume "v < u"
  then have "n dvd (a + u) - (a + v)" using assms(1) by (subst mod_eq_dvd_iff_nat [symmetric]) simp_all
  then show ?thesis using \<open>v < u\<close> assms(2) by (auto dest: dvd_imp_le)
qed

lemma octet_inj: "octet c = octet d \<Longrightarrow> c = d"
  by (simp add: octet_def)

lemma wsum_one_byte:
  assumes "i < length bs" "c \<noteq> bs ! i"
  shows "wsum (bs[i := c]) mod 65535 \<noteq> wsum bs mod 65535"
proof
  assume eq: "wsum (bs[i := c]) mod 65535 = wsum bs mod 65535"
  let ?x = "take i bs" and ?y = "drop (Suc i) bs" and ?k = "shift (odd i)"
  have step: "wsum (?x @ d # ?y) mod 65535 = (wsum ?x + ?k * (256 * wsum ?y) + ?k * octet d) mod 65535" for d
  proof -
    have "wsum (?x @ d # ?y) mod 65535 = (wsum ?x + ?k * wsum (d # ?y)) mod 65535"
      using wsum_append [of ?x "d # ?y"] assms(1) by simp
    also have "\<dots> = (wsum ?x + ?k * (octet d + 256 * wsum ?y)) mod 65535"
      by (intro mod_add_cong mod_mult_cong refl wsum_Cons)
    finally show ?thesis by (simp add: algebra_simps)
  qed
  have "bs[i := c] = ?x @ c # ?y" "bs = ?x @ bs ! i # ?y"
    using assms(1) by (simp_all add: upd_conv_take_nth_drop id_take_nth_drop)
  then have eq: "(wsum ?x + ?k * (256 * wsum ?y) + ?k * octet c) mod 65535
      = (wsum ?x + ?k * (256 * wsum ?y) + ?k * octet (bs ! i)) mod 65535"
    using eq step by metis
  have small: "?k * octet d < 65535" for d
  proof -
    have "?k * octet d \<le> 256 * 255" proof (rule mult_le_mono)
      show "?k \<le> 256" by (simp add: shift_def)
      show "octet d \<le> 255" using octet_less [of d] by linarith
    qed
    then show ?thesis by simp
  qed
  have "?k * octet c = ?k * octet (bs ! i)" by (rule mod_cancel_small [OF eq small small])
  then have "octet c = octet (bs ! i)" by (simp add: shift_def split: if_splits)
  then show False using assms(2) octet_inj by blast
qed

text \<open>
  C28. What a sender computes a receiver accepts, and no single wrong byte goes unnoticed: with the
  checksum, computed over a zero field, stored at an even offset, the checksum over the segment is
  zero, in whatever pbufs it arrives; and with any one byte changed, the checksum field among
  them, it is not.
\<close>

theorem checksum_accepted:
  assumes "chain_ok p" "chain_ok p'" "even (length pre)" "payload p = pre @ [CHR 0x00, CHR 0x00] @ post"
    "c = inet_chksum_pseudo p src dest proto len"
    "payload p' = pre @ [char_of (unat c mod 256), char_of (unat c div 256)] @ post"
  shows "inet_chksum_pseudo p' src dest proto len = 0
    \<and> (\<forall>p'' i b. chain_ok p'' \<longrightarrow> i < length (payload p') \<longrightarrow> b \<noteq> payload p' ! i \<longrightarrow> payload p'' = (payload p')[i := b]
         \<longrightarrow> inet_chksum_pseudo p'' src dest proto len \<noteq> 0)"
proof
  let ?h = "pseudo_header src dest proto len"
  have c: "unat c = 65535 - norm (wsum (?h @ payload p))"
    using unat_rfc_sum [of "?h @ payload p"] assms(5)
    by (simp add: pseudo_rfc [OF assms(1)] rfc_checksum_def unat_not_u16)
  have field: "octet (char_of (unat c mod 256)) + 256 * octet (char_of (unat c div 256)) = unat c"
  proof -
    have "unat c div 256 < 256" using unat_u16_less [of c] by (simp add: less_mult_imp_div_less)
    then show ?thesis by (simp add: octet_char_of)
  qed
  have even: "even (length (?h @ pre))" using assms(3) by (simp add: length_pseudo_header)
  have "wsum (?h @ payload p') mod 65535 = (wsum (?h @ payload p) + unat c) mod 65535"
    using wsum_insert_even [OF even, of "char_of (unat c mod 256)" "char_of (unat c div 256)" post]
    unfolding field assms(4,6) by simp
  also have "\<dots> = (norm (wsum (?h @ payload p)) + unat c) mod 65535"
    by (rule mod_add_cong [OF norm_mod [symmetric] refl])
  also have "\<dots> = 0" using c norm_le [of "wsum (?h @ payload p)"] by simp
  finally have zero: "wsum (?h @ payload p') mod 65535 = 0" .
  have "wsum (?h @ payload p') \<noteq> 0"
  proof
    assume none: "wsum (?h @ payload p') = 0"
    then have "octet (char_of (unat c mod 256)) = 0" "octet (char_of (unat c div 256)) = 0" 
      by (auto simp: wsum_0 assms(6))
    then have "unat c = 0" using field by simp
    then have "norm (wsum (?h @ payload p)) = 65535" using c norm_le [of "wsum (?h @ payload p)"] by simp
    moreover have "wsum (?h @ payload p) = 0" using none by (auto simp: wsum_0 assms(4,6))
    ultimately show False by simp
  qed
  then show "inet_chksum_pseudo p' src dest proto len = 0" using zero by (simp add: pseudo_rfc [OF assms(2)] chksum_zero)
  show "\<forall>p'' i b. chain_ok p'' \<longrightarrow> i < length (payload p') \<longrightarrow> b \<noteq> payload p' ! i \<longrightarrow> payload p'' = (payload p')[i := b]
      \<longrightarrow> inet_chksum_pseudo p'' src dest proto len \<noteq> 0"
  proof (intro allI impI)
    fix p'' i b
    assume p'': "chain_ok p''" "payload p'' = (payload p')[i := b]" and i: "i < length (payload p')" "b \<noteq> payload p' ! i"
    have "?h @ payload p'' = (?h @ payload p')[length ?h + i := b]" by (simp add: p''(2) list_update_append)
    moreover have "(?h @ payload p') ! (length ?h + i) \<noteq> b" using i by (simp add: nth_append)
    ultimately have "wsum (?h @ payload p'') mod 65535 \<noteq> 0"
      using wsum_one_byte [of "length ?h + i" "?h @ payload p'" b] zero i by simp
    then show "inet_chksum_pseudo p'' src dest proto len \<noteq> 0" by (simp add: pseudo_rfc [OF p''(1)] chksum_zero)
  qed
qed

definition sent_segment :: bytes where
  "sent_segment = [CHR 0x45, CHR 0x01, CHR 0x00, CHR 0x00, CHR 0x7f]"

theorem checksum_accepted_witness:
  "\<exists>c1 c2. let p = [(False, [CHR 0x45]), (True, [CHR 0x01, c1, c2]), (False, [CHR 0x7f])]
     in inet_chksum_pseudo p 0x640a 0x650a 6 5 = 0"
proof -
  let ?c = "inet_chksum_pseudo [(False, sent_segment)] 0x640a 0x650a 6 5"
  let ?p = "[(False, [CHR 0x45]), (True, [CHR 0x01, char_of (unat ?c mod 256), char_of (unat ?c div 256)]), (False, [CHR 0x7f])]"
  have "inet_chksum_pseudo ?p 0x640a 0x650a 6 5 = 0"
    using checksum_accepted [where p = "[(False, sent_segment)]" and p' = ?p and pre = "[CHR 0x45, CHR 0x01]"
        and post = "[CHR 0x7f]" and c = ?c and src = "0x640a" and dest = "0x650a" and proto = 6 and len = 5]
    by (simp add: chain_ok_def payload_def sent_segment_def)
  then show ?thesis by (auto simp: Let_def)
qed

end
