(* ===== verification/Tcp_Stream.thy ===== *)
theory Tcp_Stream
  imports Tcp_Process
begin

text \<open>
  What a connection delivers to its application: the peer's bytes in their order, each once, and
  the end of the stream once, behind the last byte, whatever segments repeat or overlap, whatever
  the application refuses and takes later.
\<close>

subsection \<open>The fields that decide what is received\<close>

definition rx_view :: "net \<Rightarrow> u32 \<times> (bytes list \<times> bool) option \<times> tcp_state \<times> bool" where
  "rx_view n = (rcv_nxt (pcb n), refused_data (pcb n), pcb_state (pcb n), pcb_freed n)"

definition p_view :: "tcp_pcb \<Rightarrow> u32 \<times> (bytes list \<times> bool) option \<times> tcp_state" where
  "p_view p = (rcv_nxt p, refused_data p, pcb_state p)"

lemma rx_view_pcb: "rx_view n = rx_view m \<longleftrightarrow> p_view (pcb n) = p_view (pcb m) \<and> pcb_freed n = pcb_freed m"
  by (auto simp: rx_view_def p_view_def)

named_theorems view_simps

lemma p_view_flag [view_simps]: "p_view (set_flag f p) = p_view p" "p_view (clear_flag f p) = p_view p"
  by (simp_all add: p_view_def set_flag_def clear_flag_def)

lemma p_view_upd [view_simps]:
  "p_view (p\<lparr>unsent := q\<rparr>) = p_view p" "p_view (p\<lparr>unacked := q\<rparr>) = p_view p"
  "p_view (p\<lparr>snd_nxt := a\<rparr>) = p_view p" "p_view (p\<lparr>unsent_oversize := w\<rparr>) = p_view p"
  "p_view (p\<lparr>rcv_ann_right_edge := a\<rparr>) = p_view p" "p_view (p\<lparr>rcv_ann_wnd := w\<rparr>) = p_view p"
  "p_view (p\<lparr>rcv_wnd := w\<rparr>) = p_view p" "p_view (p\<lparr>rtime := t\<rparr>) = p_view p" "p_view (p\<lparr>rttest := a\<rparr>) = p_view p"
  "p_view (p\<lparr>rtseq := a\<rparr>) = p_view p" "p_view (p\<lparr>nrtx := c\<rparr>) = p_view p" "p_view (p\<lparr>pcb_acked := w\<rparr>) = p_view p"
  "p_view (p\<lparr>cwnd := w\<rparr>) = p_view p" "p_view (p\<lparr>ssthresh := w\<rparr>) = p_view p" "p_view (p\<lparr>pcb_mss := w\<rparr>) = p_view p"
  "p_view (p\<lparr>pcb_tmr := a\<rparr>) = p_view p" "p_view (p\<lparr>keep_cnt_sent := c\<rparr>) = p_view p"
  "p_view (p\<lparr>snd_queuelen := w\<rparr>) = p_view p" "p_view (p\<lparr>dupacks := c\<rparr>) = p_view p"
  "p_view (p\<lparr>rto := w\<rparr>) = p_view p" "p_view (p\<lparr>pcb_sa := w\<rparr>) = p_view p" "p_view (p\<lparr>pcb_sv := w\<rparr>) = p_view p"
  "p_view (p\<lparr>snd_buf := w\<rparr>) = p_view p" "p_view (p\<lparr>lastack := a\<rparr>) = p_view p" "p_view (p\<lparr>polltmr := c\<rparr>) = p_view p"
  by (simp_all add: p_view_def)

lemma rx_view_map [view_simps]: "p_view (f (pcb n)) = p_view (pcb n) \<Longrightarrow> rx_view (map_pcb f n) = rx_view n"
  by (simp add: rx_view_pcb)

lemma rx_view_upd [view_simps]:
  "rx_view (n\<lparr>net_heap := h\<rparr>) = rx_view n" "rx_view (n\<lparr>in_input := b\<rparr>) = rx_view n"
  "rx_view (ip_output fr n) = rx_view n" "p_view p = p_view (pcb n) \<Longrightarrow> rx_view (n\<lparr>pcb := p\<rparr>) = rx_view n"
  by (simp_all add: rx_view_def ip_output_def p_view_def)

lemma rx_view_send_first [view_simps]: "rx_view (send_first seg rest n) = rx_view n"
  by (simp add: send_first_def Let_def tcp_output_segment_def view_simps)

lemma rx_view_loop [view_simps]: "rx_view (tcp_output_loop wnd q n) = rx_view n"
  by (induction wnd q n rule: tcp_output_loop.induct) (simp_all add: view_simps)

lemma rx_view_empty_ack [view_simps]: "rx_view (snd (tcp_send_empty_ack n)) = rx_view n"
  by (auto simp: tcp_send_empty_ack_def Let_def view_simps split: prod.splits bool.splits)

lemma rx_view_output [view_simps]: "rx_view (snd (tcp_output n)) = rx_view n"
  by (simp add: tcp_output_def Let_def view_simps)

lemma rx_view_rst [view_simps]: "rx_view (tcp_rst s a n) = rx_view n"
  by (auto simp: tcp_rst_def view_simps split: prod.splits bool.splits)

lemma rx_view_recved [view_simps]: "rx_view (tcp_recved n len) = rx_view n"
proof -
  have u: "p_view (snd (tcp_update_rcv_ann_wnd p)) = p_view p" for p
    by (simp add: tcp_update_rcv_ann_wnd_def Let_def view_simps)
  define m where "m = (let m = map_pcb (\<lambda>p. p\<lparr>rcv_wnd := rcv_wnd p + len\<rparr>) n
    in if rcv_wnd (pcb m) > TCP_WND then map_pcb (\<lambda>p. p\<lparr>rcv_wnd := TCP_WND\<rparr>) m else m)"
  have m: "rx_view m = rx_view n" by (simp add: m_def Let_def view_simps)
  obtain infl p where p: "tcp_update_rcv_ann_wnd (pcb m) = (infl, p)" by fastforce
  have "p_view p = p_view (pcb m)" using u [of "pcb m"] p by simp
  then show ?thesis
    using m p unfolding tcp_recved_def Let_def m_def [unfolded Let_def, symmetric] by (simp add: view_simps)
qed

lemma p_view_rexmit [view_simps]: "p_view (tcp_rexmit p) = p_view p"
  by (simp add: tcp_rexmit_def Let_def view_simps split: list.splits)

lemma p_view_rexmit_fast [view_simps]: "p_view (tcp_rexmit_fast p) = p_view p"
  by (simp add: tcp_rexmit_fast_def Let_def view_simps)

lemma p_view_ack [view_simps]: "p_view (tcp_ack_now p) = p_view p" "p_view (tcp_ack p) = p_view p"
  by (simp_all add: tcp_ack_now_def tcp_ack_def view_simps)

lemma p_view_receive_ack [view_simps]: "p_view (tcp_receive_ack i t p) = p_view p"
proof -
  have a: "p_view (update_snd_wnd i p) = p_view p" for p by (simp add: update_snd_wnd_def Let_def p_view_def)
  have b: "p_view (dup_ack i e p) = p_view p" for e p by (simp add: dup_ack_def Let_def view_simps)
  have c: "p_view (new_ack i p) = p_view p" for p
    by (simp add: new_ack_def Let_def view_simps split: prod.splits)
       (simp add: p_view_def grow_cwnd_def Let_def clear_flag_def)
  have d: "p_view (free_unsent i p) = p_view p" for p
    by (simp add: free_unsent_def view_simps split: prod.splits)
  have e: "p_view (estimate_rtt i t p) = p_view p" for p
    by (simp add: estimate_rtt_def Let_def view_simps)
  show ?thesis by (simp add: tcp_receive_ack_def Let_def a b c d e view_simps)
qed

subsection \<open>Options\<close>

text \<open>At least one byte follows the options: \<open>tcp_parseopt\<close> may read one byte too far.\<close>

definition options_inside :: "tcp_input \<Rightarrow> bool" where
  "options_inside i \<longleftrightarrow> in_optlen i = 0 \<or> in_optlen i < length (in_opts i)"

lemma parseopt_loop_inside: "max_c < length opts \<Longrightarrow> \<exists>m. parseopt_loop opts max_c c mss = Inr m"
proof (induction opts max_c c mss rule: parseopt_loop.induct)
  case (1 opts max_c c mss)
  show ?case
  proof (cases "c < max_c")
    case True
    then have at: "opt_at opts c = Inr (of_char (opts ! c))" "opt_at opts (c + 1) = Inr (of_char (opts ! (c + 1)))"
      using 1(4) by (simp_all add: opt_at_def)
    note ih = 1(1-3)
    show ?thesis
    proof (cases "of_char (opts ! c) = (0x02 :: u8) \<and> of_char (opts ! (c + 1)) = (0x04 :: u8) \<and> c + 4 \<le> max_c")
      case True
      then have "opt_at opts (c + 2) = Inr (of_char (opts ! (c + 2)))" "opt_at opts (c + 3) = Inr (of_char (opts ! (c + 3)))"
        using 1(4) by (simp_all add: opt_at_def)
      then show ?thesis
        using ih(2) [OF _ at(1)] True at \<open>c < max_c\<close> 1(4)
        by (subst parseopt_loop.simps) (simp add: Let_def)
    next
      case False
      then show ?thesis
        using ih(1) [OF _ at(1)] ih(3) [OF _ at(1) _ _ _ at(2)] at \<open>c < max_c\<close> 1(4)
        by (subst parseopt_loop.simps) auto
    qed
  qed (subst parseopt_loop.simps, simp)
qed

lemma tcp_parseopt_inside: "options_inside i \<Longrightarrow> \<exists>m. tcp_parseopt i p = Inr (p\<lparr>pcb_mss := m\<rparr>)"
  using parseopt_loop_inside [of "in_optlen i" "in_opts i" 0 "pcb_mss p"]
  by (cases "in_optlen i = 0") (auto simp: tcp_parseopt_def options_inside_def intro: exI [of _ "pcb_mss p"])

subsection \<open>The contract of the callbacks\<close>

text \<open>
  Between two segments, and in a callback, the application writes, sends, acknowledges data and
  closes; it leaves what TCP has received alone. A callback that answers \<open>ERR_ABRT\<close> has aborted the
  connection.
\<close>

definition app_moves :: "tcp_state \<Rightarrow> tcp_state \<Rightarrow> bool" where
  "app_moves s t \<longleftrightarrow> t = s \<or> ((s = SYN_RCVD \<or> s = ESTABLISHED) \<and> t = FIN_WAIT_1) \<or> (s = CLOSE_WAIT \<and> t = LAST_ACK)"

definition app_step :: "net \<Rightarrow> net \<Rightarrow> bool" where
  "app_step n n' \<longleftrightarrow> rcv_nxt (pcb n') = rcv_nxt (pcb n) \<and> refused_data (pcb n') = refused_data (pcb n)
     \<and> app_moves (pcb_state (pcb n)) (pcb_state (pcb n')) \<and> pcb_freed n' = pcb_freed n"

definition callback_ok :: "callback \<Rightarrow> bool" where
  "callback_ok f \<longleftrightarrow> (\<forall>n. \<not> pcb_freed n \<longrightarrow>
     (if fst (f n) = ERR_ABRT then pcb_freed (snd (f n)) else app_step n (snd (f n))))"

definition env_ok :: "tcp_env \<Rightarrow> bool" where
  "env_ok env \<longleftrightarrow> (\<exists>f. on_accept env = Some f \<and> callback_ok f) \<and> (\<forall>len. callback_ok (on_sent env len))
     \<and> (\<forall>data. callback_ok (on_recv env data)) \<and> callback_ok (on_closed env)"

lemma callback_cases:
  assumes "callback_ok f" "\<not> pcb_freed n" "f n = (err, n')"
  obtains "err = ERR_ABRT" "pcb_freed n'" | "err \<noteq> ERR_ABRT" "app_step n n'"
  using assms unfolding callback_ok_def by (metis fst_conv snd_conv)

lemma app_step_view: "rx_view n' = rx_view n \<Longrightarrow> app_step n n'"
  by (simp add: app_step_def rx_view_def app_moves_def)

lemma recv_ok: "env_ok env \<Longrightarrow> callback_ok (tcp_event_recv env data)"
  by (auto simp: env_ok_def callback_ok_def tcp_event_recv_def intro!: app_step_view simp: view_simps)

lemma closed_ok: "env_ok env \<Longrightarrow> callback_ok (tcp_event_closed env)"
  by (auto simp: env_ok_def callback_ok_def tcp_event_closed_def app_step_view)

lemma abort_freed: "abort_pcb n = (n', log) \<Longrightarrow> pcb_freed n'"
  by (auto simp: abort_pcb_def tcp_abort_def tcp_abandon_def memp_free_pcb_def Let_def split: if_splits)

subsection \<open>What processing a segment takes from the stream\<close>

text \<open>
  \<open>r\<close> bytes are already here. Before the peer's FIN a segment brings the next \<open>c\<close> bytes, and its FIN
  counts only behind the last byte of the stream; after the FIN nothing is taken. A segment without
  sequence numbers brings nothing.
\<close>

definition brings :: "bytes \<Rightarrow> u32 \<Rightarrow> nat \<Rightarrow> tcp_input \<Rightarrow> tcp_state \<Rightarrow> rx \<Rightarrow> bool" where
  "brings S b r i st x \<longleftrightarrow>
     rx_flags x \<in> {0, TF_GOT_FIN} \<and> (in_tcplen i = 0 \<longrightarrow> rx_data x = [] \<and> \<not> got_fin x)
     \<and> (if st < CLOSE_WAIT then
          (\<exists>c. concat (rx_data x) = take c (drop r S) \<and> r + c \<le> length S
             \<and> (if got_fin x then r + c = length S else rcv_nxt (pcb (rx_net x)) = b + of_nat (r + c)))
        else rx_data x = [] \<and> \<not> got_fin x)"

definition keeps_rx :: "net \<Rightarrow> net \<Rightarrow> bool" where
  "keeps_rx n n' \<longleftrightarrow> refused_data (pcb n') = refused_data (pcb n) \<and> pcb_freed n' = pcb_freed n"

lemma got_fin_flags: "rx_flags x = (if f then TF_GOT_FIN else 0) \<Longrightarrow> got_fin x = f"
  by (simp add: got_fin_def TF_GOT_FIN_def)

lemma receive_nothing:
  assumes "CLOSE_WAIT \<le> pcb_state (pcb n) \<or> in_tcplen i = 0"
  obtains m where "tcp_receive_data i n = Inr \<lparr>rx_net = m, rx_data = [], rx_flags = 0\<rparr>" "rx_view m = rx_view n"
proof
  let ?m = "if seq_between (is_seqno (inseg_of i)) (rcv_nxt (pcb n)) (rcv_nxt (pcb n) + ucast (rcv_wnd (pcb n)) - 1)
    then n else map_pcb tcp_ack_now n"
  show "tcp_receive_data i n = Inr \<lparr>rx_net = ?m, rx_data = [], rx_flags = 0\<rparr>"
    using assms by (auto simp: tcp_receive_data_def Let_def leD)
  show "rx_view ?m = rx_view n" by (simp add: view_simps)
qed

lemma receive_data_brings:
  assumes seg: "segment_of S b k L i" "near k r" and r: "r \<le> length S"
    and nxt: "pcb_state (pcb n) < CLOSE_WAIT \<longrightarrow> rcv_nxt (pcb n) = b + of_nat r"
  shows "\<exists>x. tcp_receive_data i n = Inr x \<and> brings S b r i (pcb_state (pcb n)) x \<and> keeps_rx n (rx_net x)
    \<and> pcb_state (pcb (rx_net x)) = pcb_state (pcb n)"
proof (cases "CLOSE_WAIT \<le> pcb_state (pcb n) \<or> in_tcplen i = 0")
  case True
  then obtain m where m: "tcp_receive_data i n = Inr \<lparr>rx_net = m, rx_data = [], rx_flags = 0\<rparr>"
    "rx_view m = rx_view n"
    using receive_nothing by metis
  then show ?thesis
    using nxt r by (auto simp: brings_def keeps_rx_def rx_view_def got_fin_def)
next
  case False
  then have st: "pcb_state (pcb n) < CLOSE_WAIT" by (simp add: not_le)
  define w where "w = unat (rcv_wnd (pcb n))"
  obtain x where x: "tcp_receive_data i n = Inr x"
    "received S b r (taken k L r w) (fin_taken (fin_of i) k L r w) n x"
    using receive_data_result [OF seg(1) nxt [rule_format, OF st] seg(2) r st w_def] by blast
  note gf = got_fin_flags [of x "fin_taken (fin_of i) k L r w"]
  have kL: "k + L \<le> length S" "fin_of i \<longrightarrow> k + L = length S" using seg(1) by (auto simp: segment_of_def)
  have c: "r + taken k L r w \<le> length S" using kL(1) r by (auto simp: taken_def covers_def)
  have f: "r + taken k L r w = length S" if "fin_taken (fin_of i) k L r w"
    using that kL by (auto simp: fin_taken_def taken_def covers_def)
  show ?thesis
    using x st False c f gf by (auto simp: received_def brings_def keeps_rx_def recv_frame_def)
qed

lemma receive_brings:
  assumes seg: "segment_of S b k L i" "near k r" and r: "r \<le> length S"
    and nxt: "pcb_state (pcb n) < CLOSE_WAIT \<longrightarrow> rcv_nxt (pcb n) = b + of_nat r"
    and st: "ESTABLISHED \<le> pcb_state (pcb n)"
  shows "\<exists>x. tcp_receive i n = Inr x \<and> brings S b r i (pcb_state (pcb n)) x \<and> keeps_rx n (rx_net x)
    \<and> pcb_state (pcb (rx_net x)) = pcb_state (pcb n)"
proof -
  define m where "m = (if in_flags i AND TCP_ACK \<noteq> 0
    then map_pcb (tcp_receive_ack (tcp_in_seg.truncate i) (tcp_ticks n)) n else n)"
  have "rx_view m = rx_view n" by (simp add: m_def view_simps)
  then have v: "rcv_nxt (pcb m) = rcv_nxt (pcb n)" "refused_data (pcb m) = refused_data (pcb n)"
    "pcb_state (pcb m) = pcb_state (pcb n)" "pcb_freed m = pcb_freed n" by (simp_all add: rx_view_def)
  have "tcp_receive i n = tcp_receive_data i m" using st by (simp add: tcp_receive_def m_def leD)
  then show ?thesis using receive_data_brings [OF seg r, of m] nxt v by (simp add: keeps_rx_def)
qed

text \<open>Segments that are no part of the stream: a reset, or a SYN.\<close>

definition control :: "tcp_input \<Rightarrow> net \<Rightarrow> bool" where
  "control i n \<longleftrightarrow> has TCP_RST i \<or> (has TCP_SYN i \<and> (has TCP_ACK i \<longrightarrow> pcb_state (pcb n) \<noteq> SYN_RCVD))"

definition synchronized :: "tcp_state \<Rightarrow> bool" where
  "synchronized st \<longleftrightarrow> SYN_RCVD \<le> st"

text \<open>
  The state after a segment, and what the segment brought. When the connection enters TIME-WAIT
  data that the application has refused is freed.
\<close>

definition arrived :: "bytes \<Rightarrow> u32 \<Rightarrow> nat \<Rightarrow> tcp_input \<Rightarrow> net \<Rightarrow> rx \<Rightarrow> bool" where
  "arrived S b r i n x \<longleftrightarrow> brings S b r i (pcb_state (pcb n)) x \<and> pcb_freed (rx_net x) = pcb_freed n
     \<and> (refused_data (pcb (rx_net x)) = refused_data (pcb n)
        \<or> refused_data (pcb (rx_net x)) = None \<and> pcb_state (pcb (rx_net x)) = TIME_WAIT
            \<and> CLOSE_WAIT \<le> pcb_state (pcb n))
     \<and> synchronized (pcb_state (pcb (rx_net x)))
     \<and> (CLOSE_WAIT \<le> pcb_state (pcb (rx_net x)) \<longleftrightarrow> CLOSE_WAIT \<le> pcb_state (pcb n) \<or> got_fin x)"

definition process_good :: "bytes \<Rightarrow> u32 \<Rightarrow> nat \<Rightarrow> tcp_input \<Rightarrow> net \<Rightarrow> processed \<Rightarrow> bool" where
  "process_good S b r i n x \<longleftrightarrow>
     (if pr_err x = ERR_ABRT then pcb_freed (rx_net x)
      else rx_flags x AND TF_RESET \<noteq> 0 \<or> rx_flags x AND TF_CLOSED \<noteq> 0 \<or> arrived S b r i n (rx.truncate x))"

lemma arrived_nothing:
  assumes "rx_view m = rx_view n" "synchronized (pcb_state (pcb n))" "r \<le> length S"
    "pcb_state (pcb n) < CLOSE_WAIT \<longrightarrow> rcv_nxt (pcb n) = b + of_nat r"
  shows "process_good S b r i n (outcome ERR_OK m)"
  using assms by (auto simp: process_good_def outcome_def arrived_def brings_def keeps_rx_def rx_view_def got_fin_def
      rx.truncate_def)

lemma brings_cong:
  "rx_flags y = rx_flags x \<Longrightarrow> rx_data y = rx_data x \<Longrightarrow> rcv_nxt (pcb (rx_net y)) = rcv_nxt (pcb (rx_net x))
    \<Longrightarrow> brings S b r i st y = brings S b r i st x"
  by (simp add: brings_def got_fin_def)

lemma ok_rx_truncate [simp]: "rx.truncate (ok_rx x) = x" "pr_err (ok_rx x) = ERR_OK" "rx_flags (ok_rx x) = rx_flags x"
  by (simp_all add: ok_rx_def rx.truncate_def)

lemma to_state_simps [simp]:
  "rx_flags (to_state st x) = rx_flags x" "rx_data (to_state st x) = rx_data x"
  "pcb_state (pcb (rx_net (to_state st x))) = st" "rcv_nxt (pcb (rx_net (to_state st x))) = rcv_nxt (pcb (rx_net x))"
  "refused_data (pcb (rx_net (to_state st x))) = refused_data (pcb (rx_net x))"
  "pcb_freed (rx_net (to_state st x)) = pcb_freed (rx_net x)"
  by (simp_all add: to_state_def tcp_ack_now_def set_flag_def)

lemma after_receive_good:
  assumes br: "brings S b r i (pcb_state (pcb n)) x" and fr: "keeps_rx n (rx_net x)"
    and st: "pcb_state (pcb (rx_net x)) = pcb_state (pcb n)" "ESTABLISHED \<le> pcb_state (pcb n)"
      "pcb_state (pcb n) \<noteq> TIME_WAIT"
    and q: "refused_data (pcb n) = None \<or> in_tcplen i = 0"
  shows "process_good S b r i n (ok_rx (after_receive (pcb_state (pcb n)) i x))"
proof -
  have nofin: "got_fin x \<Longrightarrow> refused_data (pcb n) = None" "CLOSE_WAIT \<le> pcb_state (pcb n) \<Longrightarrow> \<not> got_fin x"
    using q br by (auto simp: brings_def)
  have fl: "rx_flags x \<in> {0, TF_GOT_FIN}" using br by (simp add: brings_def)
  have tw: "brings S b r i st (enter_time_wait x) = brings S b r i st x" for x st
    by (rule brings_cong) (simp_all add: enter_time_wait_def tcp_pcb_purge_def)
  have ts: "brings S b r i st (to_state st' x) = brings S b r i st x" for x st st'
    by (rule brings_cong) simp_all
  have ak: "brings S b r i st (ack_rx x) = brings S b r i st x" for x st
    by (rule brings_cong) (simp_all add: ack_rx_def)
  have f2: "brings S b r i st (x\<lparr>rx_net := map_pcb (\<lambda>p. p\<lparr>pcb_state := st'\<rparr>) (rx_net x)\<rparr>) = brings S b r i st x" for x st st'
    by (rule brings_cong) simp_all
  have gn: "got_fin (x\<lparr>rx_net := m\<rparr>) = got_fin x" for x m by (simp add: got_fin_def)
  have gf: "got_fin (enter_time_wait x) = got_fin x" "got_fin (to_state st' x) = got_fin x" "got_fin (ack_rx x) = got_fin x"
    for x st' by (simp_all add: got_fin_def enter_time_wait_def ack_rx_def)
  have ref: "refused_data (pcb (rx_net (enter_time_wait x))) = (if pcb_state (pcb (rx_net x)) \<in> {CLOSED, TIME_WAIT, LISTEN} then refused_data (pcb (rx_net x)) else None)"
    "pcb_state (pcb (rx_net (enter_time_wait x))) = TIME_WAIT" "pcb_freed (rx_net (enter_time_wait x)) = pcb_freed (rx_net x)"
    "rx_flags (enter_time_wait x) = rx_flags x" for x
    by (simp_all add: enter_time_wait_def tcp_pcb_purge_def)
  have aref: "refused_data (pcb (rx_net (ack_rx x))) = refused_data (pcb (rx_net x))" "pcb_freed (rx_net (ack_rx x)) = pcb_freed (rx_net x)"
    "pcb_state (pcb (rx_net (ack_rx x))) = pcb_state (pcb (rx_net x))" "rx_flags (ack_rx x) = rx_flags x" for x
    by (simp_all add: ack_rx_def tcp_ack_now_def set_flag_def)
  show ?thesis
    using br fr st fl nofin
    by (cases "pcb_state (pcb n)"; cases "got_fin x")
       (auto simp: process_good_def after_receive_def arrived_def tw ts ak f2 gn gf ref aref keeps_rx_def synchronized_def state_order
          TF_RESET_def TF_CLOSED_def TF_GOT_FIN_def)
qed

lemma brings_open: "st < CLOSE_WAIT \<Longrightarrow> st' < CLOSE_WAIT \<Longrightarrow> brings S b r i st x = brings S b r i st' x"
  by (simp add: brings_def)

lemma accepted_good:
  assumes seg: "segment_of S b k L i" "near k r" "r \<le> length S"
    and n: "pcb_state (pcb n) = SYN_RCVD" "rcv_nxt (pcb n) = b + of_nat r" "refused_data (pcb n) = None \<or> in_tcplen i = 0"
    and m: "pcb_state (pcb m) = ESTABLISHED \<or> pcb_state (pcb m) = FIN_WAIT_1" "rcv_nxt (pcb m) = rcv_nxt (pcb n)"
      "keeps_rx n m"
  shows "\<exists>x. accepted i m = Inr x \<and> process_good S b r i n x"
proof -
  have nxt: "pcb_state (pcb m) < CLOSE_WAIT \<longrightarrow> rcv_nxt (pcb m) = b + of_nat r" "ESTABLISHED \<le> pcb_state (pcb m)"
    "pcb_state (pcb m) < CLOSE_WAIT"
    using m(1,2) n by (auto simp: state_order)
  obtain x where x: "tcp_receive i m = Inr x" "brings S b r i (pcb_state (pcb m)) x" "keeps_rx m (rx_net x)"
    "pcb_state (pcb (rx_net x)) = pcb_state (pcb m)"
    using receive_brings [OF seg nxt(1,2)] by blast
  define y where "y = x\<lparr>rx_net := map_pcb (\<lambda>p. let p = (if pcb_acked p \<noteq> 0 then p\<lparr>pcb_acked := pcb_acked p - 1\<rparr> else p)
    in p\<lparr>cwnd := (if cwnd (pcb m) = 1 then pcb_mss p * 2 else pcb_mss p)\<rparr>) (rx_net x)\<rparr>"
  have y: "rx_flags y = rx_flags x" "rx_data y = rx_data x" "rx_view (rx_net y) = rx_view (rx_net x)"
    by (simp_all add: y_def Let_def view_simps)
  have acc: "accepted i m = Inr (ok_rx (if got_fin y then to_state CLOSE_WAIT y else y))"
    by (simp add: accepted_def x(1) y_def Let_def)
  have open1: "brings S b r i SYN_RCVD y"
  proof -
    have "brings S b r i SYN_RCVD x"
      using x(2) nxt(3) brings_open [of SYN_RCVD "pcb_state (pcb m)"] by (simp add: state_order)
    then show ?thesis using y brings_cong [of y x] by (simp add: rx_view_def)
  qed
  then have bt: "brings S b r i SYN_RCVD (to_state CLOSE_WAIT y)" using brings_cong [of "to_state CLOSE_WAIT y" y] by simp
  have gt: "got_fin (to_state st y) = got_fin y" for st by (simp add: got_fin_def)
  have fl: "rx_flags x \<in> {0, TF_GOT_FIN}" using x(2) by (simp add: brings_def)
  have "process_good S b r i n (ok_rx (if got_fin y then to_state CLOSE_WAIT y else y))"
    using open1 bt gt fl m n x(3,4) y
    by (auto simp: process_good_def arrived_def keeps_rx_def rx_view_def synchronized_def state_order)
  then show ?thesis using acc by blast
qed

lemma syn_rcvd_good:
  assumes env: "env_ok env" and seg: "segment_of S b k L i" "near k r" "r \<le> length S"
    and n: "pcb_state (pcb n) = SYN_RCVD" "rcv_nxt (pcb n) = b + of_nat r" "refused_data (pcb n) = None \<or> in_tcplen i = 0"
      "\<not> pcb_freed n"
  shows "\<exists>x. process_syn_rcvd env i n = Inr x \<and> process_good S b r i n x"
proof (cases "has TCP_ACK i \<and> seq_between (in_ackno i) (lastack (pcb n) + 1) (snd_nxt (pcb n))")
  case True
  obtain f where f: "on_accept env = Some f" "callback_ok f" using env by (auto simp: env_ok_def)
  let ?m = "map_pcb (\<lambda>p. p\<lparr>pcb_state := ESTABLISHED\<rparr>) n"
  obtain err m where m: "f ?m = (err, m)" by fastforce
  have fr: "\<not> pcb_freed ?m" using n(4) by simp
  show ?thesis
  proof (cases rule: callback_cases [OF f(2) fr m])
    case 1
    then show ?thesis using True f m by (simp add: process_syn_rcvd_def process_good_def outcome_def)
  next
    case 2
    show ?thesis
    proof (cases "err = ERR_OK")
      case True2: True
      have m': "pcb_state (pcb m) = ESTABLISHED \<or> pcb_state (pcb m) = FIN_WAIT_1" "rcv_nxt (pcb m) = rcv_nxt (pcb n)"
        "keeps_rx n m"
        using 2(2) by (auto simp: app_step_def app_moves_def keeps_rx_def)
      show ?thesis
        using accepted_good [OF seg n(1-3) m'] True f m True2 by (simp add: process_syn_rcvd_def)
    next
      case False
      then show ?thesis
        using True f m 2(1) by (auto simp: process_syn_rcvd_def process_good_def outcome_def abort_freed split: prod.splits)
    qed
  qed
next
  case False
  have "rx_view (reset_peer i n) = rx_view n" by (simp add: reset_peer_def view_simps)
  moreover have "synchronized (pcb_state (pcb n))" by (simp add: n(1) synchronized_def)
  moreover have "rx_view (map_pcb tcp_rexmit n) = rx_view n" by (simp add: view_simps)
  ultimately show ?thesis
    using False arrived_nothing [of _ n r S b i] n(2) seg(3) by (auto simp: process_syn_rcvd_def)
qed

lemma rst_good:
  assumes "synchronized (pcb_state (pcb n))" "r \<le> length S"
    "pcb_state (pcb n) < CLOSE_WAIT \<longrightarrow> rcv_nxt (pcb n) = b + of_nat r"
  shows "\<exists>x. process_rst i n = Inr x \<and> process_good S b r i n x"
proof -
  have "pcb_state (pcb n) \<noteq> CLOSED" using assms(1) by (auto simp: synchronized_def state_order)
  then show ?thesis
    using arrived_nothing [of n n r S b i] assms
    by (auto simp: process_rst_def Let_def process_good_def outcome_def TF_RESET_def)
qed

text \<open>The segments an active connection gets: of the stream, or control segments.\<close>

definition incoming :: "bytes \<Rightarrow> u32 \<Rightarrow> nat \<Rightarrow> tcp_input \<Rightarrow> net \<Rightarrow> bool" where
  "incoming S b r i n \<longleftrightarrow> options_inside i \<and> (control i n \<or> (\<exists>k L. segment_of S b k L i \<and> near k r))"

lemma process_good_cong:
  "rx_view m = rx_view n \<Longrightarrow> process_good S b r i m x = process_good S b r i n x"
  by (simp add: process_good_def arrived_def rx_view_def)

lemma tcp_process_good:
  assumes env: "env_ok env" and i: "incoming S b r i n" and r: "r \<le> length S"
    and st: "synchronized (pcb_state (pcb n))" "pcb_state (pcb n) \<noteq> TIME_WAIT" "\<not> pcb_freed n"
    and nxt: "pcb_state (pcb n) < CLOSE_WAIT \<longrightarrow> rcv_nxt (pcb n) = b + of_nat r"
    and q: "refused_data (pcb n) = None \<or> in_tcplen i = 0"
  shows "\<exists>x. tcp_process env i n = Inr x \<and> process_good S b r i n x"
proof -
  define p where "p = (if pcb_flags (pcb n) AND TF_RXCLOSED = 0 then (pcb n)\<lparr>pcb_tmr := tcp_ticks n\<rparr> else pcb n)\<lparr>keep_cnt_sent := 0\<rparr>"
  obtain mss where mss: "tcp_parseopt i p = Inr (p\<lparr>pcb_mss := mss\<rparr>)"
    using tcp_parseopt_inside [of i p] i by (auto simp: incoming_def)
  define m where "m = n\<lparr>pcb := p\<lparr>pcb_mss := mss\<rparr>\<rparr>"
  have vm: "rx_view m = rx_view n" by (simp add: m_def p_def view_simps)
  have st': "pcb_state (pcb n) \<noteq> CLOSED" "pcb_state (pcb n) \<noteq> LISTEN" "pcb_state (pcb n) \<noteq> SYN_SENT"
    using st(1) by (auto simp: synchronized_def state_order)
  have proc: "tcp_process env i n
      = (if has TCP_RST i then process_rst i n
         else if has TCP_SYN i \<and> pcb_state (pcb n) \<noteq> SYN_RCVD then Inr (outcome ERR_OK (map_pcb tcp_ack_now n))
         else if pcb_state (pcb n) = SYN_RCVD then process_syn_rcvd env i m
         else map_sum id (\<lambda>x. ok_rx (after_receive (pcb_state (pcb n)) i x)) (tcp_receive i m))"
    using st' st(2) mss by (simp add: tcp_process_def Let_def m_def p_def)
  have idle: "process_good S b r i n (outcome ERR_OK m')" if "rx_view m' = rx_view n" for m'
    by (rule arrived_nothing [OF that st(1) r nxt])
  consider (rst) "has TCP_RST i" | (syn) "\<not> has TCP_RST i" "has TCP_SYN i"
    | (seg) k L where "\<not> has TCP_RST i" "\<not> has TCP_SYN i" "segment_of S b k L i" "near k r"
  proof -
    have "\<not> has TCP_SYN i" if "segment_of S b k L i" for k L using that by (auto simp: segment_of_def has_def)
    then show thesis using that i unfolding incoming_def control_def by blast
  qed
  then show ?thesis
  proof cases
    case rst
    then show ?thesis using proc rst_good [OF st(1) r nxt] by simp
  next
    case syn
    have c: "control i n" using i syn(2) by (auto simp: incoming_def segment_of_def has_def)
    show ?thesis
    proof (cases "pcb_state (pcb n) = SYN_RCVD")
      case True
      have rex: "rx_view (map_pcb tcp_rexmit m) = rx_view n" by (simp add: view_simps vm)
      have "tcp_process env i n = Inr (outcome ERR_OK (map_pcb tcp_rexmit m)) \<or> tcp_process env i n = Inr (outcome ERR_OK m)"
        using True c syn proc by (auto simp: control_def process_syn_rcvd_def)
      then show ?thesis using idle [OF rex] idle [OF vm] by blast
    next
      case False
      have "rx_view (map_pcb tcp_ack_now n) = rx_view n" by (simp add: view_simps)
      then show ?thesis using False syn proc idle by simp
    qed
  next
    case seg
    have vm': "rcv_nxt (pcb m) = rcv_nxt (pcb n)" "refused_data (pcb m) = refused_data (pcb n)"
      "pcb_state (pcb m) = pcb_state (pcb n)" "pcb_freed m = pcb_freed n" using vm by (simp_all add: rx_view_def)
    show ?thesis
    proof (cases "pcb_state (pcb n) = SYN_RCVD")
      case True
      then have "rcv_nxt (pcb m) = b + of_nat r" using nxt vm' by (simp add: state_order)
      then show ?thesis
        using syn_rcvd_good [OF env seg(3,4) r, of m] True proc seg vm' q st(3)
        by (simp add: process_good_cong [OF vm])
    next
      case False
      then have e: "ESTABLISHED \<le> pcb_state (pcb m)"
        using st(1) vm' by (cases "pcb_state (pcb n)") (auto simp: synchronized_def state_order)
      obtain x where x: "tcp_receive i m = Inr x" "brings S b r i (pcb_state (pcb m)) x" "keeps_rx m (rx_net x)"
        "pcb_state (pcb (rx_net x)) = pcb_state (pcb m)"
        using receive_brings [OF seg(3,4) r _ e] nxt vm' by auto
      have "process_good S b r i m (ok_rx (after_receive (pcb_state (pcb m)) i x))"
        by (rule after_receive_good [OF x(2,3,4) e]) (use st(2) q vm' in simp_all)
      then show ?thesis using proc False seg x(1) vm' by (simp add: process_good_cong [OF vm])
    qed
  qed
qed

subsection \<open>The connection and its stream\<close>

fun taken_data :: "upcall list \<Rightarrow> bytes" where
  "taken_data [] = []"
| "taken_data (Recv_up data err # log) = (if err = ERR_OK then concat data else []) @ taken_data log"
| "taken_data (_ # log) = taken_data log"

definition eof_seen :: "upcall list \<Rightarrow> nat" where
  "eof_seen log = length (filter ((=) Closed_up) log)"

lemma taken_data_append [simp]: "taken_data (a @ b) = taken_data a @ taken_data b"
  by (induction a rule: taken_data.induct) simp_all

lemma eof_seen_simps [simp]:
  "eof_seen [] = 0" "eof_seen (u # log) = of_bool (u = Closed_up) + eof_seen log"
  "eof_seen (a @ b) = eof_seen a + eof_seen b"
  by (auto simp: eof_seen_def)

text \<open>
  \<open>D\<close> is what the application has taken, \<open>C\<close> how often it was told of the end. The refused data
  comes next. After TIME-WAIT was entered over refused data that data is lost.
\<close>

definition refused :: "net \<Rightarrow> bytes" where
  "refused n = (case refused_data (pcb n) of None \<Rightarrow> [] | Some (ps, _) \<Rightarrow> concat ps)"

definition in_stream :: "bytes \<Rightarrow> u32 \<Rightarrow> bytes \<Rightarrow> nat \<Rightarrow> net \<Rightarrow> bool" where
  "in_stream S b D C n \<longleftrightarrow>
     synchronized (pcb_state (pcb n)) \<and> length (D @ refused n) \<le> length S
     \<and> D @ refused n = take (length (D @ refused n)) S
     \<and> (if pcb_state (pcb n) < CLOSE_WAIT
        then C = 0 \<and> rcv_nxt (pcb n) = b + of_nat (length (D @ refused n))
          \<and> (\<forall>ps f. refused_data (pcb n) = Some (ps, f) \<longrightarrow> \<not> f)
        else (case refused_data (pcb n) of
                Some (ps, f) \<Rightarrow> f \<and> C = 0 \<and> D @ refused n = S
              | None \<Rightarrow> (C = 1 \<and> D = S) \<or> (C = 0 \<and> pcb_state (pcb n) = TIME_WAIT)))"

text \<open>What may be said of a connection that is gone.\<close>

definition stream_prefix :: "bytes \<Rightarrow> bytes \<Rightarrow> nat \<Rightarrow> bool" where
  "stream_prefix S D C \<longleftrightarrow> D = take (length D) S \<and> (C = 0 \<or> C = 1 \<and> D = S)"

lemma in_stream_prefix: "in_stream S b D C n \<Longrightarrow> stream_prefix S D C"
  by (auto simp: in_stream_def stream_prefix_def append_eq_conv_conj take_Cons' min_def split: if_splits option.splits)

text \<open>What every step ends with; a connection that is gone keeps what it has delivered.\<close>

definition stays :: "bytes \<Rightarrow> u32 \<Rightarrow> bytes \<Rightarrow> nat \<Rightarrow> net \<Rightarrow> bool" where
  "stays S b D C n \<longleftrightarrow> stream_prefix S D C \<and> (\<not> pcb_freed n \<longrightarrow> in_stream S b D C n)"

lemma stays_in: "in_stream S b D C n \<Longrightarrow> stays S b D C n"
  by (simp add: stays_def in_stream_prefix)

lemma in_stream_cong: "rx_view m = rx_view n \<Longrightarrow> in_stream S b D C m = in_stream S b D C n"
  by (cases "refused_data (pcb n)") (auto simp: in_stream_def refused_def rx_view_def)

lemma app_moves_order:
  "app_moves s t \<Longrightarrow> CLOSE_WAIT \<le> t \<longleftrightarrow> CLOSE_WAIT \<le> s" "app_moves s t \<Longrightarrow> synchronized t \<longleftrightarrow> synchronized s"
  "app_moves s t \<Longrightarrow> t < CLOSE_WAIT \<longleftrightarrow> s < CLOSE_WAIT" "app_moves s t \<Longrightarrow> t = TIME_WAIT \<longleftrightarrow> s = TIME_WAIT"
  "app_moves s t \<Longrightarrow> t = SYN_RCVD \<Longrightarrow> s = SYN_RCVD"
  by (auto simp: app_moves_def synchronized_def state_order)

lemma in_stream_app: "app_step m n \<Longrightarrow> in_stream S b D C m \<Longrightarrow> in_stream S b D C n"
  using app_moves_order [of "pcb_state (pcb m)" "pcb_state (pcb n)"]
  by (cases "refused_data (pcb m)") (auto simp: app_step_def in_stream_def refused_def)

text \<open>
  Inside \<open>tcp_input\<close>: \<open>T\<close> is the stream up to the last byte received, \<open>f\<close> says whether the FIN was.
\<close>

definition pending :: "bytes \<Rightarrow> u32 \<Rightarrow> bytes \<Rightarrow> bool \<Rightarrow> net \<Rightarrow> bool" where
  "pending S b T f n \<longleftrightarrow> synchronized (pcb_state (pcb n)) \<and> length T \<le> length S \<and> T = take (length T) S
     \<and> (CLOSE_WAIT \<le> pcb_state (pcb n) \<longleftrightarrow> f) \<and> (f \<longrightarrow> T = S)
     \<and> (\<not> f \<longrightarrow> rcv_nxt (pcb n) = b + of_nat (length T))"

lemma pending_app: "app_step m n \<Longrightarrow> pending S b T f m \<Longrightarrow> pending S b T f n"
  using app_moves_order [of "pcb_state (pcb m)" "pcb_state (pcb n)"] by (simp add: app_step_def pending_def)

lemma pending_cong:
  "rcv_nxt (pcb m) = rcv_nxt (pcb n) \<Longrightarrow> pcb_state (pcb m) = pcb_state (pcb n) \<Longrightarrow> pending S b T f m = pending S b T f n"
  by (simp add: pending_def)

lemma pending_prefix:
  assumes "pending S b (D @ Q) f n"
  shows "stream_prefix S D 0" "f \<Longrightarrow> Q = [] \<Longrightarrow> stream_prefix S D 1"
proof -
  have "D @ Q = take (length (D @ Q)) S" using assms by (simp add: pending_def)
  then have "S = D @ Q @ drop (length (D @ Q)) S" by (metis append_assoc append_take_drop_id)
  then have "take (length D) S = D" by (metis append_eq_conv_conj)
  then show "stream_prefix S D 0" by (simp add: stream_prefix_def)
  then show "f \<Longrightarrow> Q = [] \<Longrightarrow> stream_prefix S D 1" using assms by (auto simp: stream_prefix_def pending_def)
qed

lemma pending_in_stream:
  assumes "pending S b (D @ refused n) f n"
    and "if f then (case refused_data (pcb n) of Some (ps, g) \<Rightarrow> g \<and> C = 0 | None \<Rightarrow> C = 1)
      else C = 0 \<and> (\<forall>ps g. refused_data (pcb n) = Some (ps, g) \<longrightarrow> \<not> g)"
  shows "in_stream S b D C n"
  using assms by (cases f) (auto simp: pending_def in_stream_def refused_def not_le split: option.splits if_splits)

lemma signal_eof_stays:
  assumes "env_ok env" "pending S b D True n" "refused_data (pcb n) = None" "\<not> pcb_freed n"
    and e: "signal_eof env n = (err, n', log)"
  shows "taken_data log = []" "eof_seen log = 1" "stays S b D 1 n'" "err = ERR_ABRT \<or> app_step n n'"
proof -
  obtain err' where c: "tcp_event_closed env (map_pcb fin_credit n) = (err', n')" "log = [Closed_up]"
    "err = (if err' = ERR_ABRT then ERR_ABRT else ERR_OK)"
    using e by (auto simp: signal_eof_def split: prod.splits)
  then show "taken_data log = []" "eof_seen log = 1" by simp_all
  have v: "rx_view (map_pcb fin_credit n) = rx_view n" by (simp add: fin_credit_def view_simps)
  have fr: "\<not> pcb_freed (map_pcb fin_credit n)" using assms(4) by simp
  have pre: "stream_prefix S D 1" using assms(2) pending_prefix(2) [of S b D "[]" True n] by simp
  have "(err' = ERR_ABRT \<and> pcb_freed n') \<or> (err' \<noteq> ERR_ABRT \<and> app_step n n')"
    using callback_cases [OF closed_ok [OF assms(1)] fr c(1)] v by (auto simp: app_step_def rx_view_def)
  then show "stays S b D 1 n'" "err = ERR_ABRT \<or> app_step n n'"
    using pre pending_in_stream [of S b D n' True 1] pending_app [of n n'] assms(2,3) c(3)
    by (auto simp: stays_def app_step_def refused_def)
qed

lemma refused_retry:
  assumes env: "env_ok env" and inv: "in_stream S b D C n" and n: "\<not> pcb_freed n" "refused_data (pcb n) \<noteq> None"
  shows "\<exists>err n' log. tcp_process_refused_data env n = Inr (err, n', log)
    \<and> stays S b (D @ taken_data log) (C + eof_seen log) n'
    \<and> (if err = ERR_ABRT then True
       else \<not> pcb_freed n' \<and> app_moves (pcb_state (pcb n)) (pcb_state (pcb n'))
         \<and> D @ taken_data log @ refused n' = D @ refused n)"
proof -
  obtain data fin where q: "refused_data (pcb n) = Some (data, fin)" using n(2) by auto
  define m where "m = map_pcb (\<lambda>p. p\<lparr>refused_data := None\<rparr>) n"
  have C: "C = 0" using inv q by (auto simp: in_stream_def split: if_splits)
  have ref: "refused n = concat data" by (simp add: refused_def q)
  have fin: "fin \<longleftrightarrow> CLOSE_WAIT \<le> pcb_state (pcb n)" using inv q by (auto simp: in_stream_def split: if_splits)
  have pend: "pending S b (D @ concat data) fin m"
    using inv fin by (auto simp: in_stream_def pending_def ref q m_def not_le split: if_splits)
  obtain err k where r: "tcp_event_recv env data m = (err, k)" by fastforce
  have fm: "\<not> pcb_freed m" using n(1) by (simp add: m_def)
  have mv: "app_moves (pcb_state (pcb n)) (pcb_state (pcb m))" "refused_data (pcb m) = None"
    by (simp_all add: m_def app_moves_def)
  show ?thesis
  proof (cases rule: callback_cases [OF recv_ok [OF env] fm r])
    case 1
    then have "tcp_process_refused_data env n = Inr (ERR_ABRT, k, [Recv_up data err])"
      using q r by (simp add: tcp_process_refused_data_def m_def)
    then show ?thesis using 1 in_stream_prefix [OF inv] by (simp add: stays_def)
  next
    case 2
    have k: "refused_data (pcb k) = None" "\<not> pcb_freed k" "pcb_state (pcb m) = pcb_state (pcb n)"
      using 2(2) mv fm by (simp_all add: app_step_def m_def)
    have pk: "pending S b (D @ concat data) fin k" by (rule pending_app [OF 2(2) pend])
    consider (ok) "err = ERR_OK" "\<not> fin" | (fin) "err = ERR_OK" "fin" | (no) "err \<noteq> ERR_OK" by blast
    then show ?thesis
    proof cases
      case ok
      then have "tcp_process_refused_data env n = Inr (ERR_OK, k, [Recv_up data ERR_OK])"
        using q r by (simp add: tcp_process_refused_data_def m_def)
      moreover have "in_stream S b (D @ concat data) 0 k"
        using pending_in_stream [of S b "D @ concat data" k False 0] pk ok(2) k(1) by (simp add: refused_def)
      ultimately show ?thesis
        using k 2(2) C ref by (auto simp: stays_in refused_def app_step_def)
    next
      case fin
      obtain err' n' log where e: "signal_eof env k = (err', n', log)" by (cases "signal_eof env k") auto
      note se = signal_eof_stays [OF env _ k(1,2) e, of S b "D @ concat data"]
      have "tcp_process_refused_data env n = Inr (err', n', Recv_up data ERR_OK # log)"
        using q r fin e by (simp add: tcp_process_refused_data_def m_def)
      moreover have "app_moves s u" if "app_moves s t" "app_moves t u" for s t u
        using that by (auto simp: app_moves_def)
      ultimately show ?thesis
        using se pk fin k 2(2) C ref by (fastforce simp: refused_def app_step_def)
    next
      case no
      let ?n = "map_pcb (\<lambda>p. p\<lparr>refused_data := Some (data, fin)\<rparr>) k"
      have "tcp_process_refused_data env n = Inr (ERR_OK, ?n, [Recv_up data err])"
        using q r no 2(1) by (simp add: tcp_process_refused_data_def m_def)
      moreover have "in_stream S b D 0 ?n"
      proof (rule pending_in_stream [of _ _ _ _ fin])
        show "pending S b (D @ refused ?n) fin ?n"
          using pk pending_cong [of ?n k] by (simp add: refused_def)
      qed simp
      ultimately show ?thesis
        using k 2(2) C ref no by (auto simp: stays_in refused_def app_step_def)
    qed
  qed
qed

lemma app_step_refl [simp]: "app_step n n"
  by (simp add: app_step_def app_moves_def)

lemma input_sent_cases:
  assumes "env_ok env" "\<not> pcb_freed n" "input_sent env n = (err, n')"
  obtains "err = ERR_ABRT" "pcb_freed n'" | "err \<noteq> ERR_ABRT" "app_step n n'"
proof (cases "pcb_acked (pcb n) > 0 \<and> sent_cb (pcb n)")
  case True
  then have s: "on_sent env (pcb_acked (pcb n)) n = (err, n')" using assms(3) by (simp add: input_sent_def)
  have "callback_ok (on_sent env (pcb_acked (pcb n)))" using assms(1) by (simp add: env_ok_def)
  from callback_cases [OF this assms(2) s] that show thesis by blast
next
  case False
  then show thesis using assms(3) that(2) by (auto simp: input_sent_def)
qed

lemma input_recv_pending:
  assumes env: "env_ok env" and n: "\<not> pcb_freed n" "refused_data (pcb n) = None"
    and pend: "pending S b (D @ concat (rx_data x)) f n"
  shows "\<exists>err n' log. input_recv env x n = Inr (err, n', log) \<and> eof_seen log = 0
    \<and> (if err = ERR_ABRT then pcb_freed n' \<and> taken_data log = []
       else \<not> pcb_freed n' \<and> D @ concat (rx_data x) = (D @ taken_data log) @ refused n'
         \<and> pending S b (D @ concat (rx_data x)) f n'
         \<and> (\<forall>ps g. refused_data (pcb n') = Some (ps, g) \<longrightarrow> \<not> g))"
proof -
  consider (none) "rx_data x = []" | (closed) "rx_data x \<noteq> []" "pcb_flags (pcb n) AND TF_RXCLOSED \<noteq> 0"
    | (recv) "rx_data x \<noteq> []" "pcb_flags (pcb n) AND TF_RXCLOSED = 0" by blast
  then show ?thesis
  proof cases
    case none
    then show ?thesis using n pend by (simp add: input_recv_def refused_def)
  next
    case closed
    obtain n' log where a: "abort_pcb n = (n', log)" by fastforce
    have "taken_data log = []" "eof_seen log = 0"
      using a by (auto simp: abort_pcb_def split: prod.splits option.splits)
    then show ?thesis using closed n(2) a abort_freed [OF a] by (simp add: input_recv_def)
  next
    case recv
    obtain err k where r: "tcp_event_recv env (rx_data x) n = (err, k)" by fastforce
    show ?thesis
    proof (cases rule: callback_cases [OF recv_ok [OF env] n(1) r])
      case 1
      then show ?thesis using recv r n(2) by (simp add: input_recv_def)
    next
      case 2
      have k: "refused_data (pcb k) = None" "\<not> pcb_freed k" using 2(2) n by (simp_all add: app_step_def)
      have pk: "pending S b (D @ concat (rx_data x)) f k" by (rule pending_app [OF 2(2) pend])
      show ?thesis
      proof (cases "err = ERR_OK")
        case True
        then show ?thesis using recv r n(2) k pk by (simp add: input_recv_def refused_def)
      next
        case False
        let ?n = "map_pcb (\<lambda>p. p\<lparr>refused_data := Some (rx_data x, False)\<rparr>) k"
        have "pending S b (D @ concat (rx_data x)) f ?n" using pk pending_cong [of ?n k] by simp
        then show ?thesis using False 2(1) recv r n(2) k by (simp add: input_recv_def refused_def)
      qed
    qed
  qed
qed

lemma input_eof_pending:
  assumes env: "env_ok env" and n: "\<not> pcb_freed n" "\<forall>ps g. refused_data (pcb n) = Some (ps, g) \<longrightarrow> \<not> g"
    and pend: "pending S b (D @ refused n) (got_fin x) n"
  shows "\<exists>err n' log. input_eof env x n = (err, n', log) \<and> taken_data log = [] \<and> stays S b D (eof_seen log) n'"
proof (cases "got_fin x")
  case False
  then show ?thesis
    using pend n pending_in_stream [of S b D n False 0] by (simp add: input_eof_def stays_in)
next
  case True
  show ?thesis
  proof (cases "refused_data (pcb n)")
    case None
    obtain err n' log where e: "signal_eof env n = (err, n', log)" by (cases "signal_eof env n") auto
    have "pending S b D True n" using pend True None by (simp add: refused_def)
    from signal_eof_stays [OF env this None n(1) e] show ?thesis using True None e by (simp add: input_eof_def)
  next
    case (Some q)
    obtain data g where q: "q = (data, g)" by fastforce
    let ?n = "map_pcb (\<lambda>p. p\<lparr>refused_data := Some (data, True)\<rparr>) n"
    have "refused ?n = refused n" by (simp add: refused_def Some q)
    then have "pending S b (D @ refused ?n) True ?n" using pend True pending_cong [of ?n n] by simp
    then have "in_stream S b D 0 ?n" using pending_in_stream [of S b D ?n True 0] by simp
    then show ?thesis using True Some q by (simp add: input_eof_def stays_in)
  qed
qed

lemma stays_cong: "rx_view m = rx_view n \<Longrightarrow> stays S b D C m = stays S b D C n"
  using in_stream_cong [of m n S b D C] by (auto simp: stays_def rx_view_def)

lemma stays_freed: "stream_prefix S D C \<Longrightarrow> pcb_freed n \<Longrightarrow> stays S b D C (aborted n)"
  by (simp add: stays_def aborted_def)

text \<open>The callbacks after \<open>tcp_process\<close>, for a segment that brings something or comes when nothing is refused.\<close>

lemma deliver_pending:
  assumes env: "env_ok env" and n: "\<not> pcb_freed n" "refused_data (pcb n) = None"
    and pend: "pending S b (D @ concat (rx_data x)) (got_fin x) n"
  shows "\<exists>n' log. input_deliver env x n = Inr (n', log) \<and> stays S b (D @ taken_data log) (eof_seen log) n'"
proof -
  have pre: "stream_prefix S D 0" by (rule pending_prefix(1) [OF pend])
  obtain e1 n1 where s: "input_sent env n = (e1, n1)" by fastforce
  show ?thesis
  proof (cases rule: input_sent_cases [OF env n(1) s])
    case 1
    then show ?thesis using s pre by (simp add: input_deliver_def stays_freed)
  next
    case 2
    have n1: "\<not> pcb_freed n1" "refused_data (pcb n1) = None" using 2(2) n by (simp_all add: app_step_def)
    obtain e2 n2 log where r: "input_recv env x n1 = Inr (e2, n2, log)" "eof_seen log = 0"
      "if e2 = ERR_ABRT then pcb_freed n2 \<and> taken_data log = []
       else \<not> pcb_freed n2 \<and> D @ concat (rx_data x) = (D @ taken_data log) @ refused n2
         \<and> pending S b (D @ concat (rx_data x)) (got_fin x) n2
         \<and> (\<forall>ps g. refused_data (pcb n2) = Some (ps, g) \<longrightarrow> \<not> g)"
      using input_recv_pending [OF env n1 pending_app [OF 2(2) pend]] by blast
    show ?thesis
    proof (cases "e2 = ERR_ABRT")
      case True
      then show ?thesis using s 2 r pre by (simp add: input_deliver_def stays_freed)
    next
      case False
      have q: "\<not> pcb_freed n2" "\<forall>ps g. refused_data (pcb n2) = Some (ps, g) \<longrightarrow> \<not> g"
        "pending S b ((D @ taken_data log) @ refused n2) (got_fin x) n2" using r(3) False by (auto simp only: if_False)
      obtain e3 n3 log' where e: "input_eof env x n2 = (e3, n3, log')" "taken_data log' = []"
        "stays S b (D @ taken_data log) (eof_seen log') n3"
        using input_eof_pending [OF env q] by blast
      have "stays S b (D @ taken_data log) (eof_seen log') (snd (tcp_output (n3\<lparr>in_input := False\<rparr>)))"
        using e(3) stays_cong [of "snd (tcp_output (n3\<lparr>in_input := False\<rparr>))" n3] by (simp add: view_simps)
      moreover have "stays S b (D @ taken_data log) (eof_seen log') (aborted n3)"
        using e(3) stays_cong [of "aborted n3" n3] by (simp add: aborted_def view_simps)
      ultimately show ?thesis using s 2 r(1,2) False e(1,2) by (simp add: input_deliver_def)
    qed
  qed
qed

text \<open>A segment that brings nothing.\<close>

lemma deliver_nothing:
  assumes env: "env_ok env" and n: "\<not> pcb_freed n" and inv: "in_stream S b D C n"
    and x: "rx_data x = []" "\<not> got_fin x"
  shows "\<exists>n' log. input_deliver env x n = Inr (n', log) \<and> stays S b (D @ taken_data log) (C + eof_seen log) n'"
proof -
  obtain e1 n1 where s: "input_sent env n = (e1, n1)" by fastforce
  show ?thesis
  proof (cases rule: input_sent_cases [OF env n s])
    case 1
    then show ?thesis using s in_stream_prefix [OF inv] by (simp add: input_deliver_def stays_freed)
  next
    case 2
    have "in_stream S b D C n1" by (rule in_stream_app [OF 2(2) inv])
    then have "in_stream S b D C (snd (tcp_output (n1\<lparr>in_input := False\<rparr>)))"
      using in_stream_cong [of "snd (tcp_output (n1\<lparr>in_input := False\<rparr>))" n1] by (simp add: view_simps)
    then show ?thesis using s 2 x by (simp add: input_deliver_def input_recv_def input_eof_def stays_in)
  qed
qed

lemma tcp_process_log: "tcp_process env i n = Inr x \<Longrightarrow> taken_data (pr_log x) = [] \<and> eof_seen (pr_log x) = 0"
  by (auto simp: tcp_process_def process_rst_def process_syn_sent_def process_syn_rcvd_def accepted_def outcome_def
      ok_rx_def abort_pcb_def Let_def map_sum_def split: if_splits sum.splits prod.splits option.splits)

lemma arrived_in_stream:
  assumes "arrived S b (length (D @ refused n)) i n x" "in_stream S b D C n" "rx_data x = []" "\<not> got_fin x"
    and tw: "pcb_state (pcb n) \<noteq> TIME_WAIT"
  shows "in_stream S b D C (rx_net x)"
proof -
  have same: "CLOSE_WAIT \<le> pcb_state (pcb (rx_net x)) \<longleftrightarrow> CLOSE_WAIT \<le> pcb_state (pcb n)"
    "synchronized (pcb_state (pcb (rx_net x)))"
    using assms(1,4) by (auto simp: arrived_def)
  consider (kept) "refused_data (pcb (rx_net x)) = refused_data (pcb n)"
    | (lost) "refused_data (pcb (rx_net x)) = None" "pcb_state (pcb (rx_net x)) = TIME_WAIT" "CLOSE_WAIT \<le> pcb_state (pcb n)"
    using assms(1) by (auto simp: arrived_def)
  then show ?thesis
  proof cases
    case kept
    have "rcv_nxt (pcb (rx_net x)) = b + of_nat (length (D @ refused n))" if st: "pcb_state (pcb n) < CLOSE_WAIT"
    proof -
      obtain c where "[] = take c (drop (length (D @ refused n)) S)" "length (D @ refused n) + c \<le> length S"
        "rcv_nxt (pcb (rx_net x)) = b + of_nat (length (D @ refused n) + c)"
        using assms(1,3,4) st by (auto simp: arrived_def brings_def)
      moreover have "c = 0 \<or> length S \<le> length (D @ refused n)" using calculation(1) by auto
      moreover have "c = 0" using calculation(2,4) by linarith
      ultimately show ?thesis by simp
    qed
    then show ?thesis
      using assms(2) same kept tw
      by (cases "refused_data (pcb n)"; cases "pcb_state (pcb n) < CLOSE_WAIT")
         (auto simp: in_stream_def refused_def not_le leD not_less)
  next
    case lost
    then have ge: "\<not> pcb_state (pcb n) < CLOSE_WAIT" "\<not> TIME_WAIT < CLOSE_WAIT" by (simp_all add: state_order)
    have "stream_prefix S D C" by (rule in_stream_prefix [OF assms(2)])
    moreover have "C = 0 \<or> C = 1 \<and> D = S" using calculation by (simp add: stream_prefix_def)
    moreover have "length D \<le> length S" using assms(2) by (simp add: in_stream_def)
    ultimately show ?thesis
      using lost ge same by (auto simp: in_stream_def refused_def stream_prefix_def)
  qed
qed

lemma arrived_pending:
  assumes "arrived S b (length (D @ refused n)) i n x" "in_stream S b D C n" "rx_data x \<noteq> [] \<or> got_fin x"
    and "refused_data (pcb n) = None \<or> in_tcplen i = 0"
  shows "pending S b (D @ concat (rx_data x)) (got_fin x) (rx_net x)" "refused_data (pcb (rx_net x)) = None" "C = 0"
proof -
  have n: "pcb_state (pcb n) < CLOSE_WAIT" "refused_data (pcb n) = None"
    using assms(1,3,4) by (cases "pcb_state (pcb n) < CLOSE_WAIT"; auto simp: arrived_def brings_def)+
  show "C = 0" using assms(2) n(1) by (simp add: in_stream_def)
  show "refused_data (pcb (rx_net x)) = None" using assms(1) n by (auto simp: arrived_def)
  obtain c where c: "concat (rx_data x) = take c (drop (length D) S)" "length D + c \<le> length S"
    "if got_fin x then length D + c = length S else rcv_nxt (pcb (rx_net x)) = b + of_nat (length D + c)"
    using assms(1) n by (auto simp: arrived_def brings_def refused_def)
  have D: "D = take (length D) S" using assms(2) n by (simp add: in_stream_def refused_def)
  have T: "D @ concat (rx_data x) = take (length D + c) S" using D c(1) by (simp add: take_add)
  moreover have "length (concat (rx_data x)) = c" using c(1,2) by simp
  ultimately show "pending S b (D @ concat (rx_data x)) (got_fin x) (rx_net x)"
    using assms(1) n c by (cases "got_fin x") (auto simp: pending_def arrived_def not_le)
qed

lemma input_process_stays:
  assumes env: "env_ok env" and inv: "in_stream S b D C n" and i: "incoming S b (length (D @ refused n)) i n"
    and n: "\<not> pcb_freed n" "pcb_state (pcb n) \<noteq> TIME_WAIT" "refused_data (pcb n) = None \<or> in_tcplen i = 0"
  shows "\<exists>n' log. input_process env i n = Inr (n', log) \<and> stays S b (D @ taken_data log) (C + eof_seen log) n'"
proof -
  let ?m = "n\<lparr>in_input := True\<rparr>"
  let ?r = "length (D @ refused n)"
  have pre: "stream_prefix S D C" by (rule in_stream_prefix [OF inv])
  have vm: "rx_view ?m = rx_view n" by (simp add: view_simps)
  have im: "incoming S b ?r i ?m" using i by (simp add: incoming_def control_def)
  have nxt: "?r \<le> length S" "synchronized (pcb_state (pcb ?m))"
    "pcb_state (pcb ?m) < CLOSE_WAIT \<longrightarrow> rcv_nxt (pcb ?m) = b + of_nat ?r"
    using inv by (auto simp: in_stream_def)
  have mm: "pcb_state (pcb ?m) \<noteq> TIME_WAIT" "\<not> pcb_freed ?m" "refused_data (pcb ?m) = None \<or> in_tcplen i = 0"
    using n by simp_all
  obtain x where x: "tcp_process env i ?m = Inr x" "process_good S b ?r i ?m x"
    using tcp_process_good [OF env im nxt(1,2) mm(1,2) nxt(3) mm(3)] by blast
  note log = tcp_process_log [OF x(1)]
  have freed: "pcb_freed (fst (drop_pcb e k))" "taken_data (snd (drop_pcb e k)) = []" "eof_seen (snd (drop_pcb e k)) = 0"
    for e k by (simp_all add: drop_pcb_def memp_free_pcb_def)
  consider (abrt) "pr_err x = ERR_ABRT" | (reset) "pr_err x \<noteq> ERR_ABRT" "rx_flags x AND TF_RESET \<noteq> 0"
    | (closed) "pr_err x \<noteq> ERR_ABRT" "rx_flags x AND TF_RESET = 0" "rx_flags x AND TF_CLOSED \<noteq> 0"
    | (arr) "pr_err x \<noteq> ERR_ABRT" "rx_flags x AND TF_RESET = 0" "rx_flags x AND TF_CLOSED = 0"
        "arrived S b ?r i n (rx.truncate x)"
    using x(2) unfolding process_good_cong [OF vm] by (auto simp: process_good_def split: if_splits)
  then show ?thesis
  proof cases
    case abrt
    then show ?thesis using x log pre by (simp add: input_process_def Let_def process_good_def stays_freed)
  next
    case reset
    then show ?thesis
      using x(1) pre freed [of ERR_RST "rx_net x"]
      by (auto simp: input_process_def Let_def stays_freed split: prod.splits)
  next
    case closed
    then show ?thesis
      using x(1) pre freed [of ERR_CLSD "rx_net x"]
      by (auto simp: input_process_def Let_def stays_freed split: prod.splits)
  next
    case arr
    let ?y = "rx.truncate x"
    have net: "rx_net ?y = rx_net x" by (simp add: rx.truncate_def)
    have fr: "\<not> pcb_freed (rx_net ?y)" using arr(4) n(1) by (simp add: arrived_def)
    have step: "input_process env i n = input_deliver env ?y (rx_net ?y)"
      using x(1) arr net by (simp add: input_process_def Let_def)
    show ?thesis
    proof (cases "rx_data ?y = [] \<and> \<not> got_fin ?y")
      case True
      then show ?thesis
        using step deliver_nothing [OF env fr] arrived_in_stream [OF arr(4) inv _ _ n(2)] by simp
    next
      case False
      then have ne: "rx_data ?y \<noteq> [] \<or> got_fin ?y" by blast
      note p = arrived_pending [OF arr(4) inv ne n(3)]
      show ?thesis using step deliver_pending [OF env fr p(2,1)] p(3) by simp
    qed
  qed
qed

lemma control_mono:
  "app_moves (pcb_state (pcb n)) (pcb_state (pcb n')) \<Longrightarrow> incoming S b r i n \<Longrightarrow> incoming S b r i n'"
  using app_moves_order(5) by (fastforce simp: incoming_def control_def)

lemma tcp_input_active_stays:
  assumes env: "env_ok env" and inv: "in_stream S b D C n" and i: "incoming S b (length (D @ refused n)) i n"
    and n: "\<not> pcb_freed n" "pcb_state (pcb n) \<noteq> TIME_WAIT"
  shows "\<exists>n' log. tcp_input_active env i n = Inr (n', log) \<and> stays S b (D @ taken_data log) (C + eof_seen log) n'"
proof (cases "refused_data (pcb n) = None")
  case True
  then show ?thesis using input_process_stays [OF env inv i n] by (simp add: tcp_input_active_def)
next
  case False
  obtain err m log where m: "tcp_process_refused_data env n = Inr (err, m, log)"
    "stays S b (D @ taken_data log) (C + eof_seen log) m"
    "err \<noteq> ERR_ABRT \<Longrightarrow> \<not> pcb_freed m \<and> app_moves (pcb_state (pcb n)) (pcb_state (pcb m))
       \<and> D @ taken_data log @ refused m = D @ refused n"
    using refused_retry [OF env inv n(1) False] by (auto split: if_splits)
  have v: "rx_view (aborted m) = rx_view m" by (simp add: aborted_def view_simps)
  show ?thesis
  proof (cases "err = ERR_ABRT \<or> refused_data (pcb m) \<noteq> None \<and> in_tcplen i > 0")
    case True
    then show ?thesis using m(1,2) False stays_cong [OF v] by (auto simp: tcp_input_active_def)
  next
    case False2: False
    have inv': "in_stream S b (D @ taken_data log) (C + eof_seen log) m" using m(2,3) False2 by (auto simp: stays_def)
    have "incoming S b (length ((D @ taken_data log) @ refused m)) i m"
      using control_mono [of n m S b "length (D @ refused n)" i] m(3) False2 i by simp
    moreover have "pcb_state (pcb m) \<noteq> TIME_WAIT" using m(3) False2 n(2) app_moves_order(4) by blast
    moreover have "refused_data (pcb m) = None \<or> in_tcplen i = 0" using False2 by (cases "refused_data (pcb m)") (auto simp: word_gt_0)
    ultimately show ?thesis
      using input_process_stays [OF env inv', of i] m False2 False
      by (auto simp: tcp_input_active_def add.assoc)
  qed
qed

lemma tcp_fasttmr_stays:
  assumes env: "env_ok env" and inv: "in_stream S b D C n" and n: "\<not> pcb_freed n"
  shows "\<exists>n' log. tcp_fasttmr env n = Inr (n', log) \<and> stays S b (D @ taken_data log) (C + eof_seen log) n'"
proof -
  define m where "m = (if pcb_flags (pcb n) AND TF_ACK_DELAY \<noteq> 0
    then map_pcb (clear_flag (TF_ACK_DELAY OR TF_ACK_NOW)) (snd (tcp_output (map_pcb tcp_ack_now n))) else n)"
  have v: "rx_view m = rx_view n" by (simp add: m_def view_simps)
  have m: "in_stream S b D C m" "\<not> pcb_freed m" using in_stream_cong [OF v] inv v n by (simp_all add: rx_view_def)
  have f: "tcp_fasttmr env n = (if refused_data (pcb m) = None then Inr (m, [])
      else map_sum id (\<lambda>(_, n, log). (n, log)) (tcp_process_refused_data env m))"
    by (simp add: tcp_fasttmr_def m_def Let_def)
  show ?thesis
  proof (cases "refused_data (pcb m) = None")
    case True
    then show ?thesis using f m(1) by (simp add: stays_in)
  next
    case False
    then show ?thesis using f refused_retry [OF env m(1,2) False] by (auto split: if_splits)
  qed
qed

lemma tcp_timewait_stays:
  assumes "in_stream S b D C n"
  shows "in_stream S b D C (snd (tcp_timewait_input i n))"
proof -
  have "rx_view (snd (tcp_timewait_input i n)) = rx_view n"
    by (auto simp: tcp_timewait_input_def Let_def reset_peer_def view_simps)
  then show ?thesis using in_stream_cong assms by blast
qed

subsection \<open>Runs of a connection\<close>

text \<open>
  A segment arrives, the fast timer runs, or the application and the other timers act. The state is what the
  application has taken, how often it was told of the end, and the connection. A segment in
  TIME-WAIT goes to \<open>tcp_timewait_input\<close>.
\<close>

inductive rx_step :: "bytes \<Rightarrow> u32 \<Rightarrow> bytes \<times> nat \<times> net \<Rightarrow> bytes \<times> nat \<times> net \<Rightarrow> bool"
  for S :: bytes and b :: u32 where
  Segment: "\<not> pcb_freed n \<Longrightarrow> pcb_state (pcb n) \<noteq> TIME_WAIT \<Longrightarrow> env_ok env \<Longrightarrow>
     incoming S b (length (D @ refused n)) i n \<Longrightarrow> tcp_input_active env i n = Inr (n', log) \<Longrightarrow>
     rx_step S b (D, C, n) (D @ taken_data log, C + eof_seen log, n')"
| Time_wait: "\<not> pcb_freed n \<Longrightarrow> pcb_state (pcb n) = TIME_WAIT \<Longrightarrow>
     rx_step S b (D, C, n) (D, C, snd (tcp_timewait_input i n))"
| Fast_timer: "\<not> pcb_freed n \<Longrightarrow> pcb_state (pcb n) \<noteq> TIME_WAIT \<Longrightarrow> env_ok env \<Longrightarrow>
     tcp_fasttmr env n = Inr (n', log) \<Longrightarrow> rx_step S b (D, C, n) (D @ taken_data log, C + eof_seen log, n')"
| App: "\<not> pcb_freed n \<Longrightarrow> app_step n n' \<Longrightarrow> rx_step S b (D, C, n) (D, C, n')"

lemma rx_step_stays:
  assumes "rx_step S b (D, C, n) (D', C', n')" "stays S b D C n"
  shows "stays S b D' C' n'"
  using assms
proof cases
  case (Segment env i log)
  then show ?thesis using tcp_input_active_stays [of env S b D C n i] assms(2) by (auto simp: stays_def)
next
  case (Time_wait i)
  then show ?thesis using tcp_timewait_stays assms(2) by (auto simp: stays_def intro: in_stream_prefix)
next
  case (Fast_timer env log)
  then show ?thesis using tcp_fasttmr_stays [of env S b D C n] assms(2) by (auto simp: stays_def)
next
  case App
  then show ?thesis using in_stream_app assms(2) by (auto simp: stays_def app_step_def)
qed

lemma rx_steps_stay:
  assumes "(rx_step S b)\<^sup>*\<^sup>* (D, C, n) (D', C', n')" "stays S b D C n"
  shows "stays S b D' C' n'"
proof -
  have "stays S b (fst t) (fst (snd t)) (snd (snd t))"
    if "(rx_step S b)\<^sup>*\<^sup>* s t" "stays S b (fst s) (fst (snd s)) (snd (snd s))" for s t
    using that
  proof (induction rule: rtranclp_induct)
    case (step t u)
    then show ?case by (cases t; cases u) (auto intro: rx_step_stays)
  qed
  from this [OF assms(1)] assms(2) show ?thesis by simp
qed

end
