(* ===== verification/Tcp_Rx_Claims.thy ===== *)
theory Tcp_Rx_Claims
  imports Tcp_Claims Tcp_Stream Tcp_Slow
begin

text \<open>The properties of the receiving half of TCP and of its timers, with sample connections for the witnesses.\<close>

definition sample_env :: "err_t \<Rightarrow> tcp_env" where
  "sample_env answer = \<lparr>on_accept = Some (\<lambda>n. (ERR_OK, n)), on_connected = None, on_sent = (\<lambda>_ n. (ERR_OK, n)),
     on_recv = (\<lambda>_ n. (answer, n)), on_closed = (\<lambda>n. (ERR_OK, n)), route_mtu = None\<rparr>"

lemma sample_env_ok [simp]: "answer \<noteq> ERR_ABRT \<Longrightarrow> env_ok (sample_env answer)"
  by (simp add: env_ok_def sample_env_def callback_ok_def)

definition sample_in :: "u8 \<Rightarrow> u32 \<Rightarrow> u32 \<Rightarrow> bytes list \<Rightarrow> tcp_input" where
  "sample_in fl sq ac data = \<lparr>in_seqno = sq, in_ackno = ac, in_wnd = 8192,
     in_tcplen = of_nat (tot_len data) + (if fl AND (TCP_FIN OR TCP_SYN) \<noteq> 0 then 1 else 0),
     in_flags = fl, in_p = data, in_optlen = 0, in_opts = []\<rparr>"

definition at_state :: "tcp_state \<Rightarrow> net" where
  "at_state st = map_pcb (\<lambda>p. p\<lparr>pcb_state := st\<rparr>) (sample_net (replicate 40 True))"

text \<open>A handshake whose SYN-ACK is on its way.\<close>

definition half_open :: net where
  "half_open = map_pcb (\<lambda>p. p\<lparr>pcb_state := SYN_RCVD, unacked := [\<lparr>seg_p = [[]], seg_len = 0,
       seg_optflags = TF_SEG_OPTS_MSS, seg_seqno = 1000, seg_hdrflags = TCP_SYN OR TCP_ACK\<rparr>],
     snd_queuelen := 1, snd_nxt := 1001, snd_lbb := 1001, rtime := 0, rto := 6, pcb_sv := 6\<rparr>) (sample_net [])"

fun repeat_input :: "tcp_env \<Rightarrow> tcp_input \<Rightarrow> nat \<Rightarrow> net \<Rightarrow> net checked" where
  "repeat_input env i 0 n = Inr n"
| "repeat_input env i (Suc k) n =
     (case tcp_input_active env i n of Inl e \<Rightarrow> Inl e | Inr (m, _) \<Rightarrow> repeat_input env i k m)"

subsection \<open>Stalls and overruns\<close>

text \<open>
  A peer that repeats its SYN pushes the retransmission counter past \<open>TCP_MAXRTX\<close>, which the slow
  timer tests for equality; its next time-out reads behind the end of \<open>tcp_backoff\<close>.
\<close>

lemma backoff_overrun:
  "(case repeat_input (sample_env ERR_OK) (sample_in TCP_SYN 499 0 []) 13 half_open of
      Inr n \<Rightarrow> nrtx (pcb n) = 13 \<and> slow_ticks (\<lambda>n. (ERR_OK, n)) 6 n = Inl Oob_read | Inl _ \<Rightarrow> False)"
  by code_simp

text \<open>
  Data refused together with the FIN is freed when the connection enters TIME-WAIT: the application
  gets neither the data nor the end of the stream.
\<close>

lemma refused_data_lost:
  "(case tcp_input_active (sample_env ERR_MEM) (sample_in (TCP_ACK OR TCP_FIN) 500 900 [''bye'']) (at_state FIN_WAIT_1) of
      Inr (n, log) \<Rightarrow> pcb_state (pcb n) = CLOSING \<and> refused_data (pcb n) = Some ([''bye''], True) \<and> taken_data log = []
        \<and> (case tcp_input_active (sample_env ERR_MEM) (sample_in TCP_ACK 504 1000 []) n of
             Inr (m, log') \<Rightarrow> pcb_state (pcb m) = TIME_WAIT \<and> refused_data (pcb m) = None
               \<and> taken_data log' = [] \<and> eof_seen log' = 0
           | Inl _ \<Rightarrow> False)
    | Inl _ \<Rightarrow> False)"
  by code_simp

subsection \<open>The received stream\<close>

lemma stays_start:
  assumes "pcb_state (pcb n) = SYN_RCVD \<or> pcb_state (pcb n) = ESTABLISHED" "rcv_nxt (pcb n) = b"
    "refused_data (pcb n) = None"
  shows "stays S b [] 0 n"
  using assms by (auto simp: stays_def stream_prefix_def in_stream_def refused_def synchronized_def state_order)

text \<open>
  C29. A connection delivers its peer's stream in order, each byte once, and the end of the stream
  at most once and only behind the last byte, in every run of segments (whatever they repeat, overlap or
  overrun), resets, timers and actions of the application, which may refuse data. While the peer has
  not finished, what is acknowledged is exactly what was delivered or is kept for the application;
  no assertion of the receiving half fails.
\<close>

theorem tcp_delivers_in_order:
  assumes "(rx_step S b)\<^sup>*\<^sup>* ([], 0, start) (D, C, n)"
    and "pcb_state (pcb start) = SYN_RCVD \<or> pcb_state (pcb start) = ESTABLISHED" "rcv_nxt (pcb start) = b"
      "refused_data (pcb start) = None"
  shows "D = take (length D) S \<and> (C = 0 \<or> C = 1 \<and> D = S)
    \<and> (\<not> pcb_freed n \<and> pcb_state (pcb n) < CLOSE_WAIT \<longrightarrow> rcv_nxt (pcb n) = b + of_nat (length (D @ refused n)))
    \<and> (\<not> pcb_freed n \<and> pcb_state (pcb n) \<noteq> TIME_WAIT \<and> env_ok env \<and> incoming S b (length (D @ refused n)) i n
       \<longrightarrow> tcp_input_active env i n \<in> range Inr)"
proof -
  have st: "stays S b D C n" by (rule rx_steps_stay [OF assms(1) stays_start [OF assms(2-4)]])
  then have "D = take (length D) S" "C = 0 \<or> C = 1 \<and> D = S" by (simp_all add: stays_def stream_prefix_def)
  moreover have "in_stream S b D C n" if "\<not> pcb_freed n" using st that by (simp add: stays_def)
  ultimately show ?thesis
    using tcp_input_active_stays [of env S b D C n i] by (auto simp: in_stream_def)
qed

lemma tcp_delivers_in_order_witness:
  "\<exists>n. (rx_step ''hello'' 500)\<^sup>*\<^sup>* ([], 0, at_state ESTABLISHED) (''hel'', 0, n) \<and> take 3 ''hello'' = ''hel''
     \<and> pcb_freed n = False \<and> rcv_nxt (pcb n) = 503
     \<and> tcp_input_active (sample_env ERR_OK) (sample_in TCP_ACK 503 1000 [''lo'']) n \<in> range Inr"
proof -
  let ?i = "sample_in TCP_ACK 500 1000 [''hel'']" and ?j = "sample_in TCP_ACK 503 1000 [''lo'']"
    and ?n = "at_state ESTABLISHED"
  have res: "(case tcp_input_active (sample_env ERR_OK) ?i ?n of
      Inr (n, log) \<Rightarrow> taken_data log = ''hel'' \<and> eof_seen log = 0 \<and> \<not> pcb_freed n \<and> pcb_state (pcb n) = ESTABLISHED
        \<and> refused n = []
    | Inl _ \<Rightarrow> False)" by code_simp
  obtain n log where r: "tcp_input_active (sample_env ERR_OK) ?i ?n = Inr (n, log)" "taken_data log = ''hel''"
    "eof_seen log = 0" "\<not> pcb_freed n" "pcb_state (pcb n) = ESTABLISHED" "refused n = []"
    using res by (auto split: sum.splits prod.splits)
  have start: "pcb_freed ?n = False" "pcb_state (pcb ?n) = ESTABLISHED" "rcv_nxt (pcb ?n) = 500"
    "refused_data (pcb ?n) = None" by (simp_all add: at_state_def sample_net_def sample_pcb_def)
  have "segment_of ''hello'' 500 0 3 ?i" "segment_of ''hello'' 500 3 2 ?j"
    by (simp_all add: segment_of_def sample_in_def fin_of_def tot_len_def TCP_ACK_def TCP_SYN_def TCP_FIN_def)
  moreover have "options_inside ?i" "options_inside ?j" by (simp_all add: options_inside_def sample_in_def)
  moreover have "near 0 (length ([] @ refused ?n))" "near 3 (length (''hel'' @ refused n))"
    using start r(6) by (simp_all add: refused_def near_def)
  ultimately have inc: "incoming ''hello'' 500 (length ([] @ refused ?n)) ?i ?n"
    "incoming ''hello'' 500 (length (''hel'' @ refused n)) ?j n"
    unfolding incoming_def by blast+
  have "rx_step ''hello'' 500 ([], 0, ?n) ([] @ taken_data log, 0 + eof_seen log, n)"
    by (rule rx_step.Segment [OF _ _ sample_env_ok inc(1) r(1)]) (simp_all add: start)
  then have run: "(rx_step ''hello'' 500)\<^sup>*\<^sup>* ([], 0, ?n) (''hel'', 0, n)" using r(2,3) by simp
  have "rcv_nxt (pcb n) = 500 + of_nat (length (''hel'' @ refused n)) \<and> tcp_input_active (sample_env ERR_OK) ?j n \<in> range Inr"
    using tcp_delivers_in_order [OF run, of "sample_env ERR_OK" ?j] start r(4,5) inc(2) by (auto simp: state_order)
  then show ?thesis using run r(4,6) by auto
qed

text \<open>
  C30. What one segment of the stream brings, when \<open>r\<close> bytes are here and the window is \<open>w\<close>: the
  part of it that is new and fits the window, if it starts no later than \<open>r\<close> and reaches it, and
  nothing otherwise; its FIN counts when everything before it fits. The window shrinks by as much,
  the queues of the sending half are untouched, and no assertion fails.
\<close>

theorem tcp_receive_takes_new_bytes:
  assumes "segment_of S b k L i" "rcv_nxt (pcb n) = b + of_nat r" "near k r" "r \<le> length S"
    and "pcb_state (pcb n) < CLOSE_WAIT" and w: "w = unat (rcv_wnd (pcb n))"
    and "c = (if k \<le> r \<and> r \<le> k + L then min (k + L - r) w else 0)"
    and "f = (if fin_of i \<and> k \<le> r \<and> r \<le> k + L \<and> k + L - r < w then 1 else 0)"
  shows "\<exists>x. tcp_receive_data i n = Inr x \<and> concat (rx_data x) = take c (drop r S)
    \<and> rcv_nxt (pcb (rx_net x)) = b + of_nat (r + c + f) \<and> unat (rcv_wnd (pcb (rx_net x))) = w - c - f
    \<and> rx_flags x = (if f = 1 then TF_GOT_FIN else 0)
    \<and> unsent (pcb (rx_net x)) = unsent (pcb n) \<and> unacked (pcb (rx_net x)) = unacked (pcb n)"
proof -
  obtain x where x: "tcp_receive_data i n = Inr x"
    "received S b r (taken k L r w) (fin_taken (fin_of i) k L r w) n x"
    using receive_data_result [OF assms(1-5) w] by blast
  have "c = taken k L r w" "f = of_bool (fin_taken (fin_of i) k L r w)"
    using assms(7,8) by (auto simp: taken_def fin_taken_def covers_def)
  then show ?thesis using x w by (auto simp: received_def recv_frame_def)
qed

lemma tcp_receive_takes_new_bytes_witness:
  "\<exists>x. tcp_receive_data (sample_in (TCP_ACK OR TCP_FIN) 498 1000 [''ab'', ''cde'']) (at_state ESTABLISHED) = Inr x
     \<and> concat (rx_data x) = ''cde'' \<and> rcv_nxt (pcb (rx_net x)) = 504"
proof -
  let ?i = "sample_in (TCP_ACK OR TCP_FIN) 498 1000 [''ab'', ''cde'']" and ?n = "at_state ESTABLISHED"
  have "segment_of ''abcde'' 498 0 5 ?i"
    by (simp add: segment_of_def sample_in_def fin_of_def tot_len_def TCP_ACK_def TCP_SYN_def TCP_FIN_def)
  moreover have "rcv_nxt (pcb ?n) = 498 + of_nat 2" "near 0 2" "pcb_state (pcb ?n) < CLOSE_WAIT" "unat (rcv_wnd (pcb ?n)) = 2920"
    by (simp_all add: at_state_def sample_net_def sample_pcb_def near_def state_order TCP_WND_def)
  moreover have "fin_of ?i" by (simp add: fin_of_def sample_in_def TCP_ACK_def TCP_FIN_def)
  ultimately show ?thesis
    using tcp_receive_takes_new_bytes [of "''abcde''" 498 0 5 ?i ?n 2 2920 3 1] by auto
qed

subsection \<open>The state diagram\<close>

text \<open>
  The states of RFC 793: \<open>fin\<close> says that the peer's FIN was received in order, \<open>acked\<close> that our SYN, or
  everything we have sent so far, was acknowledged. That is our FIN only when the FIN has been sent.
\<close>

fun next_state :: "tcp_state \<Rightarrow> bool \<Rightarrow> bool \<Rightarrow> tcp_state" where
  "next_state SYN_SENT fin acked = (if acked then ESTABLISHED else SYN_SENT)"
| "next_state SYN_RCVD fin acked = (if acked then if fin then CLOSE_WAIT else ESTABLISHED else SYN_RCVD)"
| "next_state ESTABLISHED fin acked = (if fin then CLOSE_WAIT else ESTABLISHED)"
| "next_state FIN_WAIT_1 fin acked =
     (if fin then if acked then TIME_WAIT else CLOSING else if acked then FIN_WAIT_2 else FIN_WAIT_1)"
| "next_state FIN_WAIT_2 fin acked = (if fin then TIME_WAIT else FIN_WAIT_2)"
| "next_state CLOSING fin acked = (if acked then TIME_WAIT else CLOSING)"
| "next_state st fin acked = st"

definition acks_ours :: "tcp_input \<Rightarrow> tcp_pcb \<Rightarrow> bool" where
  "acks_ours i p \<longleftrightarrow> has TCP_ACK i \<and>
     (case pcb_state p of
        SYN_SENT \<Rightarrow> has TCP_SYN i \<and> in_ackno i = seg_seqno (hd (unacked p)) + 1
      | SYN_RCVD \<Rightarrow> seq_between (in_ackno i) (lastack p + 1) (snd_nxt p)
      | _ \<Rightarrow> in_ackno i = snd_nxt p)"

lemma rexmit_snd_nxt: "snd_nxt (tcp_rexmit p) = snd_nxt p" "snd_nxt (tcp_rexmit_fast p) = snd_nxt p"
  by (auto simp: tcp_rexmit_def tcp_rexmit_fast_def Let_def set_flag_def split: list.splits)

lemma receive_ack_snd_nxt: "snd_nxt (tcp_receive_ack i t p) = snd_nxt p"
proof -
  have "snd_nxt (update_snd_wnd i p) = snd_nxt p" for p by (simp add: update_snd_wnd_fields)
  moreover have "snd_nxt (dup_ack i e p) = snd_nxt p" for e p by (simp add: dup_ack_def Let_def rexmit_snd_nxt)
  moreover have "snd_nxt (new_ack i p) = snd_nxt p" for p by (simp add: new_ack_fields)
  moreover have "snd_nxt (free_unsent i p) = snd_nxt p" for p by (simp add: free_unsent_def split: prod.splits)
  moreover have "snd_nxt (estimate_rtt i t p) = snd_nxt p" for p by (simp add: estimate_rtt_def Let_def)
  ultimately show ?thesis by (simp add: tcp_receive_ack_def Let_def)
qed

definition tx_view :: "tcp_pcb \<Rightarrow> tcp_state \<times> u32" where
  "tx_view p = (pcb_state p, snd_nxt p)"

lemma tx_view_flags [simp]:
  "tx_view (set_flag f p) = tx_view p" "tx_view (clear_flag f p) = tx_view p" "tx_view (tcp_ack_now p) = tx_view p"
  "tx_view (tcp_ack p) = tx_view p" "tx_view (p\<lparr>rcv_nxt := a\<rparr>) = tx_view p" "tx_view (p\<lparr>rcv_wnd := w\<rparr>) = tx_view p"
  "tx_view (snd (tcp_update_rcv_ann_wnd p)) = tx_view p"
  by (simp_all add: tx_view_def set_flag_def clear_flag_def tcp_ack_now_def tcp_ack_def tcp_update_rcv_ann_wnd_def Let_def)

lemma tx_view_empty_ack [simp]: "tx_view (pcb (snd (tcp_send_empty_ack n))) = tx_view (pcb n)"
  by (auto simp: tx_view_def tcp_send_empty_ack_def Let_def clear_flag_def split: prod.splits bool.splits)

lemma receive_data_tx: "tcp_receive_data i n = Inr x \<Longrightarrow> tx_view (pcb (rx_net x)) = tx_view (pcb n)"
proof -
  have d: "deliver_segment s m = Inr x \<Longrightarrow> tx_view (pcb (rx_net x)) = tx_view (pcb m)" for s m
    by (auto simp: deliver_segment_def Let_def split: if_splits)
  have q: "receive_in_sequence s m = Inr x \<Longrightarrow> tx_view (pcb (rx_net x)) = tx_view (pcb m)" for s m
    by (auto simp: receive_in_sequence_def dest: d split: sum.splits)
  show "tcp_receive_data i n = Inr x \<Longrightarrow> tx_view (pcb (rx_net x)) = tx_view (pcb n)"
    by (auto simp: tcp_receive_data_def Let_def map_sum_def dest!: q split: if_splits sum.splits prod.splits)
qed

lemma receive_tx: "tcp_receive i n = Inr x \<Longrightarrow> tx_view (pcb (rx_net x)) = tx_view (pcb n)"
proof -
  have "tx_view (tcp_receive_ack j t p) = tx_view p" for j t p
    using p_view_receive_ack [of j t p] by (simp add: tx_view_def p_view_def receive_ack_snd_nxt)
  then show "tcp_receive i n = Inr x \<Longrightarrow> tx_view (pcb (rx_net x)) = tx_view (pcb n)"
    by (auto simp: tcp_receive_def dest!: receive_data_tx split: if_splits)
qed

lemma ok_rx_net [simp]: "rx_net (ok_rx x) = rx_net x"
  by (simp_all add: ok_rx_def)

lemma receive_data_flags: "tcp_receive_data i n = Inr x \<Longrightarrow> rx_flags x \<in> {0, TF_GOT_FIN}"
proof -
  have d: "deliver_segment s m = Inr x \<Longrightarrow> rx_flags x \<in> {0, TF_GOT_FIN}" for s m
    by (auto simp: deliver_segment_def Let_def split: if_splits)
  have q: "receive_in_sequence s m = Inr x \<Longrightarrow> rx_flags x \<in> {0, TF_GOT_FIN}" for s m
    by (auto simp: receive_in_sequence_def dest: d split: sum.splits)
  show "tcp_receive_data i n = Inr x \<Longrightarrow> rx_flags x \<in> {0, TF_GOT_FIN}"
    by (auto simp: tcp_receive_data_def Let_def map_sum_def dest!: q split: if_splits sum.splits prod.splits)
qed

lemma receive_not_closed: "tcp_receive i n = Inr x \<Longrightarrow> rx_flags x AND TF_CLOSED = 0"
proof -
  have "w \<in> {0, TF_GOT_FIN} \<Longrightarrow> w AND TF_CLOSED = 0" for w by (auto simp: TF_GOT_FIN_def TF_CLOSED_def)
  then show "tcp_receive i n = Inr x \<Longrightarrow> rx_flags x AND TF_CLOSED = 0"
    by (auto simp: tcp_receive_def dest!: receive_data_flags split: if_splits)
qed

lemma after_receive_closed:
  assumes "tx_view (pcb (rx_net x)) = tx_view (pcb n)" "rx_flags x AND TF_CLOSED = 0"
  shows "rx_flags (after_receive (pcb_state (pcb n)) i x) AND TF_CLOSED \<noteq> 0
    \<longleftrightarrow> pcb_state (pcb n) = LAST_ACK \<and> acks_ours i (pcb n)"
proof -
  have v: "acks_all i x \<longleftrightarrow> has TCP_ACK i \<and> in_ackno i = snd_nxt (pcb n)" using assms(1) by (simp add: acks_all_def tx_view_def)
  have "(w OR TF_CLOSED) AND TF_CLOSED \<noteq> 0" for w :: u8
  proof -
    have "(w OR TF_CLOSED) AND TF_CLOSED = TF_CLOSED" by (rule bit_eqI) (auto simp: bit_simps)
    then show ?thesis by (simp add: TF_CLOSED_def)
  qed
  then show ?thesis
    using assms(2) by (cases "pcb_state (pcb n)")
      (auto simp: after_receive_def acks_ours_def v enter_time_wait_def ack_rx_def to_state_def)
qed

lemma after_receive_state:
  assumes "tx_view (pcb (rx_net x)) = tx_view (pcb n)" "pcb_state (pcb n) \<notin> {CLOSED, LISTEN, SYN_SENT, SYN_RCVD, TIME_WAIT}"
  shows "pcb_state (pcb (rx_net (after_receive (pcb_state (pcb n)) i x)))
      = next_state (pcb_state (pcb n)) (got_fin x) (acks_ours i (pcb n))"
    and "got_fin (after_receive (pcb_state (pcb n)) i x) = got_fin x"
proof -
  have v: "acks_all i x \<longleftrightarrow> has TCP_ACK i \<and> in_ackno i = snd_nxt (pcb n)" using assms(1) by (simp add: acks_all_def tx_view_def)
  have s: "pcb_state (pcb (rx_net x)) = pcb_state (pcb n)" using assms(1) by (simp add: tx_view_def)
  show "pcb_state (pcb (rx_net (after_receive (pcb_state (pcb n)) i x)))
      = next_state (pcb_state (pcb n)) (got_fin x) (acks_ours i (pcb n))"
    using assms(2) s by (cases "pcb_state (pcb n)") (auto simp: after_receive_def acks_ours_def v enter_time_wait_def)
  show "got_fin (after_receive (pcb_state (pcb n)) i x) = got_fin x"
    by (auto simp: after_receive_def got_fin_def enter_time_wait_def ack_rx_def TF_CLOSED_def TF_GOT_FIN_def
        bit.conj_disj_distrib2)
qed

lemma accepted_closed: "accepted i n = Inr x \<Longrightarrow> rx_flags x AND TF_CLOSED = 0"
  by (auto simp: accepted_def Let_def dest: receive_not_closed split: sum.splits)

lemma accepted_state:
  assumes "accepted i n = Inr x" "pcb_state (pcb n) = ESTABLISHED"
  shows "pcb_state (pcb (rx_net x)) = (if got_fin (rx.truncate x) then CLOSE_WAIT else ESTABLISHED)" "pr_err x = ERR_OK"
proof -
  obtain y where y: "tcp_receive i n = Inr y" using assms(1) by (auto simp: accepted_def Let_def split: sum.splits)
  have "pcb_state (pcb (rx_net y)) = ESTABLISHED" using receive_tx [OF y] assms(2) by (simp add: tx_view_def)
  moreover define z where "z = y\<lparr>rx_net := map_pcb (\<lambda>p. let p = (if pcb_acked p \<noteq> 0 then p\<lparr>pcb_acked := pcb_acked p - 1\<rparr> else p)
    in p\<lparr>cwnd := (if cwnd (pcb n) = 1 then pcb_mss p * 2 else pcb_mss p)\<rparr>) (rx_net y)\<rparr>"
  ultimately have z: "pcb_state (pcb (rx_net z)) = ESTABLISHED" by (simp add: Let_def)
  have "accepted i n = Inr (ok_rx (if got_fin z then to_state CLOSE_WAIT z else z))"
    by (simp add: accepted_def y z_def Let_def)
  then have x: "x = ok_rx (if got_fin z then to_state CLOSE_WAIT z else z)" using assms(1) by simp
  have "got_fin (to_state CLOSE_WAIT z) = got_fin z" by (simp add: got_fin_def)
  then show "pcb_state (pcb (rx_net x)) = (if got_fin (rx.truncate x) then CLOSE_WAIT else ESTABLISHED)"
    "pr_err x = ERR_OK" using z by (cases "got_fin z"; simp add: x)+
qed

text \<open>
  C31. The state machine: unless a callback closes or aborts the connection, processing a segment
  moves it along the diagram of RFC 793: when the peer's FIN is taken, when our SYN is acknowledged, and
  when the segment acknowledges everything sent so far (which is our FIN once the FIN has been sent). In
  \<open>LAST_ACK\<close> such a segment, and nothing else, reports the connection closed. A reset is obeyed exactly when
  it is acceptable, and a SYN in a synchronized state only asks for an acknowledgement.
\<close>

theorem tcp_process_follows_diagram:
  assumes "tcp_process env i n = Inr x" "pr_err x \<noteq> ERR_ABRT"
    and cb: "\<forall>f m. on_accept env = Some f \<or> on_connected env = Some f \<longrightarrow> pcb_state (pcb (snd (f m))) = pcb_state (pcb m)"
  shows "pcb_state (pcb (rx_net x)) =
      (if has TCP_RST i \<or> has TCP_SYN i \<and> pcb_state (pcb n) \<notin> {SYN_SENT, SYN_RCVD} then pcb_state (pcb n)
       else next_state (pcb_state (pcb n)) (got_fin (rx.truncate x)) (acks_ours i (pcb n)))
    \<and> (rx_flags x AND TF_CLOSED \<noteq> 0 \<longleftrightarrow>
        pcb_state (pcb n) = LAST_ACK \<and> has TCP_ACK i \<and> in_ackno i = snd_nxt (pcb n) \<and> \<not> has TCP_RST i \<and> \<not> has TCP_SYN i)
    \<and> (pr_err x = ERR_RST \<longleftrightarrow> has TCP_RST i \<and>
        (if pcb_state (pcb n) = SYN_SENT then in_ackno i = snd_nxt (pcb n)
         else seq_between (in_seqno i) (rcv_nxt (pcb n)) (rcv_nxt (pcb n) + ucast (rcv_wnd (pcb n)))))
    \<and> (has TCP_SYN i \<and> \<not> has TCP_RST i \<and> pcb_state (pcb n) \<notin> {SYN_SENT, SYN_RCVD}
        \<longrightarrow> rx_net x = map_pcb (set_flag TF_ACK_NOW) n)"
proof -
  define p where "p = (if pcb_flags (pcb n) AND TF_RXCLOSED = 0 then (pcb n)\<lparr>pcb_tmr := tcp_ticks n\<rparr> else pcb n)\<lparr>keep_cnt_sent := 0\<rparr>"
  let ?st = "pcb_state (pcb n)"
  consider (rst) "has TCP_RST i" | (syn) "\<not> has TCP_RST i" "has TCP_SYN i" "?st \<notin> {SYN_SENT, SYN_RCVD}"
    | (proc) "\<not> has TCP_RST i" "\<not> (has TCP_SYN i \<and> ?st \<notin> {SYN_SENT, SYN_RCVD})" by blast
  then show ?thesis
  proof cases
    case rst
    then show ?thesis
      using assms(1)
      by (auto simp: tcp_process_def Let_def process_rst_def outcome_def clear_flag_def TF_CLOSED_def TF_RESET_def split: if_splits)
  next
    case syn
    have "tcp_ack_now = set_flag TF_ACK_NOW" by (simp add: fun_eq_iff tcp_ack_now_def)
    then have "x = outcome ERR_OK (map_pcb (set_flag TF_ACK_NOW) n)"
      using syn assms(1) by (simp add: tcp_process_def Let_def)
    then show ?thesis using syn by (simp add: outcome_def set_flag_def)
  next
    case proc
    obtain mss where mss: "tcp_parseopt i p = Inr (p\<lparr>pcb_mss := mss\<rparr>)"
    proof -
      obtain q where "tcp_parseopt i p = Inr q"
        using assms(1) proc by (auto simp: tcp_process_def Let_def p_def split: sum.splits)
      then show thesis using that [of "pcb_mss q"]
        by (cases "parseopt_loop (in_opts i) (in_optlen i) 0 (pcb_mss p)") (auto simp: tcp_parseopt_def split: if_splits)
    qed
    define m where "m = n\<lparr>pcb := p\<lparr>pcb_mss := mss\<rparr>\<rparr>"
    have m: "pcb_state (pcb m) = ?st" "snd_nxt (pcb m) = snd_nxt (pcb n)" "unacked (pcb m) = unacked (pcb n)"
      "lastack (pcb m) = lastack (pcb n)"
      by (simp_all add: m_def p_def)
    have ao: "acks_ours i (pcb m) = acks_ours i (pcb n)"
      by (cases ?st) (simp_all add: acks_ours_def m)
    have x: "(if ?st = SYN_SENT then process_syn_sent env i m else if ?st = SYN_RCVD then process_syn_rcvd env i m
        else if ?st = CLOSED \<or> ?st = LISTEN \<or> ?st = TIME_WAIT then Inr (outcome ERR_OK m)
        else map_sum id (\<lambda>x. ok_rx (after_receive ?st i x)) (tcp_receive i m)) = Inr x"
      using assms(1) proc mss by (auto simp: tcp_process_def Let_def m_def p_def)
    have rst: "\<not> has TCP_RST i" using proc(1) .
    have "pcb_state (pcb (rx_net x)) = next_state ?st (got_fin (rx.truncate x)) (acks_ours i (pcb n)) \<and> pr_err x \<noteq> ERR_RST
      \<and> (rx_flags x AND TF_CLOSED \<noteq> 0 \<longleftrightarrow> ?st = LAST_ACK \<and> acks_ours i (pcb n))"
    proof (cases "?st \<in> {CLOSED, LISTEN, TIME_WAIT, SYN_SENT, SYN_RCVD}")
      case False
      then obtain y where y: "tcp_receive i m = Inr y" "x = ok_rx (after_receive ?st i y)"
        using x by (cases "tcp_receive i m") auto
      show ?thesis
        using after_receive_state [of y m i] after_receive_closed [of y m i] receive_tx [OF y(1)] receive_not_closed [OF y(1)]
          False y(2) m(1) ao by simp
    next
      case True
      then consider (rest) "?st \<in> {CLOSED, LISTEN, TIME_WAIT}" | (sent) "?st = SYN_SENT" | (rcvd) "?st = SYN_RCVD" by blast
      then show ?thesis
      proof cases
        case rest
        then show ?thesis using x m by (auto simp: outcome_def)
      next
        case sent
        then have r: "process_syn_sent env i m = Inr x" using x by simp
        show ?thesis
        proof (cases "acks_ours i (pcb n)")
          case True
          then have t: "has TCP_ACK i" "has TCP_SYN i" "in_ackno i = seg_seqno (hd (unacked (pcb m))) + 1"
            using sent m by (simp_all add: acks_ours_def)
          let ?k = "m\<lparr>pcb := syn_acked env i (pcb m)\<rparr>"
          obtain e k where k: "(case on_connected env of None \<Rightarrow> (ERR_OK, ?k) | Some f \<Rightarrow> f ?k) = (e, k)" by fastforce
          have "pcb_state (pcb k) = pcb_state (pcb ?k)"
          proof (cases "on_connected env")
            case None
            then show ?thesis using k by simp
          next
            case (Some f)
            then have "k = snd (f ?k)" using k by simp
            then show ?thesis using cb Some by blast
          qed
          then have "pcb_state (pcb k) = ESTABLISHED" by (simp add: syn_acked_def Let_def)
          moreover have "x = outcome ERR_OK (map_pcb tcp_ack_now k)"
            using r t k assms(2) by (auto simp: process_syn_sent_def outcome_def Let_def split: if_splits)
          ultimately show ?thesis using sent True by (simp add: outcome_def tcp_ack_now_def set_flag_def)
        next
          case False
          then show ?thesis
            using r sent m by (auto simp: process_syn_sent_def Let_def acks_ours_def outcome_def reset_peer_def split: if_splits)
        qed
      next
        case rcvd
        then have r: "process_syn_rcvd env i m = Inr x" using x by simp
        show ?thesis
        proof (cases "acks_ours i (pcb n)")
          case True
          then have t: "has TCP_ACK i" "seq_between (in_ackno i) (lastack (pcb m) + 1) (snd_nxt (pcb m))"
            using rcvd m by (simp_all add: acks_ours_def)
          obtain f where f: "on_accept env = Some f" using r t by (cases "on_accept env") (auto simp: process_syn_rcvd_def)
          obtain e k where k: "f (map_pcb (\<lambda>p. p\<lparr>pcb_state := ESTABLISHED\<rparr>) m) = (e, k)" by fastforce
          have "pcb_state (pcb (snd (f (map_pcb (\<lambda>p. p\<lparr>pcb_state := ESTABLISHED\<rparr>) m)))) = ESTABLISHED"
            using cb [rule_format, of f "map_pcb (\<lambda>p. p\<lparr>pcb_state := ESTABLISHED\<rparr>) m"] f by simp
          then have "pcb_state (pcb k) = ESTABLISHED" unfolding k by simp
          moreover have "accepted i k = Inr x"
            using r t f k assms(2) by (auto simp: process_syn_rcvd_def outcome_def split: if_splits prod.splits)
          ultimately show ?thesis using accepted_state [of i k x] accepted_closed [of i k x] rcvd True by simp
        next
          case False
          then show ?thesis
            using r rcvd m by (auto simp: process_syn_rcvd_def acks_ours_def outcome_def got_fin_def rx.truncate_def
              reset_peer_def tcp_rexmit_def Let_def split: if_splits list.splits)
        qed
      qed
    qed
    moreover have "acks_ours i (pcb n) \<longleftrightarrow> has TCP_ACK i \<and> in_ackno i = snd_nxt (pcb n)" if "?st = LAST_ACK"
      using that by (simp add: acks_ours_def)
    ultimately show ?thesis using proc by auto
  qed
qed

lemma tcp_process_follows_diagram_witness:
  "\<exists>x. tcp_process (sample_env ERR_OK) (sample_in (TCP_ACK OR TCP_FIN) 500 1000 []) (at_state FIN_WAIT_1) = Inr x
     \<and> pcb_state (pcb (rx_net x)) = TIME_WAIT"
proof -
  let ?i = "sample_in (TCP_ACK OR TCP_FIN) 500 1000 []" and ?n = "at_state FIN_WAIT_1"
  have r: "(case tcp_process (sample_env ERR_OK) ?i ?n of Inr x \<Rightarrow> pr_err x = ERR_OK \<and> got_fin (rx.truncate x) | Inl _ \<Rightarrow> False)"
    by code_simp
  obtain x where x: "tcp_process (sample_env ERR_OK) ?i ?n = Inr x" "pr_err x = ERR_OK" "got_fin (rx.truncate x)"
    using r by (auto split: sum.splits)
  have "acks_ours ?i (pcb ?n)" "\<not> has TCP_RST ?i" "\<not> has TCP_SYN ?i"
    by (simp_all add: acks_ours_def has_def sample_in_def at_state_def sample_net_def sample_pcb_def TCP_ACK_def
        TCP_FIN_def TCP_RST_def TCP_SYN_def)
  then show ?thesis
    using tcp_process_follows_diagram [OF x(1)] x by (simp add: sample_env_def at_state_def)
qed

text \<open>
  What that means for the last acknowledgement: when everything sent so far is acknowledged, a connection
  in \<open>LAST_ACK\<close> is freed. The FIN, and data before it, may still wait for the window.
\<close>

lemma map_sum_result [simp]: "map_sum id f r = Inr x \<longleftrightarrow> (\<exists>y. r = Inr y \<and> x = f y)"
  by (cases r) auto

lemma last_ack_frees:
  assumes "tcp_input_active env i n = Inr (m, log)" "pcb_state (pcb n) = LAST_ACK" "refused_data (pcb n) = None"
    "\<not> has TCP_RST i" "\<not> has TCP_SYN i" "has TCP_ACK i" "in_ackno i = snd_nxt (pcb n)"
  shows "pcb_freed m"
proof -
  have p: "input_process env i n = Inr (m, log)" using assms(1,3) by (simp add: tcp_input_active_def)
  obtain x where x: "tcp_process env i (n\<lparr>in_input := True\<rparr>) = Inr x" using p by (auto simp: input_process_def split: sum.splits)
  obtain m2 y where y: "tcp_receive i m2 = Inr y" "x = ok_rx (after_receive LAST_ACK i y)"
    "pcb_state (pcb m2) = LAST_ACK" "snd_nxt (pcb m2) = snd_nxt (pcb n)"
    using x assms(2,4,5) by (auto simp: tcp_process_def Let_def tcp_parseopt_def split: sum.splits if_splits)
  have "rx_flags x AND TF_CLOSED \<noteq> 0" "pr_err x = ERR_OK"
    using after_receive_closed [OF receive_tx [OF y(1)] receive_not_closed [OF y(1)], of i] y assms(6,7)
    by (simp_all add: acks_ours_def ok_rx_def)
  then have "m = aborted (fst (drop_pcb ERR_RST (rx_net x))) \<or> m = aborted (fst (drop_pcb ERR_CLSD (rx_net x)))"
    using p unfolding input_process_def x sum.case Let_def
    by (cases "rx_flags x AND TF_RESET = 0") (simp_all add: case_prod_beta)
  moreover have "pcb_freed (aborted (fst (drop_pcb e k)))" for e k by (simp add: drop_pcb_def memp_free_pcb_def aborted_def)
  ultimately show ?thesis by blast
qed

text \<open>
  A closed window: the peer has finished, the page's last bytes and our FIN are queued, and an
  acknowledgement of what was sent before arrives. The connection is freed with them; in \<open>FIN_WAIT_1\<close> the
  same acknowledgement is taken for one of the FIN.
\<close>

definition unsent_fin :: "tcp_state \<Rightarrow> net" where
  "unsent_fin st = map_pcb (\<lambda>p. p\<lparr>unsent := [\<lparr>seg_p = [''tail''], seg_len = 4, seg_optflags = 0, seg_seqno = 1000,
       seg_hdrflags = TCP_FIN OR TCP_PSH\<rparr>], snd_queuelen := 1, snd_lbb := 1004, snd_wnd := 0\<rparr>) (at_state st)"

lemma last_ack_loses_data:
  "(case tcp_input_active (sample_env ERR_OK) (sample_in TCP_ACK 500 1000 []) (unsent_fin LAST_ACK) of
      Inr (m, log) \<Rightarrow> pcb_freed m \<and> unsent (pcb m) = [] \<and> wire m = [] | Inl _ \<Rightarrow> False)"
  by code_simp

lemma fin_wait_2_early:
  "(case tcp_process (sample_env ERR_OK) (sample_in TCP_ACK 500 1000 []) (unsent_fin FIN_WAIT_1) of
      Inr x \<Rightarrow> pcb_state (pcb (rx_net x)) = FIN_WAIT_2 \<and> unsent (pcb (rx_net x)) \<noteq> [] | Inl _ \<Rightarrow> False)"
  by code_simp

subsection \<open>The slow timer\<close>

lemma pcb_good_others [simp]:
  "pcb_good (p\<lparr>persist_cnt := c\<rparr>) = pcb_good p" "pcb_good (p\<lparr>persist_backoff := c\<rparr>) = pcb_good p"
  "pcb_good (p\<lparr>rcv_ann_right_edge := a\<rparr>) = pcb_good p" "tcp_stream (p\<lparr>persist_cnt := c\<rparr>) = tcp_stream p"
  "tcp_stream (p\<lparr>persist_backoff := c\<rparr>) = tcp_stream p" "tcp_stream (p\<lparr>polltmr := c\<rparr>) = tcp_stream p"
  "tcp_stream (p\<lparr>rtime := t\<rparr>) = tcp_stream p" "tcp_stream (p\<lparr>rto := w\<rparr>) = tcp_stream p"
  "tcp_stream (cut_cwnd p) = tcp_stream p"
  by (simp_all add: pcb_good_def pcb_ok_def seq_ok_def mss_local_def tcp_stream_def cut_cwnd_def Let_def)

definition keeps_queue :: "net \<Rightarrow> net \<Rightarrow> bool" where
  "keeps_queue n m \<longleftrightarrow> pcb_good (pcb n) \<longrightarrow> pcb_good (pcb m) \<and> tcp_stream (pcb m) = tcp_stream (pcb n)"

lemma keeps_queue_trans: "keeps_queue a b \<Longrightarrow> keeps_queue b c \<Longrightarrow> keeps_queue a c"
  by (simp add: keeps_queue_def)

lemma output_keeps: "keeps_queue n (snd (tcp_output n))"
  using tcp_output_seq_ok(2) [of n _ "snd (tcp_output n)"] output_good [of n]
  by (auto simp: keeps_queue_def pcb_good_def prod_eq_iff)

lemma rexmit_keeps: "keeps_queue n (tcp_rexmit_rto n)"
  using rexmit_good [of n] tcp_rexmit_rto_ok(2) [of n] seq_ok_in_order [of "pcb n"] by (auto simp: keeps_queue_def pcb_good_def)

lemma slow_persist_keeps: "slow_persist n = Inr m \<Longrightarrow> keeps_queue n m"
  by (auto simp: slow_persist_def Let_def tcp_zero_window_probe_def keeps_queue_def split: if_splits list.splits prod.splits bool.splits)

lemma slow_rexmit_keeps:
  assumes "slow_rexmit n = Inr m"
  shows "keeps_queue n m"
proof -
  define n1 where "n1 = map_pcb (\<lambda>p. if rtime p \<ge> 0 then p\<lparr>rtime := signed_take_bit 15 (rtime p + 1)\<rparr> else p) n"
  define n2 where "n2 = map_pcb cut_cwnd (map_pcb (\<lambda>p. if pcb_state p \<noteq> SYN_SENT
    then p\<lparr>rto := push_bit (tcp_backoff ! unat (nrtx p)) (signed_drop_bit 3 (pcb_sa p) + pcb_sv p)\<rparr> else p) n1)"
  have "m = n1 \<or> m = tcp_rexmit_rto n2"
    using assms unfolding slow_rexmit_def Let_def n1_def [symmetric] n2_def [symmetric] by (auto split: if_splits)
  moreover have "keeps_queue n n1" "keeps_queue n n2" by (simp_all add: keeps_queue_def n1_def n2_def)
  ultimately show ?thesis using rexmit_keeps keeps_queue_trans by blast
qed

lemma slow_poll_cases:
  "\<exists>k. keeps_queue n k \<and> pcb_state (pcb k) = pcb_state (pcb n) \<and> (slow_poll f n = k
    \<or> poll_cb (pcb k) \<and> (\<exists>e k'. f k = (e, k')
        \<and> slow_poll f n = (if e = ERR_OK \<and> \<not> left_active k' then snd (tcp_output k') else k')))"
proof -
  define m1 where "m1 = map_pcb (\<lambda>p. p\<lparr>polltmr := polltmr p + 1\<rparr>) n"
  define m2 where "m2 = map_pcb (\<lambda>p. p\<lparr>polltmr := 0\<rparr>) m1"
  have m: "keeps_queue n m1" "keeps_queue n m2" "pcb_state (pcb m1) = pcb_state (pcb n)" "pcb_state (pcb m2) = pcb_state (pcb n)"
    by (simp_all add: keeps_queue_def m2_def m1_def)
  have st: "pcb_state (pcb (snd (tcp_output m2))) = pcb_state (pcb n)"
    using tcp_output_clock [of m2] m(4) by (simp add: same_clock_def clock_def)
  obtain e k' where k': "f m2 = (e, k')" by fastforce
  have eq: "slow_poll f n = (if polltmr (pcb m1) \<ge> pollinterval (pcb m1)
      then (if poll_cb (pcb m2) then (if e = ERR_OK \<and> \<not> left_active k' then snd (tcp_output k') else k')
            else (if left_active m2 then m2 else snd (tcp_output m2))) else m1)"
    unfolding slow_poll_def Let_def m1_def [symmetric] m2_def [symmetric] k' by simp
  consider (none) "slow_poll f n = m1" | (quiet) "slow_poll f n = m2" | (out) "slow_poll f n = snd (tcp_output m2)"
    | (polled) "poll_cb (pcb m2)" "slow_poll f n = (if e = ERR_OK \<and> \<not> left_active k' then snd (tcp_output k') else k')"
    unfolding eq by argo
  then show ?thesis
  proof cases
    case none
    then show ?thesis using m by blast
  next
    case quiet
    then show ?thesis using m by blast
  next
    case out
    then show ?thesis using m(2) st keeps_queue_trans output_keeps by blast
  next
    case polled
    then show ?thesis using m k' by blast
  qed
qed

text \<open>
  C32. What a tick of the slow timer does to a connection: it gives the connection up, or it probes a
  closed window, retransmits or does nothing, and then the queues are well-formed and in sequence and
  hold every byte that waits to be acknowledged; that is the connection after the tick, or the one the
  poll callback of the application is called on, once, with output after it unless it closed or aborted the
  connection. The callback itself is unconstrained.
\<close>

theorem slow_timer_keeps_queues:
  assumes "tcp_slowtmr f n = Inr (m, log)" "pcb_good (pcb n)"
  shows "pcb_freed m \<or> (\<exists>k. pcb_good (pcb k) \<and> tcp_stream (pcb k) = tcp_stream (pcb n)
    \<and> (m = k \<or> poll_cb (pcb k) \<and> (\<exists>e k'. f k = (e, k')
        \<and> m = (if e = ERR_OK \<and> \<not> left_active k' then snd (tcp_output k') else k'))))"
proof (cases "pcb_freed m")
  case False
  define n1 where "n1 = n\<lparr>tcp_ticks := tcp_ticks n + 1\<rparr>"
  have n1: "keeps_queue n n1" by (simp add: keeps_queue_def n1_def)
  have freed: "slow_remove k = (m, l) \<Longrightarrow> pcb_freed m" "pcb_freed (memp_free_pcb k)" for k l
    by (auto simp: slow_remove_def memp_free_pcb_def)
  show ?thesis
  proof (cases "pcb_state (pcb n1) = TIME_WAIT")
    case True
    then have "m = n1" using assms(1) False freed(2) by (auto simp: tcp_slowtmr_def n1_def Let_def split: if_splits)
    then show ?thesis using assms(2) n1 by (auto simp: keeps_queue_def)
  next
    case act: False
    then have "slow_active f n1 = Inr (m, log)" using assms(1) by (simp add: tcp_slowtmr_def n1_def)
    then obtain k where k: "slow_persist n1 = Inr k \<or> slow_rexmit n1 = Inr k" "m = slow_poll f k"
      using False by (auto simp: slow_active_def Let_def dest: freed(1) split: if_splits sum.splits)
    have "keeps_queue n1 k" using k(1) slow_persist_keeps slow_rexmit_keeps by blast
    moreover obtain k' where k': "keeps_queue k k'" "m = k' \<or> poll_cb (pcb k') \<and> (\<exists>e k''. f k' = (e, k'')
        \<and> m = (if e = ERR_OK \<and> \<not> left_active k'' then snd (tcp_output k'') else k''))"
      using slow_poll_cases [of k f] k(2) by blast
    ultimately have "keeps_queue n k'" using n1 keeps_queue_trans by blast
    then show ?thesis using k'(2) assms(2) unfolding keeps_queue_def by blast
  qed
qed simp

text \<open>The retransmission of \<open>hello\<close>, at its time-out.\<close>

definition late :: net where
  "late = (sample_net [])\<lparr>pcb := sample_sent\<lparr>rtime := 2\<rparr>\<rparr>"

lemma late_good [simp]: "pcb_good (pcb late)" "tcp_stream (pcb late) = ''hello''"
  by (simp_all add: late_def) (simp add: tcp_stream_def sample_sent_def seg_data_def sample_pcb_def)

lemma slow_timer_keeps_queues_witness:
  "\<exists>m. tcp_slowtmr (\<lambda>n. (ERR_OK, n)) late = Inr (m, []) \<and> length (wire m) = 1 \<and> tcp_stream (pcb m) = ''hello''"
proof -
  have r: "(case tcp_slowtmr (\<lambda>n. (ERR_OK, n)) late of
      Inr (m, log) \<Rightarrow> log = [] \<and> length (wire m) = 1 \<and> \<not> pcb_freed m | Inl _ \<Rightarrow> False)" by code_simp
  obtain m where m: "tcp_slowtmr (\<lambda>n. (ERR_OK, n)) late = Inr (m, [])" "length (wire m) = 1" "\<not> pcb_freed m"
    using r by (auto split: sum.splits prod.splits)
  obtain k where "pcb_good (pcb k)" "tcp_stream (pcb k) = ''hello''" "m = k \<or> m = snd (tcp_output k)"
    using slow_timer_keeps_queues [OF m(1)] m(3) by (auto split: if_splits)
  then have "tcp_stream (pcb m) = ''hello''" using output_keeps [of k] by (auto simp: keeps_queue_def)
  then show ?thesis using m by blast
qed

text \<open>
  C33. A connection that the application has closed (it has no poll callback) and whose peer has fallen
  silent does not wait for ever: with a segment on its way that fits the windows, its retransmission
  counter inside the limit and no persist timer running, the slow timer frees it after at most 13 time-outs,
  each of at most 32768 ticks, and calls the error callback if one is set; up to then no tick reads
  outside \<open>tcp_backoff\<close> or fails an assertion.
\<close>

theorem silent_peer_is_given_up:
  assumes "waiting n"
  shows "\<exists>k m. k \<le> 13 * 32769 \<and> slow_ticks f k n = Inr (m, if err_cb (pcb n) then [Err_up ERR_ABRT] else []) \<and> pcb_freed m"
  using slow_ticks_end [OF assms effort_le [OF assms]] .

definition late_closed :: net where
  "late_closed = map_pcb (\<lambda>p. p\<lparr>poll_cb := False\<rparr>) late"

lemma silent_peer_is_given_up_witness:
  "\<exists>k m. k \<le> 13 * 32769 \<and> slow_ticks (\<lambda>n. (ERR_OK, n)) k late_closed = Inr (m, [Err_up ERR_ABRT]) \<and> pcb_freed m"
proof -
  have "pcb_good (pcb late_closed)" using late_good(1)
    by (simp add: late_closed_def pcb_good_def pcb_ok_def seq_ok_def mss_local_def)
  then have "waiting late_closed"
    by (simp add: waiting_def) (simp add: late_closed_def late_def sample_sent_def sample_pcb_def sample_net_def oldest_fits_def)
  moreover have "err_cb (pcb late_closed)" by (simp add: late_closed_def late_def sample_sent_def sample_pcb_def)
  ultimately show ?thesis using silent_peer_is_given_up [of late_closed "\<lambda>n. (ERR_OK, n)"] by simp
qed

end
