(* ===== verification/Mem.thy ===== *)
theory Mem
  imports Prelude
begin

unbundle bit_operations_syntax

text \<open>
  The heap of lwIP (\<^verbatim>\<open>lwip/src/core/mem.c\<close>) as the firmware configures it: 12 kbytes, 16-bit sizes, no
  pools. The array \<^verbatim>\<open>ram_heap\<close> is a memory of bytes, so the headers (\<^verbatim>\<open>struct mem\<close>) and the data of the
  clients share it; a pointer is its offset from \<^verbatim>\<open>ram\<close>. A pointer below \<^verbatim>\<open>ram\<close> fails the same assertion
  as one at \<^verbatim>\<open>ram_end\<close> and has no value of its own. A failing \<^verbatim>\<open>LWIP_ASSERT\<close> and an access outside the
  array are faults; the two loops of \<^verbatim>\<open>mem_malloc\<close> run for ever on a list that has a cycle, which is
  the value \<open>None\<close>. The mutex does nothing on the bare machine.
\<close>

subsection \<open>Memory and headers\<close>

record mem_heap =
  ram :: "nat \<Rightarrow> u8"
  lfree :: nat

definition MEM_ALIGNMENT :: nat where "MEM_ALIGNMENT = 4"
definition MEM_SIZE :: nat where "MEM_SIZE = 12 * 1024"
definition MIN_SIZE :: nat where "MIN_SIZE = 12"

definition LWIP_MEM_ALIGN_SIZE :: "nat \<Rightarrow> nat" where
  "LWIP_MEM_ALIGN_SIZE n = nat ((int n + int MEM_ALIGNMENT - 1) AND NOT (int MEM_ALIGNMENT - 1))"

text \<open>Two 16-bit indices and a byte: six bytes with the padding.\<close>

definition SIZEOF_STRUCT_MEM :: nat where "SIZEOF_STRUCT_MEM = LWIP_MEM_ALIGN_SIZE 6"
definition MIN_SIZE_ALIGNED :: nat where "MIN_SIZE_ALIGNED = LWIP_MEM_ALIGN_SIZE MIN_SIZE"
definition MEM_SIZE_ALIGNED :: nat where "MEM_SIZE_ALIGNED = LWIP_MEM_ALIGN_SIZE MEM_SIZE"

abbreviation ram_end :: nat where "ram_end \<equiv> MEM_SIZE_ALIGNED"

text \<open>
  A \<^verbatim>\<open>struct mem\<close> at the offset lies in the array: behind the aligned start there are at least
  \<^verbatim>\<open>MEM_SIZE_ALIGNED + 2 * SIZEOF_STRUCT_MEM + 1\<close> bytes.
\<close>

definition in_ram :: "nat \<Rightarrow> bool" where
  "in_ram p \<longleftrightarrow> p + 6 \<le> MEM_SIZE_ALIGNED + 2 * SIZEOF_STRUCT_MEM + 1"

definition get16 :: "nat \<Rightarrow> mem_heap \<Rightarrow> nat" where
  "get16 p h = unat (ram h p) + 256 * unat (ram h (p + 1))"

definition put16 :: "nat \<Rightarrow> nat \<Rightarrow> mem_heap \<Rightarrow> mem_heap" where
  "put16 p v h = h\<lparr>ram := (ram h)(p := of_nat v, p + 1 := of_nat (v div 256))\<rparr>"

abbreviation mem_next :: "nat \<Rightarrow> mem_heap \<Rightarrow> nat" where "mem_next p h \<equiv> get16 p h"
abbreviation mem_prev :: "nat \<Rightarrow> mem_heap \<Rightarrow> nat" where "mem_prev p h \<equiv> get16 (p + 2) h"
abbreviation mem_used :: "nat \<Rightarrow> mem_heap \<Rightarrow> u8" where "mem_used p h \<equiv> ram h (p + 4)"
abbreviation set_next :: "nat \<Rightarrow> nat \<Rightarrow> mem_heap \<Rightarrow> mem_heap" where "set_next p v h \<equiv> put16 p v h"
abbreviation set_prev :: "nat \<Rightarrow> nat \<Rightarrow> mem_heap \<Rightarrow> mem_heap" where "set_prev p v h \<equiv> put16 (p + 2) v h"

definition set_used :: "nat \<Rightarrow> u8 \<Rightarrow> mem_heap \<Rightarrow> mem_heap" where
  "set_used p u h = h\<lparr>ram := (ram h)(p + 4 := u)\<rparr>"

text \<open>Values of type \<^verbatim>\<open>mem_size_t\<close>, and differences in the unsigned arithmetic of \<^verbatim>\<open>sz_t\<close>.\<close>

definition mem_size_t :: "nat \<Rightarrow> nat" where "mem_size_t n = n mod 65536"

definition usub :: "nat \<Rightarrow> nat \<Rightarrow> nat" where
  "usub a b = nat ((int a - int b) mod 2 ^ 32)"

subsection \<open>Initialisation and freeing\<close>

definition mem_init :: "(nat \<Rightarrow> u8) \<Rightarrow> mem_heap" where
  "mem_init bss =
     (let h = \<lparr>ram = bss, lfree = 0\<rparr>;
          h = set_used 0 0 (set_prev 0 0 (set_next 0 MEM_SIZE_ALIGNED h))
      in set_prev ram_end MEM_SIZE_ALIGNED (set_next ram_end MEM_SIZE_ALIGNED (set_used ram_end 1 h)))"

definition plug_forward :: "nat \<Rightarrow> mem_heap \<Rightarrow> mem_heap checked" where
  "plug_forward mem h =
     (let nmem = mem_next mem h in
      require Oob_read (in_ram nmem)
       (if mem \<noteq> nmem \<and> mem_used nmem h = 0 \<and> nmem \<noteq> ram_end
        then let h = (if lfree h = nmem then h\<lparr>lfree := mem\<rparr> else h);
                 h = set_next mem (mem_next nmem h) h
             in require Oob_write (in_ram (mem_next nmem h)) (Inr (set_prev (mem_next nmem h) mem h))
        else Inr h))"

definition plug_backward :: "nat \<Rightarrow> mem_heap \<Rightarrow> mem_heap checked" where
  "plug_backward mem h =
     (let pmem = mem_prev mem h in
      require Oob_read (in_ram pmem)
       (if pmem \<noteq> mem \<and> mem_used pmem h = 0
        then let h = (if lfree h = mem then h\<lparr>lfree := pmem\<rparr> else h);
                 h = set_next pmem (mem_next mem h) h
             in require Oob_write (in_ram (mem_next mem h)) (Inr (set_prev (mem_next mem h) pmem h))
        else Inr h))"

definition plug_holes :: "nat \<Rightarrow> mem_heap \<Rightarrow> mem_heap checked" where
  "plug_holes mem h =
     require Assert_failed (mem < ram_end \<and> mem_used mem h = 0 \<and> mem_next mem h \<le> MEM_SIZE_ALIGNED)
       (and_then (plug_forward mem h) (plug_backward mem))"

definition mem_free :: "nat option \<Rightarrow> mem_heap \<Rightarrow> mem_heap checked" where
  "mem_free rmem h =
     (case rmem of
        None \<Rightarrow> Inr h
      | Some p \<Rightarrow>
          require Assert_failed (p AND (MEM_ALIGNMENT - 1) = 0 \<and> p < ram_end)
           (require Oob_read (SIZEOF_STRUCT_MEM \<le> p)
             (let mem = p - SIZEOF_STRUCT_MEM in
              require Assert_failed (mem_used mem h \<noteq> 0)
               (let h = set_used mem 0 h;
                    h = (if mem < lfree h then h\<lparr>lfree := mem\<rparr> else h)
                in plug_holes mem h))))"

subsection \<open>Shrinking\<close>

definition trim_size :: "nat \<Rightarrow> nat" where
  "trim_size n = (let n = mem_size_t (LWIP_MEM_ALIGN_SIZE n) in if n < MIN_SIZE_ALIGNED then MIN_SIZE_ALIGNED else n)"

definition link_back :: "nat \<Rightarrow> mem_heap \<Rightarrow> mem_heap checked" where
  "link_back mem2 h =
     (if mem_next mem2 h \<noteq> MEM_SIZE_ALIGNED
      then require Oob_write (in_ram (mem_next mem2 h)) (Inr (set_prev (mem_next mem2 h) mem2 h))
      else Inr h)"

definition place_free :: "nat \<Rightarrow> nat \<Rightarrow> nat \<Rightarrow> mem_heap \<Rightarrow> mem_heap checked" where
  "place_free ptr ptr2 nxt h =
     require Oob_write (in_ram ptr2)
      (let h = set_prev ptr2 ptr (set_next ptr2 nxt (set_used ptr2 0 h))
       in link_back ptr2 (set_next ptr ptr2 h))"

definition mem_trim :: "nat \<Rightarrow> nat \<Rightarrow> mem_heap \<Rightarrow> (nat option \<times> mem_heap) checked" where
  "mem_trim rmem newsize h =
     (let newsize = trim_size newsize in
      if newsize > MEM_SIZE_ALIGNED then Inr (None, h)
      else require Assert_failed (rmem < ram_end) (require Oob_read (SIZEOF_STRUCT_MEM \<le> rmem)
       (let ptr = rmem - SIZEOF_STRUCT_MEM;
            sz = mem_size_t (usub (usub (mem_next ptr h) ptr) SIZEOF_STRUCT_MEM)
        in require Assert_failed (newsize \<le> sz)
         (if newsize = sz then Inr (Some rmem, h)
          else let mem2 = mem_next ptr h;
                   ptr2 = mem_size_t (ptr + SIZEOF_STRUCT_MEM + newsize)
          in require Oob_read (in_ram mem2)
           (if mem_used mem2 h = 0
            then let nxt = mem_next mem2 h;
                     h = (if lfree h = mem2 then h\<lparr>lfree := ptr2\<rparr> else h)
                 in and_then (place_free ptr ptr2 nxt h) (\<lambda>h. Inr (Some rmem, h))
            else if newsize + SIZEOF_STRUCT_MEM + MIN_SIZE_ALIGNED \<le> sz
            then let h = (if ptr2 < lfree h then h\<lparr>lfree := ptr2\<rparr> else h)
                 in and_then (place_free ptr ptr2 (mem_next ptr h) h) (\<lambda>h. Inr (Some rmem, h))
            else Inr (Some rmem, h))))))"

subsection \<open>Allocating\<close>

partial_function (option) mem_find :: "nat \<Rightarrow> nat \<Rightarrow> mem_heap \<Rightarrow> nat option option" where
  "mem_find sz ptr h =
     (if ptr < MEM_SIZE_ALIGNED - sz
      then if mem_used ptr h = 0 \<and> sz \<le> usub (mem_next ptr h) (ptr + SIZEOF_STRUCT_MEM)
           then Some (Some ptr)
           else mem_find sz (mem_next ptr h) h
      else Some None)"

partial_function (option) next_free :: "nat \<Rightarrow> mem_heap \<Rightarrow> nat checked option" where
  "next_free cur h =
     (if \<not> in_ram cur then Some (Inl Oob_read)
      else if mem_used cur h \<noteq> 0 \<and> cur \<noteq> ram_end then next_free (mem_next cur h) h
      else Some (Inr cur))"

definition take_block :: "nat \<Rightarrow> nat \<Rightarrow> mem_heap \<Rightarrow> mem_heap checked" where
  "take_block ptr sz h =
     (if sz + SIZEOF_STRUCT_MEM + MIN_SIZE_ALIGNED \<le> usub (mem_next ptr h) (ptr + SIZEOF_STRUCT_MEM)
      then let ptr2 = mem_size_t (ptr + SIZEOF_STRUCT_MEM + sz) in
           require Oob_write (in_ram ptr2)
            (let h = set_prev ptr2 ptr (set_next ptr2 (mem_next ptr h) (set_used ptr2 0 h));
                 h = set_used ptr 1 (set_next ptr ptr2 h)
             in link_back ptr2 h)
      else Inr (set_used ptr 1 h))"

definition adjust_lfree :: "nat \<Rightarrow> mem_heap \<Rightarrow> mem_heap checked option" where
  "adjust_lfree ptr h =
     (if ptr = lfree h
      then map_option (\<lambda>r. and_then r (\<lambda>cur.
             require Assert_failed (cur = ram_end \<or> mem_used cur h = 0) (Inr (h\<lparr>lfree := cur\<rparr>))))
             (next_free (lfree h) h)
      else Some (Inr h))"

definition mem_malloc :: "nat \<Rightarrow> mem_heap \<Rightarrow> (nat option \<times> mem_heap) checked option" where
  "mem_malloc sz h =
     (if sz = 0 then Some (Inr (None, h))
      else let sz = trim_size sz in
        if sz > MEM_SIZE_ALIGNED then Some (Inr (None, h))
        else Option.bind (mem_find sz (lfree h) h) (\<lambda>found.
          case found of
            None \<Rightarrow> Some (Inr (None, h))
          | Some ptr \<Rightarrow>
              (case take_block ptr sz h of
                 Inl e \<Rightarrow> Some (Inl e)
               | Inr h \<Rightarrow> map_option (\<lambda>r. and_then r (\<lambda>h.
                   require Assert_failed (ptr + SIZEOF_STRUCT_MEM + sz \<le> ram_end
                       \<and> (ptr + SIZEOF_STRUCT_MEM) mod MEM_ALIGNMENT = 0 \<and> ptr AND (MEM_ALIGNMENT - 1) = 0)
                     (Inr (Some (ptr + SIZEOF_STRUCT_MEM), h))))
                   (adjust_lfree ptr h))))"

text \<open>The product goes to \<^verbatim>\<open>mem_malloc\<close> as a 16-bit size, to \<^verbatim>\<open>memset\<close> as it is.\<close>

definition memset0 :: "nat \<Rightarrow> nat \<Rightarrow> mem_heap \<Rightarrow> mem_heap checked" where
  "memset0 p n h =
     require Oob_write (p + n \<le> MEM_SIZE_ALIGNED + 2 * SIZEOF_STRUCT_MEM + 1)
       (Inr (h\<lparr>ram := \<lambda>i. if p \<le> i \<and> i < p + n then 0 else ram h i\<rparr>))"

definition mem_calloc :: "nat \<Rightarrow> nat \<Rightarrow> mem_heap \<Rightarrow> (nat option \<times> mem_heap) checked option" where
  "mem_calloc count sz h =
     map_option (\<lambda>r. and_then r (\<lambda>(p, h).
         case p of None \<Rightarrow> Inr (None, h)
         | Some q \<Rightarrow> and_then (memset0 q (count * sz) h) (\<lambda>h. Inr (Some q, h))))
       (mem_malloc (mem_size_t (count * sz)) h)"

subsection \<open>Arithmetic\<close>

lemma and_not_3: "(x :: int) AND - 4 = x div 4 * 4"
proof -
  have "bit (x AND NOT (mask 2)) i = bit (push_bit 2 (drop_bit 2 x)) i" for i
  proof (cases "i < 2")
    case False
    then obtain j where "i = 2 + j" by (metis le_Suc_ex not_less)
    then show ?thesis by (simp add: bit_simps)
  qed (simp add: bit_simps)
  then have "x AND NOT (mask 2) = push_bit 2 (drop_bit 2 x)" by (simp add: bit_eq_iff)
  then show ?thesis by (simp add: mask_eq_exp_minus_1 push_bit_eq_mult drop_bit_eq_div)
qed

lemma align_eq: "LWIP_MEM_ALIGN_SIZE n = (n + 3) div 4 * 4"
  by (simp add: LWIP_MEM_ALIGN_SIZE_def MEM_ALIGNMENT_def and_not_3 nat_mult_distrib nat_div_distrib nat_add_distrib)

lemma mem_consts [simp]: "SIZEOF_STRUCT_MEM = 8" "MIN_SIZE_ALIGNED = 12" "MEM_SIZE_ALIGNED = 12288"
  by (simp_all add: SIZEOF_STRUCT_MEM_def MIN_SIZE_ALIGNED_def MEM_SIZE_ALIGNED_def align_eq MIN_SIZE_def MEM_SIZE_def)

lemma usub_le [simp]: "b \<le> a \<Longrightarrow> a < 2 ^ 32 \<Longrightarrow> usub a b = a - b"
  by (simp add: usub_def nat_mod_distrib)

lemma trim_size_ge: "n \<le> 65532 \<Longrightarrow> n \<le> trim_size n \<and> trim_size n \<le> 65532"
  by (auto simp: trim_size_def align_eq mem_size_t_def Let_def)

lemma trim_size_props: "12 \<le> trim_size n" "4 dvd trim_size n"
  by (auto simp: trim_size_def align_eq mem_size_t_def Let_def dvd_mod)

lemma get16_put16 [simp]: "get16 p (put16 p v h) = v mod 65536"
  by (simp add: get16_def put16_def unsigned_of_nat take_bit_eq_mod mod_mult2_eq [of v 256 256, simplified])

lemma get16_put16_other [simp]: "p + 2 \<le> q \<or> q + 2 \<le> p \<Longrightarrow> get16 q (put16 p v h) = get16 q h"
  by (auto simp: get16_def put16_def)

lemma ram_put16 [simp]: "i < p \<or> p + 2 \<le> i \<Longrightarrow> ram (put16 p v h) i = ram h i"
  by (auto simp: put16_def)

lemma get16_set_used [simp]: "q + 2 \<le> p + 4 \<or> p + 5 \<le> q \<Longrightarrow> get16 q (set_used p u h) = get16 q h"
  by (auto simp: get16_def set_used_def)

lemma ram_set_used [simp]: "ram (set_used p u h) i = (if i = p + 4 then u else ram h i)"
  by (simp add: set_used_def)

lemma lfree_put [simp]: "lfree (put16 p v h) = lfree h" "lfree (set_used p u h) = lfree h"
  by (simp_all add: put16_def set_used_def)

lemma get16_lfree [simp]: "get16 p (h\<lparr>lfree := l\<rparr>) = get16 p h"
  by (simp add: get16_def)

lemma get16_less: "get16 p h < 65536"
proof -
  have "unat (ram h p) < 256" "unat (ram h (p + 1)) < 256"
    using unsigned_less [of "ram h p"] unsigned_less [of "ram h (p + 1)"] by simp_all
  then show ?thesis by (simp add: get16_def)
qed


subsection \<open>The list of blocks\<close>

text \<open>
  A layout lists the blocks from the lowest address: the distance to the next header and whether
  the block is in use. \<open>seg h p pr bs q e\<close>: from the header at \<open>p\<close>, whose predecessor is \<open>pr\<close>, the
  headers of \<open>bs\<close> lead to \<open>q\<close>, and the last of them is \<open>e\<close>.
\<close>

type_synonym layout = "(nat \<times> bool) list"

fun seg :: "mem_heap \<Rightarrow> nat \<Rightarrow> nat \<Rightarrow> layout \<Rightarrow> nat \<Rightarrow> nat \<Rightarrow> bool" where
  "seg h p pr [] q e \<longleftrightarrow> q = p \<and> e = pr"
| "seg h p pr ((n, u) # bs) q e \<longleftrightarrow>
     mem_next p h = p + n \<and> mem_prev p h = pr \<and> mem_used p h = (if u then 1 else 0)
     \<and> 20 \<le> n \<and> 4 dvd n \<and> seg h (p + n) p bs q e"

fun separated :: "layout \<Rightarrow> bool" where
  "separated ((n, u) # (m, w) # bs) \<longleftrightarrow> (u \<or> w) \<and> separated ((m, w) # bs)"
| "separated _ \<longleftrightarrow> True"

fun first_free :: "nat \<Rightarrow> layout \<Rightarrow> nat" where
  "first_free p [] = p"
| "first_free p ((n, u) # bs) = (if u then first_free (p + n) bs else p)"

definition chain :: "mem_heap \<Rightarrow> nat \<Rightarrow> nat \<Rightarrow> layout \<Rightarrow> bool" where
  "chain h p pr bs \<longleftrightarrow> (\<exists>e. seg h p pr bs ram_end e)"

definition end_ok :: "mem_heap \<Rightarrow> bool" where
  "end_ok h \<longleftrightarrow> mem_used ram_end h \<noteq> 0 \<and> mem_next ram_end h = ram_end"

definition heap_rep :: "mem_heap \<Rightarrow> layout \<Rightarrow> bool" where
  "heap_rep h bs \<longleftrightarrow> chain h 0 0 bs \<and> separated bs \<and> lfree h = first_free 0 bs \<and> end_ok h"

fun span :: "layout \<Rightarrow> nat" where
  "span [] = 0"
| "span ((n, u) # bs) = n + span bs"

fun headers :: "nat \<Rightarrow> layout \<Rightarrow> nat set" where
  "headers p [] = {p..<p + 8}"
| "headers p ((n, u) # bs) = {p..<p + 8} \<union> headers (p + n) bs"

fun regions :: "nat \<Rightarrow> layout \<Rightarrow> (nat \<times> nat) list" where
  "regions p [] = []"
| "regions p ((n, u) # bs) = (if u then [(p + 8, n - 8)] else []) @ regions (p + n) bs"

lemma span_append [simp]: "span (as @ bs) = span as + span bs"
  by (induction as) auto

lemma regions_append: "regions p (as @ bs) = regions p as @ regions (p + span as) bs"
  by (induction as arbitrary: p) (auto simp: add.assoc)

lemma headers_append: "headers p (as @ bs) = headers p as \<union> headers (p + span as) bs"
proof (induction as arbitrary: p)
  case Nil
  show ?case by (cases bs) auto
next
  case (Cons b as)
  then show ?case by (cases b) (auto simp: add.assoc)
qed

lemma seg_append: "seg h p pr (as @ bs) q e \<longleftrightarrow> (\<exists>m f. seg h p pr as m f \<and> seg h m f bs q e)"
  by (induction h p pr as q e rule: seg.induct) (simp, fastforce)

lemma seg_span: "seg h p pr bs q e \<Longrightarrow> q = p + span bs"
  by (induction h p pr bs q e rule: seg.induct) auto

lemma seg_dvd: "seg h p pr bs q e \<Longrightarrow> 4 dvd p \<Longrightarrow> 4 dvd q"
  by (induction h p pr bs q e rule: seg.induct) auto

lemma seg_le: "seg h p pr bs q e \<Longrightarrow> p \<le> q"
  by (auto dest: seg_span)

lemma headers_ge: "i \<in> headers p bs \<Longrightarrow> p \<le> i"
  by (induction p bs rule: headers.induct) auto

text \<open>A chain depends on the bytes of its headers only.\<close>

lemma seg_headers:
  "seg h p pr bs q e \<Longrightarrow> (\<And>i. i \<in> headers p bs \<Longrightarrow> i < q \<Longrightarrow> ram h' i = ram h i) \<Longrightarrow> seg h' p pr bs q e"
proof (induction bs arbitrary: p pr)
  case Nil
  then show ?case by simp
next
  case (Cons b bs)
  obtain n u where b: "b = (n, u)" by (cases b)
  then have n: "20 \<le> n" and s: "seg h (p + n) p bs q e" using Cons.prems(1) by auto
  from seg_le [OF s] n Cons.prems(2) b have "\<And>i. i < 5 \<Longrightarrow> ram h' (p + i) = ram h (p + i)" by simp
  note this [of 0] this [of 1] this [of 2] this [of "2 + 1"] this [of 4]
  then have "mem_next p h' = mem_next p h" "mem_prev p h' = mem_prev p h" "mem_used p h' = mem_used p h"
    unfolding get16_def add.assoc by simp_all
  moreover have "seg h' (p + n) p bs q e"
    by (rule Cons.IH [OF s]) (rule Cons.prems(2), simp_all add: b)
  ultimately show ?case using Cons.prems(1) b by simp
qed

lemma seg_frame:
  "seg h p pr bs q e \<Longrightarrow> (\<And>i. p \<le> i \<Longrightarrow> i < q \<Longrightarrow> ram h' i = ram h i) \<Longrightarrow> seg h' p pr bs q e"
  by (erule seg_headers) (auto dest: headers_ge)

lemma chain_Nil [simp]: "chain h p pr [] \<longleftrightarrow> p = ram_end"
  by (auto simp: chain_def)

lemma chain_Cons: "chain h p pr ((n, u) # bs) \<longleftrightarrow>
     mem_next p h = p + n \<and> mem_prev p h = pr \<and> mem_used p h = (if u then 1 else 0)
     \<and> 20 \<le> n \<and> 4 dvd n \<and> chain h (p + n) p bs"
  by (auto simp: chain_def)

lemma chain_append: "chain h p pr (as @ bs) \<longleftrightarrow> (\<exists>f. seg h p pr as (p + span as) f \<and> chain h (p + span as) f bs)"
  unfolding chain_def seg_append by (metis seg_span)

lemma chain_le: "chain h p pr bs \<Longrightarrow> p + span bs = ram_end"
  by (auto simp: chain_def dest: seg_span)

lemma chain_frame: "chain h p pr bs \<Longrightarrow> (\<And>i. p \<le> i \<Longrightarrow> i < ram_end \<Longrightarrow> ram h' i = ram h i) \<Longrightarrow> chain h' p pr bs"
  unfolding chain_def using seg_frame [of h p pr bs ram_end] by blast

lemma chain_relink:
  assumes c: "chain h p pr bs" and h': "\<And>i. p \<le> i \<Longrightarrow> i < ram_end \<Longrightarrow> ram h' i = ram (set_prev p v h) i" and v: "v < 65536"
  shows "chain h' p v bs"
proof -
  have "chain (set_prev p v h) p v bs"
  proof (cases bs)
    case (Cons b cs)
    obtain n u where b: "b = (n, u)" by (cases b)
    have "chain (set_prev p v h) (p + n) p cs"
      by (rule chain_frame [of h]) (use c Cons b in \<open>auto simp: chain_Cons\<close>)
    then show ?thesis using c Cons b v by (simp add: chain_Cons)
  qed (use c in simp)
  then show ?thesis by (rule chain_frame) (rule h')
qed

end
