(* ===== verification/Mem_Ops.thy ===== *)
theory Mem_Ops
  imports Mem
begin

text \<open>
  The operations of the heap on its list of blocks: \<^verbatim>\<open>mem_free\<close> merges a block with its free neighbours
  (\<open>mem_free_ok\<close>), \<^verbatim>\<open>mem_malloc\<close> takes the first block that fits (\<open>mem_malloc_ok\<close>), \<^verbatim>\<open>mem_trim\<close> gives the end
  of a block back (\<open>mem_trim_ok\<close>). Each keeps \<open>heap_rep\<close>, fails no assertion and writes only to headers.
\<close>

subsection \<open>Freeing a block\<close>

fun join :: "nat \<times> bool \<Rightarrow> layout \<Rightarrow> layout" where
  "join (n, u) ((m, w) # bs) = (if \<not> u \<and> \<not> w then (n + m, False) # bs else (n, u) # (m, w) # bs)"
| "join b [] = [b]"

definition join_last :: "layout \<Rightarrow> layout \<Rightarrow> layout" where
  "join_last as bs = (if as = [] then bs else butlast as @ join (last as) bs)"

lemma end_ok_relink: "chain h' p pr bs \<Longrightarrow> end_ok (set_prev p v h) \<longleftrightarrow> end_ok h"
proof -
  assume c: "chain h' p pr bs"
  then have "p = 12288 \<or> p + 20 \<le> 12288"
    using chain_le [OF c] by (cases bs) (auto simp: chain_Cons)
  then show ?thesis by (auto simp: end_ok_def)
qed

lemma end_ok_other: "p + 4 < ram_end \<Longrightarrow> end_ok (set_next p v h) \<longleftrightarrow> end_ok h"
  "p + 4 < ram_end \<Longrightarrow> end_ok (set_used p u h) \<longleftrightarrow> end_ok h" "end_ok (h\<lparr>lfree := l\<rparr>) \<longleftrightarrow> end_ok h"
  by (auto simp: end_ok_def)

lemma in_ram_le: "p \<le> 12289 + 10 \<Longrightarrow> in_ram p"
  by (simp add: in_ram_def)

lemma plug_forward_ok:
  assumes c: "chain h q qr ((n, False) # cs)" and e: "end_ok h"
  shows "\<exists>h'. plug_forward q h = Inr h' \<and> chain h' q qr (join (n, False) cs) \<and> end_ok h'
      \<and> lfree h' = (if lfree h = q + n \<and> cs \<noteq> [] \<and> \<not> snd (hd cs) then q else lfree h)
      \<and> (\<forall>i. ram h' i \<noteq> ram h i \<longrightarrow> i \<in> headers q ((n, False) # cs))"
proof -
  have hd: "mem_next q h = q + n" "mem_prev q h = qr" "mem_used q h = 0" "20 \<le> n" "4 dvd n" and c': "chain h (q + n) q cs"
    using c by (simp_all add: chain_Cons)
  note le = chain_le [OF c']
  show ?thesis
  proof (cases "cs \<noteq> [] \<and> \<not> snd (hd cs)")
    case False
    have "cs = [] \<or> (\<exists>m bs. cs = (m, True) # bs)" using False by (cases cs) auto
    then have "plug_forward q h = Inr h \<and> join (n, False) cs = (n, False) # cs"
      using hd c' le by (auto simp: plug_forward_def require_def Let_def chain_Cons in_ram_le)
    then show ?thesis using c e False by auto
  next
    case True
    then obtain m bs where cs: "cs = (m, False) # bs" by (cases cs) auto
    have hd': "mem_next (q + n) h = q + n + m" "mem_used (q + n) h = 0" "20 \<le> m" "4 dvd m"
      and b: "chain h (q + n + m) (q + n) bs" using c' cs by (simp_all add: chain_Cons)
    have b_le: "q + n + m \<le> 12288" using chain_le [OF b] by simp
    define l where "l = (if lfree h = q + n then q else lfree h)"
    define h' where "h' = set_prev (q + n + m) q (set_next q (q + n + m) (h\<lparr>lfree := l\<rparr>))"
    have "plug_forward q h = Inr h'"
      using hd hd' b_le by (simp add: plug_forward_def require_def Let_def in_ram_le h'_def l_def)
    moreover have "chain h' q qr ((n + m, False) # bs)"
    proof -
      have "chain h' (q + n + m) q bs"
        by (rule chain_relink [OF b]) (use hd b_le in \<open>auto simp: h'_def put16_def\<close>)
      then show ?thesis using hd hd' b_le by (simp add: chain_Cons h'_def add.assoc)
    qed
    moreover have "end_ok h'" using e b_le hd hd' unfolding h'_def end_ok_relink [OF b] by (simp add: end_ok_other)
    moreover have "\<forall>i. ram h' i \<noteq> ram h i \<longrightarrow> i \<in> headers q ((n, False) # cs)"
      by (cases bs) (auto simp: h'_def put16_def cs split: if_splits)
    ultimately show ?thesis using cs by (simp add: h'_def l_def)
  qed
qed

lemma chain_split:
  assumes "chain h p pr (as @ (n, u) # bs)"
  shows "\<exists>f. seg h p pr as (p + span as) f \<and> chain h (p + span as) f ((n, u) # bs)"
  using assms by (simp only: chain_append)

lemma chain_snoc:
  assumes "seg h p pr (as @ [(m, u)]) q e"
  shows "\<exists>f. seg h p pr as e f \<and> q = e + m \<and> mem_next e h = q \<and> mem_prev e h = f \<and> mem_used e h = (if u then 1 else 0)
           \<and> 20 \<le> m \<and> 4 dvd m \<and> e = p + span as"
  using assms by (auto simp: seg_append dest: seg_span)

lemma chain_appI: "seg h p pr as q f \<Longrightarrow> chain h q f bs \<Longrightarrow> chain h p pr (as @ bs)"
  by (auto simp: chain_append dest: seg_span) 

lemma plug_backward_ok:
  assumes c: "chain h 0 0 (as @ (n, False) # cs)" and e: "end_ok h" and q: "q = span as"
  shows "\<exists>h'. plug_backward q h = Inr h' \<and> chain h' 0 0 (join_last as ((n, False) # cs)) \<and> end_ok h'
      \<and> lfree h' = (if lfree h = q \<and> as \<noteq> [] \<and> \<not> snd (last as) then q - fst (last as) else lfree h)
      \<and> (\<forall>i. ram h' i \<noteq> ram h i \<longrightarrow> i \<in> headers 0 (as @ (n, False) # cs))"
proof -
  obtain f where s: "seg h 0 0 as q f" and ch: "chain h q f ((n, False) # cs)"
    using chain_split [OF c] q by auto
  have hd: "mem_next q h = q + n" "mem_prev q h = f" "mem_used q h = 0" "20 \<le> n" "4 dvd n" and c': "chain h (q + n) q cs"
    using ch by (simp_all add: chain_Cons)
  have le: "q + n \<le> 12288" using chain_le [OF c'] by simp
  show ?thesis
  proof (cases "as = []")
    case True
    then show ?thesis using c e hd s
      by (auto simp: plug_backward_def require_def Let_def in_ram_le join_last_def)
  next
    case False
    then obtain as' m u where as: "as = as' @ [(m, u)]" by (metis append_butlast_last_id surj_pair)
    obtain g where s': "seg h 0 0 as' f g" and p: "q = f + m" "mem_next f h = q" "mem_prev f h = g"
      "mem_used f h = (if u then 1 else 0)" "20 \<le> m" "4 dvd m" "f = span as'"
      using chain_snoc [OF s [unfolded as]] by auto
    show ?thesis
    proof (cases u)
      case True
      then have "plug_backward q h = Inr h" using hd p le
        by (simp add: plug_backward_def require_def Let_def in_ram_le)
      then show ?thesis using c e True as by (simp add: join_last_def)
    next
      case u: False
      define l where "l = (if lfree h = q then f else lfree h)"
      define h' where "h' = set_prev (q + n) f (set_next f (q + n) (h\<lparr>lfree := l\<rparr>))"
      have "plug_backward q h = Inr h'"
        using hd p le u by (simp add: plug_backward_def require_def Let_def in_ram_le h'_def l_def)
      moreover have "chain h' 0 0 (as' @ (m + n, False) # cs)"
      proof (rule chain_appI)
        show "seg h' 0 0 as' f g" by (rule seg_frame [OF s']) (use p hd in \<open>simp add: h'_def\<close>)
        have "chain h' (q + n) f cs"
          by (rule chain_relink [OF c']) (use p hd le in \<open>auto simp: h'_def put16_def\<close>)
        then show "chain h' f g ((m + n, False) # cs)" using hd p le u by (simp add: chain_Cons h'_def add.assoc)
      qed
      moreover have "end_ok h'" using e le hd p unfolding h'_def end_ok_relink [OF c'] by (simp add: end_ok_other)
      moreover have "\<forall>i. ram h' i \<noteq> ram h i \<longrightarrow> i \<in> headers 0 (as @ (n, False) # cs)"
        using p by (cases cs) (auto simp: h'_def put16_def as headers_append split: if_splits)
      ultimately show ?thesis using as u p by (simp add: h'_def l_def join_last_def)
    qed
  qed
qed


abbreviation all_used :: "layout \<Rightarrow> bool" where "all_used bs \<equiv> (\<forall>b\<in>set bs. snd b)"
abbreviation big :: "layout \<Rightarrow> bool" where "big bs \<equiv> (\<forall>b\<in>set bs. 20 \<le> fst b)"

lemma first_free_used: "all_used as \<Longrightarrow> first_free p (as @ bs) = first_free (p + span as) bs"
  by (induction as arbitrary: p) (auto simp: add.assoc)

lemma first_free_some: "\<not> all_used as \<Longrightarrow> first_free p (as @ bs) = first_free p as"
proof (induction as arbitrary: p)
  case (Cons b as)
  obtain n u where b: "b = (n, u)" by (cases b)
  show ?case
  proof (cases u)
    case True
    then have "\<not> all_used as" using Cons.prems b by auto
    then show ?thesis using Cons.IH [of "p + n"] b True by simp
  qed (simp add: b)
qed simp

lemma first_free_ge: "p \<le> first_free p bs"
  by (induction p bs rule: first_free.induct) auto

lemma first_free_less: "\<not> all_used as \<Longrightarrow> big as \<Longrightarrow> first_free p as < p + span as"
proof (induction as arbitrary: p)
  case (Cons b as)
  obtain n u where b: "b = (n, u)" by (cases b)
  show ?case
  proof (cases u)
    case True
    then have "\<not> all_used as" using Cons.prems b by auto
    then show ?thesis using Cons.IH [of "p + n"] Cons.prems b True by simp
  qed (use b Cons.prems in simp)
qed simp

lemma seg_big: "seg h p pr bs q e \<Longrightarrow> big bs"
  by (induction h p pr bs q e rule: seg.induct) auto

lemma separated_Cons: "separated (b # bs) \<longleftrightarrow> (bs = [] \<or> snd b \<or> snd (hd bs)) \<and> separated bs"
  by (cases b; cases bs) auto

lemma separated_app: "separated (as @ bs) \<longleftrightarrow> separated as \<and> separated bs \<and> (as = [] \<or> bs = [] \<or> snd (last as) \<or> snd (hd bs))"
  by (induction as) (auto simp: separated_Cons simp del: separated.simps(1))

lemmas separated_simps = separated_Cons separated_app

declare separated.simps(1) [simp del]

lemma join_shape: "\<exists>k bs. join (n, False) cs = (k, False) # bs \<and> (k, bs) = (if cs \<noteq> [] \<and> \<not> snd (hd cs) then (n + fst (hd cs), tl cs) else (n, cs))"
  by (cases cs) auto

lemma join_headers: "headers p (join b bs) \<subseteq> headers p (b # bs)"
  by (cases b; cases bs) (auto simp: add.assoc split: if_splits)

lemma nat_and_3: "(n :: nat) AND 3 = n mod 4"
  using take_bit_eq_mask [of 2 n] by (simp add: take_bit_eq_mod mask_eq_exp_minus_1 and.commute)

lemma join_used: "join (n, True) bs = (n, True) # bs"
  by (cases bs) auto

lemma separated_join: "separated cs \<Longrightarrow> separated (join (n, False) cs)"
  by (cases cs) (auto simp: separated_simps)

lemma separated_join_last:
  assumes "separated as" and "separated ((k, False) # bs)"
  shows "separated (join_last as ((k, False) # bs))"
proof (cases "as = []")
  case False
  then obtain as' m u where "as = as' @ [(m, u)]" by (metis append_butlast_last_id surj_pair)
  then show ?thesis using assms by (cases u) (auto simp: join_last_def separated_simps)
qed (use assms in \<open>simp add: join_last_def\<close>)

lemma first_free_join_last:
  "first_free p (join_last as ((k, False) # bs)) = (if all_used as then p + span as else first_free p as)"
proof (cases "as = []")
  case False
  then obtain as' m u where as: "as = as' @ [(m, u)]" by (metis append_butlast_last_id surj_pair)
  show ?thesis
    by (cases "all_used as'"; cases u) (auto simp: join_last_def as first_free_used first_free_some add.assoc)
qed (simp add: join_last_def)

text \<open>A layout without the block at \<open>q\<close>, merged with its free neighbours.\<close>

fun free_layout :: "nat \<Rightarrow> nat \<Rightarrow> layout \<Rightarrow> layout" where
  "free_layout p q [] = []"
| "free_layout p q ((n, u) # bs) =
     (if p = q then join (n, False) bs else join (n, u) (free_layout (p + n) q bs))"

lemma free_layout_eq:
  "big as \<Longrightarrow> separated (as @ (n, True) # cs) \<Longrightarrow>
   free_layout p (p + span as) (as @ (n, True) # cs) = join_last as (join (n, False) cs)"
proof (induction as arbitrary: p)
  case (Cons b as)
  obtain m u where b: "b = (m, u)" by (cases b)
  have IH: "free_layout (p + m) (p + m + span as) (as @ (n, True) # cs) = join_last as (join (n, False) cs)"
    using Cons.IH [of "p + m"] Cons.prems by (simp add: separated_simps)
  have "join (m, u) (join_last as (join (n, False) cs)) = join_last (b # as) (join (n, False) cs)"
  proof (cases as)
    case (Cons c as')
    obtain k w where c: "c = (k, w)" by (cases c)
    have "u \<or> w" using \<open>separated ((b # as) @ (n, True) # cs)\<close> b c Cons by (simp add: separated_simps)
    moreover have "\<exists>k' bs. join_last (c # as') (join (n, False) cs) = (k', w) # bs"
      using join_shape [of n cs] c by (cases as') (auto simp: join_last_def)
    ultimately show ?thesis using b Cons c by (auto simp: join_last_def)
  qed (simp add: join_last_def b)
  moreover have "0 < m" using Cons.prems(1) b by simp
  ultimately show ?case using IH b by (simp add: add.assoc)
qed (simp add: join_last_def)


lemma seg_chain_dvd: "seg h 0 0 as q f \<Longrightarrow> 4 dvd q"
  by (rule seg_dvd) auto

text \<open>\<^verbatim>\<open>lfree\<close> after the block at \<open>q\<close> was freed and merged.\<close>

lemma lfree_same: "lfree h = l \<Longrightarrow> h\<lparr>lfree := l\<rparr> = h"
  by (cases h) simp

lemma lfree_freed:
  assumes big: "big as" and q: "q = span as" and l: "l = first_free 0 (as @ (n, True) # cs)" and n: "20 \<le> n"
    and l1: "l1 = (if q < l then q else l)"
  shows "l1 \<noteq> q + n"
    and "(if l1 = q \<and> as \<noteq> [] \<and> \<not> snd (last as) then q - fst (last as) else l1) = (if all_used as then span as else first_free 0 as)"
proof -
  show "l1 \<noteq> q + n" using n l1 by auto
  show "(if l1 = q \<and> as \<noteq> [] \<and> \<not> snd (last as) then q - fst (last as) else l1) = (if all_used as then span as else first_free 0 as)"
  proof (cases "all_used as")
    case True
    then have "q < l" using l first_free_ge [of "q + n" cs] n by (simp add: first_free_used q)
    moreover have "as \<noteq> [] \<Longrightarrow> snd (last as)" using True by simp
    ultimately show ?thesis using True l1 q by auto
  next
    case False
    then have "l1 < q" "l1 = first_free 0 as"
      using first_free_less [OF False big, of 0] l l1 q first_free_some [OF False, of 0 "(n, True) # cs"] by auto
    then show ?thesis using False by auto
  qed
qed

lemma mem_free_ok:
  assumes r: "heap_rep h (as @ (n, True) # cs)" and q: "q = span as"
  shows "\<exists>h'. mem_free (Some (q + 8)) h = Inr h' \<and> heap_rep h' (join_last as (join (n, False) cs))
      \<and> (\<forall>i. ram h' i \<noteq> ram h i \<longrightarrow> i \<in> headers 0 (as @ (n, True) # cs))"
proof -
  have c: "chain h 0 0 (as @ (n, True) # cs)" and sep: "separated (as @ (n, True) # cs)"
    and l: "lfree h = first_free 0 (as @ (n, True) # cs)" and e: "end_ok h" using r by (auto simp: heap_rep_def)
  obtain f where s: "seg h 0 0 as q f" and hd: "mem_next q h = q + n" "mem_prev q h = f" "mem_used q h = 1" "20 \<le> n" "4 dvd n"
    and c': "chain h (q + n) q cs" using chain_split [OF c] q by (auto simp: chain_Cons)
  have le: "q + n \<le> 12288" using chain_le [OF c'] by simp
  define l1 where "l1 = (if q < lfree h then q else lfree h)"
  define h1 where "h1 = (set_used q 0 h)\<lparr>lfree := l1\<rparr>"
  have e1: "end_ok h1" using e le hd by (simp add: h1_def end_ok_other)
  have c1: "chain h1 (q + n) q cs" by (rule chain_frame [OF c']) (use hd in \<open>simp add: h1_def\<close>)
  then have ch1: "chain h1 q f ((n, False) # cs)" using hd by (simp add: chain_Cons h1_def)
  from plug_forward_ok [OF ch1 e1] obtain h2 where
    fwd: "plug_forward q h1 = Inr h2" "chain h2 q f (join (n, False) cs)" "end_ok h2"
    and l2: "lfree h2 = (if lfree h1 = q + n \<and> cs \<noteq> [] \<and> \<not> snd (hd cs) then q else lfree h1)"
    and fr2: "\<And>i. ram h2 i \<noteq> ram h1 i \<Longrightarrow> i \<in> headers q ((n, False) # cs)" by auto
  note lf = lfree_freed [OF seg_big [OF s] q l \<open>20 \<le> n\<close> l1_def]
  have l2': "lfree h2 = l1" using l2 lf(1) by (auto simp: h1_def)
  obtain k ds where j: "join (n, False) cs = (k, False) # ds" using join_shape by blast
  have "seg h2 0 0 as q f"
  proof (rule seg_frame [OF s])
    fix i assume "i < q"
    then show "ram h2 i = ram h i" using fr2 [of i] headers_ge [of i "q + n" cs] by (auto simp: h1_def)
  qed
  then have c2: "chain h2 0 0 (as @ (k, False) # ds)" using fwd(2) by (simp add: j chain_appI)
  from plug_backward_ok [OF c2 fwd(3) q] obtain h3 where
    bwd: "plug_backward q h2 = Inr h3" "chain h3 0 0 (join_last as ((k, False) # ds))" "end_ok h3"
    and l3: "lfree h3 = (if lfree h2 = q \<and> as \<noteq> [] \<and> \<not> snd (last as) then q - fst (last as) else lfree h2)"
    and fr3: "\<And>i. ram h3 i \<noteq> ram h2 i \<Longrightarrow> i \<in> headers 0 (as @ (k, False) # ds)" by auto
  have h1: "(if q < lfree (set_used q 0 h) then set_used q 0 h\<lparr>lfree := q\<rparr> else set_used q 0 h) = h1"
    by (simp add: h1_def l1_def lfree_same)
  have "plug_holes q h1 = Inr h3"
    using hd le fwd(1) bwd(1) by (simp add: plug_holes_def require_def and_then_def h1_def)
  then have "mem_free (Some (q + 8)) h = Inr h3"
    using hd le seg_chain_dvd [OF s] h1
    by (simp add: mem_free_def require_def Let_def MEM_ALIGNMENT_def nat_and_3)
  moreover have "heap_rep h3 (join_last as (join (n, False) cs))"
  proof -
    have "separated as" "separated ((k, False) # ds)"
      using sep separated_join [of cs n] j by (simp_all add: separated_app separated_Cons [of "(n, True)"])
    moreover have "lfree h3 = first_free 0 (join_last as ((k, False) # ds))"
      unfolding l3 l2' lf(2) first_free_join_last by simp
    ultimately show ?thesis using bwd(2,3) by (simp add: heap_rep_def j separated_join_last)
  qed
  moreover have "ram h3 i \<noteq> ram h i \<Longrightarrow> i \<in> headers 0 (as @ (n, True) # cs)" for i
  proof -
    assume "ram h3 i \<noteq> ram h i"
    then have "i \<in> headers 0 (as @ (k, False) # ds) \<or> i \<in> headers q ((n, False) # cs) \<or> i = q + 4"
      using fr3 [of i] fr2 [of i]
      by (cases "ram h3 i = ram h2 i"; cases "ram h2 i = ram h1 i") (auto simp: h1_def split: if_splits)
    then show ?thesis using join_headers [of q "(n, False)" cs] by (auto simp: headers_append j simp flip: q)
  qed
  ultimately show ?thesis by blast
qed


subsection \<open>Placing a free block behind a used one\<close>

lemma place_free_ok:
  assumes s: "seg h 0 0 as q f" and hd: "mem_prev q h = f" "mem_used q h = (if u then 1 else 0)"
    and c: "chain h nx g ds" and p2: "q + 20 \<le> p2" "4 dvd p2 - q" "p2 + 20 \<le> nx" "4 dvd nx - p2" and e: "end_ok h"
  shows "\<exists>h'. place_free q p2 nx h = Inr h' \<and> chain h' 0 0 (as @ (p2 - q, u) # (nx - p2, False) # ds)
      \<and> end_ok h' \<and> lfree h' = lfree h
      \<and> (\<forall>i. ram h' i \<noteq> ram h i \<longrightarrow> q \<le> i \<and> i < q + 8 \<or> p2 \<le> i \<and> i < p2 + 8 \<or> nx \<le> i \<and> i < nx + 8)"
proof -
  have le: "nx \<le> 12288" using chain_le [OF c] by simp
  define h1 where "h1 = set_next q p2 (set_prev p2 q (set_next p2 nx (set_used p2 0 h)))"
  define h' where "h' = (if nx = 12288 then h1 else set_prev nx p2 h1)"
  have "mem_next p2 h1 = nx" using p2 le by (simp add: h1_def)
  then have "place_free q p2 nx h = Inr h'"
    using p2 le unfolding place_free_def Let_def h1_def [symmetric]
    by (simp add: require_def link_back_def in_ram_le h'_def)
  moreover have "chain h' 0 0 (as @ (p2 - q, u) # (nx - p2, False) # ds)"
  proof (rule chain_appI)
    show "seg h' 0 0 as q f" by (rule seg_frame [OF s]) (use p2 in \<open>simp add: h'_def h1_def\<close>)
    have "chain h' nx p2 ds"
    proof (cases "nx = 12288")
      case True
      then have "ds = []" using c chain_le [OF c] by (cases ds) (auto simp: chain_Cons)
      then show ?thesis using c by simp
    next
      case False
      show ?thesis by (rule chain_relink [OF c]) (use False p2 le in \<open>auto simp: h'_def h1_def put16_def set_used_def\<close>)
    qed
    then show "chain h' q f ((p2 - q, u) # (nx - p2, False) # ds)"
      using hd p2 le by (simp add: chain_Cons h'_def h1_def) arith
  qed
  moreover have "end_ok h1" using e p2 le by (simp add: h1_def end_ok_def)
  then have "end_ok h'" unfolding h'_def using end_ok_relink [OF c] by simp
  moreover have "\<forall>i. ram h' i \<noteq> ram h i \<longrightarrow> q \<le> i \<and> i < q + 8 \<or> p2 \<le> i \<and> i < p2 + 8 \<or> nx \<le> i \<and> i < nx + 8"
    by (auto simp: h'_def h1_def put16_def split: if_splits)
  ultimately show ?thesis by (auto simp: h'_def h1_def)
qed

subsection \<open>Allocating a block\<close>

fun find_fit :: "nat \<Rightarrow> nat \<Rightarrow> layout \<Rightarrow> nat option" where
  "find_fit sz p [] = None"
| "find_fit sz p ((n, u) # bs) = (if \<not> u \<and> sz + 8 \<le> n then Some p else find_fit sz (p + n) bs)"

definition carve :: "nat \<Rightarrow> nat \<Rightarrow> layout" where
  "carve sz n = (if sz + 28 \<le> n then [(sz + 8, True), (n - (sz + 8), False)] else [(n, True)])"

fun alloc_layout :: "nat \<Rightarrow> layout \<Rightarrow> layout" where
  "alloc_layout sz [] = []"
| "alloc_layout sz ((n, u) # bs) = (if \<not> u \<and> sz + 8 \<le> n then carve sz n @ bs else (n, u) # alloc_layout sz bs)"

lemma find_fit_Some:
  "find_fit sz p bs = Some q \<Longrightarrow> \<exists>as n cs. bs = as @ (n, False) # cs \<and> q = p + span as \<and> sz + 8 \<le> n
      \<and> (\<forall>(m, u)\<in>set as. u \<or> m < sz + 8) \<and> alloc_layout sz bs = as @ carve sz n @ cs"
proof (induction sz p bs rule: find_fit.induct)
  case (2 sz p n u bs)
  show ?case
  proof (cases "\<not> u \<and> sz + 8 \<le> n")
    case True
    then show ?thesis using 2 by (intro exI [of _ "[]"]) auto
  next
    case False
    then obtain as m cs where "bs = as @ (m, False) # cs" "q = p + n + span as" "sz + 8 \<le> m" "\<forall>(m, u)\<in>set as. u \<or> m < sz + 8"
      "alloc_layout sz bs = as @ carve sz m @ cs" using 2 by auto
    then show ?thesis using False by (intro exI [of _ "(n, u) # as"]) auto
  qed
qed simp

lemma find_fit_None: "find_fit sz p bs = None \<longleftrightarrow> (\<forall>(m, u)\<in>set bs. u \<or> m < sz + 8)"
  by (induction sz p bs rule: find_fit.induct) auto

lemma alloc_layout_none: "find_fit sz p bs = None \<Longrightarrow> alloc_layout sz bs = bs"
  by (induction sz p bs rule: find_fit.induct) (auto split: if_splits)

lemma find_fit_used: "all_used as \<Longrightarrow> find_fit sz p (as @ bs) = find_fit sz (p + span as) bs"
  by (induction as arbitrary: p) (auto simp: add.assoc)

lemma find_fit_bound: "find_fit sz p bs = Some q \<Longrightarrow> q + sz + 8 \<le> p + span bs"
  by (auto dest!: find_fit_Some)

lemma mem_find_fit: "chain h p pr bs \<Longrightarrow> sz \<le> 12288 \<Longrightarrow> mem_find sz p h = Some (find_fit sz p bs)"
proof (induction bs arbitrary: p pr)
  case Nil
  have "\<not> 12288 < 12288 - sz" by arith
  then show ?case using Nil by (subst mem_find.simps) simp
next
  case (Cons b bs)
  obtain n u where b: "b = (n, u)" by (cases b)
  have hd: "mem_next p h = p + n" "mem_used p h = (if u then 1 else 0)" "20 \<le> n" and c: "chain h (p + n) p bs"
    using Cons.prems(1) b by (simp_all add: chain_Cons)
  have le: "p + n \<le> 12288" using chain_le [OF c] by simp
  show ?case
  proof (cases "p < 12288 - sz")
    case True
    then show ?thesis using hd le Cons.IH [OF c] Cons.prems(2) b by (subst mem_find.simps) (cases u, auto)
  next
    case False
    have "find_fit sz p (b # bs) = None"
    proof (cases "find_fit sz p (b # bs)")
      case (Some q)
      obtain as m where "q = p + span as" using find_fit_Some [OF Some] by auto
      then show ?thesis using find_fit_bound [OF Some] chain_le [OF Cons.prems(1)] False by simp
    qed
    then show ?thesis using False by (subst mem_find.simps) simp
  qed
qed

lemma next_free_chain: "chain h p pr bs \<Longrightarrow> end_ok h \<Longrightarrow> next_free p h = Some (Inr (first_free p bs))
    \<and> (first_free p bs = ram_end \<or> mem_used (first_free p bs) h = 0)"
proof (induction bs arbitrary: p pr)
  case Nil
  then show ?case by (subst next_free.simps) (simp add: in_ram_le)
next
  case (Cons b bs)
  obtain n u where b: "b = (n, u)" by (cases b)
  have hd: "mem_next p h = p + n" "mem_used p h = (if u then 1 else 0)" "20 \<le> n" and c: "chain h (p + n) p bs"
    using Cons.prems(1) b by (simp_all add: chain_Cons)
  have "p + n \<le> 12288" using chain_le [OF c] by simp
  then show ?case using hd Cons.IH [OF c Cons.prems(2)] b
    by (cases u; subst next_free.simps) (simp_all add: in_ram_le)
qed


lemma put16_commute: "p + 2 \<le> q \<or> q + 2 \<le> p \<Longrightarrow> put16 p v (put16 q w h) = put16 q w (put16 p v h)"
  by (auto simp: put16_def fun_eq_iff)

lemma set_used_put16: "q + 2 \<le> p + 4 \<or> p + 5 \<le> q \<Longrightarrow> set_used p u (put16 q w h) = put16 q w (set_used p u h)"
  by (auto simp: put16_def set_used_def fun_eq_iff)

lemma set_used_commute: "p \<noteq> q \<Longrightarrow> set_used p u (set_used q w h) = set_used q w (set_used p u h)"
  by (auto simp: set_used_def fun_eq_iff)

lemma take_block_ok:
  assumes c: "chain h 0 0 (as @ (n, False) # cs)" and e: "end_ok h" and q: "q = span as"
    and n: "sz + 8 \<le> n" and sz: "12 \<le> sz" "4 dvd sz"
  shows "\<exists>h'. take_block q sz h = Inr h' \<and> chain h' 0 0 (as @ carve sz n @ cs) \<and> end_ok h' \<and> lfree h' = lfree h
      \<and> (\<forall>i. ram h' i \<noteq> ram h i \<longrightarrow> i \<in> headers 0 (as @ carve sz n @ cs))"
proof -
  obtain f where s: "seg h 0 0 as q f" and hd: "mem_next q h = q + n" "mem_prev q h = f" "mem_used q h = 0" "20 \<le> n" "4 dvd n"
    and c': "chain h (q + n) q cs" using chain_split [OF c] q by (auto simp: chain_Cons)
  have le: "q + n \<le> 12288" using chain_le [OF c'] by simp
  define h1 where "h1 = set_used q 1 h"
  have s1: "seg h1 0 0 as q f" by (rule seg_frame [OF s]) (simp add: h1_def)
  have c1: "chain h1 (q + n) q cs" by (rule chain_frame [OF c']) (use hd in \<open>simp add: h1_def\<close>)
  have hd1: "mem_prev q h1 = f" "mem_used q h1 = (if True then 1 else 0)" "mem_next q h1 = q + n" using hd by (simp_all add: h1_def)
  have e1: "end_ok h1" using e le hd by (simp add: h1_def end_ok_other)
  show ?thesis
  proof (cases "sz + 28 \<le> n")
    case True
    let ?p = "q + 8 + sz"
    have "4 dvd n - (8 + sz)" using hd(5) sz True by (intro dvd_diff_nat dvd_add) auto
    then have p2: "q + 20 \<le> ?p" "4 dvd ?p - q" "?p + 20 \<le> q + n" "4 dvd q + n - ?p"
      using sz True by (auto simp: dvd_add_right_iff algebra_simps)
    obtain h' where h': "place_free q ?p (q + n) h1 = Inr h'" "chain h' 0 0 (as @ (?p - q, True) # (q + n - ?p, False) # cs)"
      "end_ok h'" "lfree h' = lfree h1"
      "\<And>i. ram h' i \<noteq> ram h1 i \<Longrightarrow> q \<le> i \<and> i < q + 8 \<or> ?p \<le> i \<and> i < ?p + 8 \<or> q + n \<le> i \<and> i < q + n + 8"
      using place_free_ok [OF s1 hd1(1,2) c1 p2 e1] by blast
    have "20 + sz \<le> n - 8" using True by arith
    then have "take_block q sz h = place_free q ?p (q + n) h1"
      using True hd le sz by (simp add: take_block_def place_free_def mem_size_t_def Let_def h1_def
          set_used_put16 set_used_commute [of q] in_ram_le require_def)
    moreover have "as @ carve sz n @ cs = as @ (?p - q, True) # (q + n - ?p, False) # cs" using True by (simp add: carve_def)
    moreover have "ram h' i \<noteq> ram h i \<Longrightarrow> i \<in> headers 0 (as @ carve sz n @ cs)" for i
    proof -
      assume "ram h' i \<noteq> ram h i"
      then have "q \<le> i \<and> i < q + 8 \<or> ?p \<le> i \<and> i < ?p + 8 \<or> q + n \<le> i \<and> i < q + n + 8"
        using h'(5) [of i] by (auto simp: h1_def split: if_splits)
      then show ?thesis using True q sz
        by (cases cs) (auto simp: carve_def headers_append)
    qed
    ultimately show ?thesis using h' by (auto simp: h1_def)
  next
    case False
    then have "\<not> 20 + sz \<le> n - 8" by arith
    then have "take_block q sz h = Inr h1" using hd le by (simp add: take_block_def h1_def)
    moreover have "chain h1 0 0 (as @ (n, True) # cs)"
      using s1 c1 hd hd1 by (intro chain_appI) (auto simp: chain_Cons)
    moreover have "\<forall>i. ram h1 i \<noteq> ram h i \<longrightarrow> i \<in> headers 0 (as @ (n, True) # cs)" using q by (auto simp: h1_def headers_append)
    ultimately show ?thesis using False e1 by (auto simp: carve_def h1_def)
  qed
qed

lemma first_free_split: "\<exists>as cs. bs = as @ cs \<and> all_used as \<and> first_free p bs = p + span as"
proof (induction p bs rule: first_free.induct)
  case (2 p n u bs)
  show ?case
  proof (cases u)
    case True
    then obtain as cs where "bs = as @ cs" "all_used as" "first_free (p + n) bs = p + n + span as" using 2 by auto
    then show ?thesis using True by (intro exI [of _ "(n, u) # as"] exI [of _ cs]) auto
  next
    case False
    then have "(n, u) # bs = [] @ (n, u) # bs \<and> all_used [] \<and> first_free p ((n, u) # bs) = p + span []" by simp
    then show ?thesis by blast
  qed
qed simp

lemma mem_malloc_ok:
  assumes r: "heap_rep h bs" and n: "0 < n"
  shows "case find_fit (trim_size n) 0 bs of
           None \<Rightarrow> mem_malloc n h = Some (Inr (None, h))
         | Some q \<Rightarrow> \<exists>h'. mem_malloc n h = Some (Inr (Some (q + 8), h')) \<and> heap_rep h' (alloc_layout (trim_size n) bs)
             \<and> (\<forall>i. ram h' i \<noteq> ram h i \<longrightarrow> i \<in> headers 0 (alloc_layout (trim_size n) bs))"
proof -
  let ?sz = "trim_size n"
  have c: "chain h 0 0 bs" and sep: "separated bs" and l: "lfree h = first_free 0 bs" and e: "end_ok h"
    using r by (auto simp: heap_rep_def)
  obtain us cs where us: "bs = us @ cs" "all_used us" "lfree h = span us" using first_free_split [of bs 0] l by auto
  obtain g where "chain h (span us) g cs" using c by (auto simp: us(1) chain_append)
  then have find: "?sz \<le> 12288 \<Longrightarrow> mem_find ?sz (lfree h) h = Some (find_fit ?sz 0 bs)"
    using us by (simp add: mem_find_fit find_fit_used)
  show ?thesis
  proof (cases "find_fit ?sz 0 bs")
    case None
    then show ?thesis using find n by (cases "?sz \<le> 12288") (simp_all add: mem_malloc_def Let_def)
  next
    case (Some q)
    obtain as k ds where bs: "bs = as @ (k, False) # ds" "q = span as" "?sz + 8 \<le> k" "alloc_layout ?sz bs = as @ carve ?sz k @ ds"
      using find_fit_Some [OF Some] by auto
    have bound: "q + ?sz + 8 \<le> 12288" using find_fit_bound [OF Some] chain_le [OF c] by simp
    obtain h1 where h1: "take_block q ?sz h = Inr h1" "chain h1 0 0 (as @ carve ?sz k @ ds)" "end_ok h1" "lfree h1 = lfree h"
      "\<And>i. ram h1 i \<noteq> ram h i \<Longrightarrow> i \<in> headers 0 (as @ carve ?sz k @ ds)"
      using take_block_ok [OF c [unfolded bs(1)] e bs(2,3) trim_size_props] by blast
    obtain f where s: "seg h1 0 0 as q f" and ch: "chain h1 q f (carve ?sz k @ ds)"
      using h1(2) bs(2) by (auto simp: chain_append)
    have q4: "4 dvd q" using seg_chain_dvd [OF s] .
    let ?l = "first_free 0 (as @ carve ?sz k @ ds)"
    have adj: "adjust_lfree q h1 = Some (Inr (h1\<lparr>lfree := ?l\<rparr>))"
    proof (cases "all_used as")
      case True
      then have "q = lfree h1" using l h1(4) bs by (simp add: first_free_used)
      then show ?thesis using next_free_chain [OF ch h1(3)] True bs(2)
        by (auto simp: adjust_lfree_def and_then_def require_def first_free_used)
    next
      case False
      then have "lfree h1 = first_free 0 as" "first_free 0 as < q" "?l = first_free 0 as"
        using l h1(4) bs first_free_less [OF False seg_big [OF s], of 0] by (simp_all add: first_free_some)
      then show ?thesis by (simp add: adjust_lfree_def lfree_same)
    qed
    have "mem_malloc n h = Some (Inr (Some (q + 8), h1\<lparr>lfree := ?l\<rparr>))"
      using n find Some bound h1(1) adj q4
      by (simp add: mem_malloc_def Let_def and_then_def require_def MEM_ALIGNMENT_def nat_and_3)
    moreover have "heap_rep (h1\<lparr>lfree := ?l\<rparr>) (as @ carve ?sz k @ ds)"
    proof -
      have "chain (h1\<lparr>lfree := ?l\<rparr>) 0 0 (as @ carve ?sz k @ ds)" by (rule chain_frame [OF h1(2)]) simp
      moreover have "separated (as @ carve ?sz k @ ds)"
        using sep by (auto simp: bs(1) carve_def separated_simps)
      ultimately show ?thesis using h1(3) by (simp add: heap_rep_def end_ok_other)
    qed
    ultimately show ?thesis using Some bs(4) h1(5) by auto
  qed
qed


subsection \<open>Shrinking a block\<close>

definition shrink :: "nat \<Rightarrow> nat \<Rightarrow> layout \<Rightarrow> layout" where
  "shrink m n cs =
     (if m + 8 = n then (n, True) # cs
      else case cs of (k, False) # ds \<Rightarrow> (m + 8, True) # (n + k - (m + 8), False) # ds
           | _ \<Rightarrow> if m + 28 \<le> n then (m + 8, True) # (n - (m + 8), False) # cs else (n, True) # cs)"

lemma mem_trim_place:
  assumes r: "heap_rep h (as @ (n, True) # cs)" and q: "q = span as" and m: "12 \<le> m" "4 dvd m"
    and g: "chain h nx g ds" and x: "q + 8 + m + 20 \<le> nx"
    and new: "new = as @ (m + 8, True) # (nx - (q + 8 + m), False) # ds" and sep: "separated new"
    and l: "l = first_free 0 new"
  shows "\<exists>h'. place_free q (q + 8 + m) nx (h\<lparr>lfree := l\<rparr>) = Inr h' \<and> heap_rep h' new
      \<and> (\<forall>i. ram h' i \<noteq> ram h i \<longrightarrow> i \<in> headers 0 new)"
proof -
  have c: "chain h 0 0 (as @ (n, True) # cs)" and e: "end_ok h" using r by (auto simp: heap_rep_def)
  let ?h = "h\<lparr>lfree := l\<rparr>" and ?p = "q + 8 + m"
  obtain f where s: "seg h 0 0 as q f" and hd: "mem_prev q h = f" "mem_used q h = 1"
    using chain_split [OF c] q by (auto simp: chain_Cons)
  have s': "seg ?h 0 0 as q f" by (rule seg_frame [OF s]) simp
  have g': "chain ?h nx g ds" by (rule chain_frame [OF g]) simp
  have q4: "4 dvd q" using seg_chain_dvd [OF s] .
  have "4 dvd nx"
  proof -
    obtain e' where e': "seg h nx g ds 12288 e'" using g by (auto simp: chain_def)
    have "4 dvd span ds" using e' by (induction h nx g ds "12288 :: nat" e' rule: seg.induct) auto
    then have "4 dvd nx + span ds \<longleftrightarrow> 4 dvd nx" by (simp add: dvd_add_left_iff)
    then show ?thesis using seg_span [OF e'] by simp
  qed
  then have d: "4 dvd nx - ?p" using q4 m by (intro dvd_diff_nat dvd_add) auto
  obtain h' where h': "place_free q ?p nx ?h = Inr h'" "chain h' 0 0 (as @ (?p - q, True) # (nx - ?p, False) # ds)"
    "end_ok h'" "lfree h' = lfree ?h"
    "\<And>i. ram h' i \<noteq> ram ?h i \<Longrightarrow> q \<le> i \<and> i < q + 8 \<or> ?p \<le> i \<and> i < ?p + 8 \<or> nx \<le> i \<and> i < nx + 8"
    using place_free_ok [OF s' _ _ g', of True ?p] hd m x d e by (auto simp: end_ok_other)
  have "heap_rep h' new" using h' sep by (simp add: heap_rep_def new l add.commute)
  moreover have "ram h' i \<noteq> ram h i \<Longrightarrow> i \<in> headers 0 new" for i
    using h'(5) [of i] x q by (cases ds) (auto simp: new headers_append)
  ultimately show ?thesis using h'(1) by auto
qed

lemma mem_trim_ok:
  assumes r: "heap_rep h (as @ (n, True) # cs)" and q: "q = span as" and m: "m = trim_size k" "m + 8 \<le> n"
  shows "\<exists>h'. mem_trim (q + 8) k h = Inr (Some (q + 8), h') \<and> heap_rep h' (as @ shrink m n cs)
      \<and> (\<forall>i. ram h' i \<noteq> ram h i \<longrightarrow> i \<in> headers 0 (as @ shrink m n cs))"
proof -
  have c: "chain h 0 0 (as @ (n, True) # cs)" and sep: "separated (as @ (n, True) # cs)"
    and l: "lfree h = first_free 0 (as @ (n, True) # cs)" and e: "end_ok h" using r by (auto simp: heap_rep_def)
  obtain f where s: "seg h 0 0 as q f" and hd: "mem_next q h = q + n" "mem_used q h = 1" "20 \<le> n" "4 dvd n"
    and c': "chain h (q + n) q cs" using chain_split [OF c] q by (auto simp: chain_Cons)
  have le: "q + n \<le> 12288" using chain_le [OF c'] by simp
  have m12: "12 \<le> m" "4 dvd m" using trim_size_props m by simp_all
  have "m \<le> n - 8" using m by arith
  then have start: "mem_trim (q + 8) k h = (if m = n - 8 then Inr (Some (q + 8), h)
      else if mem_used (q + n) h = 0
      then and_then (place_free q (q + 8 + m) (mem_next (q + n) h) (if lfree h = q + n then h\<lparr>lfree := q + 8 + m\<rparr> else h))
             (\<lambda>h. Inr (Some (q + 8), h))
      else if m + 20 \<le> n - 8
      then and_then (place_free q (q + 8 + m) (q + n) (if q + 8 + m < lfree h then h\<lparr>lfree := q + 8 + m\<rparr> else h))
             (\<lambda>h. Inr (Some (q + 8), h))
      else Inr (Some (q + 8), h))"
    using hd le m(2) by (simp add: mem_trim_def Let_def require_def mem_size_t_def in_ram_le flip: m(1))
  have before: "\<not> all_used as \<Longrightarrow> lfree h = first_free 0 as \<and> first_free 0 as < q"
    using first_free_less [OF _ seg_big [OF s], of 0] l q by (simp add: first_free_some)
  show ?thesis
  proof (cases "m = n - 8")
    case True
    then show ?thesis using start r m by (auto simp: shrink_def)
  next
    case False
    then have mn: "m + 8 < n" using m by simp
    have "4 dvd n - (m + 8)" using hd(4) m12 by (intro dvd_diff_nat dvd_add) auto
    then have mn: "m + 12 \<le> n" using mn by presburger
    show ?thesis
    proof (cases "cs \<noteq> [] \<and> \<not> snd (hd cs)")
      case True
      then obtain j ds where cs: "cs = (j, False) # ds" by (cases cs) auto
      have hd': "mem_next (q + n) h = q + n + j" "mem_used (q + n) h = 0" "20 \<le> j" and d: "chain h (q + n + j) (q + n) ds"
        using c' by (simp_all add: cs chain_Cons)
      let ?new = "as @ (m + 8, True) # (q + n + j - (q + 8 + m), False) # ds"
      have "separated ?new" using sep by (auto simp: cs separated_simps)
      moreover have "(if lfree h = q + n then q + 8 + m else lfree h) = first_free 0 ?new"
        using before l q hd(3) by (cases "all_used as") (auto simp: cs first_free_used first_free_some)
      ultimately obtain h' where
        "place_free q (q + 8 + m) (q + n + j) (h\<lparr>lfree := if lfree h = q + n then q + 8 + m else lfree h\<rparr>) = Inr h'"
        "heap_rep h' ?new" "\<forall>i. ram h' i \<noteq> ram h i \<longrightarrow> i \<in> headers 0 ?new"
        using mem_trim_place [OF r q m12 d _ refl] mn hd' by force
      moreover have "shrink m n cs = (m + 8, True) # (q + n + j - (q + 8 + m), False) # ds"
        using mn by (simp add: shrink_def cs)
      moreover have "h\<lparr>lfree := if lfree h = q + n then q + 8 + m else lfree h\<rparr> = (if lfree h = q + n then h\<lparr>lfree := q + 8 + m\<rparr> else h)"
        by (simp add: lfree_same)
      ultimately show ?thesis using start False hd' by (simp add: and_then_def)
    next
      case used: False
      then have cs: "cs = [] \<or> (\<exists>j ds. cs = (j, True) # ds)" by (cases cs) auto
      have u: "mem_used (q + n) h \<noteq> 0" using cs c' e by (auto simp: chain_Cons end_ok_def)
      have sh: "shrink m n cs = (if m + 28 \<le> n then (m + 8, True) # (n - (m + 8), False) # cs else (n, True) # cs)"
        using cs mn by (auto simp: shrink_def)
      show ?thesis
      proof (cases "m + 28 \<le> n")
        case False
        then have "\<not> m + 20 \<le> n - 8" by arith
        then show ?thesis using start False u \<open>m \<noteq> n - 8\<close> r sh by auto
      next
        case True
        let ?new = "as @ (m + 8, True) # (q + n - (q + 8 + m), False) # cs"
        have "separated ?new" using sep cs by (auto simp: separated_simps)
        moreover have "(if q + 8 + m < lfree h then q + 8 + m else lfree h) = first_free 0 ?new"
          using before l q True first_free_ge [of "q + n" cs]
          by (cases "all_used as") (auto simp: first_free_used first_free_some)
        ultimately obtain h' where
          "place_free q (q + 8 + m) (q + n) (h\<lparr>lfree := if q + 8 + m < lfree h then q + 8 + m else lfree h\<rparr>) = Inr h'"
          "heap_rep h' ?new" "\<forall>i. ram h' i \<noteq> ram h i \<longrightarrow> i \<in> headers 0 ?new"
          using mem_trim_place [OF r q m12 c' _ refl] True by force
        moreover have "shrink m n cs = (m + 8, True) # (q + n - (q + 8 + m), False) # cs" using True sh by simp
        moreover have "h\<lparr>lfree := if q + 8 + m < lfree h then q + 8 + m else lfree h\<rparr> = (if q + 8 + m < lfree h then h\<lparr>lfree := q + 8 + m\<rparr> else h)"
          by (simp add: lfree_same)
        moreover have "m + 20 \<le> n - 8" using True by arith
        ultimately show ?thesis using start u \<open>m \<noteq> n - 8\<close> by (simp add: and_then_def)
      qed
    qed
  qed
qed

subsection \<open>The layout of a heap, and the initial heap\<close>

function layout_from :: "nat \<Rightarrow> mem_heap \<Rightarrow> layout" where
  "layout_from p h =
     (if p < mem_next p h \<and> mem_next p h \<le> ram_end
      then (mem_next p h - p, mem_used p h \<noteq> 0) # layout_from (mem_next p h) h else [])"
  by pat_completeness auto
termination by (relation "measure (\<lambda>(p, h). ram_end - p)") auto

declare layout_from.simps [simp del]

definition heap_layout :: "mem_heap \<Rightarrow> layout" where
  "heap_layout h = layout_from 0 h"

lemma layout_from_chain: "chain h p pr bs \<Longrightarrow> end_ok h \<Longrightarrow> layout_from p h = bs"
proof (induction bs arbitrary: p pr)
  case Nil
  then show ?case by (subst layout_from.simps) (simp add: end_ok_def)
next
  case (Cons b bs)
  obtain n u where b: "b = (n, u)" by (cases b)
  have c: "chain h (p + n) p bs" using Cons.prems(1) b by (simp add: chain_Cons)
  show ?case using Cons.prems(1) Cons.IH [OF c Cons.prems(2)] chain_le [OF c]
    by (subst layout_from.simps) (auto simp: b chain_Cons)
qed

lemma heap_rep_layout: "heap_rep h bs \<Longrightarrow> heap_layout h = bs"
  by (auto simp: heap_rep_def heap_layout_def layout_from_chain)

lemma mem_init_rep: "heap_rep (mem_init bss) [(12288, False)]"
  by (simp add: heap_rep_def mem_init_def Let_def chain_Cons end_ok_def separated_simps)

end
