(* ===== verification/Mem_Client.thy ===== *)
theory Mem_Client
  imports Mem_Ops
begin

text \<open>
  What a client of the heap relies on: its blocks do not overlap and nobody else writes to them. The
  locale \<open>allocator\<close> states the contract of the operations over the live blocks; its client lemmas
  say that the bytes a client wrote stay. The interpretation \<open>lwip_mem\<close> proves the contract for
  \<^verbatim>\<open>mem.c\<close>. At the end the properties of the heap, over all runs of a client.
\<close>

subsection \<open>The regions of a layout\<close>

lemma regions_bounds: "big bs \<Longrightarrow> (p, k) \<in> set (regions a bs) \<Longrightarrow> a + 8 \<le> p \<and> p + k \<le> a + span bs \<and> 12 \<le> k"
  by (induction a bs rule: regions.induct) (auto split: if_splits)

lemma regions_disjoint:
  "big bs \<Longrightarrow> (p, k) \<in> set (regions a bs) \<Longrightarrow> (q, l) \<in> set (regions a bs) \<Longrightarrow> p = q \<and> k = l \<or> p + k \<le> q \<or> q + l \<le> p"
proof (induction a bs rule: regions.induct)
  case (2 a n u bs)
  have "\<And>r j. (r, j) \<in> set (regions (a + n) bs) \<Longrightarrow> a + n + 8 \<le> r"
    using 2(2) regions_bounds [of bs _ _ "a + n"] by auto
  from this [of p k] this [of q l] 2 show ?case by (auto split: if_splits)
qed simp

lemma regions_headers: "big bs \<Longrightarrow> (p, k) \<in> set (regions a bs) \<Longrightarrow> i \<in> headers a bs \<Longrightarrow> i < p \<or> p + k \<le> i"
proof (induction a bs rule: regions.induct)
  case (2 a n u bs)
  then show ?case using regions_bounds [of bs p k "a + n"] headers_ge [of i "a + n" bs] by (auto split: if_splits)
qed simp

lemma regions_distinct: "big bs \<Longrightarrow> distinct (map fst (regions a bs))"
proof (induction a bs rule: regions.induct)
  case (2 a n u bs)
  have "r \<noteq> a + 8" if "(r, j) \<in> set (regions (a + n) bs)" for r j
    using 2(2) regions_bounds [of bs r j "a + n"] that by auto
  then show ?case using 2 by force
qed simp

lemma regions_free: "regions p (as @ (n, False) # cs) = regions p as @ regions (p + span as + n) cs"
  by (simp add: regions_append)

lemma regions_join: "regions p (join (n, False) cs) = regions (p + n) cs"
  by (cases cs) (auto simp: add.assoc)

lemma regions_join_last: "regions p (join_last as ((k, False) # ds)) = regions p (as @ (k, False) # ds)"
proof (cases "as = []")
  case False
  then obtain as' m u where "as = as' @ [(m, u)]" by (metis append_butlast_last_id surj_pair)
  then show ?thesis by (cases u) (auto simp: join_last_def regions_append add.assoc)
qed (simp add: join_last_def)

lemma regions_carve: "sz + 8 \<le> n \<Longrightarrow> \<exists>k\<ge>sz. regions p (carve sz n @ cs) = (p + 8, k) # regions (p + n) cs"
  by (auto simp: carve_def)

lemma regions_shrink: "m + 8 \<le> n \<Longrightarrow> \<exists>k\<ge>m. k + 8 \<le> n \<and> regions p (shrink m n cs) = (p + 8, k) # regions (p + n) cs"
proof -
  assume m: "m + 8 \<le> n"
  show ?thesis
  proof (cases "cs \<noteq> [] \<and> \<not> snd (hd cs)")
    case True
    then obtain k ds where "cs = (k, False) # ds" by (cases cs) auto
    then show ?thesis using m by (auto simp: shrink_def add.assoc)
  next
    case False
    then have "cs = [] \<or> (\<exists>k ds. cs = (k, True) # ds)" by (cases cs) auto
    then show ?thesis using m by (auto simp: shrink_def)
  qed
qed

lemma map_of_insert:
  "distinct (map fst (xs @ (q, k) # ys)) \<Longrightarrow> map_of (xs @ (q, k) # ys) = (map_of (xs @ ys))(q \<mapsto> k)
    \<and> map_of (xs @ ys) q = None"
  by (induction xs) (auto simp: fun_upd_twist map_of_eq_None_iff)

subsection \<open>The contract of an allocator\<close>

text \<open>
  What the client knows: the blocks it owns and the bytes it put there. A block may be longer than
  the client asked for.
\<close>

type_synonym owned = "nat \<Rightarrow> u8 list option"

definition agrees :: "(nat \<Rightarrow> nat option) \<Rightarrow> (nat \<Rightarrow> u8) \<Rightarrow> owned \<Rightarrow> bool" where
  "agrees lv byte own \<longleftrightarrow> dom own = dom lv
     \<and> (\<forall>p bs. own p = Some bs \<longrightarrow> (\<exists>k. lv p = Some k \<and> length bs \<le> k) \<and> (\<forall>i < length bs. byte (p + i) = bs ! i))"

lemma agreesE:
  assumes "agrees lv byte own" and "own p = Some bs"
  obtains k where "lv p = Some k" "length bs \<le> k" "\<And>i. i < length bs \<Longrightarrow> byte (p + i) = bs ! i"
  using assms unfolding agrees_def by blast

text \<open>No byte of a block that stays live changes.\<close>

definition keeps :: "(nat \<Rightarrow> nat option) \<Rightarrow> (nat \<Rightarrow> nat option) \<Rightarrow> (nat \<Rightarrow> u8) \<Rightarrow> (nat \<Rightarrow> u8) \<Rightarrow> bool" where
  "keeps lv lv' byte byte' \<longleftrightarrow>
     (\<forall>p k k' i. lv p = Some k \<longrightarrow> lv' p = Some k' \<longrightarrow> i < k \<longrightarrow> i < k' \<longrightarrow> byte' (p + i) = byte (p + i))"

locale allocator =
  fixes inv :: "'h \<Rightarrow> bool" and live :: "'h \<Rightarrow> nat \<Rightarrow> nat option" and byte :: "'h \<Rightarrow> nat \<Rightarrow> u8"
    and malloc :: "nat \<Rightarrow> 'h \<Rightarrow> (nat option \<times> 'h) checked option"
    and free :: "nat option \<Rightarrow> 'h \<Rightarrow> 'h checked"
    and trim :: "nat \<Rightarrow> nat \<Rightarrow> 'h \<Rightarrow> (nat option \<times> 'h) checked"
    and poke :: "nat \<Rightarrow> u8 list \<Rightarrow> 'h \<Rightarrow> 'h"
    and limit :: nat
  assumes disjoint: "inv h \<Longrightarrow> live h p = Some k \<Longrightarrow> live h q = Some l \<Longrightarrow> p \<noteq> q \<Longrightarrow> p + k \<le> q \<or> q + l \<le> p"
    and malloc: "inv h \<Longrightarrow> n \<le> limit \<Longrightarrow> \<exists>r h'. malloc n h = Some (Inr (r, h')) \<and> inv h'
       \<and> (case r of None \<Rightarrow> h' = h
          | Some q \<Rightarrow> live h q = None \<and> (\<exists>k\<ge>n. live h' = (live h)(q \<mapsto> k)) \<and> keeps (live h) (live h') (byte h) (byte h'))"
    and free: "inv h \<Longrightarrow> live h p = Some k \<Longrightarrow> \<exists>h'. free (Some p) h = Inr h' \<and> inv h' \<and> live h' = (live h)(p := None)
       \<and> keeps (live h) (live h') (byte h) (byte h')"
    and trim: "inv h \<Longrightarrow> live h p = Some k \<Longrightarrow> n \<le> k \<Longrightarrow>
       \<exists>h' k'. trim p n h = Inr (Some p, h') \<and> inv h' \<and> n \<le> k' \<and> live h' = (live h)(p \<mapsto> k')
          \<and> keeps (live h) (live h') (byte h) (byte h')"
    and poke: "inv h \<Longrightarrow> live h p = Some k \<Longrightarrow> i + length bs \<le> k \<Longrightarrow> inv (poke (p + i) bs h) \<and> live (poke (p + i) bs h) = live h"
    and poke_byte: "byte (poke a bs h) j = (if a \<le> j \<and> j < a + length bs then bs ! (j - a) else byte h j)"
begin

lemma malloc_agrees:
  assumes "inv h" "agrees (live h) (byte h) own" "n \<le> limit"
  shows "\<exists>r h'. malloc n h = Some (Inr (r, h')) \<and> inv h'
      \<and> (case r of None \<Rightarrow> agrees (live h') (byte h') own
         | Some q \<Rightarrow> own q = None \<and> agrees (live h') (byte h') (own(q \<mapsto> map (\<lambda>i. byte h' (q + i)) [0..<n])))"
proof -
  obtain r h' where m: "malloc n h = Some (Inr (r, h'))" "inv h'" and
    c: "case r of None \<Rightarrow> h' = h
          | Some q \<Rightarrow> live h q = None \<and> (\<exists>k\<ge>n. live h' = (live h)(q \<mapsto> k)) \<and> keeps (live h) (live h') (byte h) (byte h')"
    using malloc [OF assms(1,3)] by auto
  show ?thesis
  proof (cases r)
    case None
    then show ?thesis using m c assms(2) by auto
  next
    case (Some q)
    then obtain k where q: "live h q = None" "n \<le> k" "live h' = (live h)(q \<mapsto> k)" and kp: "keeps (live h) (live h') (byte h) (byte h')"
      using c by auto
    have "own q = None" using q(1) assms(2) by (auto simp: agrees_def)
    moreover have "agrees (live h') (byte h') (own(q \<mapsto> map (\<lambda>i. byte h' (q + i)) [0..<n]))"
      using assms(2) q kp by (fastforce simp: agrees_def keeps_def)
    ultimately show ?thesis using m Some by auto
  qed
qed

lemma free_agrees:
  assumes "inv h" "agrees (live h) (byte h) own" "own p = Some bs"
  shows "\<exists>h'. free (Some p) h = Inr h' \<and> inv h' \<and> agrees (live h') (byte h') (own(p := None))"
proof -
  obtain k where "live h p = Some k" using agreesE [OF assms(2,3)] by blast
  from free [OF assms(1) this] obtain h' where f: "free (Some p) h = Inr h'" "inv h'" "live h' = (live h)(p := None)"
    and kp: "keeps (live h) (live h') (byte h) (byte h')" by auto
  have "agrees (live h') (byte h') (own(p := None))"
    using assms(2) f(3) kp by (fastforce simp: agrees_def keeps_def)
  then show ?thesis using f by auto
qed

lemma trim_agrees:
  assumes "inv h" "agrees (live h) (byte h) own" "own p = Some bs" "n \<le> length bs"
  shows "\<exists>h'. trim p n h = Inr (Some p, h') \<and> inv h' \<and> agrees (live h') (byte h') (own(p \<mapsto> take n bs))"
proof -
  obtain k where k: "live h p = Some k" "length bs \<le> k" "\<And>i. i < length bs \<Longrightarrow> byte h (p + i) = bs ! i"
    using agreesE [OF assms(2,3)] by blast
  from trim [OF assms(1) k(1), of n] obtain h' k' where f: "trim p n h = Inr (Some p, h')" "inv h'" "n \<le> k'" "live h' = (live h)(p \<mapsto> k')"
    and kp: "keeps (live h) (live h') (byte h) (byte h')" using assms(4) k by auto
  have "byte h' (p + i) = bs ! i" if "i < n" for i
    using kp k f(3,4) assms(4) that by (auto simp: keeps_def)
  moreover have "byte h' (q + i) = cs ! i" if "q \<noteq> p" "own q = Some cs" "i < length cs" for q cs i
    using assms(2) f(4) kp that by (fastforce simp: agrees_def keeps_def)
  ultimately have "agrees (live h') (byte h') (own(p \<mapsto> take n bs))"
    using assms f(3,4) by (auto simp: agrees_def)
  then show ?thesis using f by auto
qed

lemma poke_agrees:
  assumes "inv h" "agrees (live h) (byte h) own" "own p = Some old" "i + length bs \<le> length old"
  shows "inv (poke (p + i) bs h)
      \<and> agrees (live (poke (p + i) bs h)) (byte (poke (p + i) bs h)) (own(p \<mapsto> take i old @ bs @ drop (i + length bs) old))"
proof -
  obtain k where k: "live h p = Some k" "length old \<le> k" using agreesE [OF assms(2,3)] by blast
  then have w: "inv (poke (p + i) bs h)" "live (poke (p + i) bs h) = live h"
    using poke [OF assms(1) k(1), of i bs] assms(4) by auto
  have "byte (poke (p + i) bs h) (q + j) = cs ! j" if q: "q \<noteq> p" "own q = Some cs" "j < length cs" for q cs j
  proof -
    obtain l where l: "live h q = Some l" "length cs \<le> l" "byte h (q + j) = cs ! j"
      using agreesE [OF assms(2) q(2)] q(3) by blast
    then show ?thesis using disjoint [OF assms(1) k(1) l(1)] q k(2) assms(4) by (auto simp: poke_byte)
  qed
  moreover have "byte (poke (p + i) bs h) (p + j) = (take i old @ bs @ drop (i + length bs) old) ! j" if "j < length old" for j
    using assms that by (auto simp: poke_byte nth_append agrees_def min_def)
  ultimately show ?thesis using assms w by (auto simp: agrees_def)
qed

lemma owned_disjoint:
  assumes "inv h" "agrees (live h) (byte h) own" "own p = Some bs" "own q = Some cs" "p \<noteq> q"
  shows "p + length bs \<le> q \<or> q + length cs \<le> p"
proof -
  obtain k l where "live h p = Some k" "length bs \<le> k" "live h q = Some l" "length cs \<le> l"
    using agreesE [OF assms(2,3)] agreesE [OF assms(2,4)] by metis
  then show ?thesis using disjoint [OF assms(1) _ _ assms(5), of k l] by auto
qed

end

subsection \<open>The live blocks\<close>

definition mem_inv :: "mem_heap \<Rightarrow> bool" where
  "mem_inv h \<longleftrightarrow> heap_rep h (heap_layout h)"

definition live :: "mem_heap \<Rightarrow> nat \<Rightarrow> nat option" where
  "live h = map_of (regions 0 (heap_layout h))"

definition mem_write :: "nat \<Rightarrow> u8 list \<Rightarrow> mem_heap \<Rightarrow> mem_heap" where
  "mem_write p bs h = h\<lparr>ram := \<lambda>i. if p \<le> i \<and> i < p + length bs then bs ! (i - p) else ram h i\<rparr>"

lemma heap_rep_inv: "heap_rep h bs \<Longrightarrow> mem_inv h \<and> live h = map_of (regions 0 bs)"
  using heap_rep_layout [of h bs] by (simp add: mem_inv_def live_def)

lemma heap_rep_big: "heap_rep h bs \<Longrightarrow> big bs"
  by (auto simp: heap_rep_def chain_def dest: seg_big)

lemma heap_rep_dvd: "heap_rep h bs \<Longrightarrow> (n, u) \<in> set bs \<Longrightarrow> 4 dvd n"
proof -
  have "seg h p pr bs q e \<Longrightarrow> (n, u) \<in> set bs \<Longrightarrow> 4 dvd n" for p pr q e
    by (induction h p pr bs q e rule: seg.induct) auto
  then show "heap_rep h bs \<Longrightarrow> (n, u) \<in> set bs \<Longrightarrow> 4 dvd n" by (auto simp: heap_rep_def chain_def)
qed

text \<open>A live block is the data of a block in use.\<close>

lemma live_block:
  assumes "mem_inv h" and "live h p = Some k"
  shows "\<exists>as n cs. heap_layout h = as @ (n, True) # cs \<and> p = span as + 8 \<and> k = n - 8 \<and> 20 \<le> n \<and> 4 dvd n \<and> 4 dvd span as"
proof -
  have r: "heap_rep h (heap_layout h)" using assms by (simp add: mem_inv_def)
  have "\<exists>as n cs. bs = as @ (n, True) # cs \<and> p = a + span as + 8 \<and> k = n - 8" if "(p, k) \<in> set (regions a bs)" for a bs
    using that
  proof (induction a bs rule: regions.induct)
    case (2 a n u bs)
    then consider "u \<and> p = a + 8 \<and> k = n - 8" | "(p, k) \<in> set (regions (a + n) bs)" by (auto split: if_splits)
    then show ?case
    proof cases
      case 1
      then have "(n, u) # bs = [] @ (n, True) # bs \<and> p = a + span [] + 8 \<and> k = n - 8" by simp
      then show ?thesis by blast
    next
      case c: 2
      then obtain as m cs where "bs = as @ (m, True) # cs" "p = a + n + span as + 8" "k = m - 8" using 2 by blast
      then have "(n, u) # bs = ((n, u) # as) @ (m, True) # cs \<and> p = a + span ((n, u) # as) + 8 \<and> k = m - 8" by simp
      then show ?thesis by blast
    qed
  qed simp
  moreover have "(p, k) \<in> set (regions 0 (heap_layout h))" using assms(2) map_of_SomeD by (auto simp: live_def)
  ultimately obtain as n cs where s: "heap_layout h = as @ (n, True) # cs" "p = span as + 8" "k = n - 8" by fastforce
  then have "chain h 0 0 (as @ (n, True) # cs)" using r by (simp add: heap_rep_def)
  from chain_split [OF this] obtain f where "seg h 0 0 as (span as) f" "20 \<le> n" "4 dvd n" by (auto simp: chain_Cons)
  then show ?thesis using s seg_chain_dvd by blast
qed


lemma keeps_frame:
  assumes r: "heap_rep h bs" and r': "heap_rep h' bs'"
    and f: "\<And>i. ram h' i \<noteq> ram h i \<Longrightarrow> i \<in> headers 0 bs \<or> i \<in> headers 0 bs'"
  shows "keeps (live h) (live h') (ram h) (ram h')"
  unfolding keeps_def
proof (intro allI impI)
  fix p k k' i assume "live h p = Some k" "live h' p = Some k'" "i < k" "i < k'"
  moreover have "(p, k) \<in> set (regions 0 bs)" "(p, k') \<in> set (regions 0 bs')"
    using calculation heap_rep_inv [OF r] heap_rep_inv [OF r'] by (auto dest: map_of_SomeD)
  ultimately have "p + i \<notin> headers 0 bs" "p + i \<notin> headers 0 bs'"
    using regions_headers [OF heap_rep_big [OF r], of p k 0 "p + i"]
      regions_headers [OF heap_rep_big [OF r'], of p k' 0 "p + i"] by auto
  then show "ram h' (p + i) = ram h (p + i)" using f by blast
qed

lemma mem_malloc_contract:
  assumes i: "mem_inv h" and n: "n \<le> 65532"
  shows "\<exists>r h'. mem_malloc n h = Some (Inr (r, h')) \<and> mem_inv h'
       \<and> (case r of None \<Rightarrow> h' = h
          | Some q \<Rightarrow> live h q = None \<and> (\<exists>k\<ge>n. live h' = (live h)(q \<mapsto> k)) \<and> keeps (live h) (live h') (ram h) (ram h'))"
proof -
  let ?bs = "heap_layout h" and ?sz = "trim_size n"
  have r: "heap_rep h ?bs" using i by (simp add: mem_inv_def)
  show ?thesis
  proof (cases "n = 0 \<or> find_fit ?sz 0 ?bs = None")
    case True
    then have "mem_malloc n h = Some (Inr (None, h))"
      using mem_malloc_ok [OF r, of n] by (cases "n = 0") (auto simp: mem_malloc_def)
    then show ?thesis using i by auto
  next
    case False
    then obtain q where q: "find_fit ?sz 0 ?bs = Some q" "0 < n" by auto
    obtain as m cs where bs: "?bs = as @ (m, False) # cs" "q = span as" "?sz + 8 \<le> m" "alloc_layout ?sz ?bs = as @ carve ?sz m @ cs"
      using find_fit_Some [OF q(1)] by auto
    obtain h' where h': "mem_malloc n h = Some (Inr (Some (q + 8), h'))" "heap_rep h' (as @ carve ?sz m @ cs)"
      "\<And>i. ram h' i \<noteq> ram h i \<Longrightarrow> i \<in> headers 0 (as @ carve ?sz m @ cs)"
      using mem_malloc_ok [OF r q(2)] q(1) bs(4) by auto
    obtain k where k: "?sz \<le> k" "regions q (carve ?sz m @ cs) = (q + 8, k) # regions (q + m) cs"
      using regions_carve [OF bs(3)] by blast
    have new: "regions 0 (as @ carve ?sz m @ cs) = regions 0 as @ (q + 8, k) # regions (q + m) cs"
      using bs(2) k(2) by (simp add: regions_append)
    have "live h' = (live h)(q + 8 \<mapsto> k) \<and> live h (q + 8) = None"
      using heap_rep_inv [OF h'(2)] heap_rep_inv [OF r] regions_distinct [OF heap_rep_big [OF h'(2)], of 0]
        map_of_insert [of "regions 0 as" "q + 8" k "regions (q + m) cs"] bs(2)
      unfolding new by (simp add: bs(1) regions_append)
    moreover have "n \<le> k" using trim_size_ge [OF n] k(1) by simp
    moreover have "keeps (live h) (live h') (ram h) (ram h')" by (rule keeps_frame [OF r h'(2)]) (use h'(3) in blast)
    ultimately show ?thesis using h'(1) heap_rep_inv [OF h'(2)] by auto
  qed
qed

lemma live_remove:
  assumes r: "heap_rep h (as @ (n, u) # cs)" and l: "live h (span as + 8) = Some k"
  shows "map_of (regions 0 as @ regions (span as + n) cs) = (live h)(span as + 8 := None)"
proof -
  have u: "u"
  proof (rule ccontr)
    assume "\<not> u"
    then have "(span as + 8, k) \<in> set (regions 0 as @ regions (span as + n) cs)"
      using heap_rep_inv [OF r] l by (auto simp: regions_append dest: map_of_SomeD)
    moreover have "big as" "big cs" "20 \<le> n" using heap_rep_big [OF r] by auto
    ultimately show False using regions_bounds [of as "span as + 8" k 0] regions_bounds [of cs "span as + 8" k "span as + n"] by auto
  qed
  have "distinct (map fst (regions 0 as @ (span as + 8, n - 8) # regions (span as + n) cs))"
    using regions_distinct [OF heap_rep_big [OF r], of 0] u by (simp add: regions_append)
  from map_of_insert [OF this] show ?thesis using heap_rep_inv [OF r] u by (auto simp: regions_append fun_eq_iff)
qed

lemma mem_free_contract:
  assumes i: "mem_inv h" and l: "live h p = Some k"
  shows "\<exists>h'. mem_free (Some p) h = Inr h' \<and> mem_inv h' \<and> live h' = (live h)(p := None)
       \<and> keeps (live h) (live h') (ram h) (ram h')"
proof -
  obtain as n cs where b: "heap_layout h = as @ (n, True) # cs" "p = span as + 8" using live_block [OF i l] by blast
  have r: "heap_rep h (as @ (n, True) # cs)" using i b by (simp add: mem_inv_def)
  obtain h' where h': "mem_free (Some p) h = Inr h'" "heap_rep h' (join_last as (join (n, False) cs))"
    "\<And>i. ram h' i \<noteq> ram h i \<Longrightarrow> i \<in> headers 0 (as @ (n, True) # cs)"
    using mem_free_ok [OF r refl] b(2) by auto
  obtain m ds where j: "join (n, False) cs = (m, False) # ds" using join_shape by blast
  have "regions 0 (join_last as (join (n, False) cs)) = regions 0 as @ regions (span as + n) cs"
    unfolding j regions_join_last by (simp add: regions_append flip: j) (simp add: regions_join)
  then have "live h' = (live h)(p := None)"
    using heap_rep_inv [OF h'(2)] live_remove [OF r, of k] l b(2) by simp
  moreover have "keeps (live h) (live h') (ram h) (ram h')" by (rule keeps_frame [OF r h'(2)]) (use h'(3) in blast)
  ultimately show ?thesis using h'(1) heap_rep_inv [OF h'(2)] by auto
qed

lemma mem_trim_contract:
  assumes i: "mem_inv h" and l: "live h p = Some k" and n: "n \<le> k"
  shows "\<exists>h' k'. mem_trim p n h = Inr (Some p, h') \<and> mem_inv h' \<and> n \<le> k' \<and> live h' = (live h)(p \<mapsto> k')
          \<and> keeps (live h) (live h') (ram h) (ram h')"
proof -
  obtain as m cs where b: "heap_layout h = as @ (m, True) # cs" "p = span as + 8" "k = m - 8" "20 \<le> m" "4 dvd m"
    using live_block [OF i l] by blast
  have r: "heap_rep h (as @ (m, True) # cs)" using i b by (simp add: mem_inv_def)
  have "chain h 0 0 (as @ (m, True) # cs)" using r by (simp add: heap_rep_def)
  from chain_le [OF this] have "m \<le> 12288" by simp
  have "n \<le> m - 8" using n b by simp
  then have "(n + 3) div 4 * 4 + 8 \<le> m" using b(4,5) by presburger
  then have t: "trim_size n + 8 \<le> m"
    using b(4) \<open>m \<le> 12288\<close> by (auto simp: trim_size_def align_eq mem_size_t_def Let_def)
  obtain h' where h': "mem_trim p n h = Inr (Some p, h')" "heap_rep h' (as @ shrink (trim_size n) m cs)"
    "\<And>i. ram h' i \<noteq> ram h i \<Longrightarrow> i \<in> headers 0 (as @ shrink (trim_size n) m cs)"
    using mem_trim_ok [OF r refl refl t] b(2) by auto
  obtain k' where k': "trim_size n \<le> k'" "regions (span as) (shrink (trim_size n) m cs) = (span as + 8, k') # regions (span as + m) cs"
    using regions_shrink [OF t] by blast
  have new: "regions 0 (as @ shrink (trim_size n) m cs) = regions 0 as @ (p, k') # regions (span as + m) cs"
    using k'(2) b(2) by (simp add: regions_append)
  have "live h' = (live h)(p \<mapsto> k')"
    using heap_rep_inv [OF h'(2)] regions_distinct [OF heap_rep_big [OF h'(2)], of 0] live_remove [OF r, of k] l b(2)
      map_of_insert [of "regions 0 as" p k' "regions (span as + m) cs"]
    unfolding new by simp
  moreover have "n \<le> 65532" using \<open>n \<le> m - 8\<close> \<open>m \<le> 12288\<close> by arith
  then have "n \<le> k'" using trim_size_ge [of n] k'(1) by simp
  moreover have "keeps (live h) (live h') (ram h) (ram h')" by (rule keeps_frame [OF r h'(2)]) (use h'(3) in blast)
  ultimately show ?thesis using h'(1) heap_rep_inv [OF h'(2)] by auto
qed

lemma mem_write_contract:
  assumes i: "mem_inv h" and l: "live h p = Some k" and n: "i + length bs \<le> k"
  shows "mem_inv (mem_write (p + i) bs h) \<and> live (mem_write (p + i) bs h) = live h"
proof -
  let ?h = "mem_write (p + i) bs h" and ?bs = "heap_layout h"
  have r: "heap_rep h ?bs" using i by (simp add: mem_inv_def)
  have "(p, k) \<in> set (regions 0 ?bs)" using l by (auto simp: live_def dest: map_of_SomeD)
  note out = regions_headers [OF heap_rep_big [OF r] this] regions_bounds [OF heap_rep_big [OF r] this]
  have same: "ram ?h j = ram h j" if "j \<in> headers 0 ?bs" for j
    using out(1) [OF that] n by (auto simp: mem_write_def)
  obtain e where s: "seg h 0 0 ?bs 12288 e" using r by (auto simp: heap_rep_def chain_def)
  have "seg ?h 0 0 ?bs 12288 e" by (rule seg_headers [OF s]) (rule same)
  moreover have "p + k \<le> 12288" using out(2) seg_span [OF s] by simp
  then have "end_ok ?h" using r n by (simp add: heap_rep_def end_ok_def get16_def mem_write_def)
  ultimately have "heap_rep ?h ?bs" using r by (auto simp: heap_rep_def chain_def mem_write_def)
  then show ?thesis using heap_rep_inv heap_rep_inv [OF r] by metis
qed

interpretation lwip_mem: allocator mem_inv live ram mem_malloc mem_free mem_trim mem_write 65532
proof
  fix h p k q l
  assume i: "mem_inv h" and "live h p = Some k" "live h q = Some l" "p \<noteq> q"
  then have "(p, k) \<in> set (regions 0 (heap_layout h))" "(q, l) \<in> set (regions 0 (heap_layout h))"
    by (auto simp: live_def dest: map_of_SomeD)
  then show "p + k \<le> q \<or> q + l \<le> p"
    using regions_disjoint [OF heap_rep_big, of h "heap_layout h" p k 0 q l] i \<open>p \<noteq> q\<close> by (auto simp: mem_inv_def)
qed (use mem_malloc_contract mem_free_contract mem_trim_contract mem_write_contract in \<open>auto simp: mem_write_def\<close>)


subsection \<open>Runs of a client\<close>

datatype mem_op = Malloc nat | Calloc nat nat | Free nat | Trim nat nat | Write nat nat "u8 list"

text \<open>
  What the client may do: ask for at most 65532 bytes, and free, shrink and write inside the blocks
  it owns.
\<close>

fun legal :: "owned \<Rightarrow> mem_op \<Rightarrow> bool" where
  "legal own (Malloc n) \<longleftrightarrow> n \<le> 65532"
| "legal own (Calloc c n) \<longleftrightarrow> c * n \<le> 65532"
| "legal own (Free p) \<longleftrightarrow> own p \<noteq> None"
| "legal own (Trim p n) \<longleftrightarrow> (case own p of None \<Rightarrow> False | Some bs \<Rightarrow> n \<le> length bs)"
| "legal own (Write p i bs) \<longleftrightarrow> (case own p of None \<Rightarrow> False | Some old \<Rightarrow> i + length bs \<le> length old)"

definition given :: "nat option \<Rightarrow> u8 list \<Rightarrow> owned \<Rightarrow> owned" where
  "given r bs own = (case r of None \<Rightarrow> own | Some q \<Rightarrow> own(q \<mapsto> bs))"

fun mem_exec :: "mem_op \<Rightarrow> mem_heap \<times> owned \<Rightarrow> (mem_heap \<times> owned) checked option" where
  "mem_exec (Malloc n) (h, own) =
     map_option (\<lambda>r. and_then r (\<lambda>(q, h). Inr (h, given q (map (\<lambda>i. ram h (the q + i)) [0..<n]) own))) (mem_malloc n h)"
| "mem_exec (Calloc c n) (h, own) =
     map_option (\<lambda>r. and_then r (\<lambda>(q, h). Inr (h, given q (replicate (c * n) 0) own))) (mem_calloc c n h)"
| "mem_exec (Free p) (h, own) = Some (and_then (mem_free (Some p) h) (\<lambda>h. Inr (h, own(p := None))))"
| "mem_exec (Trim p n) (h, own) =
     Some (and_then (mem_trim p n h) (\<lambda>(q, h). Inr (h, given q (take n (the (own p))) own)))"
| "mem_exec (Write p i bs) (h, own) =
     Some (Inr (mem_write (p + i) bs h, own(p \<mapsto> take i (the (own p)) @ bs @ drop (i + length bs) (the (own p)))))"

inductive heap_run :: "mem_heap \<times> owned \<Rightarrow> bool" where
  start: "heap_run (mem_init bss, \<lambda>p. None)"
| step: "heap_run (h, own) \<Longrightarrow> legal own op \<Longrightarrow> mem_exec op (h, own) = Some (Inr s) \<Longrightarrow> heap_run s"

lemma memset0_write: "memset0 q n h = require Oob_write (q + n \<le> 12305) (Inr (mem_write q (replicate n 0) h))"
proof -
  have "(\<lambda>i. if q \<le> i \<and> i < q + n then 0 else ram h i)
      = (\<lambda>i. if q \<le> i \<and> i < q + n then replicate n 0 ! (i - q) else ram h i)" by (auto simp: fun_eq_iff)
  then show ?thesis by (simp add: memset0_def mem_write_def)
qed

lemma live_bounds: "mem_inv h \<Longrightarrow> live h p = Some k \<Longrightarrow> p + k \<le> 12288 \<and> p mod 4 = 0"
proof -
  assume i: "mem_inv h" and l: "live h p = Some k"
  obtain as n cs where b: "heap_layout h = as @ (n, True) # cs" "p = span as + 8" "k = n - 8" "4 dvd span as" "20 \<le> n"
    using live_block [OF i l] by blast
  have "chain h 0 0 (as @ (n, True) # cs)" using i b by (simp add: mem_inv_def heap_rep_def)
  from chain_le [OF this] b show ?thesis by auto
qed

text \<open>Every legal operation returns, fails no assertion and keeps what the client knows true.\<close>

lemma mem_exec_agrees:
  assumes i: "mem_inv h" and a: "agrees (live h) (ram h) own" and l: "legal own op"
  shows "\<exists>h' own'. mem_exec op (h, own) = Some (Inr (h', own')) \<and> mem_inv h' \<and> agrees (live h') (ram h') own'"
proof (cases op)
  case (Malloc n)
  then show ?thesis using lwip_mem.malloc_agrees [OF i a, of n] l
    by (fastforce simp: and_then_def given_def split: option.splits)
next
  case (Calloc c n)
  then have cn: "c * n \<le> 65532" using l by simp
  then have m: "mem_size_t (c * n) = c * n" by (simp add: mem_size_t_def)
  obtain r h' where r: "mem_malloc (c * n) h = Some (Inr (r, h'))" "mem_inv h'" and
    c: "case r of None \<Rightarrow> agrees (live h') (ram h') own
         | Some q \<Rightarrow> own q = None \<and> agrees (live h') (ram h') (own(q \<mapsto> map (\<lambda>i. ram h' (q + i)) [0..<c * n]))"
    using lwip_mem.malloc_agrees [OF i a cn] by blast
  show ?thesis
  proof (cases r)
    case None
    then show ?thesis using r c Calloc m by (simp add: mem_calloc_def and_then_def given_def)
  next
    case (Some q)
    define own1 where "own1 = own(q \<mapsto> map (\<lambda>i. ram h' (q + i)) [0..<c * n])"
    then have ag: "agrees (live h') (ram h') own1" and mine: "own1 q = Some (map (\<lambda>i. ram h' (q + i)) [0..<c * n])"
      using c Some by simp_all
    obtain k where "live h' q = Some k" "c * n \<le> k" using agreesE [OF ag mine] by auto
    then have "q + c * n \<le> 12305" using live_bounds [OF r(2)] by fastforce
    moreover have "own1(q \<mapsto> replicate (c * n) 0) = own(q \<mapsto> replicate (c * n) 0)" by (simp add: own1_def)
    ultimately have "mem_exec op (h, own) = Some (Inr (mem_write q (replicate (c * n) 0) h', own1(q \<mapsto> replicate (c * n) 0)))"
      using r Some Calloc m by (simp add: mem_calloc_def and_then_def given_def memset0_write require_def)
    then show ?thesis using lwip_mem.poke_agrees [OF r(2) ag mine, of 0 "replicate (c * n) 0"] by simp
  qed
next
  case (Free p)
  then show ?thesis using lwip_mem.free_agrees [OF i a, of p] l by (auto simp: and_then_def)
next
  case (Trim p n)
  then obtain bs where "own p = Some bs" "n \<le> length bs" using l by (auto split: option.splits)
  then show ?thesis using lwip_mem.trim_agrees [OF i a] Trim by (fastforce simp: and_then_def given_def)
next
  case (Write p k bs)
  then obtain old where "own p = Some old" "k + length bs \<le> length old" using l by (auto split: option.splits)
  then show ?thesis using lwip_mem.poke_agrees [OF i a] Write by auto
qed

lemma heap_run_inv: "heap_run s \<Longrightarrow> mem_inv (fst s) \<and> agrees (live (fst s)) (ram (fst s)) (snd s)"
proof (induction rule: heap_run.induct)
  case (start bss)
  show ?case using heap_rep_inv [OF mem_init_rep, of bss] by (simp add: agrees_def)
next
  case (step h own op s)
  then show ?case using mem_exec_agrees [of h own op] by auto
qed


subsection \<open>The properties\<close>

text \<open>
  C34. The heap keeps what its clients wrote. In every run of legal operations the blocks of the client
  lie inside the heap, at a multiple of 4, and do not overlap, each still holds the bytes that were
  written to it, and the next legal operation returns without a failed assertion or an access outside
  the array.
\<close>

theorem heap_keeps_client_data:
  assumes "heap_run (h, own)"
  shows "(\<forall>p bs. own p = Some bs \<longrightarrow> p mod 4 = 0 \<and> p + length bs \<le> MEM_SIZE_ALIGNED
             \<and> map (\<lambda>i. ram h (p + i)) [0..<length bs] = bs)
      \<and> (\<forall>p bs q cs. own p = Some bs \<longrightarrow> own q = Some cs \<longrightarrow> p \<noteq> q \<longrightarrow> p + length bs \<le> q \<or> q + length cs \<le> p)
      \<and> (\<forall>op. legal own op \<longrightarrow> (\<exists>s. mem_exec op (h, own) = Some (Inr s)))"
proof -
  have i: "mem_inv h" and a: "agrees (live h) (ram h) own" using heap_run_inv [OF assms] by auto
  have "p mod 4 = 0 \<and> p + length bs \<le> 12288 \<and> map (\<lambda>i. ram h (p + i)) [0..<length bs] = bs" if p: "own p = Some bs" for p bs
  proof -
    obtain k where k: "live h p = Some k" "length bs \<le> k" and c: "\<And>i. i < length bs \<Longrightarrow> ram h (p + i) = bs ! i"
      using agreesE [OF a p] by metis
    have "map (\<lambda>i. ram h (p + i)) [0..<length bs] = bs" by (rule nth_equalityI) (simp_all add: c)
    then show ?thesis using live_bounds [OF i k(1)] k(2) by simp
  qed
  moreover have "p + length bs \<le> q \<or> q + length cs \<le> p" if "own p = Some bs" "own q = Some cs" "p \<noteq> q" for p q bs cs
    using lwip_mem.owned_disjoint [OF i a that] .
  moreover have "\<exists>s. mem_exec op (h, own) = Some (Inr s)" if "legal own op" for op
    using mem_exec_agrees [OF i a that] by metis
  ultimately show ?thesis unfolding mem_consts by metis
qed

theorem heap_keeps_client_data_witness:
  "\<exists>h own. heap_run (h, own) \<and> own = [8 \<mapsto> [7, 9]]
     \<and> (\<forall>op. legal own op \<longrightarrow> (\<exists>s. mem_exec op (h, own) = Some (Inr s))) \<and> map (\<lambda>i. ram h (8 + i)) [0..<2] = [7, 9]"
proof -
  let ?h = "mem_init (\<lambda>i. 0)"
  have 0: "heap_run (?h, \<lambda>p. None)" by (rule start)
  have "heap_layout ?h = [(12288, False)]" by (rule heap_rep_layout [OF mem_init_rep])
  then have "find_fit (trim_size 2) 0 (heap_layout ?h) = Some 0" by (simp add: trim_size_def align_eq mem_size_t_def Let_def)
  then obtain h where h: "mem_malloc 2 ?h = Some (Inr (Some 8, h))"
    using mem_malloc_ok [OF mem_init_rep, of 2 "\<lambda>i. 0"] by (auto simp: heap_rep_layout [OF mem_init_rep])
  have "mem_exec (Malloc 2) (?h, \<lambda>p. None) = Some (Inr (h, [8 \<mapsto> map (\<lambda>i. ram h (8 + i)) [0..<2]]))"
    by (simp add: h and_then_def given_def)
  from step [OF 0 _ this] have 1: "heap_run (h, [8 \<mapsto> map (\<lambda>i. ram h (8 + i)) [0..<2]])" by simp
  have "mem_exec (Write 8 0 [7, 9]) (h, [8 \<mapsto> map (\<lambda>i. ram h (8 + i)) [0..<2]]) = Some (Inr (mem_write 8 [7, 9] h, [8 \<mapsto> [7, 9]]))"
    by simp
  from step [OF 1 _ this] have 2: "heap_run (mem_write 8 [7, 9] h, [8 \<mapsto> [7, 9]])" by simp
  let ?own = "[8 \<mapsto> [7, 9 :: u8]]"
  note all = heap_keeps_client_data [OF 2]
  have "?own 8 = Some [7, 9]" by simp
  from all [THEN conjunct1, rule_format, OF this]
  have bytes: "map (\<lambda>i. ram (mem_write 8 [7, 9] h) (8 + i)) [0..<length [7, 9 :: u8]] = [7, 9]" by (rule conjunct2 [OF conjunct2])
  have two: "length [7, 9 :: u8] = 2" by simp
  show ?thesis
    by (rule exI [of _ "mem_write 8 [7, 9] h"], rule exI [of _ ?own])
      (rule conjI [OF 2 conjI [OF refl conjI [OF all [THEN conjunct2, THEN conjunct2] bytes [unfolded two]]]])
qed

text \<open>
  C35. The allocator is a list of blocks. In every run \<^verbatim>\<open>mem_malloc\<close> takes the lowest free block with room
  for the size rounded up (and fails, changing nothing, when there is none), splits it when the rest
  can hold a block, and \<^verbatim>\<open>mem_free\<close> returns a block and merges it with its free neighbours: the memory with its
  linked headers refines these functions on the list of blocks.
\<close>

theorem heap_refines_layout:
  assumes "heap_run (h, own)" and "0 < n" and "n \<le> 65532"
  shows "(\<exists>h'. mem_malloc n h = Some (Inr (map_option (\<lambda>q. q + SIZEOF_STRUCT_MEM) (find_fit (trim_size n) 0 (heap_layout h)), h'))
              \<and> heap_layout h' = alloc_layout (trim_size n) (heap_layout h))
      \<and> (own p \<noteq> None \<longrightarrow> (\<exists>h'. mem_free (Some p) h = Inr h'
              \<and> heap_layout h' = free_layout 0 (p - SIZEOF_STRUCT_MEM) (heap_layout h)))"
proof -
  have i: "mem_inv h" and a: "agrees (live h) (ram h) own" using heap_run_inv [OF assms(1)] by auto
  have r: "heap_rep h (heap_layout h)" using i by (simp add: mem_inv_def)
  have "\<exists>h'. mem_malloc n h = Some (Inr (map_option (\<lambda>q. q + 8) (find_fit (trim_size n) 0 (heap_layout h)), h'))
              \<and> heap_layout h' = alloc_layout (trim_size n) (heap_layout h)"
  proof (cases "find_fit (trim_size n) 0 (heap_layout h)")
    case None
    then show ?thesis using mem_malloc_ok [OF r assms(2)] by (simp add: alloc_layout_none)
  next
    case (Some q)
    then show ?thesis using mem_malloc_ok [OF r assms(2)] heap_rep_layout by fastforce
  qed
  moreover have "\<exists>h'. mem_free (Some p) h = Inr h' \<and> heap_layout h' = free_layout 0 (p - 8) (heap_layout h)" if owned: "own p \<noteq> None"
  proof -
    obtain bs where "own p = Some bs" using owned by (cases "own p") simp_all
    then obtain k where "live h p = Some k" using agreesE [OF a] by blast
    from live_block [OF i this] obtain as m cs where b: "heap_layout h = as @ (m, True) # cs" "p = span as + 8" by blast
    then have r': "heap_rep h (as @ (m, True) # cs)" using r by simp
    have "big as" "separated (as @ (m, True) # cs)" using heap_rep_big [OF r'] r' by (auto simp: heap_rep_def)
    then show ?thesis using mem_free_ok [OF r' refl] heap_rep_layout b free_layout_eq [of as m cs 0] by fastforce
  qed
  ultimately show ?thesis by simp
qed


lemma initial_layout: "heap_layout (mem_init bss) = [(12288, False)]"
  by (rule heap_rep_layout [OF mem_init_rep])

theorem heap_refines_layout_witness:
  "\<exists>h'. mem_malloc 100 (mem_init (\<lambda>i. 0)) = Some (Inr (Some 8, h')) \<and> heap_layout h' = [(108, True), (12180, False)]"
  using heap_refines_layout [OF start [of "\<lambda>i. 0"], of 100 0]
  by (simp add: initial_layout trim_size_def align_eq mem_size_t_def carve_def)

lemma freed_layout:
  assumes "heap_run (h, \<lambda>p. None)"
  shows "heap_rep h [(12288, False)]"
proof -
  have i: "mem_inv h" and a: "agrees (live h) (ram h) (\<lambda>p. None)" using heap_run_inv [OF assms] by auto
  have r: "heap_rep h (heap_layout h)" using i by (simp add: mem_inv_def)
  have "dom (live h) = {}" using a by (simp add: agrees_def)
  then have "regions 0 (heap_layout h) = []" by (simp add: live_def dom_map_of_conv_image_fst)
  then have free: "\<forall>b\<in>set (heap_layout h). \<not> snd b"
  proof -
    have "regions p bs = [] \<Longrightarrow> b \<in> set bs \<Longrightarrow> \<not> snd b" for p bs b
      by (induction p bs rule: regions.induct) (auto split: if_splits)
    then show ?thesis using \<open>regions 0 (heap_layout h) = []\<close> by blast
  qed
  have c: "chain h 0 0 (heap_layout h)" and s: "separated (heap_layout h)"
    using r by (simp_all add: heap_rep_def)
  have layout: "heap_layout h = [(12288, False)]"
  proof (cases "heap_layout h")
    case Nil
    then show ?thesis using c by simp
  next
    case (Cons b bs)
    then have "bs = []" using s free by (cases bs) (auto simp: separated_Cons)
    then show ?thesis using Cons c free chain_le [OF c] by (cases b) auto
  qed
  show ?thesis using r layout by simp
qed

lemma freed_heap_whole:
  assumes "heap_run (h, \<lambda>p. None)" and "0 < n" and "n \<le> 12280"
  shows "\<exists>h'. mem_malloc n h = Some (Inr (Some 8, h'))"
proof -
  have "trim_size n + 8 \<le> 12288" using assms(3) by (auto simp: trim_size_def align_eq mem_size_t_def Let_def)
  then show ?thesis using mem_malloc_ok [OF freed_layout [OF assms(1)] assms(2)] by auto
qed

text \<open>
  C36. Memory does not fragment for good: whatever a client allocated, shrank and freed in whatever
  order, once it owns nothing the heap is one free block again, and every request of up to 12280 bytes
  is served at the start of the heap.
\<close>

theorem freed_heap_is_whole:
  assumes "heap_run (h, \<lambda>p. None)"
  shows "heap_layout h = [(MEM_SIZE_ALIGNED, False)] \<and> lfree h = 0
      \<and> (\<forall>n. 0 < n \<longrightarrow> n \<le> 12280 \<longrightarrow> (\<exists>h'. mem_malloc n h = Some (Inr (Some SIZEOF_STRUCT_MEM, h'))))"
  using freed_layout [OF assms] freed_heap_whole [OF assms] heap_rep_layout by (fastforce simp: heap_rep_def)

theorem freed_heap_is_whole_witness:
  "\<exists>h'. mem_malloc 12280 (mem_init (\<lambda>i. 0)) = Some (Inr (Some 8, h'))"
  using freed_heap_is_whole [OF start [of "\<lambda>i. 0"]] by simp

text \<open>
  C37. Sizes near \<^verbatim>\<open>0xFFFF\<close> wrap: rounding up to the alignment happens in 16 bits, so a request for 65533
  to 65535 bytes is served with the block of a request for 12; and \<^verbatim>\<open>mem_calloc\<close> passes the product cut to
  16 bits to \<^verbatim>\<open>mem_malloc\<close> but clears the whole product, which leaves the heap on the next call.
\<close>

theorem malloc_size_wraps:
  assumes "65533 \<le> n" and "n \<le> 65535"
  shows "mem_malloc n h = mem_malloc 12 h
      \<and> (heap_run (h, \<lambda>p. None) \<longrightarrow> mem_calloc 2 (32768 + 12) h = Some (Inl Oob_write))"
proof -
  have "n = 65533 \<or> n = 65534 \<or> n = 65535" using assms by arith
  then have "trim_size n = 12" by (elim disjE) (simp_all add: trim_size_def align_eq mem_size_t_def)
  moreover have "trim_size 12 = 12" by (simp add: trim_size_def align_eq mem_size_t_def)
  ultimately have "mem_malloc n h = mem_malloc 12 h" using assms by (simp add: mem_malloc_def Let_def)
  moreover have "mem_calloc 2 (32768 + 12) h = Some (Inl Oob_write)" if empty: "heap_run (h, \<lambda>p. None)"
  proof -
    obtain h' where "mem_malloc 24 h = Some (Inr (Some 8, h'))" using freed_heap_whole [OF empty, of 24] by auto
    then show ?thesis by (simp add: mem_calloc_def mem_size_t_def and_then_def memset0_def require_def)
  qed
  ultimately show ?thesis by blast
qed

theorem malloc_size_wraps_witness:
  "mem_malloc 65535 (mem_init (\<lambda>i. 0)) = mem_malloc 12 (mem_init (\<lambda>i. 0))
    \<and> mem_calloc 2 32780 (mem_init (\<lambda>i. 0)) = Some (Inl Oob_write)"
  using malloc_size_wraps [of 65535 "mem_init (\<lambda>i. 0)"] start [of "\<lambda>i. 0"] by simp

end
