(* ===== verification/Arp.thy ===== *)
theory Arp
  imports Prelude
begin

unbundle bit_operations_syntax

text \<open>
  Address resolution (\<^verbatim>\<open>lwip/src/netif/etharp.c\<close>) as the firmware configures it: ten entries, one queued
  packet per entry (\<^verbatim>\<open>ARP_QUEUEING\<close> is 0), no static entries. With it the address macros of
  \<^verbatim>\<open>ip_addr.h\<close>, and \<^verbatim>\<open>ip4_addr_isbroadcast\<close> (ip_addr.c). An IP address is a word in host byte order: the
  code keeps network byte order and uses only comparisons and bitwise operations, which commute with
  swapping the bytes; \<open>ip_bytes\<close> are the bytes on the wire. No DHCP client is attached to the interface,
  so \<^verbatim>\<open>dhcp_arp_reply\<close> does nothing.

  The driver (\<^verbatim>\<open>netif->linkoutput\<close>) is the log of the frames it was given and a list of its answers, the
  memory manager a list of answers (a packet buffer or none). \<open>pbuf_refs\<close> is not in the code: it counts the
  references to packet buffers that the module holds. An access to a header field outside the buffer is a
  fault.
\<close>

subsection \<open>Addresses and the interface\<close>

definition IPADDR_ANY :: u32 where "IPADDR_ANY = 0x00000000"
definition IPADDR_BROADCAST :: u32 where "IPADDR_BROADCAST = 0xffffffff"

definition ip_addr_isany :: "u32 \<Rightarrow> bool" where "ip_addr_isany a \<longleftrightarrow> a = IPADDR_ANY"

definition ip_addr_netcmp :: "u32 \<Rightarrow> u32 \<Rightarrow> u32 \<Rightarrow> bool" where
  "ip_addr_netcmp a b m \<longleftrightarrow> a AND m = b AND m"

definition ip_addr_ismulticast :: "u32 \<Rightarrow> bool" where
  "ip_addr_ismulticast a \<longleftrightarrow> a AND 0xf0000000 = 0xe0000000"

definition ip_addr_islinklocal :: "u32 \<Rightarrow> bool" where
  "ip_addr_islinklocal a \<longleftrightarrow> a AND 0xffff0000 = 0xa9fe0000"

definition ip4_addr2 :: "u32 \<Rightarrow> u8" where "ip4_addr2 a = ucast (drop_bit 16 a)"
definition ip4_addr3 :: "u32 \<Rightarrow> u8" where "ip4_addr3 a = ucast (drop_bit 8 a)"
definition ip4_addr4 :: "u32 \<Rightarrow> u8" where "ip4_addr4 a = ucast a"

definition ip_bytes :: "u32 \<Rightarrow> u8 list" where
  "ip_bytes a = [ucast (drop_bit 24 a), ip4_addr2 a, ip4_addr3 a, ip4_addr4 a]"

definition ip_of_bytes :: "u8 list \<Rightarrow> u32" where
  "ip_of_bytes bs = push_bit 24 (ucast (bs ! 0)) OR push_bit 16 (ucast (bs ! 1)) OR push_bit 8 (ucast (bs ! 2)) OR ucast (bs ! 3)"

record netif =
  ip_addr :: u32
  netmask :: u32
  gw :: u32
  hwaddr :: "u8 list"
  flags :: u8
  num :: nat

definition NETIF_FLAG_BROADCAST :: u8 where "NETIF_FLAG_BROADCAST = 0x02"
definition NETIF_FLAG_ETHARP :: u8 where "NETIF_FLAG_ETHARP = 0x20"

definition ip4_addr_isbroadcast :: "u32 \<Rightarrow> netif \<Rightarrow> bool" where
  "ip4_addr_isbroadcast addr n =
     (if NOT addr = IPADDR_ANY \<or> addr = IPADDR_ANY then True
      else if flags n AND NETIF_FLAG_BROADCAST = 0 then False
      else if addr = ip_addr n then False
      else ip_addr_netcmp addr (ip_addr n) (netmask n)
           \<and> addr AND NOT (netmask n) = IPADDR_BROADCAST AND NOT (netmask n))"

definition not_unicast :: "u32 \<Rightarrow> netif \<Rightarrow> bool" where
  "not_unicast a n \<longleftrightarrow> ip_addr_isany a \<or> ip4_addr_isbroadcast a n \<or> ip_addr_ismulticast a"

subsection \<open>Packet buffers\<close>

text \<open>
  A packet is a chain of pbufs, each with its type, the room in front of its payload and the payload.
\<close>

datatype pbuf_type = PBUF_RAM | PBUF_ROM | PBUF_REF | PBUF_POOL

record ebuf =
  eb_type :: pbuf_type
  eb_room :: nat
  eb_data :: "u8 list"

type_synonym packet = "ebuf list"

definition frame_of :: "packet \<Rightarrow> u8 list" where
  "frame_of p = concat (map eb_data p)"

definition SIZEOF_ETH_HDR :: nat where "SIZEOF_ETH_HDR = 14"
definition SIZEOF_ETHARP_PACKET :: nat where "SIZEOF_ETHARP_PACKET = SIZEOF_ETH_HDR + 28"

text \<open>
  Room for a header in front, or a header skipped. The new bytes are written before the packet is sent.
\<close>

definition pbuf_header :: "int \<Rightarrow> packet \<Rightarrow> packet option checked" where
  "pbuf_header inc p =
     (case p of
        [] \<Rightarrow> Inl Assert_failed
      | b # bs \<Rightarrow>
          if inc = 0 then Inr (Some p)
          else let n = nat \<bar>inc\<bar> in
            require Assert_failed (inc < 0 \<longrightarrow> n \<le> length (eb_data b))
             (Inr
               (if eb_type b = PBUF_RAM \<or> eb_type b = PBUF_POOL
                then if inc < 0 then Some (b\<lparr>eb_room := eb_room b + n, eb_data := drop n (eb_data b)\<rparr> # bs)
                     else if n \<le> eb_room b then Some (b\<lparr>eb_room := eb_room b - n, eb_data := replicate n 0 @ eb_data b\<rparr> # bs)
                     else None
                else if inc < 0 then Some (b\<lparr>eb_data := drop n (eb_data b)\<rparr> # bs)
                else None)))"

text \<open>
  \<^verbatim>\<open>pbuf_copy\<close> into a single pbuf of \<open>room\<close> bytes. Its errors are \<^verbatim>\<open>LWIP_ERROR\<close>, which does not return.
\<close>

fun pbuf_copy :: "nat \<Rightarrow> packet \<Rightarrow> u8 list checked" where
  "pbuf_copy room [] = Inr []"
| "pbuf_copy room (b # bs) =
     require Assert_failed (length (eb_data b) \<le> room \<and> (length (eb_data b) = room \<longrightarrow> bs = [])
         \<and> (bs \<noteq> [] \<and> length (eb_data (hd bs)) = length (frame_of bs) \<longrightarrow> tl bs = []))
       (and_then (pbuf_copy (room - length (eb_data b)) bs) (\<lambda>rest. Inr (eb_data b @ rest)))"

subsection \<open>The table\<close>

datatype etharp_state = ETHARP_STATE_EMPTY | ETHARP_STATE_PENDING | ETHARP_STATE_STABLE | ETHARP_STATE_STABLE_REREQUESTING

fun etharp_state_number :: "etharp_state \<Rightarrow> nat" where
  "etharp_state_number ETHARP_STATE_EMPTY = 0"
| "etharp_state_number ETHARP_STATE_PENDING = 1"
| "etharp_state_number ETHARP_STATE_STABLE = 2"
| "etharp_state_number ETHARP_STATE_STABLE_REREQUESTING = 3"

instantiation etharp_state :: linorder
begin

definition less_eq_etharp_state :: "etharp_state \<Rightarrow> etharp_state \<Rightarrow> bool" where
  "less_eq_etharp_state s t \<longleftrightarrow> etharp_state_number s \<le> etharp_state_number t"

definition less_etharp_state :: "etharp_state \<Rightarrow> etharp_state \<Rightarrow> bool" where
  "less_etharp_state s t \<longleftrightarrow> etharp_state_number s < etharp_state_number t"

instance
proof
  fix s t :: etharp_state
  show "s \<le> t \<Longrightarrow> t \<le> s \<Longrightarrow> s = t" by (cases s; cases t) (simp_all add: less_eq_etharp_state_def)
qed (auto simp: less_eq_etharp_state_def less_etharp_state_def)

end

record etharp_entry =
  queued :: "packet option"
  ipaddr :: u32
  entry_netif :: "nat option"
  ethaddr :: "u8 list"
  state :: etharp_state
  ctime :: u8

record arp =
  arp_table :: "etharp_entry list"
  etharp_cached_entry :: nat
  wire :: "u8 list list"
  to_ip :: "(u8 \<times> packet) list"
  link_answers :: "err_t list"
  arp_heap :: "bool list"
  pbuf_refs :: int

definition ARP_TABLE_SIZE :: nat where "ARP_TABLE_SIZE = 10"
definition ARP_MAXAGE :: u8 where "ARP_MAXAGE = 240"
definition ARP_AGE_REREQUEST_USED :: u8 where "ARP_AGE_REREQUEST_USED = ARP_MAXAGE - 12"
definition ARP_MAXPENDING :: u8 where "ARP_MAXPENDING = 2"
definition ETHARP_FLAG_TRY_HARD :: u8 where "ETHARP_FLAG_TRY_HARD = 1"
definition ETHARP_FLAG_FIND_ONLY :: u8 where "ETHARP_FLAG_FIND_ONLY = 2"
definition ethbroadcast :: "u8 list" where "ethbroadcast = [0xff, 0xff, 0xff, 0xff, 0xff, 0xff]"
definition ethzero :: "u8 list" where "ethzero = [0, 0, 0, 0, 0, 0]"

definition blank_entry :: etharp_entry where
  "blank_entry = \<lparr>queued = None, ipaddr = 0, entry_netif = None, ethaddr = ethzero, state = ETHARP_STATE_EMPTY, ctime = 0\<rparr>"

definition set_entry :: "nat \<Rightarrow> etharp_entry \<Rightarrow> arp \<Rightarrow> arp" where
  "set_entry i e s = s\<lparr>arp_table := (arp_table s)[i := e]\<rparr>"

definition hold_pbuf :: "arp \<Rightarrow> arp" where "hold_pbuf s = s\<lparr>pbuf_refs := pbuf_refs s + 1\<rparr>"
definition drop_pbuf :: "arp \<Rightarrow> arp" where "drop_pbuf s = s\<lparr>pbuf_refs := pbuf_refs s - 1\<rparr>"

definition etharp_free_entry :: "nat \<Rightarrow> arp \<Rightarrow> arp" where
  "etharp_free_entry i s =
     (let s = (if queued (arp_table s ! i) \<noteq> None then drop_pbuf s else s) in set_entry i blank_entry s)"

definition tmr_entry :: "nat \<Rightarrow> arp \<Rightarrow> arp" where
  "tmr_entry i s =
     (let e = arp_table s ! i in
      if state e \<noteq> ETHARP_STATE_EMPTY
      then let e = e\<lparr>ctime := ctime e + 1\<rparr>; s = set_entry i e s in
        if ctime e \<ge> ARP_MAXAGE \<or> (state e = ETHARP_STATE_PENDING \<and> ctime e \<ge> ARP_MAXPENDING)
        then etharp_free_entry i s
        else if state e = ETHARP_STATE_STABLE_REREQUESTING then set_entry i (e\<lparr>state := ETHARP_STATE_STABLE\<rparr>) s
        else s
      else s)"

definition etharp_tmr :: "arp \<Rightarrow> arp" where
  "etharp_tmr s = fold tmr_entry [0..<ARP_TABLE_SIZE] s"

subsection \<open>Finding an entry\<close>

record candidates =
  empty_entry :: nat
  old_stable :: nat
  age_stable :: u8
  old_pending :: nat
  age_pending :: u8
  old_queue :: nat
  age_queue :: u8

definition no_candidates :: candidates where
  "no_candidates = \<lparr>empty_entry = ARP_TABLE_SIZE, old_stable = ARP_TABLE_SIZE, age_stable = 0,
     old_pending = ARP_TABLE_SIZE, age_pending = 0, old_queue = ARP_TABLE_SIZE, age_queue = 0\<rparr>"

definition note_used :: "nat \<Rightarrow> etharp_entry \<Rightarrow> candidates \<Rightarrow> candidates" where
  "note_used i e c =
     (if state e = ETHARP_STATE_PENDING
      then if queued e \<noteq> None
           then if ctime e \<ge> age_queue c then c\<lparr>old_queue := i, age_queue := ctime e\<rparr> else c
           else if ctime e \<ge> age_pending c then c\<lparr>old_pending := i, age_pending := ctime e\<rparr> else c
      else if state e \<ge> ETHARP_STATE_STABLE
      then if ctime e \<ge> age_stable c then c\<lparr>old_stable := i, age_stable := ctime e\<rparr> else c
      else c)"

fun search :: "u32 \<Rightarrow> nat \<Rightarrow> etharp_entry list \<Rightarrow> candidates \<Rightarrow> nat + candidates" where
  "search ip i [] c = Inr c"
| "search ip i (e # es) c =
     (if empty_entry c = ARP_TABLE_SIZE \<and> state e = ETHARP_STATE_EMPTY
      then search ip (i + 1) es (c\<lparr>empty_entry := i\<rparr>)
      else if state e \<noteq> ETHARP_STATE_EMPTY
      then if ip = ipaddr e then Inl i else search ip (i + 1) es (note_used i e c)
      else search ip (i + 1) es c)"

text \<open>A fresh entry gets the address and the age 0; its state stays empty.\<close>

definition new_entry :: "nat \<Rightarrow> u32 \<Rightarrow> arp \<Rightarrow> (nat option \<times> arp) checked" where
  "new_entry i ip s =
     require Assert_failed (i < ARP_TABLE_SIZE \<and> state (arp_table s ! i) = ETHARP_STATE_EMPTY)
       (Inr (Some i, set_entry i ((arp_table s ! i)\<lparr>ipaddr := ip, ctime := 0\<rparr>) s))"

definition etharp_find_entry :: "u32 \<Rightarrow> u8 \<Rightarrow> arp \<Rightarrow> (nat option \<times> arp) checked" where
  "etharp_find_entry ip fl s =
     (case search ip 0 (arp_table s) no_candidates of
        Inl i \<Rightarrow> Inr (Some i, s)
      | Inr c \<Rightarrow>
          if fl AND ETHARP_FLAG_FIND_ONLY \<noteq> 0 \<or> (empty_entry c = ARP_TABLE_SIZE \<and> fl AND ETHARP_FLAG_TRY_HARD = 0)
          then Inr (None, s)
          else if empty_entry c < ARP_TABLE_SIZE then new_entry (empty_entry c) ip s
          else if old_stable c < ARP_TABLE_SIZE
          then require Assert_failed (queued (arp_table s ! old_stable c) = None)
                 (new_entry (old_stable c) ip (etharp_free_entry (old_stable c) s))
          else if old_pending c < ARP_TABLE_SIZE then new_entry (old_pending c) ip (etharp_free_entry (old_pending c) s)
          else if old_queue c < ARP_TABLE_SIZE then new_entry (old_queue c) ip (etharp_free_entry (old_queue c) s)
          else Inr (None, s))"

subsection \<open>Sending\<close>

definition linkoutput :: "u8 list \<Rightarrow> arp \<Rightarrow> err_t \<times> arp" where
  "linkoutput f s =
     (case link_answers s of
        [] \<Rightarrow> (ERR_OK, s\<lparr>wire := wire s @ [f]\<rparr>)
      | e # es \<Rightarrow> (e, s\<lparr>wire := wire s @ [f], link_answers := es\<rparr>))"

text \<open>The caller has made room: the first pbuf holds the Ethernet header.\<close>

definition etharp_send_ip :: "netif \<Rightarrow> packet \<Rightarrow> u8 list \<Rightarrow> u8 list \<Rightarrow> arp \<Rightarrow> (err_t \<times> arp) checked" where
  "etharp_send_ip n p src dst s =
     require Assert_failed (length (hwaddr n) = 6)
      (case p of
         [] \<Rightarrow> Inl Null_deref
       | b # bs \<Rightarrow> require Oob_write (SIZEOF_ETH_HDR \<le> length (eb_data b))
           (Inr (linkoutput (frame_of (b\<lparr>eb_data := dst @ src @ [0x08, 0x00] @ drop SIZEOF_ETH_HDR (eb_data b)\<rparr> # bs)) s)))"

definition etharp_update_arp_entry :: "netif \<Rightarrow> u32 \<Rightarrow> u8 list \<Rightarrow> u8 \<Rightarrow> arp \<Rightarrow> (err_t \<times> arp) checked" where
  "etharp_update_arp_entry n ip mac fl s =
     require Assert_failed (length (hwaddr n) = 6)
      (if not_unicast ip n then Inr (ERR_ARG, s)
       else and_then (etharp_find_entry ip fl s) (\<lambda>(r, s).
         case r of
           None \<Rightarrow> Inr (ERR_MEM, s)
         | Some i \<Rightarrow>
             let e = (arp_table s ! i)\<lparr>state := ETHARP_STATE_STABLE, entry_netif := Some (num n), ethaddr := mac, ctime := 0\<rparr>
             in case queued e of
                  None \<Rightarrow> Inr (ERR_OK, set_entry i e s)
                | Some p \<Rightarrow>
                    and_then (etharp_send_ip n p (hwaddr n) mac (set_entry i (e\<lparr>queued := None\<rparr>) s)) (\<lambda>(_, s).
                      Inr (ERR_OK, drop_pbuf s))))"

definition etharp_cleanup_netif :: "netif \<Rightarrow> arp \<Rightarrow> arp" where
  "etharp_cleanup_netif n s =
     fold (\<lambda>i s. if state (arp_table s ! i) \<noteq> ETHARP_STATE_EMPTY \<and> entry_netif (arp_table s ! i) = Some (num n)
                 then etharp_free_entry i s else s) [0..<ARP_TABLE_SIZE] s"

definition etharp_find_addr :: "u32 \<Rightarrow> arp \<Rightarrow> (nat \<times> u8 list \<times> u32) option checked" where
  "etharp_find_addr ip s =
     and_then (etharp_find_entry ip ETHARP_FLAG_FIND_ONLY s) (\<lambda>(r, s).
       case r of
         None \<Rightarrow> Inr None
       | Some i \<Rightarrow> if state (arp_table s ! i) \<ge> ETHARP_STATE_STABLE
                   then Inr (Some (i, ethaddr (arp_table s ! i), ipaddr (arp_table s ! i))) else Inr None)"

definition take_pbuf :: "arp \<Rightarrow> bool \<times> arp" where
  "take_pbuf s = (case arp_heap s of [] \<Rightarrow> (True, hold_pbuf s)
     | a # as \<Rightarrow> (a, if a then hold_pbuf (s\<lparr>arp_heap := as\<rparr>) else s\<lparr>arp_heap := as\<rparr>))"

definition ARP_REQUEST :: u16 where "ARP_REQUEST = 1"
definition ARP_REPLY :: u16 where "ARP_REPLY = 2"

definition u16_bytes :: "u16 \<Rightarrow> u8 list" where
  "u16_bytes v = [ucast (drop_bit 8 v), ucast v]"

text \<open>Every byte of the new packet is written: the Ethernet header, then the ARP header.\<close>

definition arp_packet :: "u8 list \<Rightarrow> u8 list \<Rightarrow> u8 list \<Rightarrow> u32 \<Rightarrow> u8 list \<Rightarrow> u32 \<Rightarrow> u16 \<Rightarrow> u8 list" where
  "arp_packet ethsrc ethdst hwsrc ipsrc hwdst ipdst opcode =
     ethdst @ ethsrc @ u16_bytes 0x0806
     @ u16_bytes 1 @ u16_bytes 0x0800 @ [6, 4] @ u16_bytes opcode @ hwsrc @ ip_bytes ipsrc @ hwdst @ ip_bytes ipdst"

definition etharp_raw ::
  "netif \<Rightarrow> u8 list \<Rightarrow> u8 list \<Rightarrow> u8 list \<Rightarrow> u32 \<Rightarrow> u8 list \<Rightarrow> u32 \<Rightarrow> u16 \<Rightarrow> arp \<Rightarrow> (err_t \<times> arp) checked" where
  "etharp_raw n ethsrc ethdst hwsrc ipsrc hwdst ipdst opcode s =
     (case take_pbuf s of
        (False, s) \<Rightarrow> Inr (ERR_MEM, s)
      | (True, s) \<Rightarrow> require Assert_failed (length (hwaddr n) = 6)
          (let (r, s) = linkoutput (arp_packet ethsrc ethdst hwsrc ipsrc hwdst ipdst opcode) s in Inr (r, drop_pbuf s)))"

definition etharp_request :: "netif \<Rightarrow> u32 \<Rightarrow> arp \<Rightarrow> (err_t \<times> arp) checked" where
  "etharp_request n ip = etharp_raw n (hwaddr n) ethbroadcast (hwaddr n) (ip_addr n) ethzero ip ARP_REQUEST"

definition etharp_output_to_arp_index :: "netif \<Rightarrow> packet \<Rightarrow> nat \<Rightarrow> arp \<Rightarrow> (err_t \<times> arp) checked" where
  "etharp_output_to_arp_index n q i s =
     (let e = arp_table s ! i in
      require Assert_failed (state e \<ge> ETHARP_STATE_STABLE)
       (and_then
          (if state e = ETHARP_STATE_STABLE \<and> ctime e \<ge> ARP_AGE_REREQUEST_USED
           then and_then (etharp_request n (ipaddr e) s) (\<lambda>(r, s).
                  Inr (if r = ERR_OK then set_entry i ((arp_table s ! i)\<lparr>state := ETHARP_STATE_STABLE_REREQUESTING\<rparr>) s else s))
           else Inr s)
          (\<lambda>s. etharp_send_ip n q (hwaddr n) (ethaddr (arp_table s ! i)) s)))"

subsection \<open>Queueing a packet on a pending entry\<close>

text \<open>The pbufs from the first one that is not in read-only memory, if any.\<close>

fun first_not_rom :: "packet \<Rightarrow> packet option checked" where
  "first_not_rom [] = Inr None"
| "first_not_rom (b # bs) =
     require Assert_failed (length (eb_data b) \<noteq> length (frame_of (b # bs)) \<or> bs = [])
       (if eb_type b \<noteq> PBUF_ROM then Inr (Some (b # bs)) else first_not_rom bs)"

definition packet_to_keep :: "packet \<Rightarrow> arp \<Rightarrow> (packet option \<times> arp) checked" where
  "packet_to_keep q s =
     and_then (first_not_rom q) (\<lambda>r.
       case r of
         None \<Rightarrow> Inr (Some q, hold_pbuf s)
       | Some p \<Rightarrow>
           (case take_pbuf s of
              (False, s) \<Rightarrow> Inr (None, s)
            | (True, s) \<Rightarrow>
                require Assert_failed (length (frame_of q) \<le> length (frame_of p))
                 (and_then (pbuf_copy (length (frame_of p)) q) (\<lambda>bytes.
                   Inr (Some [\<lparr>eb_type = PBUF_RAM, eb_room = 0, eb_data = bytes\<rparr>], s)))))"

definition queue_packet :: "nat \<Rightarrow> packet \<Rightarrow> arp \<Rightarrow> (err_t \<times> arp) checked" where
  "queue_packet i q s =
     and_then (packet_to_keep q s) (\<lambda>(r, s).
       case r of
         None \<Rightarrow> Inr (ERR_MEM, s)
       | Some p \<Rightarrow>
           let e = arp_table s ! i; s = (if queued e \<noteq> None then drop_pbuf s else s)
           in Inr (ERR_OK, set_entry i (e\<lparr>queued := Some p\<rparr>) s))"

text \<open>The query once there is an entry, which is pending or stable.\<close>

definition query_entry :: "netif \<Rightarrow> u32 \<Rightarrow> packet option \<Rightarrow> nat \<Rightarrow> arp \<Rightarrow> (err_t \<times> arp) checked" where
  "query_entry n ip q i s =
     and_then
       (if state (arp_table s ! i) = ETHARP_STATE_PENDING \<or> q = None then etharp_request n ip s else Inr (ERR_MEM, s))
       (\<lambda>(result, s).
          case q of
            None \<Rightarrow> Inr (result, s)
          | Some p \<Rightarrow>
              if state (arp_table s ! i) \<ge> ETHARP_STATE_STABLE
              then etharp_send_ip n p (hwaddr n) (ethaddr (arp_table s ! i)) (s\<lparr>etharp_cached_entry := i\<rparr>)
              else if state (arp_table s ! i) = ETHARP_STATE_PENDING then queue_packet i p s
              else Inr (result, s))"

definition etharp_query :: "netif \<Rightarrow> u32 \<Rightarrow> packet option \<Rightarrow> arp \<Rightarrow> (err_t \<times> arp) checked" where
  "etharp_query n ip q s =
     (if ip4_addr_isbroadcast ip n \<or> ip_addr_ismulticast ip \<or> ip_addr_isany ip then Inr (ERR_ARG, s)
      else and_then (etharp_find_entry ip ETHARP_FLAG_TRY_HARD s) (\<lambda>(r, s).
        case r of
          None \<Rightarrow> Inr (ERR_MEM, s)
        | Some i \<Rightarrow>
            let e = arp_table s ! i;
                s = (if state e = ETHARP_STATE_EMPTY then set_entry i (e\<lparr>state := ETHARP_STATE_PENDING\<rparr>) s else s)
            in require Assert_failed (state (arp_table s ! i) \<noteq> ETHARP_STATE_EMPTY) (query_entry n ip q i s)))"

subsection \<open>Sending an IP packet\<close>

fun find_stable :: "u32 \<Rightarrow> nat \<Rightarrow> etharp_entry list \<Rightarrow> nat option" where
  "find_stable ip i [] = None"
| "find_stable ip i (e # es) =
     (if state e \<ge> ETHARP_STATE_STABLE \<and> ip = ipaddr e then Some i else find_stable ip (i + 1) es)"

definition mcast_mac :: "u32 \<Rightarrow> u8 list" where
  "mcast_mac ip = [0x01, 0x00, 0x5e, ip4_addr2 ip AND 0x7f, ip4_addr3 ip, ip4_addr4 ip]"

text \<open>The address whose Ethernet address is looked up: the destination, or the gateway.\<close>

definition next_hop :: "netif \<Rightarrow> u32 \<Rightarrow> u32 option" where
  "next_hop n ip =
     (if \<not> ip_addr_netcmp ip (ip_addr n) (netmask n) \<and> \<not> ip_addr_islinklocal ip
      then if \<not> ip_addr_isany (gw n) then Some (gw n) else None
      else Some ip)"

definition output_unicast :: "netif \<Rightarrow> packet \<Rightarrow> u32 \<Rightarrow> arp \<Rightarrow> (err_t \<times> arp) checked" where
  "output_unicast n q dst s =
     (let c = etharp_cached_entry s in
      require Oob_read (c < ARP_TABLE_SIZE)
       (if state (arp_table s ! c) \<ge> ETHARP_STATE_STABLE \<and> dst = ipaddr (arp_table s ! c)
        then etharp_output_to_arp_index n q c s
        else case find_stable dst 0 (arp_table s) of
               Some i \<Rightarrow> etharp_output_to_arp_index n q i (s\<lparr>etharp_cached_entry := i\<rparr>)
             | None \<Rightarrow> etharp_query n dst (Some q) s))"

definition etharp_output :: "netif \<Rightarrow> packet \<Rightarrow> u32 \<Rightarrow> arp \<Rightarrow> (err_t \<times> arp) checked" where
  "etharp_output n q ip s =
     and_then (pbuf_header (int SIZEOF_ETH_HDR) q) (\<lambda>r.
      case r of
        None \<Rightarrow> Inr (ERR_BUF, s)
      | Some q \<Rightarrow>
          if ip4_addr_isbroadcast ip n then etharp_send_ip n q (hwaddr n) ethbroadcast s
          else if ip_addr_ismulticast ip then etharp_send_ip n q (hwaddr n) (mcast_mac ip) s
          else case next_hop n ip of
                 None \<Rightarrow> Inr (ERR_RTE, s)
               | Some dst \<Rightarrow> output_unicast n q dst s)"

subsection \<open>Receiving\<close>

definition field :: "nat \<Rightarrow> nat \<Rightarrow> u8 list \<Rightarrow> u8 list" where
  "field k n bs = take n (drop k bs)"

definition be16 :: "u8 list \<Rightarrow> u16" where
  "be16 bs = push_bit 8 (ucast (bs ! 0)) OR ucast (bs ! 1)"

definition put_field :: "nat \<Rightarrow> u8 list \<Rightarrow> u8 list \<Rightarrow> u8 list" where
  "put_field k v bs = take k bs @ v @ drop (k + length v) bs"

text \<open>
  The headers are structures laid over the payload of the first pbuf. Reading or writing a field that does
  not lie in it is a fault, so the length checks of the code are what keeps the handlers from failing.
\<close>

definition get_field :: "nat \<Rightarrow> nat \<Rightarrow> u8 list \<Rightarrow> u8 list checked" where
  "get_field k n bs = require Oob_read (k + n \<le> length bs) (Inr (field k n bs))"

definition set_field :: "nat \<Rightarrow> u8 list \<Rightarrow> u8 list \<Rightarrow> u8 list checked" where
  "set_field k v bs = require Oob_write (k + length v \<le> length bs) (Inr (put_field k v bs))"

definition copy_field :: "nat \<Rightarrow> nat \<Rightarrow> nat \<Rightarrow> u8 list \<Rightarrow> u8 list checked" where
  "copy_field to from n bs = and_then (get_field from n bs) (\<lambda>v. set_field to v bs)"

text \<open>
  The offsets of the ARP header in the frame: types at 14 and 16, lengths at 18 and 19, the operation
  at 20, the addresses of the sender at 22 and 28, of the target at 32 and 38. The four tests of the header
  are made in order, each only if the one before was passed.
\<close>

definition arp_header_wrong :: "u8 list \<Rightarrow> bool checked" where
  "arp_header_wrong h =
     and_then (get_field 14 2 h) (\<lambda>hwtype. if be16 hwtype \<noteq> 1 then Inr True else
     and_then (get_field 18 1 h) (\<lambda>hwlen. if hwlen \<noteq> [6] then Inr True else
     and_then (get_field 19 1 h) (\<lambda>protolen. if protolen \<noteq> [4] then Inr True else
     and_then (get_field 16 2 h) (\<lambda>proto. Inr (be16 proto \<noteq> 0x0800)))))"

definition arp_reply :: "netif \<Rightarrow> u8 list \<Rightarrow> u8 list checked" where
  "arp_reply n p =
     and_then (set_field 20 (u16_bytes ARP_REPLY) p) (\<lambda>p.
     and_then (copy_field 38 28 4 p) (\<lambda>p.
     and_then (set_field 28 (ip_bytes (ip_addr n)) p) (\<lambda>p.
     require Assert_failed (length (hwaddr n) = 6)
      (and_then (copy_field 32 22 6 p) (\<lambda>p.
       and_then (copy_field 0 22 6 p) (\<lambda>p.
       and_then (set_field 22 (hwaddr n) p) (\<lambda>p.
       set_field 6 (hwaddr n) p)))))))"

definition etharp_arp_input :: "netif \<Rightarrow> packet \<Rightarrow> arp \<Rightarrow> arp checked" where
  "etharp_arp_input n p s =
     (case p of
        [] \<Rightarrow> Inl Null_deref
      | b # rest \<Rightarrow>
          let h = eb_data b in
          if length h < SIZEOF_ETHARP_PACKET then Inr (drop_pbuf s)
          else and_then (arp_header_wrong h) (\<lambda>wrong.
            if wrong then Inr (drop_pbuf s)
            else and_then (get_field 28 4 h) (\<lambda>sipaddr.
                 and_then (get_field 38 4 h) (\<lambda>dipaddr.
                 let for_us = (\<not> ip_addr_isany (ip_addr n) \<and> ip_of_bytes dipaddr = ip_addr n)
                 in and_then (get_field 22 6 h) (\<lambda>shwaddr.
                    and_then (etharp_update_arp_entry n (ip_of_bytes sipaddr) shwaddr
                                (if for_us then ETHARP_FLAG_TRY_HARD else ETHARP_FLAG_FIND_ONLY) s) (\<lambda>(_, s).
                    and_then (get_field 20 2 h) (\<lambda>opcode.
                      if be16 opcode = ARP_REQUEST \<and> for_us
                      then and_then (arp_reply n h) (\<lambda>h'.
                             Inr (drop_pbuf (snd (linkoutput (frame_of (b\<lparr>eb_data := h'\<rparr> # rest)) s))))
                      else Inr (drop_pbuf s))))))))"

definition PBUF_FLAG_LLBCAST :: u8 where "PBUF_FLAG_LLBCAST = 0x08"
definition PBUF_FLAG_LLMCAST :: u8 where "PBUF_FLAG_LLMCAST = 0x10"

definition link_flags :: "u8 list \<Rightarrow> u8" where
  "link_flags dest =
     (if dest ! 0 AND 1 \<noteq> 0
      then if dest ! 0 = 0x01 then if dest ! 1 = 0x00 \<and> dest ! 2 = 0x5e then PBUF_FLAG_LLMCAST else 0
           else if dest = ethbroadcast then PBUF_FLAG_LLBCAST else 0
      else 0)"

text \<open>The packet without its Ethernet header goes to \<^verbatim>\<open>ip_input\<close>, which frees it.\<close>

definition ethernet_input :: "netif \<Rightarrow> packet \<Rightarrow> arp \<Rightarrow> arp checked" where
  "ethernet_input n p s =
     (case p of
        [] \<Rightarrow> Inl Null_deref
      | b # _ \<Rightarrow>
          let h = eb_data b; s = hold_pbuf s in
          if length h \<le> SIZEOF_ETH_HDR then Inr (drop_pbuf s)
          else and_then (get_field 12 2 h) (\<lambda>type.
               and_then (get_field 0 6 h) (\<lambda>dest.
            if be16 type = 0x0800
            then if flags n AND NETIF_FLAG_ETHARP = 0 then Inr (drop_pbuf s)
                 else and_then (pbuf_header (- int SIZEOF_ETH_HDR) p) (\<lambda>r.
                   case r of
                     None \<Rightarrow> Inl Assert_failed
                   | Some q \<Rightarrow> Inr (drop_pbuf (s\<lparr>to_ip := to_ip s @ [(link_flags dest, q)]\<rparr>)))
            else if be16 type = 0x0806
            then if flags n AND NETIF_FLAG_ETHARP = 0 then Inr (drop_pbuf s) else etharp_arp_input n p s
            else Inr (drop_pbuf s))))"

end
