(* ===== verification/Arp_Inv.thy ===== *)
theory Arp_Inv
  imports Arp
begin

text \<open>
  The invariant of the address table: every address has at most one entry, only pending entries hold a
  packet, ages stay below their limits, and the module holds exactly the packet buffers that are
  queued. Each operation returns without a failed assertion and keeps it.
\<close>

named_theorems arp_simps

lemmas state_less = less_eq_etharp_state_def less_etharp_state_def

lemma stable_iff [simp]:
  "ETHARP_STATE_STABLE \<le> st \<longleftrightarrow> st = ETHARP_STATE_STABLE \<or> st = ETHARP_STATE_STABLE_REREQUESTING"
  by (cases st) (simp_all add: less_eq_etharp_state_def)

subsection \<open>The invariant\<close>

definition entry_ok :: "netif \<Rightarrow> etharp_entry \<Rightarrow> bool" where
  "entry_ok n e \<longleftrightarrow>
     (queued e \<noteq> None \<longrightarrow> state e = ETHARP_STATE_PENDING)
     \<and> (\<forall>p. queued e = Some p \<longrightarrow> p \<noteq> [] \<and> SIZEOF_ETH_HDR \<le> length (eb_data (hd p)))
     \<and> ctime e < ARP_MAXAGE \<and> (state e = ETHARP_STATE_PENDING \<longrightarrow> ctime e < ARP_MAXPENDING)
     \<and> (state e \<noteq> ETHARP_STATE_EMPTY \<longrightarrow> \<not> not_unicast (ipaddr e) n)
     \<and> length (ethaddr e) = 6"

definition used :: "etharp_entry \<Rightarrow> bool" where
  "used e \<longleftrightarrow> state e \<noteq> ETHARP_STATE_EMPTY"

definition unique :: "etharp_entry list \<Rightarrow> bool" where
  "unique t \<longleftrightarrow> (\<forall>i j. i < length t \<longrightarrow> j < length t \<longrightarrow> used (t ! i) \<longrightarrow> used (t ! j) \<longrightarrow> ipaddr (t ! i) = ipaddr (t ! j) \<longrightarrow> i = j)"

definition held :: "etharp_entry list \<Rightarrow> nat" where
  "held t = length (filter (\<lambda>e. queued e \<noteq> None) t)"

definition arp_ok :: "netif \<Rightarrow> arp \<Rightarrow> bool" where
  "arp_ok n s \<longleftrightarrow> length (arp_table s) = ARP_TABLE_SIZE \<and> (\<forall>e\<in>set (arp_table s). entry_ok n e)
     \<and> unique (arp_table s) \<and> pbuf_refs s = int (held (arp_table s)) \<and> etharp_cached_entry s < ARP_TABLE_SIZE"

definition holds :: "etharp_entry \<Rightarrow> nat" where
  "holds e = (if queued e = None then 0 else 1)"

lemma held_update: "i < length t \<Longrightarrow> held (t[i := e]) + holds (t ! i) = held t + holds e"
proof -
  assume i: "i < length t"
  have t: "t = take i t @ t ! i # drop (Suc i) t" using i by (simp add: id_take_nth_drop)
  have u: "t[i := e] = take i t @ e # drop (Suc i) t" using i by (simp add: upd_conv_take_nth_drop)
  have "held t = held (take i t) + holds (t ! i) + held (drop (Suc i) t)"
    by (subst t) (simp add: held_def holds_def)
  moreover have "held (t[i := e]) = held (take i t) + holds e + held (drop (Suc i) t)"
    unfolding u by (simp add: held_def holds_def)
  ultimately show ?thesis by simp
qed

lemma ARP_TABLE_SIZE_eq [simp]: "ARP_TABLE_SIZE = 10"
  by (simp add: ARP_TABLE_SIZE_def)

text \<open>Replacing one entry: what is left to show.\<close>

definition fresh :: "u32 \<Rightarrow> nat \<Rightarrow> etharp_entry list \<Rightarrow> bool" where
  "fresh ip i t \<longleftrightarrow> (\<forall>j < length t. j \<noteq> i \<longrightarrow> used (t ! j) \<longrightarrow> ipaddr (t ! j) \<noteq> ip)"

lemma unique_update:
  assumes "unique t" and "used e \<Longrightarrow> fresh (ipaddr e) i t"
  shows "unique (t[i := e])"
  unfolding unique_def
proof (intro allI impI)
  fix a b assume "a < length (t[i := e])" "b < length (t[i := e])" "used (t[i := e] ! a)" "used (t[i := e] ! b)"
    and "ipaddr (t[i := e] ! a) = ipaddr (t[i := e] ! b)"
  then show "a = b" using assms
    by (cases "a = i"; cases "b = i") (auto simp: unique_def fresh_def)
qed

lemma unique_fresh: "unique t \<Longrightarrow> i < length t \<Longrightarrow> used (t ! i) \<Longrightarrow> fresh (ipaddr (t ! i)) i t"
  by (auto simp: unique_def fresh_def)

definition arp_fields :: "arp \<Rightarrow> etharp_entry list \<times> nat \<times> int" where
  "arp_fields s = (arp_table s, etharp_cached_entry s, pbuf_refs s)"

lemma arp_ok_cong: "arp_fields s = arp_fields s' \<Longrightarrow> arp_ok n s = arp_ok n s'"
  by (simp add: arp_fields_def arp_ok_def)

lemma set_entry_ok:
  assumes ok: "length (arp_table s) = 10" "\<forall>e\<in>set (arp_table s). entry_ok n e" "unique (arp_table s)" "etharp_cached_entry s < 10"
    and i: "i < 10" and e: "entry_ok n e" and u: "used e \<Longrightarrow> fresh (ipaddr e) i (arp_table s)"
    and r: "pbuf_refs s + int (holds (arp_table s ! i)) = int (held (arp_table s)) + int (holds e)"
  shows "arp_ok n (set_entry i e s)"
proof -
  have "held ((arp_table s)[i := e]) + holds (arp_table s ! i) = held (arp_table s) + holds e"
    using held_update [of i "arp_table s" e] i ok(1) by simp
  then have "pbuf_refs s = int (held ((arp_table s)[i := e]))" using r by linarith
  moreover have "\<forall>e'\<in>set ((arp_table s)[i := e]). entry_ok n e'"
    using ok(2) e set_update_subset_insert [of "arp_table s" i e] by blast
  ultimately show ?thesis using ok i unique_update [OF ok(3) u] by (simp add: arp_ok_def set_entry_def)
qed

text \<open>For an entry that keeps its address and its packet.\<close>

lemma set_entry_same:
  assumes ok: "arp_ok n s" and i: "i < 10" and e: "entry_ok n e" "ipaddr e = ipaddr (arp_table s ! i)"
    "used e \<Longrightarrow> used (arp_table s ! i)" "holds e = holds (arp_table s ! i)"
  shows "arp_ok n (set_entry i e s)"
  by (rule set_entry_ok) (use assms unique_fresh [of "arp_table s" i] in \<open>auto simp: arp_ok_def\<close>)

lemma ok_entry: "arp_ok n s \<Longrightarrow> i < 10 \<Longrightarrow> entry_ok n (arp_table s ! i)"
  by (simp add: arp_ok_def)

lemma blank_simps [simp]: "queued blank_entry = None" "state blank_entry = ETHARP_STATE_EMPTY" "\<not> used blank_entry"
  by (simp_all add: blank_entry_def used_def)

lemma blank_ok: "entry_ok n blank_entry"
  by (simp add: entry_ok_def) (simp add: blank_entry_def ethzero_def ARP_MAXAGE_def)

lemma etharp_free_entry_ok:
  assumes ok: "arp_ok n s" and i: "i < 10"
  shows "arp_ok n (etharp_free_entry i s)"
proof -
  let ?s = "if queued (arp_table s ! i) \<noteq> None then drop_pbuf s else s"
  have "arp_ok n (set_entry i blank_entry ?s)"
    by (rule set_entry_ok)
      (use ok i in \<open>auto simp: arp_ok_def blank_ok drop_pbuf_def holds_def\<close>)
  then show ?thesis by (simp add: etharp_free_entry_def Let_def)
qed

lemma free_entry_simps [simp]:
  "arp_table (etharp_free_entry i s) = (arp_table s)[i := blank_entry]"
  "etharp_cached_entry (etharp_free_entry i s) = etharp_cached_entry s"
  "wire (etharp_free_entry i s) = wire s"
  "link_answers (etharp_free_entry i s) = link_answers s"
  "arp_heap (etharp_free_entry i s) = arp_heap s"
  by (simp_all add: etharp_free_entry_def Let_def set_entry_def drop_pbuf_def)

lemma set_entry_simps [simp]:
  "arp_table (set_entry i e s) = (arp_table s)[i := e]"
  "etharp_cached_entry (set_entry i e s) = etharp_cached_entry s"
  "wire (set_entry i e s) = wire s"
  "to_ip (set_entry i e s) = to_ip s"
  "link_answers (set_entry i e s) = link_answers s"
  "arp_heap (set_entry i e s) = arp_heap s"
  "pbuf_refs (set_entry i e s) = pbuf_refs s"
  by (simp_all add: set_entry_def)

lemma set_entry_twice [simp]: "set_entry i e (set_entry i e' s) = set_entry i e s"
  by (simp add: set_entry_def)

subsection \<open>The timer\<close>

lemma tmr_entry_ok:
  assumes ok: "arp_ok n s" and i: "i < 10"
  shows "arp_ok n (tmr_entry i s)"
proof -
  let ?e = "arp_table s ! i"
  define e where "e = ?e\<lparr>ctime := ctime ?e + 1\<rparr>"
  have l: "length (arp_table s) = 10" and eo: "entry_ok n ?e" using ok i ok_entry by (auto simp: arp_ok_def)
  show ?thesis
  proof (cases "state ?e = ETHARP_STATE_EMPTY")
    case True
    then show ?thesis using ok by (simp add: tmr_entry_def Let_def)
  next
    case used: False
    show ?thesis
    proof (cases "ARP_MAXAGE \<le> ctime e \<or> (state e = ETHARP_STATE_PENDING \<and> ARP_MAXPENDING \<le> ctime e)")
      case True
      have "etharp_free_entry i (set_entry i e s) = etharp_free_entry i s"
        using i l by (auto simp: etharp_free_entry_def Let_def e_def drop_pbuf_def set_entry_def)
      then show ?thesis using True used etharp_free_entry_ok [OF ok i]
        by (simp add: tmr_entry_def Let_def flip: e_def)
    next
      case False
      have "tmr_entry i s = set_entry i (if state e = ETHARP_STATE_STABLE_REREQUESTING then e\<lparr>state := ETHARP_STATE_STABLE\<rparr> else e) s"
        using False used by (auto simp: tmr_entry_def Let_def simp flip: e_def)
      moreover have "arp_ok n (set_entry i (if state e = ETHARP_STATE_STABLE_REREQUESTING then e\<lparr>state := ETHARP_STATE_STABLE\<rparr> else e) s)"
        by (rule set_entry_same [OF ok i])
          (use eo False used in \<open>auto simp: entry_ok_def e_def used_def holds_def split: if_splits\<close>)
      ultimately show ?thesis by simp
    qed
  qed
qed

lemma etharp_tmr_ok: "arp_ok n s \<Longrightarrow> arp_ok n (etharp_tmr s)"
proof -
  have "\<forall>i\<in>set is. i < 10 \<Longrightarrow> arp_ok n s \<Longrightarrow> arp_ok n (fold tmr_entry is s)" for "is" s
    by (induction "is" arbitrary: s) (auto simp: tmr_entry_ok)
  then show "arp_ok n s \<Longrightarrow> arp_ok n (etharp_tmr s)" by (simp add: etharp_tmr_def)
qed


text \<open>What a tick does to an entry, whatever the other entries are.\<close>

definition tick :: "etharp_entry \<Rightarrow> etharp_entry" where
  "tick e =
     (if state e = ETHARP_STATE_EMPTY then e
      else if ctime e + 1 \<ge> ARP_MAXAGE \<or> (state e = ETHARP_STATE_PENDING \<and> ctime e + 1 \<ge> ARP_MAXPENDING) then blank_entry
      else e\<lparr>ctime := ctime e + 1, state := if state e = ETHARP_STATE_STABLE_REREQUESTING then ETHARP_STATE_STABLE else state e\<rparr>)"

lemma tmr_entry_table: "i < length (arp_table s) \<Longrightarrow> arp_table (tmr_entry i s) = (arp_table s)[i := tick (arp_table s ! i)]"
  by (simp add: tmr_entry_def tick_def Let_def)

lemma etharp_tmr_table:
  assumes "length (arp_table s) = 10"
  shows "arp_table (etharp_tmr s) = map tick (arp_table s)"
proof -
  have "k \<le> 10 \<Longrightarrow> arp_table (fold tmr_entry [0..<k] s) = map tick (take k (arp_table s)) @ drop k (arp_table s)" for k
  proof (induction k)
    case (Suc k)
    let ?t = "arp_table s"
    have d: "drop k ?t = ?t ! k # drop (Suc k) ?t" using Suc.prems assms by (simp add: Cons_nth_drop_Suc)
    have "arp_table (fold tmr_entry [0..<k] s) = map tick (take k ?t) @ ?t ! k # drop (Suc k) ?t" using Suc d by simp
    moreover have "length (map tick (take k ?t)) = k" using Suc.prems assms by simp
    ultimately show ?case using Suc.prems assms
      by (simp add: tmr_entry_table list_update_append nth_append take_Suc_conv_app_nth)
  qed simp
  from this [of 10] show ?thesis using assms by (simp add: etharp_tmr_def)
qed

subsection \<open>Finding an entry\<close>

text \<open>The candidates after the first \<open>i\<close> entries of the table.\<close>

definition oldest :: "(etharp_entry \<Rightarrow> bool) \<Rightarrow> etharp_entry list \<Rightarrow> nat \<Rightarrow> nat \<Rightarrow> u8 \<Rightarrow> bool" where
  "oldest P t i k age \<longleftrightarrow> (if k = 10 then age = 0 \<and> (\<forall>j<i. \<not> P (t ! j))
     else k < i \<and> P (t ! k) \<and> age = ctime (t ! k) \<and> (\<forall>j<i. P (t ! j) \<longrightarrow> ctime (t ! j) \<le> age))"

definition is_stable :: "etharp_entry \<Rightarrow> bool" where "is_stable e \<longleftrightarrow> state e \<ge> ETHARP_STATE_STABLE"
definition waits :: "bool \<Rightarrow> etharp_entry \<Rightarrow> bool" where
  "waits q e \<longleftrightarrow> state e = ETHARP_STATE_PENDING \<and> (queued e \<noteq> None) = q"

definition candidates_ok :: "etharp_entry list \<Rightarrow> nat \<Rightarrow> candidates \<Rightarrow> bool" where
  "candidates_ok t i c \<longleftrightarrow>
     (if empty_entry c = 10 then \<forall>j<i. used (t ! j) else empty_entry c < i \<and> \<not> used (t ! empty_entry c))
     \<and> oldest is_stable t i (old_stable c) (age_stable c)
     \<and> oldest (waits False) t i (old_pending c) (age_pending c) \<and> oldest (waits True) t i (old_queue c) (age_queue c)"

lemma oldest_step:
  "oldest P t i k age \<Longrightarrow> i < 10 \<Longrightarrow> P (t ! i) \<Longrightarrow> oldest P t (Suc i) (if age \<le> ctime (t ! i) then i else k) (if age \<le> ctime (t ! i) then ctime (t ! i) else age)"
  by (auto simp: oldest_def less_Suc_eq split: if_splits)

lemma oldest_skip: "oldest P t i k age \<Longrightarrow> \<not> P (t ! i) \<Longrightarrow> oldest P t (Suc i) k age"
  by (auto simp: oldest_def less_Suc_eq split: if_splits)

lemma used_cases: "used e \<longleftrightarrow> is_stable e \<or> waits False e \<or> waits True e"
  by (cases "state e") (auto simp: used_def is_stable_def waits_def)

lemma note_used_ok:
  assumes c: "candidates_ok t i c" and i: "i < 10" and u: "used (t ! i)"
  shows "candidates_ok t (Suc i) (note_used i (t ! i) c)"
proof -
  let ?e = "t ! i"
  have o: "oldest is_stable t i (old_stable c) (age_stable c)" "oldest (waits False) t i (old_pending c) (age_pending c)"
    "oldest (waits True) t i (old_queue c) (age_queue c)"
    and em: "if empty_entry c = 10 then \<forall>j<i. used (t ! j) else empty_entry c < i \<and> \<not> used (t ! empty_entry c)"
    using c by (simp_all add: candidates_ok_def)
  have em': "if empty_entry c = 10 then \<forall>j<Suc i. used (t ! j) else empty_entry c < Suc i \<and> \<not> used (t ! empty_entry c)"
    using em u by (auto simp: less_Suc_eq split: if_splits)
  consider "is_stable ?e" | "waits False ?e" | "waits True ?e" using u used_cases by blast
  then show ?thesis
  proof cases
    case 1
    then have "\<not> waits False ?e" "\<not> waits True ?e" by (auto simp: is_stable_def waits_def)
    moreover have "note_used i ?e c = (if age_stable c \<le> ctime ?e then c\<lparr>old_stable := i, age_stable := ctime ?e\<rparr> else c)"
      using 1 by (auto simp: note_used_def is_stable_def)
    ultimately show ?thesis using em' oldest_step [OF o(1) i 1] oldest_skip [OF o(2)] oldest_skip [OF o(3)]
      by (cases "age_stable c \<le> ctime ?e") (simp_all add: candidates_ok_def)
  next
    case 2
    then have "\<not> is_stable ?e" "\<not> waits True ?e" by (auto simp: is_stable_def waits_def)
    moreover have "note_used i ?e c = (if age_pending c \<le> ctime ?e then c\<lparr>old_pending := i, age_pending := ctime ?e\<rparr> else c)"
      using 2 by (simp add: note_used_def waits_def)
    ultimately show ?thesis using em' oldest_step [OF o(2) i 2] oldest_skip [OF o(1)] oldest_skip [OF o(3)]
      by (cases "age_pending c \<le> ctime ?e") (simp_all add: candidates_ok_def)
  next
    case 3
    then have "\<not> is_stable ?e" "\<not> waits False ?e" by (auto simp: is_stable_def waits_def)
    moreover have "note_used i ?e c = (if age_queue c \<le> ctime ?e then c\<lparr>old_queue := i, age_queue := ctime ?e\<rparr> else c)"
      using 3 by (simp add: note_used_def waits_def)
    ultimately show ?thesis using em' oldest_step [OF o(3) i 3] oldest_skip [OF o(1)] oldest_skip [OF o(2)]
      by (cases "age_queue c \<le> ctime ?e") (simp_all add: candidates_ok_def)
  qed
qed

lemma search_result:
  assumes "length t = 10" and "candidates_ok t i c" and "i \<le> 10" and "\<forall>j<i. used (t ! j) \<longrightarrow> ipaddr (t ! j) \<noteq> ip"
  shows "case search ip i (drop i t) c of
           Inl k \<Rightarrow> k < 10 \<and> used (t ! k) \<and> ipaddr (t ! k) = ip
         | Inr c' \<Rightarrow> candidates_ok t 10 c' \<and> (\<forall>j<10. used (t ! j) \<longrightarrow> ipaddr (t ! j) \<noteq> ip)"
  using assms
proof (induction "10 - i" arbitrary: i c)
  case 0
  then show ?case by simp
next
  case (Suc k)
  then have i: "i < 10" and d: "drop i t = t ! i # drop (Suc i) t" by (auto simp: Cons_nth_drop_Suc)
  have k: "k = 10 - Suc i" using Suc.hyps by simp
  have IH: "candidates_ok t (Suc i) c' \<Longrightarrow> (used (t ! i) \<Longrightarrow> ipaddr (t ! i) \<noteq> ip) \<Longrightarrow>
     case search ip (Suc i) (drop (Suc i) t) c' of
           Inl k \<Rightarrow> k < 10 \<and> used (t ! k) \<and> ipaddr (t ! k) = ip
         | Inr c' \<Rightarrow> candidates_ok t 10 c' \<and> (\<forall>j<10. used (t ! j) \<longrightarrow> ipaddr (t ! j) \<noteq> ip)" for c'
    using Suc.hyps(1) [OF k Suc.prems(1)] Suc.prems(4) i by (auto simp: less_Suc_eq)
  show ?case
  proof (cases "used (t ! i)")
    case True
    then show ?thesis using i d IH [OF note_used_ok [OF Suc.prems(2) i True]] by (simp add: used_def)
  next
    case False
    then have "\<not> is_stable (t ! i)" "\<not> waits False (t ! i)" "\<not> waits True (t ! i)" using used_cases by blast+
    then have "candidates_ok t (Suc i) (if empty_entry c = 10 then c\<lparr>empty_entry := i\<rparr> else c)"
      using Suc.prems(2) False i oldest_skip by (auto simp: candidates_ok_def split: if_splits)
    then show ?thesis using IH False i d by (simp add: used_def split: if_splits)
  qed
qed


text \<open>What finding an entry leaves alone.\<close>

definition arp_rest :: "arp \<Rightarrow> u8 list list \<times> (u8 \<times> packet) list \<times> err_t list \<times> bool list" where
  "arp_rest s = (wire s, to_ip s, link_answers s, arp_heap s)"

text \<open>
  The table after an entry for \<open>ip\<close> was made at \<open>i\<close>: nothing was there, or the oldest is_stable entry, or
  the oldest pending one was given up because no entry was empty.
\<close>

definition made_room :: "etharp_entry list \<Rightarrow> nat \<Rightarrow> bool" where
  "made_room t i \<longleftrightarrow>
     \<not> used (t ! i)
     \<or> (\<forall>e\<in>set t. used e)
       \<and> (if \<exists>e\<in>set t. is_stable e then is_stable (t ! i) \<and> (\<forall>e\<in>set t. is_stable e \<longrightarrow> ctime e \<le> ctime (t ! i))
          else if \<exists>e\<in>set t. waits False e then waits False (t ! i) \<and> (\<forall>e\<in>set t. waits False e \<longrightarrow> ctime e \<le> ctime (t ! i))
          else \<forall>e\<in>set t. ctime e \<le> ctime (t ! i))"

definition new_at :: "netif \<Rightarrow> u32 \<Rightarrow> nat \<Rightarrow> arp \<Rightarrow> arp \<Rightarrow> bool" where
  "new_at n ip i s s' \<longleftrightarrow> arp_ok n s' \<and> arp_rest s' = arp_rest s \<and> etharp_cached_entry s' = etharp_cached_entry s
     \<and> made_room (arp_table s) i \<and> (\<forall>j<10. j \<noteq> i \<longrightarrow> arp_table s' ! j = arp_table s ! j)
     \<and> state (arp_table s' ! i) = ETHARP_STATE_EMPTY \<and> ipaddr (arp_table s' ! i) = ip
     \<and> ctime (arp_table s' ! i) = 0 \<and> queued (arp_table s' ! i) = None"

definition known :: "u32 \<Rightarrow> etharp_entry list \<Rightarrow> bool" where
  "known ip t \<longleftrightarrow> (\<exists>e\<in>set t. used e \<and> ipaddr e = ip)"

lemma known_nth: "length t = 10 \<Longrightarrow> known ip t \<longleftrightarrow> (\<exists>j<10. used (t ! j) \<and> ipaddr (t ! j) = ip)"
  unfolding known_def by (metis in_set_conv_nth)

lemma new_entry_ok:
  assumes ok: "arp_ok n s" and i: "i < 10" and u: "state (arp_table s ! i) = ETHARP_STATE_EMPTY"
  shows "\<exists>s'. new_entry i ip s = Inr (Some i, s') \<and> arp_ok n s' \<and> arp_rest s' = arp_rest s \<and> etharp_cached_entry s' = etharp_cached_entry s
     \<and> (\<forall>j<10. j \<noteq> i \<longrightarrow> arp_table s' ! j = arp_table s ! j)
     \<and> state (arp_table s' ! i) = ETHARP_STATE_EMPTY \<and> ipaddr (arp_table s' ! i) = ip
     \<and> ctime (arp_table s' ! i) = 0 \<and> queued (arp_table s' ! i) = None"
proof -
  let ?e = "(arp_table s ! i)\<lparr>ipaddr := ip, ctime := 0\<rparr>"
  have eo: "entry_ok n (arp_table s ! i)" and l: "length (arp_table s) = 10" using ok i by (auto simp: arp_ok_def)
  have q: "queued (arp_table s ! i) = None" using eo u by (auto simp: entry_ok_def)
  have "arp_ok n (set_entry i ?e s)"
    by (rule set_entry_ok) (use ok i eo u q in \<open>auto simp: arp_ok_def entry_ok_def used_def holds_def ARP_MAXAGE_def\<close>)
  then show ?thesis using i u l q by (auto simp: new_entry_def require_def arp_rest_def)
qed

lemma recycle_ok:
  assumes ok: "arp_ok n s" and i: "i < 10" and m: "made_room (arp_table s) i"
  shows "\<exists>s'. new_entry i ip (etharp_free_entry i s) = Inr (Some i, s') \<and> new_at n ip i s s'"
proof -
  have l: "length (arp_table s) = 10" using ok by (simp add: arp_ok_def)
  have "state (arp_table (etharp_free_entry i s) ! i) = ETHARP_STATE_EMPTY" using i l by simp
  from new_entry_ok [OF etharp_free_entry_ok [OF ok i] i this, of ip] show ?thesis
    using m l by (auto simp: new_at_def arp_rest_def etharp_free_entry_def Let_def drop_pbuf_def)
qed

lemma etharp_find_entry_ok:
  assumes ok: "arp_ok n s" and fl: "fl = ETHARP_FLAG_TRY_HARD \<or> fl = ETHARP_FLAG_FIND_ONLY"
  shows "(known ip (arp_table s) \<and> (\<exists>i<10. etharp_find_entry ip fl s = Inr (Some i, s)
             \<and> used (arp_table s ! i) \<and> ipaddr (arp_table s ! i) = ip))
      \<or> (\<not> known ip (arp_table s) \<and> fl = ETHARP_FLAG_FIND_ONLY \<and> etharp_find_entry ip fl s = Inr (None, s))
      \<or> (\<not> known ip (arp_table s) \<and> fl = ETHARP_FLAG_TRY_HARD
          \<and> (\<exists>i<10. \<exists>s'. etharp_find_entry ip fl s = Inr (Some i, s') \<and> new_at n ip i s s'))"
proof -
  let ?t = "arp_table s"
  have l: "length ?t = 10" using ok by (simp add: arp_ok_def)
  have bits: "ETHARP_FLAG_TRY_HARD AND ETHARP_FLAG_FIND_ONLY = 0" "ETHARP_FLAG_TRY_HARD AND ETHARP_FLAG_TRY_HARD \<noteq> 0"
    "ETHARP_FLAG_FIND_ONLY AND ETHARP_FLAG_FIND_ONLY \<noteq> 0" "ETHARP_FLAG_TRY_HARD \<noteq> ETHARP_FLAG_FIND_ONLY"
    by (simp_all add: ETHARP_FLAG_TRY_HARD_def ETHARP_FLAG_FIND_ONLY_def)
  have "candidates_ok ?t 0 no_candidates" by (simp add: candidates_ok_def no_candidates_def oldest_def)
  from search_result [OF l this, of ip] have sr: "case search ip 0 ?t no_candidates of
           Inl k \<Rightarrow> k < 10 \<and> used (?t ! k) \<and> ipaddr (?t ! k) = ip
         | Inr c' \<Rightarrow> candidates_ok ?t 10 c' \<and> (\<forall>j<10. used (?t ! j) \<longrightarrow> ipaddr (?t ! j) \<noteq> ip)" by simp
  show ?thesis
  proof (cases "search ip 0 ?t no_candidates")
    case (Inl k)
    then show ?thesis using sr l by (auto simp: known_nth etharp_find_entry_def)
  next
    case (Inr c)
    then have c: "candidates_ok ?t 10 c" and nk: "\<not> known ip ?t" using sr l by (auto simp: known_nth)
    have o: "oldest is_stable ?t 10 (old_stable c) (age_stable c)" "oldest (waits False) ?t 10 (old_pending c) (age_pending c)"
      "oldest (waits True) ?t 10 (old_queue c) (age_queue c)"
      and em: "if empty_entry c = 10 then \<forall>j<10. used (?t ! j) else empty_entry c < 10 \<and> \<not> used (?t ! empty_entry c)"
      using c by (simp_all add: candidates_ok_def)
    have all: "(\<forall>e\<in>set ?t. P e) \<longleftrightarrow> (\<forall>j<10. P (?t ! j))" "(\<exists>e\<in>set ?t. P e) \<longleftrightarrow> (\<exists>j<10. P (?t ! j))" for P
      using l by (metis in_set_conv_nth)+
    show ?thesis
    proof (cases "fl = ETHARP_FLAG_FIND_ONLY")
      case True
      then show ?thesis using nk bits Inr by (simp add: etharp_find_entry_def)
    next
      case False
      then have th: "fl = ETHARP_FLAG_TRY_HARD" using fl by simp
      have "\<exists>i<10. \<exists>s'. etharp_find_entry ip fl s = Inr (Some i, s') \<and> new_at n ip i s s'"
      proof (cases "empty_entry c = 10")
        case e: False
        then have e': "empty_entry c < 10" "\<not> used (?t ! empty_entry c)" using em by auto
        then have "etharp_find_entry ip fl s = new_entry (empty_entry c) ip s"
          using th bits Inr by (simp add: etharp_find_entry_def)
        then show ?thesis using new_entry_ok [OF ok e'(1), of ip] e' by (auto simp: used_def new_at_def made_room_def)
      next
        case True
        then have full: "\<forall>j<10. used (?t ! j)" using em by simp
        consider "old_stable c < 10" | "old_stable c = 10" "old_pending c < 10"
          | "old_stable c = 10" "old_pending c = 10" "old_queue c < 10"
        proof -
          have "used (?t ! 0)" using full by simp
          then have "is_stable (?t ! 0) \<or> waits False (?t ! 0) \<or> waits True (?t ! 0)" by (simp add: used_cases)
          then have "old_stable c \<noteq> 10 \<or> old_pending c \<noteq> 10 \<or> old_queue c \<noteq> 10"
            using o by (auto simp: oldest_def split: if_splits)
          then show ?thesis using that o by (auto simp: oldest_def split: if_splits)
        qed
        then show ?thesis
        proof cases
          case 1
          then have st: "is_stable (?t ! old_stable c)" and old: "\<forall>j<10. is_stable (?t ! j) \<longrightarrow> ctime (?t ! j) \<le> ctime (?t ! old_stable c)"
            using o(1) by (auto simp: oldest_def)
          then have m: "made_room ?t (old_stable c)" using full 1 by (auto simp: made_room_def all)
          have "queued (?t ! old_stable c) = None" using ok_entry [OF ok 1] st by (auto simp: entry_ok_def is_stable_def)
          then have "etharp_find_entry ip fl s = new_entry (old_stable c) ip (etharp_free_entry (old_stable c) s)"
            using th bits Inr True 1 by (simp add: etharp_find_entry_def require_def)
          then show ?thesis using recycle_ok [OF ok 1 m] 1 by metis
        next
          case 2
          then have ns: "\<forall>j<10. \<not> is_stable (?t ! j)" and st: "waits False (?t ! old_pending c)"
            and old: "\<forall>j<10. waits False (?t ! j) \<longrightarrow> ctime (?t ! j) \<le> ctime (?t ! old_pending c)"
            using o(1,2) by (auto simp: oldest_def)
          then have m: "made_room ?t (old_pending c)" using full 2 by (auto simp: made_room_def all)
          have "etharp_find_entry ip fl s = new_entry (old_pending c) ip (etharp_free_entry (old_pending c) s)"
            using th bits Inr True 2 by (simp add: etharp_find_entry_def)
          then show ?thesis using recycle_ok [OF ok 2(2) m] 2 by metis
        next
          case 3
          then have ns: "\<forall>j<10. \<not> is_stable (?t ! j)" "\<forall>j<10. \<not> waits False (?t ! j)" and st: "waits True (?t ! old_queue c)"
            and old: "\<forall>j<10. waits True (?t ! j) \<longrightarrow> ctime (?t ! j) \<le> ctime (?t ! old_queue c)"
            using o by (auto simp: oldest_def)
          moreover have "\<forall>j<10. waits True (?t ! j)" using ns full used_cases by blast
          ultimately have m: "made_room ?t (old_queue c)" using full 3 by (auto simp: made_room_def all)
          have "etharp_find_entry ip fl s = new_entry (old_queue c) ip (etharp_free_entry (old_queue c) s)"
            using th bits Inr True 3 by (simp add: etharp_find_entry_def)
          then show ?thesis using recycle_ok [OF ok 3(3) m] 3 by metis
        qed
      qed
      then show ?thesis using nk th by blast
    qed
  qed
qed

end
