(* ===== verification/Arp_Ops.thy ===== *)
theory Arp_Ops
  imports Arp_Inv
begin

text \<open>
  The operations of address resolution: what each sends, what it writes to the table, and that it
  returns and keeps the invariant \<open>arp_ok\<close>.
\<close>

subsection \<open>Frames\<close>

definition eth_ip_frame :: "u8 list \<Rightarrow> u8 list \<Rightarrow> packet \<Rightarrow> u8 list" where
  "eth_ip_frame src dst p = dst @ src @ [0x08, 0x00] @ drop SIZEOF_ETH_HDR (frame_of p)"

lemma linkoutput_simps [simp]:
  "arp_table (snd (linkoutput f s)) = arp_table s"
  "etharp_cached_entry (snd (linkoutput f s)) = etharp_cached_entry s"
  "pbuf_refs (snd (linkoutput f s)) = pbuf_refs s"
  "to_ip (snd (linkoutput f s)) = to_ip s"
  "arp_heap (snd (linkoutput f s)) = arp_heap s"
  "wire (snd (linkoutput f s)) = wire s @ [f]"
  "link_answers (snd (linkoutput f s)) = tl (link_answers s)"
  by (simp_all add: linkoutput_def split: list.splits)

lemma linkoutput_ok: "arp_ok n (snd (linkoutput f s)) = arp_ok n s"
  by (rule arp_ok_cong) (simp add: arp_fields_def)

definition with_header :: "packet \<Rightarrow> bool" where
  "with_header p \<longleftrightarrow> p \<noteq> [] \<and> SIZEOF_ETH_HDR \<le> length (eb_data (hd p))"

lemma send_ip_ok:
  assumes "length (hwaddr n) = 6" and "with_header p"
  shows "etharp_send_ip n p src dst s = Inr (linkoutput (eth_ip_frame src dst p) s)"
  using assms by (cases p) (simp_all add: etharp_send_ip_def require_def with_header_def eth_ip_frame_def frame_of_def)

lemma request_ok:
  assumes "length (hwaddr n) = 6"
  shows "\<exists>r s'. etharp_request n ip s = Inr (r, s') \<and> arp_fields s' = arp_fields s \<and> to_ip s' = to_ip s
      \<and> (if arp_heap s = [] \<or> hd (arp_heap s)
         then wire s' = wire s @ [arp_packet (hwaddr n) ethbroadcast (hwaddr n) (ip_addr n) ethzero ip ARP_REQUEST]
              \<and> r = (if link_answers s = [] then ERR_OK else hd (link_answers s))
              \<and> link_answers s' = tl (link_answers s)
         else wire s' = wire s \<and> r = ERR_MEM \<and> link_answers s' = link_answers s)
      \<and> arp_heap s' = tl (arp_heap s)"
proof (cases "arp_heap s = [] \<or> hd (arp_heap s)")
  case True
  then obtain s1 where s1: "take_pbuf s = (True, s1)" "s1 = hold_pbuf (s\<lparr>arp_heap := tl (arp_heap s)\<rparr>)"
    by (cases "arp_heap s") (auto simp: take_pbuf_def hold_pbuf_def)
  then show ?thesis using assms True
    by (auto simp: etharp_request_def etharp_raw_def require_def linkoutput_def hold_pbuf_def drop_pbuf_def arp_fields_def
        split: list.splits)
next
  case False
  then have "take_pbuf s = (False, s\<lparr>arp_heap := tl (arp_heap s)\<rparr>)" by (cases "arp_heap s") (auto simp: take_pbuf_def)
  then show ?thesis using False by (simp add: etharp_request_def etharp_raw_def arp_fields_def)
qed

subsection \<open>Learning an address\<close>

text \<open>
  An entry for the address with the given Ethernet address, and the queued packet sent; where the
  address was not known, a place was made for it.
\<close>

definition learned :: "netif \<Rightarrow> u32 \<Rightarrow> u8 list \<Rightarrow> arp \<Rightarrow> arp \<Rightarrow> bool" where
  "learned n ip mac s s' \<longleftrightarrow>
     (\<exists>i<10. (\<forall>j<10. j \<noteq> i \<longrightarrow> arp_table s' ! j = arp_table s ! j)
        \<and> state (arp_table s' ! i) = ETHARP_STATE_STABLE \<and> ipaddr (arp_table s' ! i) = ip
        \<and> ethaddr (arp_table s' ! i) = mac \<and> ctime (arp_table s' ! i) = 0 \<and> queued (arp_table s' ! i) = None
        \<and> (if known ip (arp_table s)
           then used (arp_table s ! i) \<and> ipaddr (arp_table s ! i) = ip
                \<and> wire s' = wire s @ (case queued (arp_table s ! i) of None \<Rightarrow> [] | Some p \<Rightarrow> [eth_ip_frame (hwaddr n) mac p])
           else made_room (arp_table s) i \<and> wire s' = wire s))"

lemma set_stable_ok:
  assumes ok: "arp_ok n s" and i: "i < 10" and ip: "ipaddr (arp_table s ! i) = ip" "\<not> not_unicast ip n"
    and f: "fresh ip i (arp_table s)" and mac: "length mac = 6"
  shows "arp_ok n (set_entry i ((arp_table s ! i)\<lparr>state := ETHARP_STATE_STABLE, entry_netif := nf, ethaddr := mac, ctime := 0, queued := None\<rparr>)
            (s\<lparr>pbuf_refs := pbuf_refs s - int (holds (arp_table s ! i))\<rparr>))"
  by (rule set_entry_ok)
    (use assms in \<open>auto simp: arp_ok_def entry_ok_def holds_def ARP_MAXAGE_def\<close>)

lemma entry_header: "arp_ok n s \<Longrightarrow> i < 10 \<Longrightarrow> queued (arp_table s ! i) = Some p \<Longrightarrow> with_header p"
  using ok_entry [of n s i] by (auto simp: entry_ok_def with_header_def)

lemma queued_same: "queued e = None \<Longrightarrow> e\<lparr>queued := None\<rparr> = e"
  by (cases e) simp

lemma update_found:
  assumes hw: "length (hwaddr n) = 6" and mac: "length mac = 6" and uni: "\<not> not_unicast ip n"
    and found: "etharp_find_entry ip fl s = Inr (Some i, s1)" and ok: "arp_ok n s1" and i: "i < 10"
    and ip: "ipaddr (arp_table s1 ! i) = ip" and f: "fresh ip i (arp_table s1)"
  shows "\<exists>s'. etharp_update_arp_entry n ip mac fl s = Inr (ERR_OK, s') \<and> arp_ok n s'
      \<and> arp_table s' = (arp_table s1)[i := (arp_table s1 ! i)\<lparr>state := ETHARP_STATE_STABLE, entry_netif := Some (num n), ethaddr := mac, ctime := 0, queued := None\<rparr>]
      \<and> wire s' = wire s1 @ (case queued (arp_table s1 ! i) of None \<Rightarrow> [] | Some p \<Rightarrow> [eth_ip_frame (hwaddr n) mac p])
      \<and> arp_heap s' = arp_heap s1 \<and> etharp_cached_entry s' = etharp_cached_entry s1 \<and> to_ip s' = to_ip s1"
proof -
  let ?e = "arp_table s1 ! i"
  let ?e' = "?e\<lparr>state := ETHARP_STATE_STABLE, entry_netif := Some (num n), ethaddr := mac, ctime := 0\<rparr>"
  let ?s = "set_entry i (?e'\<lparr>queued := None\<rparr>) (s1\<lparr>pbuf_refs := pbuf_refs s1 - int (holds ?e)\<rparr>)"
  have okk: "arp_ok n ?s" using set_stable_ok [OF ok i ip uni f mac] by simp
  show ?thesis
  proof (cases "queued ?e")
    case None
    then have q: "?e'\<lparr>queued := None\<rparr> = ?e'" by (intro queued_same) simp
    have "?s = set_entry i ?e' s1" unfolding q using None by (simp add: holds_def)
    then show ?thesis unfolding q using None hw uni found okk [unfolded q] by (simp add: etharp_update_arp_entry_def require_def and_then_def Let_def)
  next
    case (Some p)
    let ?f = "eth_ip_frame (hwaddr n) mac p"
    have send: "etharp_send_ip n p (hwaddr n) mac s2 = Inr (linkoutput ?f s2)" for s2
      by (rule send_ip_ok [OF hw entry_header [OF ok i Some]])
    obtain r s3 where l: "linkoutput ?f (set_entry i (?e'\<lparr>queued := None\<rparr>) s1) = (r, s3)" by fastforce
    have "etharp_update_arp_entry n ip mac fl s = Inr (ERR_OK, drop_pbuf s3)"
      using Some hw uni found send l by (simp add: etharp_update_arp_entry_def require_def and_then_def Let_def)
    moreover have s3: "s3 = snd (linkoutput ?f (set_entry i (?e'\<lparr>queued := None\<rparr>) s1))" using l by simp
    have "arp_fields (drop_pbuf s3) = arp_fields ?s" using Some by (simp add: s3 arp_fields_def drop_pbuf_def holds_def)
    then have "arp_ok n (drop_pbuf s3)" using okk arp_ok_cong by blast
    ultimately show ?thesis using Some by (simp add: s3 drop_pbuf_def)
  qed
qed

lemma etharp_update_ok:
  assumes ok: "arp_ok n s" and hw: "length (hwaddr n) = 6" and mac: "length mac = 6"
    and fl: "fl = ETHARP_FLAG_TRY_HARD \<or> fl = ETHARP_FLAG_FIND_ONLY"
  shows "\<exists>r s'. etharp_update_arp_entry n ip mac fl s = Inr (r, s') \<and> arp_ok n s' \<and> arp_heap s' = arp_heap s
      \<and> etharp_cached_entry s' = etharp_cached_entry s \<and> to_ip s' = to_ip s
      \<and> (if not_unicast ip n \<or> (\<not> known ip (arp_table s) \<and> fl = ETHARP_FLAG_FIND_ONLY) then s' = s else learned n ip mac s s')"
proof (cases "not_unicast ip n")
  case True
  then show ?thesis using ok hw by (simp add: etharp_update_arp_entry_def require_def)
next
  case uni: False
  have l: "length (arp_table s) = 10" using ok by (simp add: arp_ok_def)
  have bits: "ETHARP_FLAG_TRY_HARD \<noteq> ETHARP_FLAG_FIND_ONLY" by (simp add: ETHARP_FLAG_TRY_HARD_def ETHARP_FLAG_FIND_ONLY_def)
  consider (known) i where "known ip (arp_table s)" "i < 10" "etharp_find_entry ip fl s = Inr (Some i, s)"
      "used (arp_table s ! i)" "ipaddr (arp_table s ! i) = ip"
    | (none) "\<not> known ip (arp_table s)" "fl = ETHARP_FLAG_FIND_ONLY" "etharp_find_entry ip fl s = Inr (None, s)"
    | (new) i s1 where "\<not> known ip (arp_table s)" "fl = ETHARP_FLAG_TRY_HARD" "i < 10"
        "etharp_find_entry ip fl s = Inr (Some i, s1)" "new_at n ip i s s1"
    using etharp_find_entry_ok [OF ok fl, of ip] by blast
  then show ?thesis
  proof cases
    case known
    have "fresh ip i (arp_table s)" using unique_fresh [of "arp_table s" i] known l ok by (auto simp: arp_ok_def)
    from update_found [OF hw mac uni known(3) ok known(2,5) this] obtain s' where
      u: "etharp_update_arp_entry n ip mac fl s = Inr (ERR_OK, s')" "arp_ok n s'"
        "arp_table s' = (arp_table s)[i := (arp_table s ! i)\<lparr>state := ETHARP_STATE_STABLE, entry_netif := Some (num n), ethaddr := mac, ctime := 0, queued := None\<rparr>]"
        "wire s' = wire s @ (case queued (arp_table s ! i) of None \<Rightarrow> [] | Some p \<Rightarrow> [eth_ip_frame (hwaddr n) mac p])"
        "arp_heap s' = arp_heap s" "etharp_cached_entry s' = etharp_cached_entry s" "to_ip s' = to_ip s" by blast
    have "learned n ip mac s s'"
      unfolding learned_def using u(3,4) known l by (intro exI [of _ i]) simp
    then show ?thesis using u uni known(1) by auto
  next
    case none
    then show ?thesis using ok hw uni by (simp add: etharp_update_arp_entry_def require_def and_then_def)
  next
    case new
    have n1: "arp_ok n s1" "ipaddr (arp_table s1 ! i) = ip" "queued (arp_table s1 ! i) = None" "\<forall>j<10. j \<noteq> i \<longrightarrow> arp_table s1 ! j = arp_table s ! j"
      "wire s1 = wire s" "arp_heap s1 = arp_heap s" "to_ip s1 = to_ip s" "etharp_cached_entry s1 = etharp_cached_entry s"
      "made_room (arp_table s) i"
      using new(5) by (auto simp: new_at_def arp_rest_def)
    have l1: "length (arp_table s1) = 10" using n1(1) by (simp add: arp_ok_def)
    have "fresh ip i (arp_table s1)" using new(1) n1(4) l l1 by (auto simp: fresh_def known_nth)
    from update_found [OF hw mac uni new(4) n1(1) new(3) n1(2) this] obtain s' where
      u: "etharp_update_arp_entry n ip mac fl s = Inr (ERR_OK, s')" "arp_ok n s'"
        "arp_table s' = (arp_table s1)[i := (arp_table s1 ! i)\<lparr>state := ETHARP_STATE_STABLE, entry_netif := Some (num n), ethaddr := mac, ctime := 0, queued := None\<rparr>]"
        "wire s' = wire s1 @ (case queued (arp_table s1 ! i) of None \<Rightarrow> [] | Some p \<Rightarrow> [eth_ip_frame (hwaddr n) mac p])"
        "arp_heap s' = arp_heap s1" "etharp_cached_entry s' = etharp_cached_entry s1" "to_ip s' = to_ip s1" by blast
    have "learned n ip mac s s'"
      unfolding learned_def using u(3,4) new n1 l1 by (intro exI [of _ i]) simp
    then show ?thesis using u uni new n1 bits by auto
  qed
qed

subsection \<open>Queueing\<close>

text \<open>A packet as \<open>etharp_output\<close> hands it on: no empty pbuf, and the header in memory that can be written.\<close>

definition ready_to_send :: "packet \<Rightarrow> bool" where
  "ready_to_send q \<longleftrightarrow> with_header q \<and> (\<forall>b\<in>set q. eb_data b \<noteq> []) \<and> eb_type (hd q) \<noteq> PBUF_ROM"

lemma frame_of_simps [simp]: "frame_of [] = []" "frame_of (b # bs) = eb_data b @ frame_of bs"
  by (simp_all add: frame_of_def)

lemma frame_of_pos: "q \<noteq> [] \<Longrightarrow> \<forall>b\<in>set q. eb_data b \<noteq> [] \<Longrightarrow> 0 < length (frame_of q)"
  by (cases q) auto

lemma pbuf_copy_all: "\<forall>b\<in>set q. eb_data b \<noteq> [] \<Longrightarrow> pbuf_copy (length (frame_of q)) q = Inr (frame_of q)"
proof (induction q)
  case (Cons b bs)
  have "bs \<noteq> [] \<Longrightarrow> length (eb_data (hd bs)) = length (frame_of bs) \<Longrightarrow> tl bs = []"
    using Cons.prems frame_of_pos [of "tl bs"] by (cases bs) auto
  moreover have "length (frame_of bs) = 0 \<Longrightarrow> bs = []" using Cons.prems frame_of_pos [of bs] by auto
  ultimately show ?case using Cons by (auto simp: require_def and_then_def)
qed simp

lemma first_not_rom_ready: "ready_to_send q \<Longrightarrow> first_not_rom q = Inr (Some q)"
proof -
  assume s: "ready_to_send q"
  then obtain b bs where q: "q = b # bs" by (cases q) (auto simp: ready_to_send_def with_header_def)
  then have "bs \<noteq> [] \<Longrightarrow> 0 < length (frame_of bs)" using s frame_of_pos [of bs] by (auto simp: ready_to_send_def)
  then show ?thesis using s q by (auto simp: require_def ready_to_send_def)
qed

definition copy_of :: "packet \<Rightarrow> packet" where
  "copy_of q = [\<lparr>eb_type = PBUF_RAM, eb_room = 0, eb_data = frame_of q\<rparr>]"

lemma copy_of_header: "with_header q \<Longrightarrow> with_header (copy_of q)"
  by (cases q) (auto simp: with_header_def copy_of_def)

lemma copy_of_frame: "eth_ip_frame src dst (copy_of q) = eth_ip_frame src dst q"
  by (simp add: eth_ip_frame_def copy_of_def)

lemma queue_packet_ok:
  assumes ok: "arp_ok n s" and i: "i < 10" and p: "state (arp_table s ! i) = ETHARP_STATE_PENDING" and q: "ready_to_send q"
  shows "\<exists>r s'. queue_packet i q s = Inr (r, s') \<and> arp_ok n s' \<and> wire s' = wire s \<and> to_ip s' = to_ip s
      \<and> (if arp_heap s = [] \<or> hd (arp_heap s)
         then r = ERR_OK \<and> arp_table s' = (arp_table s)[i := (arp_table s ! i)\<lparr>queued := Some (copy_of q)\<rparr>]
         else r = ERR_MEM \<and> arp_table s' = arp_table s)
      \<and> link_answers s' = link_answers s \<and> arp_heap s' = tl (arp_heap s) \<and> etharp_cached_entry s' = etharp_cached_entry s"
proof (cases "arp_heap s = [] \<or> hd (arp_heap s)")
  case True
  let ?e = "arp_table s ! i" and ?s1 = "hold_pbuf (s\<lparr>arp_heap := tl (arp_heap s)\<rparr>)"
  let ?s2 = "if queued ?e \<noteq> None then drop_pbuf ?s1 else ?s1"
  have t: "take_pbuf s = (True, ?s1)"
    using True by (cases "arp_heap s") (auto simp: take_pbuf_def hold_pbuf_def)
  have "pbuf_copy (length (frame_of q)) q = Inr (frame_of q)" using q pbuf_copy_all by (simp add: ready_to_send_def)
  then have "packet_to_keep q s = Inr (Some (copy_of q), ?s1)"
    using first_not_rom_ready [OF q] t by (simp add: packet_to_keep_def and_then_def require_def copy_of_def)
  then have "queue_packet i q s = Inr (ERR_OK, set_entry i (?e\<lparr>queued := Some (copy_of q)\<rparr>) ?s2)"
    by (simp add: queue_packet_def and_then_def Let_def hold_pbuf_def)
  moreover have "arp_ok n (set_entry i (?e\<lparr>queued := Some (copy_of q)\<rparr>) ?s2)"
  proof (rule set_entry_ok)
    show "entry_ok n (?e\<lparr>queued := Some (copy_of q)\<rparr>)"
      using ok_entry [OF ok i] p copy_of_header [of q] q by (auto simp: entry_ok_def ready_to_send_def with_header_def)
    show "fresh (ipaddr (?e\<lparr>queued := Some (copy_of q)\<rparr>)) i (arp_table ?s2)"
      using unique_fresh [of "arp_table s" i] ok i p by (auto simp: arp_ok_def used_def hold_pbuf_def drop_pbuf_def)
  qed (use ok i in \<open>auto simp: arp_ok_def holds_def hold_pbuf_def drop_pbuf_def\<close>)
  ultimately show ?thesis using True by (simp add: hold_pbuf_def drop_pbuf_def)
next
  case False
  let ?s1 = "s\<lparr>arp_heap := tl (arp_heap s)\<rparr>"
  have "take_pbuf s = (False, ?s1)" using False by (cases "arp_heap s") (auto simp: take_pbuf_def)
  then have "queue_packet i q s = Inr (ERR_MEM, ?s1)"
    using first_not_rom_ready [OF q] by (simp add: queue_packet_def packet_to_keep_def and_then_def)
  moreover have "arp_ok n ?s1" using ok arp_ok_cong [of ?s1 s] by (simp add: arp_fields_def)
  ultimately show ?thesis using False by simp
qed


subsection \<open>Sending a packet\<close>

definition request_frame :: "netif \<Rightarrow> u32 \<Rightarrow> u8 list" where
  "request_frame n ip = arp_packet (hwaddr n) ethbroadcast (hwaddr n) (ip_addr n) ethzero ip ARP_REQUEST"

lemma arp_ok_fields: "arp_fields s' = arp_fields s \<Longrightarrow> arp_ok n s \<Longrightarrow> arp_ok n s'"
  using arp_ok_cong by blast

lemma set_pending_ok:
  assumes ok: "arp_ok n s" and i: "i < 10" and e: "state (arp_table s ! i) = ETHARP_STATE_EMPTY" "ctime (arp_table s ! i) = 0"
    "\<not> not_unicast (ipaddr (arp_table s ! i)) n" "fresh (ipaddr (arp_table s ! i)) i (arp_table s)"
  shows "arp_ok n (set_entry i ((arp_table s ! i)\<lparr>state := ETHARP_STATE_PENDING\<rparr>) s)"
proof -
  have "queued (arp_table s ! i) = None" using ok_entry [OF ok i] e(1) by (auto simp: entry_ok_def)
  then show ?thesis
    by (intro set_entry_ok) (use assms in \<open>auto simp: arp_ok_def entry_ok_def holds_def ARP_MAXAGE_def ARP_MAXPENDING_def\<close>)
qed

text \<open>
  \<open>etharp_query\<close>: with a stable entry the packet is sent; otherwise a request goes out and a copy of the
  packet waits in the pending entry, as far as there is memory.
\<close>

lemma query_pending:
  assumes hw: "length (hwaddr n) = 6" and ok: "arp_ok n s" and i: "i < 10" and p: "state (arp_table s ! i) = ETHARP_STATE_PENDING"
    and q: "ready_to_send q"
  shows "\<exists>r s'. query_entry n ip (Some q) i s = Inr (r, s') \<and> arp_ok n s' \<and> to_ip s' = to_ip s
      \<and> etharp_cached_entry s' = etharp_cached_entry s
      \<and> (arp_heap s = [] \<longrightarrow> r = ERR_OK \<and> wire s' = wire s @ [request_frame n ip] \<and> arp_heap s' = [] \<and> link_answers s' = tl (link_answers s)
           \<and> arp_table s' = (arp_table s)[i := (arp_table s ! i)\<lparr>queued := Some (copy_of q)\<rparr>])"
proof -
  obtain r1 s1 where r1: "etharp_request n ip s = Inr (r1, s1)" "arp_fields s1 = arp_fields s" "to_ip s1 = to_ip s"
    "if arp_heap s = [] \<or> hd (arp_heap s) then wire s1 = wire s @ [request_frame n ip]
              \<and> r1 = (if link_answers s = [] then ERR_OK else hd (link_answers s)) \<and> link_answers s1 = tl (link_answers s)
         else wire s1 = wire s \<and> r1 = ERR_MEM \<and> link_answers s1 = link_answers s"
    "arp_heap s1 = tl (arp_heap s)"
    using request_ok [OF hw, of ip s] unfolding request_frame_def by blast
  have t1: "arp_table s1 = arp_table s" "etharp_cached_entry s1 = etharp_cached_entry s" using r1(2) by (auto simp: arp_fields_def)
  have "query_entry n ip (Some q) i s = queue_packet i q s1"
    using p t1 r1(1) by (simp add: query_entry_def and_then_def)
  moreover obtain r s' where "queue_packet i q s1 = Inr (r, s')" "arp_ok n s'" "wire s' = wire s1" "to_ip s' = to_ip s1"
      "if arp_heap s1 = [] \<or> hd (arp_heap s1)
         then r = ERR_OK \<and> arp_table s' = (arp_table s1)[i := (arp_table s1 ! i)\<lparr>queued := Some (copy_of q)\<rparr>]
         else r = ERR_MEM \<and> arp_table s' = arp_table s1" "link_answers s' = link_answers s1" "arp_heap s' = tl (arp_heap s1)"
      "etharp_cached_entry s' = etharp_cached_entry s1"
    using queue_packet_ok [OF arp_ok_fields [OF r1(2) ok] i _ q] p t1 by auto
  ultimately show ?thesis using r1 t1 by auto
qed

lemma query_stable:
  assumes "length (hwaddr n) = 6" and "is_stable (arp_table s ! i)" and "ready_to_send q"
  shows "query_entry n ip (Some q) i s
     = Inr (linkoutput (eth_ip_frame (hwaddr n) (ethaddr (arp_table s ! i)) q) (s\<lparr>etharp_cached_entry := i\<rparr>))"
  using assms send_ip_ok [of n q] by (auto simp: query_entry_def and_then_def is_stable_def ready_to_send_def)

lemma etharp_query_ok:
  assumes hw: "length (hwaddr n) = 6" and ok: "arp_ok n s" and q: "ready_to_send q"
  shows "\<exists>r s'. etharp_query n ip (Some q) s = Inr (r, s') \<and> arp_ok n s' \<and> to_ip s' = to_ip s
      \<and> (not_unicast ip n \<longrightarrow> r = ERR_ARG \<and> s' = s)
      \<and> (\<not> not_unicast ip n \<longrightarrow> \<not> known ip (arp_table s) \<longrightarrow> arp_heap s = [] \<longrightarrow>
           r = ERR_OK \<and> wire s' = wire s @ [request_frame n ip] \<and> arp_heap s' = [] \<and> link_answers s' = tl (link_answers s)
           \<and> (\<exists>i<10. made_room (arp_table s) i \<and> used (arp_table s' ! i) \<and> ipaddr (arp_table s' ! i) = ip
                \<and> queued (arp_table s' ! i) = Some (copy_of q) \<and> (\<forall>j<10. j \<noteq> i \<longrightarrow> arp_table s' ! j = arp_table s ! j)))"
proof (cases "not_unicast ip n")
  case True
  then show ?thesis using ok by (auto simp: etharp_query_def not_unicast_def)
next
  case uni: False
  have l: "length (arp_table s) = 10" using ok by (simp add: arp_ok_def)
  have bits: "ETHARP_FLAG_TRY_HARD \<noteq> ETHARP_FLAG_FIND_ONLY" by (simp add: ETHARP_FLAG_TRY_HARD_def ETHARP_FLAG_FIND_ONLY_def)
  consider (known) i where "known ip (arp_table s)" "i < 10" "etharp_find_entry ip ETHARP_FLAG_TRY_HARD s = Inr (Some i, s)"
      "used (arp_table s ! i)"
    | (new) i s1 where "\<not> known ip (arp_table s)" "i < 10"
        "etharp_find_entry ip ETHARP_FLAG_TRY_HARD s = Inr (Some i, s1)" "new_at n ip i s s1"
    using etharp_find_entry_ok [OF ok, of ETHARP_FLAG_TRY_HARD ip] bits by blast
  then show ?thesis
  proof cases
    case known
    then have query: "etharp_query n ip (Some q) s = query_entry n ip (Some q) i s"
      using uni by (simp add: etharp_query_def not_unicast_def and_then_def Let_def require_def used_def)
    consider "state (arp_table s ! i) = ETHARP_STATE_PENDING" | "is_stable (arp_table s ! i)"
      using known(4) used_cases [of "arp_table s ! i"] by (auto simp: waits_def)
    then show ?thesis
    proof cases
      case 1
      from query_pending [OF hw ok known(2) 1 q, of ip] show ?thesis using query known(1) uni by auto
    next
      case 2
      let ?s = "s\<lparr>etharp_cached_entry := i\<rparr>" and ?f = "eth_ip_frame (hwaddr n) (ethaddr (arp_table s ! i)) q"
      have "arp_ok n (snd (linkoutput ?f ?s))" using ok known(2) unfolding linkoutput_ok by (simp add: arp_ok_def)
      then show ?thesis using query query_stable [OF hw 2 q, of ip] known(1) uni
        by (intro exI [of _ "fst (linkoutput ?f ?s)"] exI [of _ "snd (linkoutput ?f ?s)"]) simp
    qed
  next
    case new
    have n1: "arp_ok n s1" "ipaddr (arp_table s1 ! i) = ip" "\<forall>j<10. j \<noteq> i \<longrightarrow> arp_table s1 ! j = arp_table s ! j"
      "wire s1 = wire s" "arp_heap s1 = arp_heap s" "to_ip s1 = to_ip s" "made_room (arp_table s) i" "link_answers s1 = link_answers s"
      "state (arp_table s1 ! i) = ETHARP_STATE_EMPTY" "ctime (arp_table s1 ! i) = 0"
      using new(4) by (auto simp: new_at_def arp_rest_def)
    have l1: "length (arp_table s1) = 10" using n1(1) by (simp add: arp_ok_def)
    have f: "fresh ip i (arp_table s1)" using new(1) n1(3) l l1 by (auto simp: fresh_def known_nth)
    let ?s2 = "set_entry i ((arp_table s1 ! i)\<lparr>state := ETHARP_STATE_PENDING\<rparr>) s1"
    have ok2: "arp_ok n ?s2" using set_pending_ok [OF n1(1) new(2) n1(9,10)] n1(2) uni f by simp
    have p2: "state (arp_table ?s2 ! i) = ETHARP_STATE_PENDING" using new(2) l1 by simp
    have "etharp_query n ip (Some q) s = query_entry n ip (Some q) i ?s2"
      using new(2,3) n1(9) l1 uni by (simp add: etharp_query_def not_unicast_def and_then_def Let_def require_def)
    moreover obtain r s' where r: "query_entry n ip (Some q) i ?s2 = Inr (r, s')" "arp_ok n s'" "to_ip s' = to_ip ?s2"
      "arp_heap ?s2 = [] \<longrightarrow> r = ERR_OK \<and> wire s' = wire ?s2 @ [request_frame n ip] \<and> arp_heap s' = [] \<and> link_answers s' = tl (link_answers ?s2)
           \<and> arp_table s' = (arp_table ?s2)[i := (arp_table ?s2 ! i)\<lparr>queued := Some (copy_of q)\<rparr>]"
      using query_pending [OF hw ok2 new(2) p2 q, of ip] by blast
    ultimately show ?thesis using n1 uni new(1,2) l1
      by (intro exI [of _ r] exI [of _ s']) (auto simp: used_def intro!: exI [of _ i])
  qed
qed

text \<open>A query without a packet only asks.\<close>

lemma etharp_query_none_ok:
  assumes hw: "length (hwaddr n) = 6" and ok: "arp_ok n s"
  shows "\<exists>r s'. etharp_query n ip None s = Inr (r, s') \<and> arp_ok n s'"
proof (cases "not_unicast ip n")
  case True
  then show ?thesis using ok by (auto simp: etharp_query_def not_unicast_def)
next
  case uni: False
  have bits: "ETHARP_FLAG_TRY_HARD \<noteq> ETHARP_FLAG_FIND_ONLY" by (simp add: ETHARP_FLAG_TRY_HARD_def ETHARP_FLAG_FIND_ONLY_def)
  have ask: "\<exists>r s'. query_entry n ip None i s1 = Inr (r, s') \<and> arp_ok n s'" if "arp_ok n s1" for i s1
  proof -
    obtain r s2 where "etharp_request n ip s1 = Inr (r, s2)" "arp_fields s2 = arp_fields s1" using request_ok [OF hw, of ip s1] by blast
    then show ?thesis using arp_ok_fields [of s2 s1 n] that by (simp add: query_entry_def and_then_def)
  qed
  consider (known) i where "i < 10" "etharp_find_entry ip ETHARP_FLAG_TRY_HARD s = Inr (Some i, s)" "used (arp_table s ! i)"
    | (new) i s1 where "\<not> known ip (arp_table s)" "i < 10"
        "etharp_find_entry ip ETHARP_FLAG_TRY_HARD s = Inr (Some i, s1)" "new_at n ip i s s1"
    using etharp_find_entry_ok [OF ok, of ETHARP_FLAG_TRY_HARD ip] bits by blast
  then show ?thesis
  proof cases
    case known
    then show ?thesis using uni ask [OF ok, of i]
      by (simp add: etharp_query_def not_unicast_def and_then_def Let_def require_def used_def)
  next
    case new
    have n1: "arp_ok n s1" "ipaddr (arp_table s1 ! i) = ip" "\<forall>j<10. j \<noteq> i \<longrightarrow> arp_table s1 ! j = arp_table s ! j"
      "state (arp_table s1 ! i) = ETHARP_STATE_EMPTY" "ctime (arp_table s1 ! i) = 0" using new(4) by (auto simp: new_at_def)
    have l1: "length (arp_table s1) = 10" "length (arp_table s) = 10" using n1(1) ok by (auto simp: arp_ok_def)
    have f: "fresh ip i (arp_table s1)" using new(1) n1(3) l1 by (auto simp: fresh_def known_nth)
    have "arp_ok n (set_entry i ((arp_table s1 ! i)\<lparr>state := ETHARP_STATE_PENDING\<rparr>) s1)"
      using set_pending_ok [OF n1(1) new(2) n1(4,5)] n1(2) uni f by simp
    from ask [OF this, of i] show ?thesis
      using new(2,3) n1(4) l1 uni by (simp add: etharp_query_def not_unicast_def and_then_def Let_def require_def)
  qed
qed

end
