(* ===== verification/Arp_Io.thy ===== *)
theory Arp_Io
  imports Arp_Ops
begin

text \<open>
  Sending a packet (\<open>etharp_output\<close>), receiving a frame (\<open>ethernet_input\<close>) and the other entry points
  of address resolution: what they send, and that they return and keep the invariant.
\<close>

subsection \<open>Sending\<close>

definition outgoing :: "packet \<Rightarrow> bool" where
  "outgoing q \<longleftrightarrow> q \<noteq> [] \<and> eb_type (hd q) \<in> {PBUF_RAM, PBUF_POOL} \<and> SIZEOF_ETH_HDR \<le> eb_room (hd q)
     \<and> (\<forall>b\<in>set (tl q). eb_data b \<noteq> [])"

definition ip_frame :: "u8 list \<Rightarrow> u8 list \<Rightarrow> u8 list \<Rightarrow> u8 list" where
  "ip_frame src dst ip_packet = dst @ src @ [0x08, 0x00] @ ip_packet"

lemma outgoing_header:
  assumes "outgoing q"
  shows "\<exists>q'. pbuf_header (int SIZEOF_ETH_HDR) q = Inr (Some q') \<and> ready_to_send q' \<and> (\<forall>src dst. eth_ip_frame src dst q' = ip_frame src dst (frame_of q))"
  using assms by (cases q)
    (auto simp: outgoing_def pbuf_header_def require_def ready_to_send_def with_header_def eth_ip_frame_def ip_frame_def frame_of_def SIZEOF_ETH_HDR_def)

lemma output_index_ok:
  assumes hw: "length (hwaddr n) = 6" and ok: "arp_ok n s" and i: "i < 10" and st: "is_stable (arp_table s ! i)" and q: "ready_to_send q"
  shows "\<exists>r s' ask. etharp_output_to_arp_index n q i s = Inr (r, s') \<and> arp_ok n s' \<and> to_ip s' = to_ip s
      \<and> wire s' = wire s @ ask @ [eth_ip_frame (hwaddr n) (ethaddr (arp_table s ! i)) q]
      \<and> (ask = [] \<or> ask = [request_frame n (ipaddr (arp_table s ! i))] \<and> state (arp_table s ! i) = ETHARP_STATE_STABLE
            \<and> ARP_AGE_REREQUEST_USED \<le> ctime (arp_table s ! i))"
proof -
  let ?e = "arp_table s ! i"
  have l: "length (arp_table s) = 10" using ok by (simp add: arp_ok_def)
  have wh: "with_header q" using q by (simp add: ready_to_send_def)
  have send: "etharp_send_ip n q (hwaddr n) m s2 = Inr (linkoutput (eth_ip_frame (hwaddr n) m q) s2)" for m s2
    by (rule send_ip_ok [OF hw wh])
  show ?thesis
  proof (cases "state ?e = ETHARP_STATE_STABLE \<and> ARP_AGE_REREQUEST_USED \<le> ctime ?e")
    case False
    let ?f = "eth_ip_frame (hwaddr n) (ethaddr ?e) q"
    have "etharp_output_to_arp_index n q i s = Inr (linkoutput ?f s)"
      using False st send by (auto simp: etharp_output_to_arp_index_def Let_def require_def and_then_def is_stable_def)
    then show ?thesis using ok linkoutput_ok [of n ?f s]
      by (intro exI [of _ "fst (linkoutput ?f s)"] exI [of _ "snd (linkoutput ?f s)"] exI [of _ "[]"]) simp
  next
    case True
    obtain r1 s1 where r1: "etharp_request n (ipaddr ?e) s = Inr (r1, s1)" "arp_fields s1 = arp_fields s" "to_ip s1 = to_ip s"
      "wire s1 = wire s @ [request_frame n (ipaddr ?e)] \<or> wire s1 = wire s"
      using request_ok [OF hw, of "ipaddr ?e" s] unfolding request_frame_def by (metis (full_types))
    have t1: "arp_table s1 = arp_table s" and ok1: "arp_ok n s1" using r1(2) arp_ok_fields [OF r1(2) ok] by (auto simp: arp_fields_def)
    define s2 where "s2 = (if r1 = ERR_OK then set_entry i (?e\<lparr>state := ETHARP_STATE_STABLE_REREQUESTING\<rparr>) s1 else s1)"
    let ?f = "eth_ip_frame (hwaddr n) (ethaddr ?e) q"
    have ok2: "arp_ok n s2" unfolding s2_def
      using ok1 set_entry_same [OF ok1 i, of "?e\<lparr>state := ETHARP_STATE_STABLE_REREQUESTING\<rparr>"] ok_entry [OF ok i] True t1
      by (auto simp: entry_ok_def holds_def used_def)
    have m2: "ethaddr (arp_table s2 ! i) = ethaddr ?e" using t1 l i by (simp add: s2_def)
    have "etharp_output_to_arp_index n q i s = Inr (linkoutput ?f s2)"
      using True r1(1) send m2 t1 by (auto simp: etharp_output_to_arp_index_def Let_def require_def and_then_def s2_def)
    moreover have "wire s2 = wire s1" "to_ip s2 = to_ip s" using r1(3) by (simp_all add: s2_def)
    moreover have "\<exists>ask. wire s1 = wire s @ ask \<and> (ask = [] \<or> ask = [request_frame n (ipaddr ?e)])" using r1(4) by auto
    ultimately show ?thesis using ok2 linkoutput_ok [of n ?f s2] True
      by (metis append.assoc linkoutput_simps(4,6) surjective_pairing)
  qed
qed

lemma find_stable_some:
  "find_stable ip k t = Some i \<Longrightarrow> k \<le> i \<and> i < k + length t \<and> is_stable (t ! (i - k)) \<and> ipaddr (t ! (i - k)) = ip"
proof (induction t arbitrary: k)
  case (Cons e es)
  show ?case
  proof (cases "is_stable e \<and> ipaddr e = ip")
    case True
    then show ?thesis using Cons.prems by (auto simp: is_stable_def)
  next
    case False
    then have "find_stable ip (Suc k) es = Some i" using Cons.prems by (auto simp: is_stable_def split: if_splits)
    from Cons.IH [OF this] obtain m where "i = Suc k + m" "m < length es" "is_stable (es ! m)" "ipaddr (es ! m) = ip"
      by (metis add_diff_cancel_left' le_Suc_ex nat_add_left_cancel_less)
    then show ?thesis by simp
  qed
qed simp

lemma find_stable_none: "find_stable ip k t = None \<Longrightarrow> e \<in> set t \<Longrightarrow> is_stable e \<Longrightarrow> ipaddr e \<noteq> ip"
  by (induction t arbitrary: k) (auto simp: is_stable_def split: if_splits)

text \<open>Where the packet goes when the table knows the next hop, and when it does not.\<close>

lemma output_unicast_ok:
  assumes hw: "length (hwaddr n) = 6" and ok: "arp_ok n s" and q: "ready_to_send q"
  shows "\<exists>r s'. output_unicast n q dst s = Inr (r, s') \<and> arp_ok n s' \<and> to_ip s' = to_ip s
      \<and> (\<forall>e\<in>set (arp_table s). is_stable e \<longrightarrow> ipaddr e = dst \<longrightarrow>
           (\<exists>ask. wire s' = wire s @ ask @ [eth_ip_frame (hwaddr n) (ethaddr e) q]
              \<and> (ask = [] \<or> ask = [request_frame n dst] \<and> state e = ETHARP_STATE_STABLE \<and> ARP_AGE_REREQUEST_USED \<le> ctime e)))"
proof -
  have l: "length (arp_table s) = 10" and c: "etharp_cached_entry s < 10" and u: "unique (arp_table s)" using ok by (auto simp: arp_ok_def)
  have same: "e = arp_table s ! i" if "i < 10" "is_stable (arp_table s ! i)" "ipaddr (arp_table s ! i) = dst"
    "e \<in> set (arp_table s)" "is_stable e" "ipaddr e = dst" for i e
    using that u l unfolding unique_def by (metis in_set_conv_nth used_cases)
  have direct: ?thesis if i: "i < 10" and st: "is_stable (arp_table s ! i)" and a: "ipaddr (arp_table s ! i) = dst"
    and out: "output_unicast n q dst s = etharp_output_to_arp_index n q i (s\<lparr>etharp_cached_entry := i\<rparr>)" for i
  proof -
    have "arp_ok n (s\<lparr>etharp_cached_entry := i\<rparr>)" using ok i by (simp add: arp_ok_def)
    from output_index_ok [OF hw this i _ q] st a out show ?thesis using same [OF i st a] by fastforce
  qed
  show ?thesis
  proof (cases "is_stable (arp_table s ! etharp_cached_entry s) \<and> ipaddr (arp_table s ! etharp_cached_entry s) = dst")
    case True
    have "s\<lparr>etharp_cached_entry := etharp_cached_entry s\<rparr> = s" by simp
    then show ?thesis using direct [OF c] True c by (auto simp: output_unicast_def Let_def require_def is_stable_def)
  next
    case miss: False
    show ?thesis
    proof (cases "find_stable dst 0 (arp_table s)")
      case (Some i)
      from find_stable_some [OF this] l have "i < 10" "is_stable (arp_table s ! i)" "ipaddr (arp_table s ! i) = dst" by auto
      then show ?thesis using direct Some miss c by (auto simp: output_unicast_def Let_def require_def is_stable_def)
    next
      case None
      have "output_unicast n q dst s = etharp_query n dst (Some q) s"
        using None miss c by (auto simp: output_unicast_def Let_def require_def is_stable_def)
      then show ?thesis using etharp_query_ok [OF hw ok q, of dst] find_stable_none [OF None] by fastforce
    qed
  qed
qed

lemma etharp_output_ok:
  assumes hw: "length (hwaddr n) = 6" and ok: "arp_ok n s" and q: "outgoing q"
  shows "\<exists>r s'. etharp_output n q ip s = Inr (r, s') \<and> arp_ok n s' \<and> to_ip s' = to_ip s
      \<and> (ip4_addr_isbroadcast ip n \<longrightarrow> wire s' = wire s @ [ip_frame (hwaddr n) ethbroadcast (frame_of q)])
      \<and> (\<not> ip4_addr_isbroadcast ip n \<and> ip_addr_ismulticast ip \<longrightarrow> wire s' = wire s @ [ip_frame (hwaddr n) (mcast_mac ip) (frame_of q)])
      \<and> (\<not> ip4_addr_isbroadcast ip n \<and> \<not> ip_addr_ismulticast ip \<longrightarrow>
           (next_hop n ip = None \<longrightarrow> r = ERR_RTE \<and> s' = s)
           \<and> (\<forall>e\<in>set (arp_table s). is_stable e \<longrightarrow> next_hop n ip = Some (ipaddr e) \<longrightarrow>
               (\<exists>ask. wire s' = wire s @ ask @ [ip_frame (hwaddr n) (ethaddr e) (frame_of q)]
                  \<and> (ask = [] \<or> ask = [request_frame n (ipaddr e)] \<and> state e = ETHARP_STATE_STABLE \<and> ARP_AGE_REREQUEST_USED \<le> ctime e))))"
proof -
  obtain q' where q': "pbuf_header (int SIZEOF_ETH_HDR) q = Inr (Some q')" "ready_to_send q'"
    and f: "\<And>src dst. eth_ip_frame src dst q' = ip_frame src dst (frame_of q)" using outgoing_header [OF q] by blast
  have wh: "with_header q'" using q'(2) by (simp add: ready_to_send_def)
  have sent: "\<exists>r s'. etharp_send_ip n q' (hwaddr n) m s = Inr (r, s') \<and> arp_ok n s' \<and> to_ip s' = to_ip s
      \<and> wire s' = wire s @ [ip_frame (hwaddr n) m (frame_of q)]" for m
    using send_ip_ok [OF hw wh] ok linkoutput_ok f by (metis linkoutput_simps(4,6) surjective_pairing)
  consider (b) "ip4_addr_isbroadcast ip n" | (m) "\<not> ip4_addr_isbroadcast ip n" "ip_addr_ismulticast ip"
    | (none) "\<not> ip4_addr_isbroadcast ip n" "\<not> ip_addr_ismulticast ip" "next_hop n ip = None"
    | (hop) dst where "\<not> ip4_addr_isbroadcast ip n" "\<not> ip_addr_ismulticast ip" "next_hop n ip = Some dst" by blast
  then show ?thesis
  proof cases
    case b then show ?thesis using sent [of ethbroadcast] q'(1) by (auto simp: etharp_output_def and_then_def)
  next
    case m then show ?thesis using sent [of "mcast_mac ip"] q'(1) by (auto simp: etharp_output_def and_then_def)
  next
    case none then show ?thesis using ok q'(1) by (auto simp: etharp_output_def and_then_def)
  next
    case hop
    then show ?thesis using output_unicast_ok [OF hw ok q'(2), of dst] q'(1) f by (fastforce simp: etharp_output_def and_then_def)
  qed
qed

subsection \<open>Receiving\<close>

text \<open>
  A received frame is held by the module until it is freed. The update of the table does not depend on
  how many references are held besides.
\<close>

definition hold :: "'a \<times> arp \<Rightarrow> 'a \<times> arp" where
  "hold x = (fst x, hold_pbuf (snd x))"

lemma hold_pbuf_simps [simp]:
  "arp_table (hold_pbuf s) = arp_table s" "etharp_cached_entry (hold_pbuf s) = etharp_cached_entry s"
  "wire (hold_pbuf s) = wire s" "to_ip (hold_pbuf s) = to_ip s" "link_answers (hold_pbuf s) = link_answers s"
  "arp_heap (hold_pbuf s) = arp_heap s" "drop_pbuf (hold_pbuf s) = s"
  by (simp_all add: hold_pbuf_def drop_pbuf_def)

lemma free_get: "hold_pbuf (drop_pbuf s) = s"
  by (simp add: hold_pbuf_def drop_pbuf_def)

lemma set_entry_get [simp]: "set_entry i e (hold_pbuf s) = hold_pbuf (set_entry i e s)"
  by (simp add: set_entry_def hold_pbuf_def)

lemma free_entry_get [simp]: "etharp_free_entry i (hold_pbuf s) = hold_pbuf (etharp_free_entry i s)"
  by (simp add: etharp_free_entry_def Let_def set_entry_def hold_pbuf_def drop_pbuf_def)

lemma linkoutput_get: "linkoutput f (hold_pbuf s) = hold (linkoutput f s)"
  by (simp add: linkoutput_def hold_def hold_pbuf_def split: list.split)

lemma new_entry_get: "new_entry i ip (hold_pbuf s) = and_then (new_entry i ip s) (\<lambda>x. Inr (hold x))"
  by (simp add: new_entry_def require_def and_then_def hold_def)

lemma find_entry_get: "etharp_find_entry ip fl (hold_pbuf s) = and_then (etharp_find_entry ip fl s) (\<lambda>x. Inr (hold x))"
  by (simp add: etharp_find_entry_def new_entry_get require_def and_then_def hold_def split: sum.split)

lemma update_get: 
  "etharp_update_arp_entry n ip mac fl (hold_pbuf s) = and_then (etharp_update_arp_entry n ip mac fl s) (\<lambda>x. Inr (hold x))"
proof -
  have send: "etharp_send_ip n p src dst (hold_pbuf s1) = and_then (etharp_send_ip n p src dst s1) (\<lambda>x. Inr (hold x))" for p src dst s1
    by (simp add: etharp_send_ip_def linkoutput_get require_def and_then_def split: list.split)
  show ?thesis
    unfolding etharp_update_arp_entry_def find_entry_get
    by (cases "etharp_find_entry ip fl s")
      (auto simp: require_def and_then_def Let_def hold_def send free_get split: option.split sum.split prod.split)
qed

text \<open>An access inside the buffer gives the field; the total forms below say what is read and written.\<close>

lemma get_field_ok [simp]: "k + n \<le> length bs \<Longrightarrow> get_field k n bs = Inr (field k n bs)"
  by (simp add: get_field_def require_def)

lemma set_field_ok [simp]: "k + length v \<le> length bs \<Longrightarrow> set_field k v bs = Inr (put_field k v bs)"
  by (simp add: set_field_def require_def)

lemma field_length [simp]: "k + n \<le> length h \<Longrightarrow> length (field k n h) = n"
  by (simp add: field_def)

lemma put_field_length [simp]: "k + length v \<le> length bs \<Longrightarrow> length (put_field k v bs) = length bs"
  by (simp add: put_field_def)

lemma copy_field_ok [simp]:
  "to + n \<le> length bs \<Longrightarrow> from + n \<le> length bs \<Longrightarrow> copy_field to from n bs = Inr (put_field to (field from n bs) bs)"
  by (simp add: copy_field_def and_then_def)

definition reply_bytes :: "netif \<Rightarrow> u8 list \<Rightarrow> u8 list" where
  "reply_bytes n p =
     (let p = put_field 20 (u16_bytes ARP_REPLY) p;
          p = put_field 38 (field 28 4 p) p;
          p = put_field 28 (ip_bytes (ip_addr n)) p;
          p = put_field 32 (field 22 6 p) p;
          p = put_field 0 (field 22 6 p) p;
          p = put_field 22 (hwaddr n) p
      in put_field 6 (hwaddr n) p)"

lemma arp_reply_ok:
  "SIZEOF_ETHARP_PACKET \<le> length p \<Longrightarrow> length (hwaddr n) = 6 \<Longrightarrow> arp_reply n p = Inr (reply_bytes n p)"
  by (simp add: arp_reply_def reply_bytes_def Let_def and_then_def require_def SIZEOF_ETHARP_PACKET_def SIZEOF_ETH_HDR_def
      u16_bytes_def ip_bytes_def)

definition arp_valid :: "u8 list \<Rightarrow> bool" where
  "arp_valid h \<longleftrightarrow> SIZEOF_ETHARP_PACKET \<le> length h
     \<and> be16 (field 14 2 h) = 1 \<and> field 18 1 h = [6] \<and> field 19 1 h = [4] \<and> be16 (field 16 2 h) = 0x0800"

definition arp_for_us :: "netif \<Rightarrow> u8 list \<Rightarrow> bool" where
  "arp_for_us n h \<longleftrightarrow> \<not> ip_addr_isany (ip_addr n) \<and> ip_of_bytes (field 38 4 h) = ip_addr n"

definition arp_replies :: "netif \<Rightarrow> packet \<Rightarrow> u8 list list" where
  "arp_replies n p =
     (let h = eb_data (hd p)
      in if be16 (field 20 2 h) = ARP_REQUEST \<and> arp_for_us n h then [frame_of ((hd p)\<lparr>eb_data := reply_bytes n h\<rparr> # tl p)] else [])"

lemma arp_header_ok:
  "SIZEOF_ETHARP_PACKET \<le> length h \<Longrightarrow> arp_header_wrong h = Inr (\<not> arp_valid h)"
  by (auto simp: arp_header_wrong_def arp_valid_def and_then_def SIZEOF_ETHARP_PACKET_def SIZEOF_ETH_HDR_def)

text \<open>An ARP packet that is accepted updates the table with its sender and is answered if it asks for us.\<close>

lemma arp_input_ok:
  assumes hw: "length (hwaddr n) = 6" and ok: "arp_ok n s" and p: "p \<noteq> []"
  shows "\<exists>s'. etharp_arp_input n p (hold_pbuf s) = Inr s' \<and> arp_ok n s' \<and> to_ip s' = to_ip s
      \<and> (if arp_valid (eb_data (hd p))
         then \<exists>r s1. etharp_update_arp_entry n (ip_of_bytes (field 28 4 (eb_data (hd p)))) (field 22 6 (eb_data (hd p)))
                        (if arp_for_us n (eb_data (hd p)) then ETHARP_FLAG_TRY_HARD else ETHARP_FLAG_FIND_ONLY) s = Inr (r, s1)
                \<and> arp_table s' = arp_table s1 \<and> wire s' = wire s1 @ arp_replies n p
         else s' = s)"
proof -
  obtain b rest where hr: "p = b # rest" using p by (cases p) auto
  let ?h = "eb_data b"
  show ?thesis
  proof (cases "arp_valid ?h")
    case False
    then have "etharp_arp_input n p (hold_pbuf s) = Inr s"
      using arp_header_ok [of ?h] by (simp add: hr etharp_arp_input_def and_then_def Let_def not_less)
    then show ?thesis using False ok hr by simp
  next
    case v: True
    let ?fl = "if arp_for_us n ?h then ETHARP_FLAG_TRY_HARD else ETHARP_FLAG_FIND_ONLY"
    let ?ip = "ip_of_bytes (field 28 4 ?h)" and ?mac = "field 22 6 ?h"
    have len: "SIZEOF_ETHARP_PACKET \<le> length ?h" "42 \<le> length ?h"
      using v by (simp_all add: arp_valid_def SIZEOF_ETHARP_PACKET_def SIZEOF_ETH_HDR_def)
    then have "length ?mac = 6" by simp
    moreover have "?fl = ETHARP_FLAG_TRY_HARD \<or> ?fl = ETHARP_FLAG_FIND_ONLY" by simp
    ultimately obtain r s1 where
      u: "etharp_update_arp_entry n ?ip ?mac ?fl s = Inr (r, s1)" and ok1: "arp_ok n s1" and t1: "to_ip s1 = to_ip s"
      using etharp_update_ok [OF ok hw, of ?mac ?fl ?ip] by blast
    let ?f = "frame_of (b\<lparr>eb_data := reply_bytes n ?h\<rparr> # rest)"
    have "etharp_arp_input n p (hold_pbuf s)
        = Inr (if be16 (field 20 2 ?h) = ARP_REQUEST \<and> arp_for_us n ?h then snd (linkoutput ?f s1) else s1)"
      using v u arp_header_ok [of ?h] arp_reply_ok [of ?h n] hw len
      by (simp add: hr etharp_arp_input_def arp_for_us_def Let_def update_get and_then_def hold_def linkoutput_get not_less)
    then show ?thesis using v u ok1 t1 hr linkoutput_ok [of n ?f s1] by (simp add: arp_replies_def Let_def)
  qed
qed

text \<open>Frames of other types than ARP leave the table alone; those of IP go up without their header.\<close>

lemma pbuf_header_skip:
  assumes "p \<noteq> []" and "0 < k" and "k \<le> length (eb_data (hd p))"
  shows "\<exists>q. pbuf_header (- int k) p = Inr (Some q) \<and> q \<noteq> [] \<and> frame_of q = drop k (frame_of p) \<and> length q = length p
           \<and> eb_data (hd q) = drop k (eb_data (hd p))"
proof -
  obtain b rest where p: "p = b # rest" using assms(1) by (cases p) auto
  then show ?thesis using assms(2,3) by (auto simp: pbuf_header_def Let_def require_def frame_of_def)
qed

lemma ethernet_input_ip:
  assumes "p \<noteq> []" and "SIZEOF_ETH_HDR < length (eb_data (hd p))" and "be16 (field 12 2 (eb_data (hd p))) = 0x0800"
    and "flags n AND NETIF_FLAG_ETHARP \<noteq> 0"
  shows "\<exists>q. ethernet_input n p s = Inr (s\<lparr>to_ip := to_ip s @ [(link_flags (field 0 6 (eb_data (hd p))), q)]\<rparr>)
           \<and> q \<noteq> [] \<and> frame_of q = drop SIZEOF_ETH_HDR (frame_of p) \<and> length q = length p
           \<and> eb_data (hd q) = drop SIZEOF_ETH_HDR (eb_data (hd p))"
proof -
  obtain b rest where p: "p = b # rest" using assms(1) by (cases p) auto
  have "0 < SIZEOF_ETH_HDR" by (simp add: SIZEOF_ETH_HDR_def)
  then obtain q where q: "pbuf_header (- int SIZEOF_ETH_HDR) p = Inr (Some q)" "q \<noteq> []" "frame_of q = drop SIZEOF_ETH_HDR (frame_of p)"
      "length q = length p" "eb_data (hd q) = drop SIZEOF_ETH_HDR (eb_data (hd p))"
    using pbuf_header_skip [OF assms(1), of SIZEOF_ETH_HDR] assms(2) by auto
  have "ethernet_input n p s = Inr (s\<lparr>to_ip := to_ip s @ [(link_flags (field 0 6 (eb_data (hd p))), q)]\<rparr>)"
    using q(1) assms p by (simp add: ethernet_input_def Let_def and_then_def hold_pbuf_def drop_pbuf_def SIZEOF_ETH_HDR_def)
  then show ?thesis using q by blast
qed

lemma ethernet_input_ok:
  assumes hw: "length (hwaddr n) = 6" and ok: "arp_ok n s" and p: "p \<noteq> []"
  shows "\<exists>s'. ethernet_input n p s = Inr s' \<and> arp_ok n s'"
proof -
  obtain b rest where hr: "p = b # rest" using p by (cases p) auto
  let ?h = "eb_data b"
  consider "length ?h \<le> SIZEOF_ETH_HDR \<or> flags n AND NETIF_FLAG_ETHARP = 0"
    | "SIZEOF_ETH_HDR < length ?h" "be16 (field 12 2 ?h) = 0x0800" "flags n AND NETIF_FLAG_ETHARP \<noteq> 0"
    | "SIZEOF_ETH_HDR < length ?h" "be16 (field 12 2 ?h) = 0x0806" "flags n AND NETIF_FLAG_ETHARP \<noteq> 0"
    | "SIZEOF_ETH_HDR < length ?h" "be16 (field 12 2 ?h) \<notin> {0x0800, 0x0806}"
    by fastforce
  then show ?thesis
  proof cases
    case 1 then show ?thesis using ok by (auto simp: hr ethernet_input_def Let_def and_then_def SIZEOF_ETH_HDR_def)
  next
    case 2
    then obtain q where "ethernet_input n p s = Inr (s\<lparr>to_ip := to_ip s @ [(link_flags (field 0 6 ?h), q)]\<rparr>)"
      using ethernet_input_ip [OF p, of n s] hr by auto
    moreover have "arp_ok n (s\<lparr>to_ip := to_ip s @ [(link_flags (field 0 6 ?h), q)]\<rparr>)"
      by (rule arp_ok_fields [OF _ ok]) (simp add: arp_fields_def)
    ultimately show ?thesis by blast
  next
    case 3
    then have "ethernet_input n p s = etharp_arp_input n p (hold_pbuf s)" by (simp add: hr ethernet_input_def Let_def and_then_def SIZEOF_ETH_HDR_def)
    then show ?thesis using arp_input_ok [OF hw ok p] by auto
  next
    case 4 then show ?thesis using ok by (simp add: hr ethernet_input_def Let_def and_then_def SIZEOF_ETH_HDR_def)
  qed
qed

lemma cleanup_netif_ok: "arp_ok n s \<Longrightarrow> arp_ok n (etharp_cleanup_netif n' s)"
proof -
  have "\<forall>i\<in>set is. i < 10 \<Longrightarrow> arp_ok n s \<Longrightarrow> arp_ok n (fold (\<lambda>i s. if state (arp_table s ! i) \<noteq> ETHARP_STATE_EMPTY \<and> entry_netif (arp_table s ! i) = Some (num n')
                 then etharp_free_entry i s else s) is s)" for "is" s
    by (induction "is" arbitrary: s) (auto simp: etharp_free_entry_ok)
  then show "arp_ok n s \<Longrightarrow> arp_ok n (etharp_cleanup_netif n' s)" by (simp add: etharp_cleanup_netif_def)
qed

end
