(* ===== verification/Arp_Wire.thy ===== *)
theory Arp_Wire
  imports Arp_Io
begin

unbundle bit_operations_syntax

text \<open>
  The bytes of a request and of its reply, and what the two ends learn from them.
\<close>

lemma ip_of_bytes_ip_bytes [simp]: "ip_of_bytes (ip_bytes a) = a"
proof (rule bit_word_eqI)
  fix i assume "i < LENGTH(32)"
  then consider "i < 8" | "8 \<le> i" "i < 16" | "16 \<le> i" "i < 24" | "24 \<le> i" "i < 32" by fastforce
  then show "bit (ip_of_bytes (ip_bytes a)) i = bit a i"
    by cases (auto simp: ip_of_bytes_def ip_bytes_def ip4_addr2_def ip4_addr3_def ip4_addr4_def bit_simps)
qed

lemma be16_u16_bytes [simp]: "be16 (u16_bytes v) = v"
  by (rule bit_word_eqI) (auto simp: be16_def u16_bytes_def bit_simps)

lemma length_six: "length h = 6 \<Longrightarrow> \<exists>a b c d e f. h = [a, b, c, d, e, f]"
  by (auto simp: numeral_eq_Suc length_Suc_conv)

lemma ip_bytes_four: "\<exists>a b c d. ip_bytes ip = [a, b, c, d]"
  by (simp add: ip_bytes_def)

lemma u16_bytes_two: "\<exists>a b. u16_bytes v = [a, b]"
  by (simp add: u16_bytes_def)

lemma arp_packet_fields:
  assumes "length es = 6" "length ed = 6" "length hs = 6" "length ht = 6"
  shows "length (arp_packet es ed hs si ht ti op) = 42" "field 0 6 (arp_packet es ed hs si ht ti op) = ed" "field 12 2 (arp_packet es ed hs si ht ti op) = u16_bytes 0x0806" "field 14 2 (arp_packet es ed hs si ht ti op) = u16_bytes 1"
    "field 16 2 (arp_packet es ed hs si ht ti op) = u16_bytes 0x0800" "field 18 1 (arp_packet es ed hs si ht ti op) = [6]" "field 19 1 (arp_packet es ed hs si ht ti op) = [4]" "field 20 2 (arp_packet es ed hs si ht ti op) = u16_bytes op"
    "field 22 6 (arp_packet es ed hs si ht ti op) = hs" "field 28 4 (arp_packet es ed hs si ht ti op) = ip_bytes si" "field 32 6 (arp_packet es ed hs si ht ti op) = ht" "field 38 4 (arp_packet es ed hs si ht ti op) = ip_bytes ti"
  using assms by (simp_all add: arp_packet_def field_def u16_bytes_def ip_bytes_def)

text \<open>The reply is the packet the other host would have made for a reply to this one.\<close>

lemma put_fields:
  assumes "length es = 6" "length ed = 6" "length hs = 6" "length ht = 6" "length h = 6"
  shows "put_field 0 h (arp_packet es ed hs si ht ti op) = arp_packet es h hs si ht ti op"
    and "put_field 6 h (arp_packet es ed hs si ht ti op) = arp_packet h ed hs si ht ti op"
    and "put_field 20 (u16_bytes v) (arp_packet es ed hs si ht ti op) = arp_packet es ed hs si ht ti v"
    and "put_field 22 h (arp_packet es ed hs si ht ti op) = arp_packet es ed h si ht ti op"
    and "put_field 28 (ip_bytes a) (arp_packet es ed hs si ht ti op) = arp_packet es ed hs a ht ti op"
    and "put_field 32 h (arp_packet es ed hs si ht ti op) = arp_packet es ed hs si h ti op"
    and "put_field 38 (ip_bytes a) (arp_packet es ed hs si ht ti op) = arp_packet es ed hs si ht a op"
  using assms by (simp_all add: arp_packet_def put_field_def u16_bytes_def ip_bytes_def)

lemma arp_reply_packet:
  assumes "length es = 6" "length ed = 6" "length hs = 6" "length ht = 6" "length (hwaddr n) = 6"
  shows "reply_bytes n (arp_packet es ed hs si ht ti op)
     = arp_packet (hwaddr n) hs (hwaddr n) (ip_addr n) hs si ARP_REPLY"
  using assms by (simp add: reply_bytes_def Let_def put_fields arp_packet_fields)

end
