(* ===== verification/Arp_Resolve.thy ===== *)
theory Arp_Resolve
  imports Arp_Wire
begin

unbundle bit_operations_syntax

text \<open>
  Two hosts: a packet for an unknown address makes a request, the host that has the address answers and
  learns the asker, and the answer makes the asker send the packet that was waiting.
\<close>

lemma output_unknown:
  assumes hw: "length (hwaddr n) = 6" and ok: "arp_ok n s" and q: "outgoing q" and heap: "arp_heap s = []"
    and ip: "\<not> ip4_addr_isbroadcast ip n" "\<not> ip_addr_ismulticast ip" "next_hop n ip = Some dst"
    and dst: "\<not> not_unicast dst n" "\<not> known dst (arp_table s)"
  shows "\<exists>s' i p. etharp_output n q ip s = Inr (ERR_OK, s') \<and> arp_ok n s' \<and> wire s' = wire s @ [request_frame n dst]
      \<and> i < 10 \<and> used (arp_table s' ! i) \<and> ipaddr (arp_table s' ! i) = dst \<and> queued (arp_table s' ! i) = Some p
      \<and> (\<forall>src d. eth_ip_frame src d p = ip_frame src d (frame_of q))"
proof -
  obtain q' where q': "pbuf_header (int SIZEOF_ETH_HDR) q = Inr (Some q')" "ready_to_send q'"
    and f: "\<And>src dst. eth_ip_frame src dst q' = ip_frame src dst (frame_of q)" using outgoing_header [OF q] by blast
  have c: "etharp_cached_entry s < 10" and l: "length (arp_table s) = 10" using ok by (auto simp: arp_ok_def)
  have uk: "\<not> (is_stable e \<and> ipaddr e = dst)" if "e \<in> set (arp_table s)" for e
    using dst(2) that used_cases by (auto simp: known_def)
  have "find_stable dst 0 (arp_table s) = None"
  proof (cases "find_stable dst 0 (arp_table s)")
    case (Some i)
    from find_stable_some [OF this] l uk [of "arp_table s ! i"] show ?thesis by simp
  qed
  then have "etharp_output n q ip s = etharp_query n dst (Some q') s"
    using q'(1) ip c l uk [of "arp_table s ! etharp_cached_entry s"]
    by (auto simp: etharp_output_def output_unicast_def and_then_def Let_def require_def is_stable_def)
  moreover obtain s' i where "etharp_query n dst (Some q') s = Inr (ERR_OK, s')" "arp_ok n s'" "wire s' = wire s @ [request_frame n dst]"
      "i < 10" "used (arp_table s' ! i)" "ipaddr (arp_table s' ! i) = dst" "queued (arp_table s' ! i) = Some (copy_of q')"
    using etharp_query_ok [OF hw ok q'(2), of dst] dst heap by blast
  moreover have "eth_ip_frame src d (copy_of q') = ip_frame src d (frame_of q)" for src d
    using f copy_of_frame by metis
  ultimately show ?thesis by metis
qed

text \<open>A frame as the driver hands it over, in one buffer of the pool.\<close>

definition arrived :: "u8 list \<Rightarrow> packet" where
  "arrived f = [\<lparr>eb_type = PBUF_POOL, eb_room = 0, eb_data = f\<rparr>]"

definition reply_frame :: "netif \<Rightarrow> netif \<Rightarrow> u8 list" where
  "reply_frame m n = arp_packet (hwaddr m) (hwaddr n) (hwaddr m) (ip_addr m) (hwaddr n) (ip_addr n) ARP_REPLY"

lemma arp_frame_input:
  assumes "length es = 6" "length ed = 6" "length hs = 6" "length ht = 6" "flags n AND NETIF_FLAG_ETHARP \<noteq> 0"
    and hw: "length (hwaddr n) = 6" and ok: "arp_ok n s" and us: "\<not> ip_addr_isany (ip_addr n)" and si: "\<not> not_unicast si n"
  shows "\<exists>s' s1. ethernet_input n (arrived (arp_packet es ed hs si ht (ip_addr n) op)) s = Inr s' \<and> arp_ok n s'
     \<and> arp_table s' = arp_table s1 \<and> learned n si hs s s1
     \<and> wire s' = wire s1 @ (if op = ARP_REQUEST then [arp_packet (hwaddr n) hs (hwaddr n) (ip_addr n) hs si ARP_REPLY] else [])"
proof -
  let ?p = "arp_packet es ed hs si ht (ip_addr n) op"
  note fields = arp_packet_fields [OF assms(1-4)]
  have v: "arp_valid ?p"
    unfolding arp_valid_def fields SIZEOF_ETHARP_PACKET_def SIZEOF_ETH_HDR_def be16_u16_bytes by simp
  have fu: "arp_for_us n ?p" using us by (simp add: arp_for_us_def fields)
  have "ethernet_input n (arrived ?p) s = etharp_arp_input n (arrived ?p) (hold_pbuf s)"
    using assms(5) by (simp add: ethernet_input_def arrived_def Let_def fields and_then_def SIZEOF_ETH_HDR_def)
  moreover obtain s' r s1 where "etharp_arp_input n (arrived ?p) (hold_pbuf s) = Inr s'" "arp_ok n s'"
    and u: "etharp_update_arp_entry n si hs ETHARP_FLAG_TRY_HARD s = Inr (r, s1)" "arp_table s' = arp_table s1"
      "wire s' = wire s1 @ arp_replies n (arrived ?p)"
    using arp_input_ok [OF hw ok, of "arrived ?p"] v fu by (auto simp: arrived_def fields)
  moreover have "ETHARP_FLAG_TRY_HARD \<noteq> ETHARP_FLAG_FIND_ONLY" by (simp add: ETHARP_FLAG_TRY_HARD_def ETHARP_FLAG_FIND_ONLY_def)
  then have "learned n si hs s s1" using etharp_update_ok [OF ok hw assms(3), of ETHARP_FLAG_TRY_HARD si] u(1) si by auto
  moreover have "arp_replies n (arrived ?p) = (if op = ARP_REQUEST then [arp_packet (hwaddr n) hs (hwaddr n) (ip_addr n) hs si ARP_REPLY] else [])"
    using fu by (simp add: arp_replies_def Let_def arrived_def frame_of_def fields arp_reply_packet [OF assms(1-4) hw])
  ultimately show ?thesis by auto
qed

lemma find_addr_ok:
  assumes ok: "arp_ok n s" and i: "i < 10" and st: "is_stable (arp_table s ! i)"
  shows "etharp_find_addr (ipaddr (arp_table s ! i)) s = Inr (Some (i, ethaddr (arp_table s ! i), ipaddr (arp_table s ! i)))"
proof -
  let ?ip = "ipaddr (arp_table s ! i)"
  have l: "length (arp_table s) = 10" using ok by (simp add: arp_ok_def)
  have u: "used (arp_table s ! i)" using st used_cases by blast
  then have "known ?ip (arp_table s)" using i l by (auto simp: known_nth)
  then obtain j where "j < 10" "etharp_find_entry ?ip ETHARP_FLAG_FIND_ONLY s = Inr (Some j, s)"
      "used (arp_table s ! j)" "ipaddr (arp_table s ! j) = ?ip"
    using etharp_find_entry_ok [OF ok, of ETHARP_FLAG_FIND_ONLY ?ip] by blast
  moreover from this have "j = i" using ok i l u by (auto simp: arp_ok_def unique_def)
  ultimately show ?thesis using st by (auto simp: etharp_find_addr_def and_then_def is_stable_def)
qed

lemma learned_find_addr:
  assumes "learned n ip mac s s1" and "arp_table s' = arp_table s1" and "arp_ok n s'"
  shows "\<exists>i. etharp_find_addr ip s' = Inr (Some (i, mac, ip))"
proof -
  obtain i where "i < 10" "is_stable (arp_table s' ! i)" "ipaddr (arp_table s' ! i) = ip" "ethaddr (arp_table s' ! i) = mac"
    using assms(1,2) by (auto simp: learned_def is_stable_def)
  with find_addr_ok [OF assms(3)] show ?thesis by metis
qed

lemma learned_sends:
  assumes l: "learned n ip mac s s1" and ok: "arp_ok n s"
    and i: "i < 10" "used (arp_table s ! i)" "ipaddr (arp_table s ! i) = ip" "queued (arp_table s ! i) = Some p"
  shows "wire s1 = wire s @ [eth_ip_frame (hwaddr n) mac p]"
proof -
  have len: "length (arp_table s) = 10" using ok by (simp add: arp_ok_def)
  then have "known ip (arp_table s)" using i by (auto simp: known_nth)
  then obtain j where j: "j < 10" "used (arp_table s ! j)" "ipaddr (arp_table s ! j) = ip"
    "wire s1 = wire s @ (case queued (arp_table s ! j) of None \<Rightarrow> [] | Some p \<Rightarrow> [eth_ip_frame (hwaddr n) mac p])"
    using l by (auto simp: learned_def)
  then have "j = i" using ok i len by (auto simp: arp_ok_def unique_def)
  then show ?thesis using j(4) i(4) by simp
qed

text \<open>From then on packets go out at once.\<close>

lemma learned_output:
  assumes hw: "length (hwaddr n) = 6" and l: "learned n dst mac s s1" and t: "arp_table s2 = arp_table s1" and ok: "arp_ok n s2"
    and q: "outgoing q" and ip: "\<not> ip4_addr_isbroadcast ip n" "\<not> ip_addr_ismulticast ip" "next_hop n ip = Some dst"
  shows "\<exists>r s3. etharp_output n q ip s2 = Inr (r, s3) \<and> wire s3 = wire s2 @ [ip_frame (hwaddr n) mac (frame_of q)]"
proof -
  have len: "length (arp_table s2) = 10" using ok by (simp add: arp_ok_def)
  obtain i where i: "i < 10" "state (arp_table s2 ! i) = ETHARP_STATE_STABLE" "ipaddr (arp_table s2 ! i) = dst"
      "ethaddr (arp_table s2 ! i) = mac" "ctime (arp_table s2 ! i) = 0"
    using l t by (auto simp: learned_def)
  let ?e = "arp_table s2 ! i"
  have e: "?e \<in> set (arp_table s2)" "is_stable ?e" "\<not> ARP_AGE_REREQUEST_USED \<le> ctime ?e"
    using i len by (auto simp: is_stable_def ARP_AGE_REREQUEST_USED_def ARP_MAXAGE_def)
  obtain r s3 where r: "etharp_output n q ip s2 = Inr (r, s3)" "\<forall>e\<in>set (arp_table s2). is_stable e \<longrightarrow> next_hop n ip = Some (ipaddr e) \<longrightarrow>
               (\<exists>ask. wire s3 = wire s2 @ ask @ [ip_frame (hwaddr n) (ethaddr e) (frame_of q)]
                  \<and> (ask = [] \<or> ask = [request_frame n (ipaddr e)] \<and> state e = ETHARP_STATE_STABLE \<and> ARP_AGE_REREQUEST_USED \<le> ctime e))"
    using etharp_output_ok [OF hw ok q, of ip] ip(1,2) by blast
  from r(2) e(1,2) have "\<exists>ask. wire s3 = wire s2 @ ask @ [ip_frame (hwaddr n) (ethaddr ?e) (frame_of q)]
      \<and> (ask = [] \<or> ask = [request_frame n (ipaddr ?e)] \<and> state ?e = ETHARP_STATE_STABLE \<and> ARP_AGE_REREQUEST_USED \<le> ctime ?e)"
    using ip(3) i(3) by blast
  then have "wire s3 = wire s2 @ [ip_frame (hwaddr n) mac (frame_of q)]" using e(3) i(4) by auto
  then show ?thesis using r(1) by blast
qed

lemma resolves:
  assumes hw: "length (hwaddr n) = 6" "length (hwaddr m) = 6" and ok: "arp_ok n s" "arp_ok m t"
    and fl: "flags n AND NETIF_FLAG_ETHARP \<noteq> 0" "flags m AND NETIF_FLAG_ETHARP \<noteq> 0"
    and ip: "\<not> ip4_addr_isbroadcast ip n" "\<not> ip_addr_ismulticast ip" "next_hop n ip = Some (ip_addr m)"
    and uni: "\<not> not_unicast (ip_addr m) n" "\<not> not_unicast (ip_addr n) m"
    and new: "\<not> known (ip_addr m) (arp_table s)" "arp_heap s = []" and q: "outgoing q"
  shows "\<exists>s1 t1 s2 i j. etharp_output n q ip s = Inr (ERR_OK, s1) \<and> wire s1 = wire s @ [request_frame n (ip_addr m)]
      \<and> ethernet_input m (arrived (request_frame n (ip_addr m))) t = Inr t1 \<and> last (wire t1) = reply_frame m n
      \<and> ethernet_input n (arrived (reply_frame m n)) s1 = Inr s2
      \<and> wire s2 = wire s1 @ [ip_frame (hwaddr n) (hwaddr m) (frame_of q)]
      \<and> (\<forall>q2. outgoing q2 \<longrightarrow> (\<exists>r s3. etharp_output n q2 ip s2 = Inr (r, s3) \<and> wire s3 = wire s2 @ [ip_frame (hwaddr n) (hwaddr m) (frame_of q2)]))
      \<and> etharp_find_addr (ip_addr m) s2 = Inr (Some (i, hwaddr m, ip_addr m))
      \<and> etharp_find_addr (ip_addr n) t1 = Inr (Some (j, hwaddr n, ip_addr n))"
proof -
  have six: "length ethbroadcast = 6" "length ethzero = 6" by (simp_all add: ethbroadcast_def ethzero_def)
  have conf: "\<not> ip_addr_isany (ip_addr n)" "\<not> ip_addr_isany (ip_addr m)" using uni by (auto simp: not_unicast_def)
  obtain s1 i p where s1: "etharp_output n q ip s = Inr (ERR_OK, s1)" "arp_ok n s1" "wire s1 = wire s @ [request_frame n (ip_addr m)]"
    and p: "i < 10" "used (arp_table s1 ! i)" "ipaddr (arp_table s1 ! i) = ip_addr m" "queued (arp_table s1 ! i) = Some p"
      "\<And>src d. eth_ip_frame src d p = ip_frame src d (frame_of q)"
    using output_unknown [OF hw(1) ok(1) q new(2) ip uni(1) new(1)] by metis
  obtain t1 t0 where t1: "ethernet_input m (arrived (request_frame n (ip_addr m))) t = Inr t1" "arp_ok m t1" "arp_table t1 = arp_table t0"
      "learned m (ip_addr n) (hwaddr n) t t0" "wire t1 = wire t0 @ [reply_frame m n]"
    using arp_frame_input [OF hw(1) six(1) hw(1) six(2) fl(2) hw(2) ok(2) conf(2) uni(2), of ARP_REQUEST]
    unfolding request_frame_def reply_frame_def by auto
  obtain s2 s0 where s2: "ethernet_input n (arrived (reply_frame m n)) s1 = Inr s2" "arp_ok n s2" "arp_table s2 = arp_table s0"
      "learned n (ip_addr m) (hwaddr m) s1 s0" "wire s2 = wire s0"
    using arp_frame_input [OF hw(2) hw(1) hw(2) hw(1) fl(1) hw(1) s1(2) conf(1) uni(1), of ARP_REPLY]
    unfolding reply_frame_def by (auto simp: ARP_REPLY_def ARP_REQUEST_def)
  have "wire s2 = wire s1 @ [ip_frame (hwaddr n) (hwaddr m) (frame_of q)]"
    using learned_sends [OF s2(4) s1(2) p(1-4)] s2(5) p(5) by simp
  moreover obtain k where "etharp_find_addr (ip_addr m) s2 = Inr (Some (k, hwaddr m, ip_addr m))"
    using learned_find_addr [OF s2(4,3,2)] by blast
  moreover obtain j where "etharp_find_addr (ip_addr n) t1 = Inr (Some (j, hwaddr n, ip_addr n))"
    using learned_find_addr [OF t1(4,3,2)] by blast
  moreover have "\<forall>q2. outgoing q2 \<longrightarrow> (\<exists>r s3. etharp_output n q2 ip s2 = Inr (r, s3) \<and> wire s3 = wire s2 @ [ip_frame (hwaddr n) (hwaddr m) (frame_of q2)])"
    using learned_output [OF hw(1) s2(4,3,2) _ ip] by blast
  ultimately show ?thesis using s1(1,3) t1(1,5) s2(1) by (auto simp: last_append)
qed

end
