(* ===== verification/Arp_Claims.thy ===== *)
theory Arp_Claims
  imports Arp_Resolve
begin

unbundle bit_operations_syntax

text \<open>
  The properties of address resolution: every event in every order is handled, two hosts find each other
  and the waiting packet is delivered, and entries live exactly as long as their age allows.
\<close>

subsection \<open>Runs\<close>

datatype arp_event =
    Arp_timer
  | Frame_received packet
  | Packet_out packet u32
  | Query u32 "packet option"
  | Ask u32
  | Netif_down netif
  | Driver_answers "err_t list" "bool list"

fun arp_event_ok :: "arp_event \<Rightarrow> bool" where
  "arp_event_ok (Frame_received p) \<longleftrightarrow> p \<noteq> []"
| "arp_event_ok (Packet_out q ip) \<longleftrightarrow> outgoing q"
| "arp_event_ok (Query ip (Some q)) \<longleftrightarrow> ready_to_send q"
| "arp_event_ok _ \<longleftrightarrow> True"

fun arp_step :: "netif \<Rightarrow> arp_event \<Rightarrow> arp \<Rightarrow> arp checked" where
  "arp_step n Arp_timer s = Inr (etharp_tmr s)"
| "arp_step n (Frame_received p) s = ethernet_input n p s"
| "arp_step n (Packet_out q ip) s = and_then (etharp_output n q ip s) (\<lambda>(_, s). Inr s)"
| "arp_step n (Query ip q) s = and_then (etharp_query n ip q s) (\<lambda>(_, s). Inr s)"
| "arp_step n (Ask ip) s = and_then (etharp_request n ip s) (\<lambda>(_, s). Inr s)"
| "arp_step n (Netif_down m) s = Inr (etharp_cleanup_netif m s)"
| "arp_step n (Driver_answers es as) s = Inr (s\<lparr>link_answers := es, arp_heap := as\<rparr>)"

definition arp_start :: arp where
  "arp_start = \<lparr>arp_table = replicate ARP_TABLE_SIZE blank_entry, etharp_cached_entry = 0, wire = [], to_ip = [],
     link_answers = [], arp_heap = [], pbuf_refs = 0\<rparr>"

inductive arp_run :: "netif \<Rightarrow> arp \<Rightarrow> bool" for n where
  start: "arp_run n arp_start"
| step: "arp_run n s \<Longrightarrow> arp_event_ok e \<Longrightarrow> arp_step n e s = Inr s' \<Longrightarrow> arp_run n s'"

lemma arp_start_ok: "arp_ok n arp_start"
  by (auto simp: arp_ok_def arp_start_def blank_ok unique_def held_def)

lemma arp_step_ok:
  assumes hw: "length (hwaddr n) = 6" and ok: "arp_ok n s" and e: "arp_event_ok e"
  shows "\<exists>s'. arp_step n e s = Inr s' \<and> arp_ok n s'"
proof (cases e)
  case Arp_timer then show ?thesis using etharp_tmr_ok [OF ok] by simp
next
  case (Frame_received p) then show ?thesis using ethernet_input_ok [OF hw ok, of p] e by auto
next
  case (Packet_out q ip)
  with etharp_output_ok [OF hw ok, of q ip] e obtain r s' where "etharp_output n q ip s = Inr (r, s')" "arp_ok n s'" by auto
  then show ?thesis using Packet_out by (simp add: and_then_def)
next
  case (Query ip q)
  have "\<exists>r s'. etharp_query n ip q s = Inr (r, s') \<and> arp_ok n s'"
    using etharp_query_ok [OF hw ok, of _ ip] etharp_query_none_ok [OF hw ok, of ip] e Query by (cases q) fastforce+
  then show ?thesis using Query by (auto simp: and_then_def)
next
  case (Ask ip)
  obtain r s' where "etharp_request n ip s = Inr (r, s')" "arp_fields s' = arp_fields s" using request_ok [OF hw, of ip s] by blast
  then show ?thesis using Ask arp_ok_fields [of s' s n] ok by (simp add: and_then_def)
next
  case (Netif_down m) then show ?thesis using cleanup_netif_ok [OF ok] by simp
next
  case (Driver_answers es as)
  then show ?thesis using ok arp_ok_fields [of "s\<lparr>link_answers := es, arp_heap := as\<rparr>" s n] by (simp add: arp_fields_def)
qed

lemma arp_run_ok: "arp_run n s \<Longrightarrow> length (hwaddr n) = 6 \<Longrightarrow> arp_ok n s"
proof (induction rule: arp_run.induct)
  case start show ?case by (rule arp_start_ok)
next
  case (step s e s') then show ?case using arp_step_ok [of n s e] by auto
qed

subsection \<open>Age\<close>

definition age_limit :: "etharp_entry \<Rightarrow> nat" where
  "age_limit e = (if state e = ETHARP_STATE_PENDING then 2 else if state e = ETHARP_STATE_EMPTY then 0 else 240)"

lemma tick_used:
  assumes "entry_ok n e"
  shows "used (tick e) \<longleftrightarrow> unat (ctime e) + 1 < age_limit e"
    and "used (tick e) \<Longrightarrow> unat (ctime (tick e)) = unat (ctime e) + 1 \<and> age_limit (tick e) = age_limit e
          \<and> ipaddr (tick e) = ipaddr e \<and> ethaddr (tick e) = ethaddr e \<and> queued (tick e) = queued e"
proof -
  have c: "unat (ctime e) < 240" and p: "state e = ETHARP_STATE_PENDING \<Longrightarrow> unat (ctime e) < 2"
    using assms by (auto simp: entry_ok_def ARP_MAXAGE_def ARP_MAXPENDING_def word_less_nat_alt)
  then have s: "unat (ctime e + 1) = unat (ctime e) + 1" by (simp add: unat_word_ariths)
  show "used (tick e) \<longleftrightarrow> unat (ctime e) + 1 < age_limit e"
    using s c p by (cases "state e") (auto simp: tick_def used_def age_limit_def ARP_MAXAGE_def ARP_MAXPENDING_def word_le_nat_alt)
  show "used (tick e) \<Longrightarrow> unat (ctime (tick e)) = unat (ctime e) + 1 \<and> age_limit (tick e) = age_limit e
          \<and> ipaddr (tick e) = ipaddr e \<and> ethaddr (tick e) = ethaddr e \<and> queued (tick e) = queued e"
    using s by (cases "state e") (auto simp: tick_def used_def age_limit_def split: if_splits)
qed

lemma tmr_pow_ok: "arp_ok n s \<Longrightarrow> arp_ok n ((etharp_tmr ^^ k) s)"
  by (induction k) (simp_all add: etharp_tmr_ok)

lemma ticks:
  assumes ok: "arp_ok n s" and i: "i < 10"
  shows "let e = arp_table s ! i; e' = arp_table ((etharp_tmr ^^ k) s) ! i in
     (used e' \<longleftrightarrow> used e \<and> unat (ctime e) + k < age_limit e)
     \<and> (used e' \<longrightarrow> unat (ctime e') = unat (ctime e) + k \<and> age_limit e' = age_limit e
          \<and> ipaddr e' = ipaddr e \<and> ethaddr e' = ethaddr e \<and> queued e' = queued e)"
proof (induction k)
  case 0
  have "entry_ok n (arp_table s ! i)" by (rule ok_entry [OF ok i])
  then show ?case
    by (cases "state (arp_table s ! i)")
      (auto simp: Let_def age_limit_def used_def entry_ok_def ARP_MAXAGE_def ARP_MAXPENDING_def word_less_nat_alt)
next
  case (Suc k)
  let ?s = "(etharp_tmr ^^ k) s"
  let ?e = "arp_table s ! i" and ?e1 = "arp_table ?s ! i"
  have ok1: "arp_ok n ?s" by (rule tmr_pow_ok [OF ok])
  have t: "arp_table ((etharp_tmr ^^ Suc k) s) ! i = tick ?e1"
    using etharp_tmr_table [of ?s] ok1 i by (simp add: arp_ok_def)
  have d: "\<not> used ?e1 \<Longrightarrow> \<not> used (tick ?e1)" by (simp add: tick_def used_def)
  have le: "age_limit e > 0 \<Longrightarrow> used e" for e by (auto simp: age_limit_def used_def split: if_splits)
  show ?case
    using Suc.IH tick_used [OF ok_entry [OF ok1 i]] d le [of ?e] unfolding t Let_def
    by (cases "used ?e1"; cases "used (tick ?e1)") auto
qed

lemma held_none: "(\<And>i. i < length t \<Longrightarrow> queued (t ! i) = None) \<Longrightarrow> held t = 0"
  by (auto simp: held_def in_set_conv_nth filter_empty_conv)

lemma no_packets_after_two_ticks:
  assumes ok: "arp_ok n s" and k: "2 \<le> k"
  shows "pbuf_refs ((etharp_tmr ^^ k) s) = 0"
proof -
  let ?s = "(etharp_tmr ^^ k) s"
  have ok1: "arp_ok n ?s" by (rule tmr_pow_ok [OF ok])
  have "queued (arp_table ?s ! i) = None" if i: "i < 10" for i
  proof (rule ccontr)
    assume "queued (arp_table ?s ! i) \<noteq> None"
    then have p: "state (arp_table ?s ! i) = ETHARP_STATE_PENDING" using ok_entry [OF ok1 i] by (auto simp: entry_ok_def)
    then have "used (arp_table ?s ! i)" "age_limit (arp_table ?s ! i) = 2" by (auto simp: used_def age_limit_def)
    then show False using ticks [OF ok i, of k] k by (auto simp: Let_def)
  qed
  then show ?thesis using ok1 held_none [of "arp_table ?s"] by (simp add: arp_ok_def)
qed

subsection \<open>The properties\<close>

definition demo_netif :: netif where
  "demo_netif = \<lparr>ip_addr = 0x0AC04F03, netmask = 0xFFFFFF00, gw = 0x0AC04F01, hwaddr = [0, 4, 159, 0, 0, 1],
     flags = NETIF_FLAG_BROADCAST OR NETIF_FLAG_ETHARP, num = 0\<rparr>"

definition demo_peer :: netif where
  "demo_peer = demo_netif\<lparr>ip_addr := 0x0AC04F07, hwaddr := [2, 0, 0, 0, 0, 9]\<rparr>"

definition demo_out :: packet where
  "demo_out = [\<lparr>eb_type = PBUF_RAM, eb_room = 14, eb_data = [69, 0, 0, 20]\<rparr>]"

lemmas demo_defs = demo_netif_def demo_peer_def demo_out_def NETIF_FLAG_BROADCAST_def NETIF_FLAG_ETHARP_def

lemma demo_simps:
  "length (hwaddr demo_netif) = 6" "length (hwaddr demo_peer) = 6" "outgoing demo_out"
  "ip_addr demo_peer = 0x0AC04F07" "arp_heap arp_start = []" "\<not> known a (arp_table arp_start)"
  "\<not> not_unicast 0x0AC04F07 demo_netif" "\<not> not_unicast (ip_addr demo_netif) demo_peer"
  "flags demo_netif AND NETIF_FLAG_ETHARP \<noteq> 0" "flags demo_peer AND NETIF_FLAG_ETHARP \<noteq> 0"
  "next_hop demo_netif 0x0AC04F07 = Some 0x0AC04F07"
  by (auto simp: demo_defs outgoing_def SIZEOF_ETH_HDR_def arp_start_def known_def not_unicast_def ip_addr_isany_def
      ip4_addr_isbroadcast_def ip_addr_ismulticast_def ip_addr_netcmp_def ip_addr_islinklocal_def IPADDR_ANY_def
      IPADDR_BROADCAST_def next_hop_def)

text \<open>The state with one packet waiting.\<close>

definition demo_entry :: etharp_entry where
  "demo_entry = \<lparr>queued = Some [\<lparr>eb_type = PBUF_RAM, eb_room = 0, eb_data = replicate 14 0 @ [69, 0, 0, 20]\<rparr>],
     ipaddr = 0x0AC04F07, entry_netif = None, ethaddr = ethzero, state = ETHARP_STATE_PENDING, ctime = 0\<rparr>"

definition demo_pending :: arp where
  "demo_pending = arp_start\<lparr>arp_table := demo_entry # replicate 9 blank_entry, wire := [request_frame demo_netif 0x0AC04F07],
     pbuf_refs := 1\<rparr>"

lemma demo_pending_run: "arp_run demo_netif demo_pending"
proof (rule arp_run.step [OF arp_run.start])
  show "arp_event_ok (Packet_out demo_out 0x0AC04F07)" by (simp add: demo_simps)
  show "arp_step demo_netif (Packet_out demo_out 0x0AC04F07) arp_start = Inr demo_pending" by code_simp
qed

text \<open>
  C38. In every run, whatever frames arrive (of any length and content, in one or more buffers), whatever is
  asked for or taken down, and whatever the driver and the allocator answer, the next event is handled to its
  end: no assertion fails, and no field of a header is read or written outside the first buffer of its packet.
  The packets that are sent start with a buffer of RAM or the pool that has room for the Ethernet header, and
  no buffer behind it is empty (\<open>outgoing\<close>; \<open>ready_to_send\<close> for \<open>etharp_query\<close>, which is given the packet with its
  header already): a packet that starts with a ROM buffer is not covered. The interface has a six byte
  hardware address. The table keeps at most one entry for an address, only pending entries hold a packet, and
  exactly the queued packets are held.
\<close>

theorem arp_never_fails:
  assumes "arp_run n s" and "length (hwaddr n) = 6" and "arp_event_ok e"
  shows "\<exists>s'. arp_step n e s = Inr s' \<and> arp_ok n s'"
  using arp_step_ok [OF assms(2) arp_run_ok [OF assms(1,2)] assms(3)] .

theorem arp_never_fails_witness:
  "\<exists>s'. arp_step demo_netif (Packet_out demo_out 0x0AC04F07) arp_start = Inr s' \<and> arp_ok demo_netif s'"
  by (rule arp_never_fails) (simp_all add: arp_run.start demo_simps)

text \<open>
  C39. Two hosts, each after any run, while the allocator of the asker succeeds: a packet (as in \<open>outgoing\<close>) to a
  unicast address whose next hop is the other host and that is not in the table makes a request go out; the other host answers it and enters the asker; the
  answer makes the waiting packet go out to the right Ethernet address, with exactly its bytes behind
  the header, and so does every later packet at once.
\<close>

theorem address_resolved:
  assumes "arp_run n s" "arp_run m t" and "length (hwaddr n) = 6" "length (hwaddr m) = 6"
    and "flags n AND NETIF_FLAG_ETHARP \<noteq> 0" "flags m AND NETIF_FLAG_ETHARP \<noteq> 0"
    and "\<not> ip4_addr_isbroadcast ip n" "\<not> ip_addr_ismulticast ip" "next_hop n ip = Some (ip_addr m)"
    and "\<not> not_unicast (ip_addr m) n" "\<not> not_unicast (ip_addr n) m"
    and "\<not> known (ip_addr m) (arp_table s)" "arp_heap s = []" and "outgoing q"
  shows "\<exists>s1 t1 s2 i j. etharp_output n q ip s = Inr (ERR_OK, s1) \<and> wire s1 = wire s @ [request_frame n (ip_addr m)]
      \<and> ethernet_input m (arrived (request_frame n (ip_addr m))) t = Inr t1 \<and> last (wire t1) = reply_frame m n
      \<and> ethernet_input n (arrived (reply_frame m n)) s1 = Inr s2
      \<and> wire s2 = wire s1 @ [ip_frame (hwaddr n) (hwaddr m) (frame_of q)]
      \<and> (\<forall>q2. outgoing q2 \<longrightarrow> (\<exists>r s3. etharp_output n q2 ip s2 = Inr (r, s3) \<and> wire s3 = wire s2 @ [ip_frame (hwaddr n) (hwaddr m) (frame_of q2)]))
      \<and> etharp_find_addr (ip_addr m) s2 = Inr (Some (i, hwaddr m, ip_addr m))
      \<and> etharp_find_addr (ip_addr n) t1 = Inr (Some (j, hwaddr n, ip_addr n))"
  using resolves [OF assms(3,4) arp_run_ok [OF assms(1,3)] arp_run_ok [OF assms(2,4)] assms(5-14)] .

theorem address_resolved_witness:
  "\<exists>s1. etharp_output demo_netif demo_out 0x0AC04F07 arp_start = Inr (ERR_OK, s1)
     \<and> (\<exists>s2. ethernet_input demo_netif (arrived (reply_frame demo_peer demo_netif)) s1 = Inr s2
         \<and> last (wire s2) = [2, 0, 0, 0, 0, 9, 0, 4, 159, 0, 0, 1, 8, 0, 69, 0, 0, 20])"
proof -
  have uni: "\<not> ip4_addr_isbroadcast 0x0AC04F07 demo_netif" "\<not> ip_addr_ismulticast 0x0AC04F07"
    using demo_simps(7) by (simp_all add: not_unicast_def)
  have f: "ip_frame (hwaddr demo_netif) (hwaddr demo_peer) (frame_of demo_out) = [2, 0, 0, 0, 0, 9, 0, 4, 159, 0, 0, 1, 8, 0, 69, 0, 0, 20]"
    by (simp add: ip_frame_def demo_defs frame_of_def)
  from address_resolved [OF arp_run.start arp_run.start demo_simps(1,2,9,10) uni _ _ demo_simps(8) demo_simps(6,5,3)]
  show ?thesis using demo_simps(4,7,11) by (auto simp: f)
qed

text \<open>
  C40. Entries live exactly as long as their age allows: after \<open>k\<close> ticks of the timer an entry is
  still there, with its address, Ethernet address and packet, if and only if its age was \<open>k\<close> below the
  limit (2 ticks for a pending entry, 240 for a stable one); so after two ticks without an answer no packet
  is held any more, and after 240 ticks nothing is.
\<close>

theorem entries_expire_exactly:
  assumes "arp_run n s" and "length (hwaddr n) = 6" and "i < ARP_TABLE_SIZE"
  shows "let s' = (etharp_tmr ^^ k) s; e = arp_table s ! i; e' = arp_table s' ! i in
     (used e' \<longleftrightarrow> used e \<and> unat (ctime e) + k < age_limit e)
     \<and> (used e' \<longrightarrow> ipaddr e' = ipaddr e \<and> ethaddr e' = ethaddr e \<and> queued e' = queued e)
     \<and> (2 \<le> k \<longrightarrow> pbuf_refs s' = 0)"
proof -
  have ok: "arp_ok n s" by (rule arp_run_ok [OF assms(1,2)])
  from ticks [OF ok, of i k] no_packets_after_two_ticks [OF ok, of k] assms(3) show ?thesis by (simp add: Let_def)
qed

theorem entries_expire_exactly_witness:
  "used (arp_table ((etharp_tmr ^^ 1) demo_pending) ! 0) \<and> pbuf_refs demo_pending = 1 \<and> pbuf_refs ((etharp_tmr ^^ 2) demo_pending) = 0"
proof -
  note expire = entries_expire_exactly [OF demo_pending_run demo_simps(1), of 0]
  show ?thesis using expire [of 1] expire [of 2]
    by (simp add: Let_def demo_pending_def demo_entry_def used_def age_limit_def)
qed

end
