(* ===== verification/Spec2Isabelle.thy ===== *)
theory Spec2Isabelle
  imports Http_Claims App_Run_Claims Timers Chksum Tcp_Rx_Claims Mem_Client Arp_Claims
begin

text \<open>
  A verification of the program of the Meu1oARM board: the web server \<^verbatim>\<open>Sources/httpd.c\<close> on the raw
  API of lwIP 1.4.1, with the file system \<^verbatim>\<open>Sources/fs.c\<close> below it, and the application on top of it,
  which switches relays, keeps the time and writes a log to a memory card.

  Parts of the program and their theories:
  \<^item> \<open>Cstring\<close>: the C string functions and \<open>strnstr\<close> (httpd.c); a read outside the memory is a fault.
  \<^item> \<open>Fs\<close>: the read-only file system (fs.c), a list of embedded files.
  \<^item> \<open>Tcp_Out\<close>, \<open>Tcp_Output\<close>: the send queue of a connection and what puts it on the wire
    (lwip/src/core/tcp_out.c). A pcb is the record \<open>tcp_pcb\<close>, a segment the record \<open>tcp_seg\<close> with its
    pbufs as lists of bytes; the state of the network below a connection is the record \<open>net\<close>.
    The heap is the list of the answers that the memory manager will give, so a theorem about all
    heaps covers every pattern of failed allocations.
  \<^item> \<open>Tcp\<close>: closing, aborting, windows (lwip/src/core/tcp.c). \<open>Tcp_Seq\<close>: the invariant \<open>pcb_good\<close>,
    well-formed queues whose segments are numbered without a gap.
  \<^item> \<open>Tcp_Segs\<close>: which segments an operation takes, and the frames it puts on the wire: the FIN that closing
    queues, and every frame of \<open>tcp_output\<close> with its number, flags and data.
  \<^item> \<open>Tcp_In\<close>: the acknowledgement half of \<open>tcp_receive\<close> (lwip/src/core/tcp_in.c).
  \<^item> \<open>Tcp_Recv\<close>, \<open>Tcp_Process\<close>: the rest of tcp_in.c for a connection. \<open>Tcp_Recv\<close> has the options and
    the data half of \<open>tcp_receive\<close>, with the bytes of the stream that a segment brings;
    \<open>Tcp_Process\<close> the state machine, the callbacks and the data that the application refuses. A
    segment is the record \<open>tcp_input\<close>; the callbacks are the record \<open>tcp_env\<close> of functions on \<open>net\<close>;
    a failing \<open>LWIP_ASSERT\<close> is a fault.
  \<^item> \<open>Tcp_Stream\<close>: in-order delivery as an invariant of the step relation \<open>rx_step\<close>, on the fields that
    \<open>rx_view\<close> selects, for all callbacks that keep the contract \<open>callback_ok\<close>.
  \<^item> \<open>Tcp_Slow\<close>: the slow timer (\<open>tcp_slowtmr\<close>, lwip/src/core/tcp.c): probes, retransmission with its
    back-off, and the end of a connection whose peer is silent.
  \<^item> \<open>Tcp_If\<close>: the interface of TCP as the server uses it, the locale \<open>tcp_sender\<close>, and its
    interpretation on the model of lwIP.
  \<^item> \<open>Http_Write\<close>, \<open>Http_Ssi\<close>, \<open>Http_Ssi_Inv\<close>, \<open>Http_Ssi_Scan\<close>: sending a file, with or without server
    side includes (\<open>http_write\<close>, \<open>http_send_data_nonssi\<close>, \<open>http_send_data_ssi\<close>); \<open>Http_Ssi_Inv\<close>
    holds the invariant of the send loop, \<open>Http_Ssi_Scan\<close> which tags it finds.
  \<^item> \<open>Http_Request\<close>: parsing a request, CGI parameters, finding the file (\<open>http_parse_request\<close>,
    \<open>http_find_file\<close>, \<open>http_init_file\<close>).
  \<^item> \<open>Http_Frame\<close>, \<open>Http_Conn\<close>, \<open>Http_Sending\<close>, \<open>Http_Run\<close>, \<open>Http_Serve\<close>: the callbacks of a
    connection, and its life as the step relation \<open>conn_step\<close>, which interleaves acknowledgements,
    data, polls and timers in any order; \<open>conn_end\<close> are the two events that end it before its page is sent.
    \<open>Http_Poll\<close>: the polls of the slow timer on a connection that makes no progress.
  \<^item> \<open>Rtc\<close>: the real-time clock (fsl_rtc_hal.c), its date conversions on 32-bit words, its registers
    as the record \<open>rtc_regs\<close>; the locale \<open>clock\<close> is what the application relies on.
  \<^item> \<open>Gpio\<close>: pin names and output pins (fsl_gpio_driver.c, fsl_gpio_hal.c); the locale \<open>output_pins\<close>.
  \<^item> \<open>Cformat\<close>: what \<open>sprintf\<close> writes for the two conversions the program uses.
  \<^item> \<open>App\<close>: the handlers of the application (\<open>processaCGI\<close>, \<open>atualizadorSSI\<close>, httpd.c) and their
    registration; the globals of the program are the record \<open>app\<close>.
  \<^item> \<open>Sdcard\<close>: appending to the log (sdcard.c); FatFs is a list of answers, the sizes that opening the file
    reports, one for each call, and a log of calls.
  \<^item> \<open>App_Run\<close>: the interrupt handlers (Events.c) and the main loop (\<open>httpd_server_init\<close>).
  \<^item> \<open>Timers\<close>: the timeouts of lwIP (lwip_timers.c), the list of time differences as a refinement of
    a queue (the locale \<open>timeout_queue\<close>), and the timers of the protocols as reachable states.
  \<^item> \<open>Chksum\<close>: the Internet checksum (inet_chksum.c) against RFC 1071.
  \<^item> \<open>Mem\<close>, \<open>Mem_Ops\<close>, \<open>Mem_Client\<close>: the heap of lwIP (mem.c), its headers and data in one memory of
    bytes, as a refinement of a list of blocks; the locale \<open>allocator\<close> is what its clients rely on.
  \<^item> \<open>Arp\<close>: address resolution (netif/etharp.c); the table and what the module sends are the record
    \<open>arp\<close>, the driver is a log of frames and a list of answers; an access to a header outside the first
    buffer of a frame is a fault. \<open>Arp_Inv\<close> holds the invariant \<open>arp_ok\<close>
    and the search of the table, \<open>Arp_Ops\<close> and \<open>Arp_Io\<close> the operations, \<open>Arp_Wire\<close> and \<open>Arp_Resolve\<close>
    the exchange of two hosts, and \<open>Arp_Claims\<close> runs and properties.
  \<^item> \<open>Tcp_Claims\<close>, \<open>Tcp_Rx_Claims\<close>, \<open>Http_Claims\<close>, \<open>App_Claims\<close>, \<open>App_Run_Claims\<close>: the properties.

  How they interact. TCP calls the server with the callbacks \<open>http_recv\<close>, \<open>http_sent\<close>, \<open>http_poll\<close>
  and \<open>http_err\<close>; the server calls \<open>tcp_write\<close>, \<open>tcp_output\<close>, \<open>tcp_recved\<close> and \<open>tcp_close\<close>.
  The server's state of a connection hangs on the pcb (\<open>callback_arg\<close>); the model keeps both in
  the record \<open>conn\<close>. The server calls the handlers of the application while it parses a request
  (CGI) and while it sends a page (SSI); they change the record \<open>app\<close>, whose flags the main loop
  turns into lines of the log.

  Termination and fuel: no definition has fuel. The loops that may not end are partial functions,
  with theorems that say when they return: the debouncing of the card's pin, the loop of
  \<open>sys_check_timeouts\<close>, whose handlers set new timeouts, and the two searches of \<open>mem_malloc\<close>. The loops whose end is not structural
  (\<open>http_write_loop\<close>, \<open>tcp_write_segs\<close>, \<open>ssi_loop\<close>) are functions with a termination
  proof; where the loop of the C text could run for ever on a corrupt state (a maximum segment
  size of zero), the model says so at the definition. The bound in \<open>silent_peer_is_given_up\<close> counts
  13 time-outs of at most 32768 ticks, the largest value of the 16-bit \<open>rto\<close> and one more.

  What the theorems show. Sending: what \<open>tcp_write\<close> takes is queued whole or not at all, is sent in order with
  its numbers and flags inside the window, survives retransmission, and is taken away only by an
  acknowledgement that covers it; closing queues a FIN behind it or resets the peer. Receiving: the
  application gets the bytes of the peer in order and once, and the state machine moves as RFC 793 says, with
  one exception that the lemmas \<open>fin_wait_2_early\<close> and \<open>last_ack_loses_data\<close> exhibit: the code takes an
  acknowledgement of everything sent so far for one of its FIN. The server: a request is answered with
  its page and the inserts of its tags, without an access outside a buffer; polls end a connection whose peer
  is silent. The application: relays, time, tags and log follow the requests. Below: the clock's
  calendar, timers, checksum, heap and address table.

  Not modelled. Of TCP: the lists of pcbs and the search for the connection of a segment, opening and
  listening, the keep-alive (no code sets its option), and the queue for data out of order (not
  configured). Of lwIP: IP, ICMP, UDP, DHCP and the driver of the Ethernet controller, which neither
  the server nor the application calls by itself. FatFs and the SD driver are
  parameters of \<open>Sdcard\<close>; the register headers and start-up code are generated.
\<close>

end
